(* ===== verification/Prelude.thy ===== *)
theory Prelude
  imports Complex_Main "HOL-Library.Word" "HOL-Library.Signed_Division"
begin

text \<open>
  Shared vocabulary of the development: the C integer types as words, the list, map and word
  lemmas that the component theories share, and the named collections their proofs draw on.
  \<^item> \<open>u8\<close>, \<open>u16\<close>, \<open>u32\<close>, \<open>u64\<close> are C's unsigned integers (arithmetic wraps); the same words are
    read with \<open>sint\<close> where the code casts to a signed type.
  \<^item> Signed C values whose overflow would be undefined behaviour are modelled as \<open>int\<close>; C's \<open>/\<close> on
    them is \<open>sdiv\<close> (towards zero), \<open>>> 2\<close> is \<open>div 4\<close>, \<open>& 3\<close> is \<open>mod 4\<close>.
\<close>

unbundle bit_operations_syntax

type_synonym u8 = "8 word"
type_synonym u16 = "16 word"
type_synonym u32 = "32 word"
type_synonym u64 = "64 word"

named_theorems copy_simps "the copy of one word of a noise table by a warp"
named_theorems arg_simps "reading one option of the command line and its printed form"
named_theorems ledger_simps "what the host system still holds of finds and uploads"
named_theorems progress_simps "the work that is left in the host system and the steps that use it"

section \<open>Words\<close>

lemma unat_and_mask: "unat ((x :: 'a::len word) AND mask n) = unat x mod 2 ^ n"
proof -
  have "unat (take_bit n x) = take_bit n (unat x)"
    by (rule unsigned_take_bit_eq)
  then show ?thesis
    by (metis take_bit_eq_mask take_bit_eq_mod)
qed

lemma and_mask_mod_cong:
  fixes x y :: "'a::len word"
  assumes "unat x mod 2 ^ n = unat y mod 2 ^ n"
  shows "x AND mask n = y AND mask n"
  using assms by (simp add: unat_and_mask word_unat_eq_iff)

lemma unat_drop_div: "unat (drop_bit n (x :: 'a::len word)) = unat x div 2 ^ n"
proof -
  have "unat (drop_bit n x) = drop_bit n (unat x)"
    by (rule unat_drop_bit_eq)
  then show ?thesis by (simp only: drop_bit_eq_div [of n "unat x"])
qed

lemma unat_ucast_mod: "unat (ucast (x :: 'a::len word) :: 'b::len word) = unat x mod 2 ^ LENGTH('b)"
proof -
  have "unat (ucast x :: 'b word) = take_bit LENGTH('b) (unat x)"
    by (rule unsigned_ucast_eq)
  then show ?thesis by (simp only: take_bit_eq_mod)
qed

lemma u8_bound: "unat (x :: u8) < 256"
  by (rule order_less_le_trans [OF unsigned_less]) simp

lemma u32_bound: "unat (x :: u32) < 4294967296"
  by (rule order_less_le_trans [OF unsigned_less]) simp

lemma u64_bound: "unat (x :: u64) < 18446744073709551616"
  by (rule order_less_le_trans [OF unsigned_less]) simp

lemma sint32_neg_iff: "sint (x :: u32) < 0 \<longleftrightarrow> 2 ^ 31 \<le> unat x"
proof -
  have "sint x < 0 \<longleftrightarrow> bit (unat x) 31"
    using bit_last_iff [of x] by (simp add: bit_unsigned_iff)
  also have "\<dots> \<longleftrightarrow> odd (unat x div 2 ^ 31)"
    by (simp add: bit_iff_odd)
  also have "\<dots> \<longleftrightarrow> 2 ^ 31 \<le> unat x"
  proof -
    have "unat x < 2 ^ 32" using u32_bound [of x] by simp
    then have "unat x div 2 ^ 31 < 2" by (simp add: less_mult_imp_div_less)
    then have "odd (unat x div 2 ^ 31) \<longleftrightarrow> unat x div 2 ^ 31 \<noteq> 0"
      by (cases "unat x div 2 ^ 31 = 0"; simp add: odd_iff_mod_2_eq_one)
    also have "\<dots> \<longleftrightarrow> 2 ^ 31 \<le> unat x"
      by (simp add: div_eq_0_iff not_less)
    finally show ?thesis .
  qed
  finally show ?thesis .
qed

lemma word_xor_right_cancel [simp]:
  fixes a b c :: "'a::len word"
  shows "a XOR c = b XOR c \<longleftrightarrow> a = b"
proof
  assume "a XOR c = b XOR c"
  then have "(a XOR c) XOR c = (b XOR c) XOR c" by simp
  then show "a = b" by (simp only: xor.assoc xor_self_eq xor.right_neutral)
qed simp

section \<open>Truncating division\<close>

lemma smod_eq_0_iff: "(a :: int) smod b = 0 \<longleftrightarrow> b dvd a"
  by (auto simp: smod_int_alt_def sgn_if dvd_eq_mod_eq_0 [of "\<bar>b\<bar>" "\<bar>a\<bar>", symmetric] mod_eq_0_iff_dvd)

lemma smod_pos_adjust:
  fixes a m :: int
  assumes "0 < m"
  shows "(if a smod m < 0 then a smod m + m else a smod m) = a mod m"
proof -
  have "0 \<le> a mod m" "a mod m < m" using assms by simp_all
  then show ?thesis by (simp add: signed_modulo_int_eq_modulo_int)
qed

lemma rat_div_bounds:
  fixes d W :: nat
  assumes "0 < W"
  shows "(of_nat (d div W) :: 'a::linordered_field) * of_nat W \<le> of_nat d"
    and "(of_nat d :: 'a) < (of_nat (d div W) + 1) * of_nat W"
proof -
  have e: "(of_nat d :: 'a) = of_nat (d div W) * of_nat W + of_nat (d mod W)"
    by (metis div_mult_mod_eq of_nat_add of_nat_mult)
  have "(of_nat (d mod W) :: 'a) < of_nat W" using assms by simp
  then show "(of_nat (d div W) :: 'a) * of_nat W \<le> of_nat d" "(of_nat d :: 'a) < (of_nat (d div W) + 1) * of_nat W"
    unfolding e by (simp_all add: algebra_simps)
qed

section \<open>Iterated functions\<close>

lemma funpow_apply_Suc: "(f ^^ n) (f x) = (f ^^ Suc n) x"
  by (simp add: funpow_swap1)

section \<open>Lists\<close>

lemma nth_list_update_if:
  "i < length xs \<Longrightarrow> xs[i := v] ! j = (if i = j then v else xs ! j)"
  by (simp add: nth_list_update)

end
