(* ===== verification/JavaRandom.thy ===== *)
theory JavaRandom
  imports Prelude
begin

text \<open>
  The 48-bit linear congruential generator of \<open>src/src/Random.h\<close>: \<open>JavaRandomSkip\<close> (an affine
  step \<open>s \<mapsto> s * multiplier + addend\<close> modulo \<open>2 ^ 48\<close>, composed by repeated squaring) and
  \<open>JavaRandom\<close> (the generator and its draws). The rejection loop of \<open>nextInt\<close> is a
  \<^theory_text>\<open>partial_function (option)\<close>: \<open>None\<close> is a call that does not return. Floating results are the
  exact rationals the code's conversions produce (24 and 53 bit integers scaled by a power of two).
\<close>

section \<open>The generator\<close>

definition JAVA_MULTIPLIER :: u64 where
  "JAVA_MULTIPLIER = 0x5DEECE66D"

definition JAVA_ADDEND :: u64 where
  "JAVA_ADDEND = 0xB"

definition JAVA_MASK :: u64 where
  "JAVA_MASK = 0xFFFFFFFFFFFF"

record JavaRandomSkip =
  multiplier :: u64
  addend :: u64

definition JavaRandomSkip_combine :: "JavaRandomSkip \<Rightarrow> JavaRandomSkip \<Rightarrow> JavaRandomSkip" where
  "JavaRandomSkip_combine this other =
     (let combined_multiplier = (multiplier this * multiplier other) AND JAVA_MASK;
          combined_addend = (addend this * multiplier other + addend other) AND JAVA_MASK
      in \<lparr>multiplier = combined_multiplier, addend = combined_addend\<rparr>)"

definition make_body :: "u64 \<Rightarrow> nat \<Rightarrow> JavaRandomSkip \<times> JavaRandomSkip \<Rightarrow> JavaRandomSkip \<times> JavaRandomSkip" where
  "make_body n_mod i = (\<lambda>(skip, skip_pow).
     (if n_mod AND push_bit i 1 \<noteq> 0 then JavaRandomSkip_combine skip skip_pow else skip,
      JavaRandomSkip_combine skip_pow skip_pow))"

definition JavaRandomSkip_make :: "64 word \<Rightarrow> JavaRandomSkip" where
  "JavaRandomSkip_make n =
     (let n_mod = n AND JAVA_MASK
      in fst (fold (make_body n_mod) [0..<48]
           (\<lparr>multiplier = 1, addend = 0\<rparr>,
            \<lparr>multiplier = JAVA_MULTIPLIER, addend = JAVA_ADDEND\<rparr>)))"

record JavaRandom =
  jr_seed :: u64

definition JavaRandom_withSeed :: "u64 \<Rightarrow> JavaRandom" where
  "JavaRandom_withSeed s = \<lparr>jr_seed = s\<rparr>"

definition JavaRandom_setSeed :: "u64 \<Rightarrow> JavaRandom \<Rightarrow> JavaRandom" where
  "JavaRandom_setSeed s this = this\<lparr>jr_seed := (s XOR JAVA_MULTIPLIER) AND JAVA_MASK\<rparr>"

definition apply_skip :: "JavaRandomSkip \<Rightarrow> JavaRandom \<Rightarrow> JavaRandom" where
  "apply_skip skip this =
     this\<lparr>jr_seed := (jr_seed this * multiplier skip + addend skip) AND JAVA_MASK\<rparr>"

definition JavaRandom_skip :: "64 word \<Rightarrow> JavaRandom \<Rightarrow> JavaRandom" where
  "JavaRandom_skip N this = apply_skip (JavaRandomSkip_make N) this"

definition JavaRandom_nextBits :: "64 word \<Rightarrow> nat \<Rightarrow> JavaRandom \<Rightarrow> u32 \<times> JavaRandom" where
  "JavaRandom_nextBits N bits this =
     (let this' = JavaRandom_skip N this
      in (ucast (drop_bit (48 - bits) (jr_seed this')), this'))"

definition JavaRandom_nextInt32 :: "64 word \<Rightarrow> JavaRandom \<Rightarrow> u32 \<times> JavaRandom" where
  "JavaRandom_nextInt32 N this = JavaRandom_nextBits N 32 this"

partial_function (option) JavaRandom_reject ::
    "u32 \<Rightarrow> u32 \<Rightarrow> JavaRandom \<Rightarrow> (u32 \<times> JavaRandom) option" where
  "JavaRandom_reject bound u this =
     (let r = u mod bound; m = bound - 1
      in if sint (u - r + m) < 0
         then JavaRandom_reject bound (fst (JavaRandom_nextBits 1 31 this)) (snd (JavaRandom_nextBits 1 31 this))
         else Some (r, this))"

definition JavaRandom_nextInt :: "64 word \<Rightarrow> u32 \<Rightarrow> JavaRandom \<Rightarrow> (u32 \<times> JavaRandom) option" where
  "JavaRandom_nextInt N bound this =
     (let (r, this') = JavaRandom_nextBits N 31 this; m = bound - 1
      in if bound AND m = 0
         then Some (ucast (drop_bit 31 ((ucast bound :: u64) * ucast r)), this')
         else JavaRandom_reject bound r this')"

definition JavaRandom_nextIntFast :: "64 word \<Rightarrow> u32 \<Rightarrow> JavaRandom \<Rightarrow> u32 \<times> JavaRandom" where
  "JavaRandom_nextIntFast N bound this =
     (let (r, this') = JavaRandom_nextBits N 31 this; m = bound - 1
      in if bound AND m = 0
         then (ucast (drop_bit 31 ((ucast bound :: u64) * ucast r)), this')
         else (r mod bound, this'))"

definition JavaRandom_nextLong :: "64 word \<Rightarrow> JavaRandom \<Rightarrow> u64 \<times> JavaRandom" where
  "JavaRandom_nextLong N this =
     (let (a, this1) = JavaRandom_nextBits N 32 this;
          (b, this2) = JavaRandom_nextBits 1 32 this1
      in (push_bit 32 (ucast a) + scast b, this2))"

definition JavaRandom_nextBoolean :: "64 word \<Rightarrow> JavaRandom \<Rightarrow> bool \<times> JavaRandom" where
  "JavaRandom_nextBoolean N this =
     (let (b, this') = JavaRandom_nextBits N 1 this in (b \<noteq> 0, this'))"

definition JavaRandom_nextFloat :: "64 word \<Rightarrow> JavaRandom \<Rightarrow> rat \<times> JavaRandom" where
  "JavaRandom_nextFloat N this =
     (let (b, this') = JavaRandom_nextBits N 24 this in (of_nat (unat b) / 2 ^ 24, this'))"

definition JavaRandom_nextDouble :: "64 word \<Rightarrow> JavaRandom \<Rightarrow> rat \<times> JavaRandom" where
  "JavaRandom_nextDouble N this =
     (let (a, this1) = JavaRandom_nextBits N 26 this;
          (b, this2) = JavaRandom_nextBits 1 27 this1
      in (of_nat (unat (push_bit 27 (ucast a :: u64) + ucast b)) / 2 ^ 53, this2))"

section \<open>Affine steps modulo \<open>2 ^ 48\<close>\<close>

lemma JAVA_MASK_eq: "JAVA_MASK = mask 48"
  by (simp add: JAVA_MASK_def mask_eq_exp_minus_1)

definition jr_valid :: "JavaRandom \<Rightarrow> bool" where
  "jr_valid r \<longleftrightarrow> unat (jr_seed r) < 2 ^ 48"

lemma jr_eqI: "unat (jr_seed r) = unat (jr_seed q) \<Longrightarrow> r = (q :: JavaRandom)"
  by (cases r, cases q) (simp add: word_unat_eq_iff)

lemma unat_affine:
  "unat ((x * m + a) AND JAVA_MASK) = (unat x * unat m + unat a) mod 2 ^ 48" for x m a :: u64
proof -
  have "unat (x * m + a) mod 2 ^ 48 = (unat x * unat m + unat a) mod 2 ^ 64 mod 2 ^ 48"
    by (simp only: unat_word_ariths mod_add_left_eq) simp
  also have "\<dots> = (unat x * unat m + unat a) mod 2 ^ 48"
    by (rule mod_mod_cancel) (simp add: le_imp_power_dvd)
  finally show ?thesis
    by (simp only: JAVA_MASK_eq unat_and_mask)
qed

lemma unat_apply_skip:
  "unat (jr_seed (apply_skip k r)) = (unat (jr_seed r) * unat (multiplier k) + unat (addend k)) mod 2 ^ 48"
  by (simp add: apply_skip_def unat_affine)

lemma jr_valid_apply_skip [simp]: "jr_valid (apply_skip k r)"
  by (simp only: jr_valid_def unat_apply_skip) simp

lemma affine_compose:
  "(x * (m * m' mod k) + (a * m' + a') mod k) mod k = (((x * m + a) mod k) * m' + a') mod k" for x :: nat
proof -
  have "(x * (m * m' mod k) + (a * m' + a') mod k) mod k = (x * (m * m') + (a * m' + a')) mod k"
    by (simp add: mod_add_left_eq mod_add_right_eq mod_mult_right_eq) (metis mod_add_cong mod_mod_trivial mod_mult_right_eq)
  also have "\<dots> = ((x * m + a) * m' + a') mod k"
    by (simp add: algebra_simps)
  also have "\<dots> = (((x * m + a) mod k) * m' + a') mod k"
    by (metis mod_add_left_eq mod_mult_left_eq)
  finally show ?thesis .
qed

lemma apply_combine: "apply_skip (JavaRandomSkip_combine p q) r = apply_skip q (apply_skip p r)"
proof (rule jr_eqI)
  have m: "unat (multiplier (JavaRandomSkip_combine p q)) = unat (multiplier p) * unat (multiplier q) mod 2 ^ 48"
    using unat_affine [of "multiplier p" "multiplier q" 0] by (simp add: JavaRandomSkip_combine_def)
  have a: "unat (addend (JavaRandomSkip_combine p q))
      = (unat (addend p) * unat (multiplier q) + unat (addend q)) mod 2 ^ 48"
    by (simp add: JavaRandomSkip_combine_def unat_affine del: power_numeral)
  show "unat (jr_seed (apply_skip (JavaRandomSkip_combine p q) r)) =
      unat (jr_seed (apply_skip q (apply_skip p r)))"
    by (simp only: unat_apply_skip m a affine_compose)
qed

definition jr_step :: "JavaRandom \<Rightarrow> JavaRandom" where
  "jr_step = apply_skip \<lparr>multiplier = JAVA_MULTIPLIER, addend = JAVA_ADDEND\<rparr>"

lemma jr_valid_funpow: "jr_valid r \<Longrightarrow> jr_valid ((jr_step ^^ n) r)"
  by (induction n) (simp_all add: jr_step_def)

lemma apply_id_skip: "jr_valid r \<Longrightarrow> apply_skip \<lparr>multiplier = 1, addend = 0\<rparr> r = r"
  by (rule jr_eqI) (simp only: unat_apply_skip, simp add: jr_valid_def)

lemma make_fold:
  fixes n_mod :: u64
  assumes "jr_valid r"
  defines "p \<equiv> \<lambda>i. fold (make_body n_mod) [0..<i]
     (\<lparr>multiplier = 1, addend = 0\<rparr>, \<lparr>multiplier = JAVA_MULTIPLIER, addend = JAVA_ADDEND\<rparr>)"
  shows "i \<le> 64 \<Longrightarrow> apply_skip (fst (p i)) r = (jr_step ^^ (unat n_mod mod 2 ^ i)) r
     \<and> (\<forall>q. apply_skip (snd (p i)) q = (jr_step ^^ (2 ^ i)) q)"
proof (induction i)
  case 0
  then show ?case
    using assms(1) by (simp add: p_def apply_id_skip jr_step_def)
next
  case (Suc i)
  then have i: "i < 64" and IH: "apply_skip (fst (p i)) r = (jr_step ^^ (unat n_mod mod 2 ^ i)) r"
    "\<And>q. apply_skip (snd (p i)) q = (jr_step ^^ (2 ^ i)) q" by auto
  have p: "p (Suc i) = make_body n_mod i (p i)"
    by (simp add: p_def)
  have bit: "(n_mod AND push_bit i 1 \<noteq> 0) \<longleftrightarrow> odd (unat n_mod div 2 ^ i)"
    using i by (simp add: and_exp_eq_0_iff_not_bit push_bit_eq_mult flip: bit_iff_odd)
       (simp add: bit_unsigned_iff)
  have split: "unat n_mod mod 2 ^ Suc i = unat n_mod mod 2 ^ i + (if odd (unat n_mod div 2 ^ i) then 2 ^ i else 0)"
    using mod_mult2_eq [of "unat n_mod" "2 ^ i" 2] by (simp add: mult.commute odd_iff_mod_2_eq_one)
  obtain a b where ab: "p i = (a, b)" by (cases "p i")
  have new: "fst (p (Suc i)) = (if odd (unat n_mod div 2 ^ i) then JavaRandomSkip_combine a b else a)"
    "snd (p (Suc i)) = JavaRandomSkip_combine b b"
    by (simp_all only: p ab make_body_def prod.case bit fst_conv snd_conv)
  have "apply_skip (fst (p (Suc i))) r = (jr_step ^^ (unat n_mod mod 2 ^ Suc i)) r"
    using IH unfolding new split ab by (simp add: apply_combine funpow_add add.commute [of "unat n_mod mod 2 ^ i"])
  moreover have "apply_skip (snd (p (Suc i))) q = (jr_step ^^ 2 ^ Suc i) q" for q
    using IH(2) by (simp add: new ab apply_combine funpow_add mult_2)
  ultimately show ?case by blast
qed

lemma JavaRandom_skip_funpow:
  assumes "jr_valid r"
  shows "JavaRandom_skip N r = (jr_step ^^ (unat N mod 2 ^ 48)) r"
proof -
  have "unat (N AND JAVA_MASK) mod 2 ^ 48 = unat N mod 2 ^ 48"
    by (simp add: JAVA_MASK_eq unat_and_mask)
  then show ?thesis
    using make_fold [OF assms, of 48 "N AND JAVA_MASK"]
    by (simp add: JavaRandom_skip_def JavaRandomSkip_make_def Let_def)
qed

section \<open>The full period of the generator\<close>

text \<open>
  Read without the reduction, \<open>2 ^ j\<close> steps are again affine: the multiplier is 1 modulo
  \<open>2 ^ (j + 2)\<close> and the addend is an odd multiple of \<open>2 ^ j\<close>. So \<open>2 ^ j\<close> steps keep the low \<open>j\<close>
  bits of a state and flip bit \<open>j\<close>, which makes every state reachable from every other one.
\<close>

definition lcg :: "nat \<Rightarrow> nat" where
  "lcg x = x * unat JAVA_MULTIPLIER + unat JAVA_ADDEND"

lemma lcg_pow:
  "\<exists>a b. (\<forall>x. (lcg ^^ (2 ^ j)) x = x * (1 + 4 * 2 ^ j * a) + 2 ^ j * (2 * b + 1))"
proof (induction j)
  case 0
  have "lcg x = x * (1 + 4 * 6303725979) + (2 * 5 + 1)" for x
    by (simp add: lcg_def JAVA_MULTIPLIER_def JAVA_ADDEND_def)
  then show ?case by (intro exI [of _ 6303725979] exI [of _ 5]) simp
next
  case (Suc j)
  then obtain a b where ab: "\<And>x. (lcg ^^ (2 ^ j)) x = x * (1 + 4 * 2 ^ j * a) + 2 ^ j * (2 * b + 1)"
    by auto
  have "(lcg ^^ (2 ^ Suc j)) x = x * (1 + 4 * 2 ^ Suc j * (a + 2 * 2 ^ j * a * a))
      + 2 ^ Suc j * (2 * (b + 2 ^ j * a * (2 * b + 1)) + 1)" for x
  proof -
    define p :: nat where "p = 2 ^ j"
    have "(lcg ^^ (2 ^ Suc j)) x = (lcg ^^ (2 ^ j)) ((lcg ^^ (2 ^ j)) x)"
      by (simp add: mult_2 funpow_add)
    also have "\<dots> = (x * (1 + 4 * p * a) + p * (2 * b + 1)) * (1 + 4 * p * a) + p * (2 * b + 1)"
      by (simp only: ab p_def)
    also have "\<dots> = x * (1 + 4 * (2 * p) * (a + 2 * p * a * a)) + 2 * p * (2 * (b + p * a * (2 * b + 1)) + 1)"
      by algebra
    finally show ?thesis by (simp only: p_def power_Suc)
  qed
  then show ?case by blast
qed

lemma unat_jr_step: "unat (jr_seed (jr_step r)) = lcg (unat (jr_seed r)) mod 2 ^ 48"
  by (simp add: jr_step_def unat_apply_skip lcg_def)

lemma lcg_mod: "lcg (x mod k) mod k = lcg x mod k"
  unfolding lcg_def by (metis mod_add_left_eq mod_mult_left_eq)

lemma unat_jr_steps:
  assumes "jr_valid r"
  shows "unat (jr_seed ((jr_step ^^ n) r)) = (lcg ^^ n) (unat (jr_seed r)) mod 2 ^ 48"
proof (induction n)
  case 0
  then show ?case using assms by (simp add: jr_valid_def)
next
  case (Suc n)
  then show ?case by (simp only: funpow.simps o_apply unat_jr_step lcg_mod)
qed

lemma lcg_period: "(lcg ^^ (2 ^ j)) x mod 2 ^ j = x mod 2 ^ j"
proof -
  obtain a b where ab: "\<And>x. (lcg ^^ (2 ^ j)) x = x * (1 + 4 * 2 ^ j * a) + 2 ^ j * (2 * b + 1)"
    using lcg_pow by blast
  define p :: nat where "p = 2 ^ j"
  have "(lcg ^^ (2 ^ j)) x = x + p * (x * (4 * a) + 2 * b + 1)"
    unfolding p_def by (simp add: ab algebra_simps)
  then show ?thesis unfolding p_def by (simp only: mod_mult_self2)
qed

lemma jr_period: "jr_valid r \<Longrightarrow> (jr_step ^^ (2 ^ 48)) r = r"
  by (rule jr_eqI) (simp only: unat_jr_steps lcg_period, simp add: jr_valid_def)

lemma lcg_reaches: "\<exists>k. (lcg ^^ k) x mod 2 ^ j = t mod 2 ^ j"
proof (induction j)
  case (Suc j)
  then obtain k where k: "(lcg ^^ k) x mod 2 ^ j = t mod 2 ^ j" by blast
  define y where "y = (lcg ^^ k) x"
  obtain a b where ab: "\<And>x. (lcg ^^ (2 ^ j)) x = x * (1 + 4 * 2 ^ j * a) + 2 ^ j * (2 * b + 1)"
    using lcg_pow by blast
  have step: "(lcg ^^ (2 ^ j + k)) x mod 2 ^ Suc j = (y + 2 ^ j) mod 2 ^ Suc j"
  proof -
    have "(lcg ^^ (2 ^ j + k)) x = (y + 2 ^ j) + 2 ^ Suc j * (2 * a * y + b)"
      by (simp add: funpow_add ab y_def [symmetric]) (simp add: algebra_simps)
    then show ?thesis by simp
  qed
  have half: "t mod 2 ^ Suc j = y mod 2 ^ Suc j \<or> t mod 2 ^ Suc j = (y + 2 ^ j) mod 2 ^ Suc j"
  proof -
    have u: "u mod 2 ^ Suc j = u mod 2 ^ j + 2 ^ j * (u div 2 ^ j mod 2)" for u :: nat
      using mod_mult2_eq [of u "2 ^ j" 2] by (simp add: mult.commute)
    have "(y + 2 ^ j) div 2 ^ j = y div 2 ^ j + 1" and "(y + 2 ^ j) mod 2 ^ j = y mod 2 ^ j"
      by simp_all
    with k show ?thesis
      unfolding u [of t] u [of y] u [of "y + 2 ^ j"] y_def [symmetric]
      by (cases "even (t div 2 ^ j)"; cases "even (y div 2 ^ j)") (simp_all add: even_iff_mod_2_eq_zero odd_iff_mod_2_eq_one mod_Suc)
  qed
  then show ?case
    using step unfolding y_def by metis
qed simp

lemma jr_reaches:
  assumes "jr_valid r" "jr_valid q"
  obtains k where "(jr_step ^^ k) r = q"
proof -
  obtain k where "(lcg ^^ k) (unat (jr_seed r)) mod 2 ^ 48 = unat (jr_seed q) mod 2 ^ 48"
    using lcg_reaches by blast
  then have "(jr_step ^^ k) r = q"
    using assms by (intro jr_eqI) (simp add: unat_jr_steps jr_valid_def)
  then show thesis by (rule that)
qed


section \<open>Skipping is stepping\<close>

lemma jr_step_periodic:
  assumes "jr_valid r" "m mod 2 ^ 48 = n mod 2 ^ 48"
  shows "(jr_step ^^ m) r = (jr_step ^^ n) r"
proof -
  have loop: "(jr_step ^^ (k * 2 ^ 48)) r = r" for k
    by (induction k) (simp_all only: mult_Suc mult_0 funpow_add o_apply jr_period [OF assms(1)] funpow_0)
  have "(jr_step ^^ i) r = (jr_step ^^ (i mod 2 ^ 48)) r" for i
  proof -
    have "(jr_step ^^ (i mod 2 ^ 48 + i div 2 ^ 48 * 2 ^ 48)) r = (jr_step ^^ (i mod 2 ^ 48)) r"
      by (simp only: funpow_add o_apply loop)
    then show ?thesis by (simp only: mod_div_mult_eq)
  qed
  then show ?thesis using assms(2) by metis
qed

lemma apply_skip_masked:
  "apply_skip k \<lparr>jr_seed = jr_seed r AND JAVA_MASK\<rparr> = apply_skip k (r :: JavaRandom)"
  by (rule jr_eqI)
     (simp only: unat_apply_skip JavaRandom.select_convs JAVA_MASK_eq unat_and_mask mod_add_left_eq mod_mult_left_eq,
      metis mod_add_left_eq mod_mult_left_eq)

lemma JavaRandom_skip_one: "JavaRandom_skip 1 r = jr_step r"
proof -
  let ?q = "\<lparr>jr_seed = jr_seed r AND JAVA_MASK\<rparr> :: JavaRandom"
  have "jr_valid ?q"
    by (simp add: jr_valid_def JAVA_MASK_eq unat_and_mask)
  then have "JavaRandom_skip 1 ?q = jr_step ?q"
    by (simp add: JavaRandom_skip_funpow)
  then show ?thesis
    by (simp only: JavaRandom_skip_def jr_step_def apply_skip_masked)
qed

lemma jr_valid_skip [simp]: "jr_valid (JavaRandom_skip N r)"
  by (simp add: JavaRandom_skip_def)

text \<open>
  C31: Jumping by \<open>n\<close> with the repeated-squaring table is \<open>n\<close> single steps of the generator.
\<close>

theorem skip_make_is_iterated_step:
  assumes "jr_valid r"
  shows "JavaRandom_skip (of_nat n) r = (JavaRandom_skip 1 ^^ n) r"
proof -
  have one: "JavaRandom_skip 1 = jr_step" by (rule ext) (rule JavaRandom_skip_one)
  have "unat (of_nat n :: 64 word) mod 2 ^ 48 = n mod 2 ^ 48"
    by (simp add: unat_of_nat mod_mod_cancel)
  then have "(jr_step ^^ (unat (of_nat n :: 64 word) mod 2 ^ 48)) r = (jr_step ^^ n) r"
    using assms by (intro jr_step_periodic) simp_all
  then show ?thesis
    by (simp only: one JavaRandom_skip_funpow [OF assms])
qed

theorem skip_make_is_iterated_step_witness:
  "JavaRandom_skip 3 (JavaRandom_setSeed 42 (JavaRandom_withSeed 0))
     = (JavaRandom_skip 1 ^^ 3) (JavaRandom_setSeed 42 (JavaRandom_withSeed 0))"
proof -
  have "jr_valid (JavaRandom_setSeed 42 (JavaRandom_withSeed 0))"
    by (simp add: jr_valid_def JavaRandom_setSeed_def JavaRandom_withSeed_def JAVA_MASK_eq unat_and_mask)
  from skip_make_is_iterated_step [OF this, of 3] show ?thesis by simp
qed

text \<open>
  A negative \<open>N\<close> runs the generator backwards: skipping by \<open>- N\<close> undoes skipping by \<open>N\<close>.
\<close>

theorem skip_negative_undoes:
  assumes "jr_valid r"
  shows "JavaRandom_skip (- N) (JavaRandom_skip N r) = r"
proof -
  have v: "jr_valid (JavaRandom_skip N r)" by simp
  have "(unat (- N) mod 2 ^ 48 + unat N mod 2 ^ 48) mod 2 ^ 48 = (unat (- N) + unat N) mod 2 ^ 48"
    by (rule mod_add_eq)
  also have "\<dots> = (unat (- N) + unat N) mod 2 ^ 64 mod 2 ^ 48"
    by (rule mod_mod_cancel [symmetric]) (simp add: le_imp_power_dvd)
  also have "(unat (- N) + unat N) mod 2 ^ 64 = unat (- N + N)"
    by (simp only: unat_word_ariths) simp
  finally have "(jr_step ^^ (unat (- N) mod 2 ^ 48 + unat N mod 2 ^ 48)) r = (jr_step ^^ 0) r"
    by (intro jr_step_periodic assms) simp
  then show ?thesis
    unfolding JavaRandom_skip_funpow [OF v] funpow_add o_apply funpow_0
    by (simp only: JavaRandom_skip_funpow [OF assms])
qed

theorem skip_negative_undoes_witness:
  "JavaRandom_skip (- 5) (JavaRandom_skip 5 (JavaRandom_withSeed 42)) = JavaRandom_withSeed 42"
  by (rule skip_negative_undoes) (simp add: jr_valid_def JavaRandom_withSeed_def)

section \<open>Bounded draws\<close>

lemma nextBits_bound:
  assumes "bits \<le> 32"
  shows "unat (fst (JavaRandom_nextBits N bits r)) < 2 ^ bits"
proof -
  let ?s = "jr_seed (JavaRandom_skip N r)"
  have "jr_valid (JavaRandom_skip N r)" by simp
  then have "unat ?s < 2 ^ (48 - bits) * 2 ^ bits"
    using assms by (simp add: jr_valid_def flip: power_add)
  then have "unat ?s div 2 ^ (48 - bits) < 2 ^ bits"
    by (simp add: less_mult_imp_div_less mult.commute)
  then show ?thesis
    by (simp add: JavaRandom_nextBits_def Let_def unat_ucast_mod unat_drop_div)
qed

lemma nextBits_state: "snd (JavaRandom_nextBits N bits r) = JavaRandom_skip N r"
  by (simp add: JavaRandom_nextBits_def Let_def)

lemma pow2_branch_bound:
  fixes bound r :: u32
  assumes "unat r < 2 ^ 31" "bound \<noteq> 0"
  shows "unat (ucast (drop_bit 31 ((ucast bound :: u64) * ucast r)) :: u32) < unat bound"
proof -
  have b: "unat bound < 2 ^ 32" using u32_bound [of bound] by simp
  have "unat bound * unat r < 2 ^ 64"
    using mult_strict_mono' [of "unat bound" "2 ^ 32" "unat r" "2 ^ 31"] b assms by simp
  then have m: "unat ((ucast bound :: u64) * ucast r) = unat bound * unat r"
    using u32_bound [of bound] u32_bound [of r] by (simp add: unat_word_ariths unat_ucast_mod)
  have "unat bound * unat r div 2 ^ 31 < unat bound"
  proof (rule less_mult_imp_div_less)
    show "unat bound * unat r < unat bound * 2 ^ 31"
      using assms by (simp add: unat_gt_0)
  qed
  then show ?thesis
    using b by (simp add: unat_ucast_mod unat_drop_div m)
qed


section \<open>The rejection loop\<close>

lemma reject_accepts_zero:
  fixes bound :: u32
  assumes "bound \<noteq> 0" "unat bound \<le> 2 ^ 31"
  shows "\<not> sint (0 - 0 mod bound + (bound - 1)) < 0"
proof -
  have "unat (bound - 1) < 2 ^ 31"
    using assms by (simp add: unat_minus_one unat_gt_0)
  then show ?thesis by (simp add: sint32_neg_iff)
qed

lemma nextBits_of_zero:
  "jr_seed (jr_step r) = 0 \<Longrightarrow> JavaRandom_nextBits 1 31 r = (0, jr_step r)"
  by (simp add: JavaRandom_nextBits_def JavaRandom_skip_one)

lemma reject_returns:
  assumes "bound \<noteq> 0" "unat bound \<le> 2 ^ 31" "jr_seed ((jr_step ^^ Suc k) this) = 0"
  shows "\<exists>r q. JavaRandom_reject bound u this = Some (r, q) \<and> unat r < unat bound"
  using assms(3)
proof (induction k arbitrary: u this)
  case 0
  then have "JavaRandom_nextBits 1 31 this = (0, jr_step this)"
    by (intro nextBits_of_zero) simp
  then show ?case
    using reject_accepts_zero [OF assms(1,2)] assms(1)
    by (subst JavaRandom_reject.simps, simp add: Let_def, subst JavaRandom_reject.simps)
       (simp add: Let_def unat_mod unat_gt_0)
next
  case (Suc k)
  have "jr_seed ((jr_step ^^ Suc k) (snd (JavaRandom_nextBits 1 31 this))) = 0"
    using Suc.prems by (simp add: nextBits_state JavaRandom_skip_one funpow_swap1)
  from Suc.IH [OF this] show ?case
    using assms(1) by (subst JavaRandom_reject.simps) (auto simp: Let_def unat_mod unat_gt_0 intro: mod_less_divisor)
qed

lemma java_nextInt_returns:
  assumes "bound \<noteq> 0" "unat bound \<le> 2 ^ 31"
  shows "\<exists>r q. JavaRandom_nextInt N bound this = Some (r, q) \<and> unat r < unat bound"
proof -
  obtain u q where uq: "JavaRandom_nextBits N 31 this = (u, q)" by (cases "JavaRandom_nextBits N 31 this")
  have u: "unat u < 2 ^ 31"
    using nextBits_bound [of 31 N this] uq by simp
  have "jr_valid (jr_step q)" "jr_valid (JavaRandom_withSeed 0)"
    by (simp_all add: jr_step_def) (simp add: jr_valid_def JavaRandom_withSeed_def)
  then obtain k where "(jr_step ^^ k) (jr_step q) = JavaRandom_withSeed 0"
    by (rule jr_reaches)
  then have "jr_seed ((jr_step ^^ Suc k) q) = 0"
    by (simp add: funpow_swap1 JavaRandom_withSeed_def)
  from reject_returns [OF assms this] show ?thesis
    using pow2_branch_bound [OF u assms(1)] by (auto simp: JavaRandom_nextInt_def uq Let_def)
qed

text \<open>
  C30: For every bound from 1 to \<open>2 ^ 31\<close> the rejection loop of \<open>nextInt\<close> ends, whatever the state,
  and its result is below the bound.
\<close>

theorem nextInt_returns_below_bound:
  assumes "bound \<noteq> 0" "unat bound \<le> 2 ^ 31"
  shows "\<exists>r q. JavaRandom_nextInt N bound this = Some (r, q) \<and> unat r < unat bound"
  by (rule java_nextInt_returns [OF assms])

theorem nextInt_returns_below_bound_witness:
  "\<exists>r q. JavaRandom_nextInt 1 10 (JavaRandom_withSeed 7) = Some (r, q) \<and> unat r < unat (10 :: u32)"
  by (rule nextInt_returns_below_bound) simp_all

lemma reject_diverges:
  assumes "JavaRandom_reject bound u this = Some res" "unat u < 2 ^ 31" "unat bound > 2 ^ 31"
  shows False
proof -
  have always: "sint (u - u mod bound + (bound - 1)) < 0" if "unat u < 2 ^ 31" for u :: u32
  proof -
    have "u mod bound = u"
      using that assms(3) by (intro mod_word_less) (simp add: word_less_nat_alt)
    moreover have "unat (bound - 1) = unat bound - 1"
      using assms(3) by (intro unat_minus_one) auto
    ultimately show ?thesis
      using assms(3) by (simp add: sint32_neg_iff)
  qed
  have "bound = bound \<longrightarrow> unat u < 2 ^ 31 \<longrightarrow> False"
  proof (rule JavaRandom_reject.raw_induct [where P = "\<lambda>b u t r. b = bound \<longrightarrow> unat u < 2 ^ 31 \<longrightarrow> False", OF _ assms(1)], intro impI)
    fix f :: "u32 \<Rightarrow> u32 \<Rightarrow> JavaRandom \<Rightarrow> (u32 \<times> JavaRandom) option" and b u this res
    assume IH: "\<And>b u this res. f b u this = Some res \<Longrightarrow> b = bound \<longrightarrow> unat u < 2 ^ 31 \<longrightarrow> False"
      and eq: "(let r = u mod b; m = b - 1 in if sint (u - r + m) < 0
         then f b (fst (JavaRandom_nextBits 1 31 this)) (snd (JavaRandom_nextBits 1 31 this))
         else Some (r, this)) = Some res"
      and b: "b = bound" and u: "unat u < 2 ^ 31"
    from eq have "f bound (fst (JavaRandom_nextBits 1 31 this)) (snd (JavaRandom_nextBits 1 31 this)) = Some res"
      using always [OF u] b by (simp add: Let_def)
    then show False
      using IH nextBits_bound [of 31 1 this] by auto
  qed
  then show False using assms(2) by blast
qed


text \<open>
  For a bound above \<open>2 ^ 31\<close> the loop of \<open>nextInt\<close> never ends: no 31-bit draw is accepted.
\<close>

theorem nextInt_diverges_above_2_31:
  assumes "unat bound > 2 ^ 31"
  shows "JavaRandom_nextInt N bound this = None"
proof -
  obtain u q where uq: "JavaRandom_nextBits N 31 this = (u, q)" by (cases "JavaRandom_nextBits N 31 this")
  have "JavaRandom_reject bound u q = None"
    using reject_diverges [OF _ _ assms, of u q] nextBits_bound [of 31 N this] uq by (cases "JavaRandom_reject bound u q") auto
  moreover have "bound AND (bound - 1) \<noteq> 0"
  proof -
    have m: "unat (bound - 1) = unat bound - 1"
      using assms by (intro unat_minus_one) auto
    have "sint bound < 0" "sint (bound - 1) < 0"
      using assms m by (simp_all add: sint32_neg_iff)
    then have "bit bound 31" "bit (bound - 1) 31"
      using bit_last_iff [of bound] bit_last_iff [of "bound - 1"] by simp_all
    then have "bit (bound AND (bound - 1)) 31" by (simp add: bit_and_iff)
    then show ?thesis by auto
  qed
  ultimately show ?thesis by (simp add: JavaRandom_nextInt_def uq Let_def)
qed

theorem nextInt_diverges_above_2_31_witness:
  "JavaRandom_nextInt 1 3000000000 (JavaRandom_withSeed 7) = None"
  by (rule nextInt_diverges_above_2_31) simp

end
