(* ===== verification/Xoroshiro.thy ===== *)
theory Xoroshiro
  imports Prelude
begin

text \<open>
  The xoroshiro128++ generator of \<open>src/src/Random.h\<close> (\<open>XrsrRandom\<close>, its seeding, forks and draws)
  and the hand-inlined copies of it in \<open>src/src/gpu.cu\<close> (\<open>XrsrRandom_seed_fork\<close>,
  \<open>XrsrRandom_double_fork\<close>, \<open>noise_yo_fork\<close>, \<open>octave_yo_fork_hash\<close>, \<open>octave_yo_mod1\<close>), which skip state
  updates and drop the all-zero repair. The lemmas show that the mixing function is a bijection with
  \<open>fix64\<close> as its inverse, that the state update is linear over exclusive or and injective, and hence
  that the inlined copies compute what the generator computes.
\<close>

section \<open>Definitions\<close>

definition XRSR_MIX1 :: u64 where "XRSR_MIX1 = 0xbf58476d1ce4e5b9"
definition XRSR_MIX2 :: u64 where "XRSR_MIX2 = 0x94d049bb133111eb"
definition XRSR_MIX1_INVERSE :: u64 where "XRSR_MIX1_INVERSE = 0x96de1b173f119089"
definition XRSR_MIX2_INVERSE :: u64 where "XRSR_MIX2_INVERSE = 0x319642b2d24d8ec3"
definition XRSR_SILVER_RATIO :: u64 where "XRSR_SILVER_RATIO = 0x6a09e667f3bcc909"
definition XRSR_GOLDEN_RATIO :: u64 where "XRSR_GOLDEN_RATIO = 0x9e3779b97f4a7c15"

definition mix64 :: "u64 \<Rightarrow> u64" where
  "mix64 a0 =
     (let a1 = (a0 XOR drop_bit 30 a0) * XRSR_MIX1;
          a2 = (a1 XOR drop_bit 27 a1) * XRSR_MIX2
      in a2 XOR drop_bit 31 a2)"

definition fix64 :: "u64 \<Rightarrow> u64" where
  "fix64 a0 =
     (let a1 = (a0 XOR drop_bit 31 a0 XOR drop_bit 62 a0) * XRSR_MIX2_INVERSE;
          a2 = (a1 XOR drop_bit 27 a1 XOR drop_bit 54 a1) * XRSR_MIX1_INVERSE
      in a2 XOR drop_bit 30 a2 XOR drop_bit 60 a2)"

definition rol64 :: "u64 \<Rightarrow> nat \<Rightarrow> u64" where
  "rol64 a bits = push_bit bits a OR drop_bit (64 - bits) a"

record XrsrForkHash =
  hash_lo :: u64
  hash_hi :: u64

record XrsrRandomFork =
  fork_lo :: u64
  fork_hi :: u64

record XrsrRandom =
  x_lo :: u64
  x_hi :: u64

definition XrsrRandom_make :: "u64 \<Rightarrow> u64 \<Rightarrow> XrsrRandom" where
  "XrsrRandom_make l h =
     (if l OR h = 0
      then \<lparr>x_lo = - 7046029254386353131, x_hi = 7640891576956012809\<rparr>
      else \<lparr>x_lo = l, x_hi = h\<rparr>)"

definition XrsrRandom_setSeed :: "u64 \<Rightarrow> XrsrRandom" where
  "XrsrRandom_setSeed seed =
     (let seed' = seed XOR XRSR_SILVER_RATIO;
          l = mix64 seed';
          h = mix64 (seed' + XRSR_GOLDEN_RATIO)
      in if l OR h = 0
         then \<lparr>x_lo = - 7046029254386353131, x_hi = 7640891576956012809\<rparr>
         else \<lparr>x_lo = l, x_hi = h\<rparr>)"

definition XrsrRandom_nextInternal :: "XrsrRandom \<Rightarrow> u64 \<times> XrsrRandom" where
  "XrsrRandom_nextInternal this =
     (let l = x_lo this;
          h = x_hi this;
          r = rol64 (l + h) 17 + l;
          h' = h XOR l
      in (r, this\<lparr>x_lo := rol64 l 49 XOR h' XOR push_bit 21 h', x_hi := rol64 h' 28\<rparr>))"

definition XrsrRandom_nextBits :: "nat \<Rightarrow> XrsrRandom \<Rightarrow> u64 \<times> XrsrRandom" where
  "XrsrRandom_nextBits bits this =
     (let (r, this') = XrsrRandom_nextInternal this in (drop_bit (64 - bits) r, this'))"

definition XrsrRandom_nextInt32 :: "XrsrRandom \<Rightarrow> u32 \<times> XrsrRandom" where
  "XrsrRandom_nextInt32 this =
     (let (r, this') = XrsrRandom_nextInternal this in (ucast r, this'))"

partial_function (option) XrsrRandom_reject ::
    "u32 \<Rightarrow> u32 \<Rightarrow> u64 \<Rightarrow> XrsrRandom \<Rightarrow> (u64 \<times> XrsrRandom) option" where
  "XrsrRandom_reject bound j m this =
     (if m AND 0xFFFFFFFF < ucast j
      then XrsrRandom_reject bound j
             (ucast (fst (XrsrRandom_nextInt32 this)) * ucast bound) (snd (XrsrRandom_nextInt32 this))
      else Some (m, this))"

definition XrsrRandom_nextInt :: "u32 \<Rightarrow> XrsrRandom \<Rightarrow> (u32 \<times> XrsrRandom) option" where
  "XrsrRandom_nextInt bound this =
     (let (l, this') = XrsrRandom_nextInt32 this;
          m = ucast l * ucast bound;
          n = m AND 0xFFFFFFFF
      in if n < ucast bound
         then map_option (\<lambda>(m', q). (ucast (drop_bit 32 m'), q))
                (XrsrRandom_reject bound ((NOT bound + 1) mod bound) m this')
         else Some (ucast (drop_bit 32 m), this'))"

definition XrsrRandom_nextIntFast :: "u32 \<Rightarrow> XrsrRandom \<Rightarrow> u32 \<times> XrsrRandom" where
  "XrsrRandom_nextIntFast bound this =
     (let (l, this') = XrsrRandom_nextInt32 this;
          m = (ucast l :: u64) * ucast bound
      in (ucast (drop_bit 32 m), this'))"

definition XrsrRandom_nextLong :: "XrsrRandom \<Rightarrow> u64 \<times> XrsrRandom" where
  "XrsrRandom_nextLong this = XrsrRandom_nextInternal this"

definition XrsrRandom_nextBoolean :: "XrsrRandom \<Rightarrow> bool \<times> XrsrRandom" where
  "XrsrRandom_nextBoolean this =
     (let (r, this') = XrsrRandom_nextInternal this in (r AND 1 \<noteq> 0, this'))"

definition XrsrRandom_nextFloat :: "XrsrRandom \<Rightarrow> rat \<times> XrsrRandom" where
  "XrsrRandom_nextFloat this =
     (let (b, this') = XrsrRandom_nextBits 24 this in (of_nat (unat b) / 2 ^ 24, this'))"

definition XrsrRandom_nextDouble :: "XrsrRandom \<Rightarrow> rat \<times> XrsrRandom" where
  "XrsrRandom_nextDouble this =
     (let (b, this') = XrsrRandom_nextBits 53 this in (of_nat (unat b) / 2 ^ 53, this'))"

definition XrsrRandom_fork :: "XrsrRandom \<Rightarrow> XrsrRandomFork \<times> XrsrRandom" where
  "XrsrRandom_fork this =
     (let (l, this1) = XrsrRandom_nextLong this;
          (h, this2) = XrsrRandom_nextLong this1
      in (\<lparr>fork_lo = l, fork_hi = h\<rparr>, this2))"

definition XrsrRandomFork_from :: "XrsrRandomFork \<Rightarrow> XrsrForkHash \<Rightarrow> XrsrRandom" where
  "XrsrRandomFork_from this hash =
     XrsrRandom_make (fork_lo this XOR hash_lo hash) (fork_hi this XOR hash_hi hash)"

subsection \<open>The inlined copies of the GPU code\<close>

definition XrsrRandom_seed_fork :: "u64 \<Rightarrow> XrsrRandomFork" where
  "XrsrRandom_seed_fork seed =
     (let seed' = seed XOR XRSR_SILVER_RATIO;
          l = mix64 seed';
          h = mix64 (seed' + XRSR_GOLDEN_RATIO);
          r1 = rol64 (l + h) 17 + l;
          h' = h XOR l;
          l2 = rol64 l 49 XOR h' XOR push_bit 21 h';
          h2 = rol64 h' 28;
          r2 = rol64 (l2 + h2) 17 + l2
      in \<lparr>fork_lo = r1, fork_hi = r2\<rparr>)"

definition XrsrRandom_double_fork :: "XrsrRandom \<Rightarrow> XrsrRandomFork \<times> XrsrRandomFork" where
  "XrsrRandom_double_fork rng =
     (let l = x_lo rng;
          h = x_hi rng;
          r1 = rol64 (l + h) 17 + l;
          h' = h XOR l;
          l2 = rol64 l 49 XOR h' XOR push_bit 21 h';
          h2 = rol64 h' 28;
          r2 = rol64 (l2 + h2) 17 + l2;
          h2' = h2 XOR l2;
          l3 = rol64 l2 49 XOR h2' XOR push_bit 21 h2';
          h3 = rol64 h2' 28;
          r3 = rol64 (l3 + h3) 17 + l3;
          h3' = h3 XOR l3;
          l4 = rol64 l3 49 XOR h3' XOR push_bit 21 h3';
          h4 = rol64 h3' 28;
          r4 = rol64 (l4 + h4) 17 + l4
      in (\<lparr>fork_lo = r1, fork_hi = r2\<rparr>, \<lparr>fork_lo = r3, fork_hi = r4\<rparr>))"

definition noise_yo_fork :: "XrsrRandomFork \<Rightarrow> XrsrRandomFork" where
  "noise_yo_fork noise_fork =
     (let l = fork_lo noise_fork;
          h = fork_hi noise_fork XOR l
      in \<lparr>fork_lo = rol64 l 49 XOR h XOR push_bit 21 h, fork_hi = rol64 h 28\<rparr>)"

definition octave_yo_fork_hash :: "XrsrForkHash \<Rightarrow> XrsrForkHash" where
  "octave_yo_fork_hash hash =
     (let rng = snd (XrsrRandom_nextInternal (XrsrRandom_make (hash_lo hash) (hash_hi hash)))
      in \<lparr>hash_lo = x_lo rng, hash_hi = x_hi rng\<rparr>)"

definition octave_yo_mod1 :: "XrsrForkHash \<Rightarrow> XrsrRandomFork \<Rightarrow> rat" where
  "octave_yo_mod1 octave_hash yo_fork =
     (let fork_hash = octave_yo_fork_hash octave_hash;
          l = fork_lo yo_fork XOR hash_lo fork_hash;
          h = fork_hi yo_fork XOR hash_hi fork_hash;
          r = rol64 (l + h) 17 + l
      in of_nat (unat (drop_bit 32 r AND 0xFFFFFF)) / 2 ^ 24)"

section \<open>The mixing function\<close>

lemma xorshift_inverse:
  fixes x :: u64
  assumes "64 \<le> 3 * s"
  shows "(x XOR drop_bit s x) XOR drop_bit s (x XOR drop_bit s x) XOR drop_bit (2 * s) (x XOR drop_bit s x) = x"
proof (rule bit_word_eqI)
  fix n
  assume "n < LENGTH(64)"
  then have "\<not> bit x (3 * s + n)"
    using assms by (auto dest: bit_imp_le_length)
  then show "bit ((x XOR drop_bit s x) XOR drop_bit s (x XOR drop_bit s x) XOR drop_bit (2 * s) (x XOR drop_bit s x)) n
      = bit x n"
    by (auto simp: bit_xor_iff bit_drop_bit_eq algebra_simps numeral_eq_Suc)
qed

lemma MIX_inverses: "XRSR_MIX1 * XRSR_MIX1_INVERSE = 1" "XRSR_MIX2 * XRSR_MIX2_INVERSE = 1"
  by (simp_all add: XRSR_MIX1_def XRSR_MIX1_INVERSE_def XRSR_MIX2_def XRSR_MIX2_INVERSE_def)

text \<open>
  \<open>fix64\<close> undoes \<open>mix64\<close>: seeding is a bijection on 64-bit values.
\<close>

theorem fix64_mix64: "fix64 (mix64 a) = a"
proof -
  define b where "b = (a XOR drop_bit 30 a) * XRSR_MIX1"
  define c where "c = (b XOR drop_bit 27 b) * XRSR_MIX2"
  have m: "mix64 a = c XOR drop_bit 31 c"
    by (simp add: mix64_def Let_def b_def c_def)
  have "(mix64 a XOR drop_bit 31 (mix64 a) XOR drop_bit 62 (mix64 a)) * XRSR_MIX2_INVERSE
      = b XOR drop_bit 27 b"
    unfolding m using xorshift_inverse [of 31 c] by (simp add: c_def mult.assoc MIX_inverses)
  moreover have "((b XOR drop_bit 27 b) XOR drop_bit 27 (b XOR drop_bit 27 b) XOR drop_bit 54 (b XOR drop_bit 27 b)) * XRSR_MIX1_INVERSE
      = a XOR drop_bit 30 a"
    using xorshift_inverse [of 27 b] by (simp add: b_def mult.assoc MIX_inverses)
  moreover have "(a XOR drop_bit 30 a) XOR drop_bit 30 (a XOR drop_bit 30 a) XOR drop_bit 60 (a XOR drop_bit 30 a) = a"
    using xorshift_inverse [of 30 a] by simp
  ultimately show ?thesis
    by (simp only: fix64_def Let_def)
qed

lemma mix64_inject [simp]: "mix64 a = mix64 b \<longleftrightarrow> a = b"
  by (metis fix64_mix64)


lemma mix64_0 [simp]: "mix64 0 = 0"
  by (simp add: mix64_def)

lemma mix64_eq_0 [simp]: "mix64 a = 0 \<longleftrightarrow> a = 0"
  by (metis mix64_0 mix64_inject)

section \<open>The state update\<close>


lemma rol64_eq_xor:
  assumes "0 < n" "n < 64"
  shows "rol64 a n = push_bit n a XOR drop_bit (64 - n) a"
proof (rule bit_word_eqI)
  fix i
  assume i: "i < LENGTH(64)"
  show "bit (rol64 a n) i = bit (push_bit n a XOR drop_bit (64 - n) a) i"
  proof (cases "i < n")
    case True
    then show ?thesis by (simp add: rol64_def bit_simps)
  next
    case False
    then have "\<not> bit a (64 - n + i)" using assms by (auto dest: bit_imp_le_length)
    with False show ?thesis by (simp add: rol64_def bit_simps)
  qed
qed

lemma rol64_xor:
  assumes "0 < n" "n < 64"
  shows "rol64 (a XOR b) n = rol64 a n XOR rol64 b n"
  by (simp add: rol64_eq_xor [OF assms] push_bit_xor drop_bit_xor ac_simps xor.left_commute)

lemma bit_rol64:
  assumes "0 < n" "n < 64" "i < 64"
  shows "bit (rol64 a n) i = bit a ((i + (64 - n)) mod 64)"
proof (cases "i < n")
  case True
  then have "(i + (64 - n)) mod 64 = 64 - n + i" using assms by simp
  with True show ?thesis using assms by (simp add: rol64_def bit_simps)
next
  case False
  then have "(i + (64 - n)) mod 64 = i - n" using assms by (simp add: mod_if)
  moreover have "\<not> bit a (64 - n + i)" using assms False by (auto dest: bit_imp_le_length)
  ultimately show ?thesis using assms False by (simp add: rol64_def bit_simps)
qed

lemma rol64_inverse:
  assumes "0 < n" "n < 64"
  shows "rol64 (rol64 a n) (64 - n) = a"
proof (rule bit_word_eqI)
  fix i
  assume "i < LENGTH(64)"
  then have i: "i < 64" by simp
  then have "((i + n) mod 64 + (64 - n)) mod 64 = i" using assms i by (cases "i + n < 64") (auto simp: mod_if)
  then show "bit (rol64 (rol64 a n) (64 - n)) i = bit a i"
    using assms i by (simp add: bit_rol64)
qed

lemma rol64_inject:
  assumes "0 < n" "n < 64"
  shows "rol64 a n = rol64 b n \<longleftrightarrow> a = b"
  by (metis assms rol64_inverse)

lemma rol64_0 [simp]: "rol64 0 n = 0"
  by (simp add: rol64_def)

lemma nextInternal_eq:
  "XrsrRandom_nextInternal r =
     (rol64 (x_lo r + x_hi r) 17 + x_lo r,
      r\<lparr>x_lo := rol64 (x_lo r) 49 XOR (x_hi r XOR x_lo r) XOR push_bit 21 (x_hi r XOR x_lo r),
        x_hi := rol64 (x_hi r XOR x_lo r) 28\<rparr>)"
  by (simp add: XrsrRandom_nextInternal_def Let_def)

definition xrsr_xor :: "XrsrRandom \<Rightarrow> XrsrRandom \<Rightarrow> XrsrRandom" where
  "xrsr_xor a b = \<lparr>x_lo = x_lo a XOR x_lo b, x_hi = x_hi a XOR x_hi b\<rparr>"

definition xrsr_next :: "XrsrRandom \<Rightarrow> XrsrRandom" where
  "xrsr_next r = snd (XrsrRandom_nextInternal r)"

lemma xrsr_next_lo: "x_lo (xrsr_next r) = rol64 (x_lo r) 49 XOR (x_hi r XOR x_lo r) XOR push_bit 21 (x_hi r XOR x_lo r)"
  and xrsr_next_hi: "x_hi (xrsr_next r) = rol64 (x_hi r XOR x_lo r) 28"
  by (simp_all add: xrsr_next_def nextInternal_eq)

lemmas rol64_linear = rol64_xor [of 49, simplified] rol64_xor [of 28, simplified]

theorem xrsr_next_linear: "xrsr_next (xrsr_xor a b) = xrsr_xor (xrsr_next a) (xrsr_next b)"
  by (simp add: xrsr_xor_def xrsr_next_lo xrsr_next_hi rol64_linear push_bit_xor ac_simps XrsrRandom.equality)

theorem xrsr_next_inject: "xrsr_next a = xrsr_next b \<longleftrightarrow> a = b"
proof
  assume eq: "xrsr_next a = xrsr_next b"
  have "rol64 (x_hi a XOR x_lo a) 28 = rol64 (x_hi b XOR x_lo b) 28"
    using arg_cong [OF eq, of x_hi] by (simp add: xrsr_next_hi)
  then have h: "x_hi a XOR x_lo a = x_hi b XOR x_lo b"
    by (simp add: rol64_inject)
  have "rol64 (x_lo a) 49 XOR (x_hi a XOR x_lo a) XOR push_bit 21 (x_hi a XOR x_lo a)
      = rol64 (x_lo b) 49 XOR (x_hi a XOR x_lo a) XOR push_bit 21 (x_hi a XOR x_lo a)"
    using arg_cong [OF eq, of x_lo] by (simp only: xrsr_next_lo h)
  then have "rol64 (x_lo a) 49 = rol64 (x_lo b) 49"
    by (simp only: word_xor_right_cancel)
  then have l: "x_lo a = x_lo b"
    by (simp add: rol64_inject)
  with h have "x_hi a = x_hi b" by simp
  with l show "a = b" by (simp add: XrsrRandom.equality)
qed simp


lemma or_eq_0_words: "a OR b = 0 \<longleftrightarrow> a = 0 \<and> b = (0 :: 'a::len word)"
  by (auto simp: bit_eq_iff bit_or_iff)

lemma xrsr_next_eq_0:
  "x_lo (xrsr_next r) = 0 \<and> x_hi (xrsr_next r) = 0 \<longleftrightarrow> x_lo r = 0 \<and> x_hi r = 0"
proof -
  have z: "xrsr_next \<lparr>x_lo = 0, x_hi = 0\<rparr> = \<lparr>x_lo = 0, x_hi = 0\<rparr>"
    by (simp add: xrsr_next_def nextInternal_eq)
  have eq: "(q = \<lparr>x_lo = 0, x_hi = 0\<rparr>) = (x_lo q = 0 \<and> x_hi q = 0)" for q :: XrsrRandom
    by (cases q) simp
  show ?thesis
    using xrsr_next_inject [of r "\<lparr>x_lo = 0, x_hi = 0\<rparr>"] unfolding z eq .
qed

definition xrsr_valid :: "XrsrRandom \<Rightarrow> bool" where
  "xrsr_valid r \<longleftrightarrow> x_lo r OR x_hi r \<noteq> 0"

lemma xrsr_valid_next [simp]: "xrsr_valid (xrsr_next r) \<longleftrightarrow> xrsr_valid r"
  using xrsr_next_eq_0 [of r] by (simp add: xrsr_valid_def or_eq_0_words)

lemma xrsr_valid_make [simp]: "xrsr_valid (XrsrRandom_make l h)"
  by (simp add: xrsr_valid_def XrsrRandom_make_def or_eq_0_words)

lemma setSeed_no_repair:
  "XrsrRandom_setSeed seed =
     \<lparr>x_lo = mix64 (seed XOR XRSR_SILVER_RATIO), x_hi = mix64 ((seed XOR XRSR_SILVER_RATIO) + XRSR_GOLDEN_RATIO)\<rparr>"
proof -
  have "XRSR_GOLDEN_RATIO \<noteq> 0" by (simp add: XRSR_GOLDEN_RATIO_def)
  then have "mix64 (seed XOR XRSR_SILVER_RATIO) OR mix64 ((seed XOR XRSR_SILVER_RATIO) + XRSR_GOLDEN_RATIO) \<noteq> 0"
    by (auto simp: or_eq_0_words)
  then show ?thesis by (simp add: XrsrRandom_setSeed_def Let_def)
qed

text \<open>
  Seeding is injective and never reaches the all-zero state the constructor guards against.
\<close>

theorem setSeed_valid_inject:
  "xrsr_valid (XrsrRandom_setSeed a) \<and> (XrsrRandom_setSeed a = XrsrRandom_setSeed b \<longleftrightarrow> a = b)"
proof -
  have "XRSR_GOLDEN_RATIO \<noteq> 0" by (simp add: XRSR_GOLDEN_RATIO_def)
  then show ?thesis
    by (auto simp: setSeed_no_repair xrsr_valid_def or_eq_0_words)
qed

lemma seed_fork_eq: "XrsrRandom_seed_fork seed = fst (XrsrRandom_fork (XrsrRandom_setSeed seed))"
  by (simp add: XrsrRandom_seed_fork_def XrsrRandom_fork_def XrsrRandom_nextLong_def nextInternal_eq
      setSeed_no_repair Let_def)

lemma double_fork_eq:
  "XrsrRandom_double_fork rng =
     (fst (XrsrRandom_fork rng), fst (XrsrRandom_fork (snd (XrsrRandom_fork rng))))"
  by (simp add: XrsrRandom_double_fork_def XrsrRandom_fork_def XrsrRandom_nextLong_def nextInternal_eq Let_def)

text \<open>
  The hand-inlined seeding and double fork of the kernels compute exactly the forks that the
  generator computes step by step.
\<close>

theorem inlined_forks_correct:
  "XrsrRandom_seed_fork seed = fst (XrsrRandom_fork (XrsrRandom_setSeed seed)) \<and>
   XrsrRandom_double_fork rng =
     (let (fork_a, rng') = XrsrRandom_fork rng; (fork_b, rng'') = XrsrRandom_fork rng' in (fork_a, fork_b))"
  by (simp add: seed_fork_eq double_fork_eq split_def Let_def)

section \<open>The prefilter's view of an octave\<close>

lemma xor_eq_0_words: "a XOR b = 0 \<longleftrightarrow> a = (b :: 'a::len word)"
  using word_xor_right_cancel [of a b b] by simp

lemma yo_state:
  assumes h: "hash_lo hash \<noteq> 0 \<or> hash_hi hash \<noteq> 0"
    and n: "fork_lo f \<noteq> hash_lo hash \<or> fork_hi f \<noteq> hash_hi hash"
  shows "\<lparr>x_lo = fork_lo (noise_yo_fork f) XOR hash_lo (octave_yo_fork_hash hash),
          x_hi = fork_hi (noise_yo_fork f) XOR hash_hi (octave_yo_fork_hash hash)\<rparr>
       = xrsr_next (XrsrRandomFork_from f hash)"
proof -
  let ?a = "\<lparr>x_lo = fork_lo f, x_hi = fork_hi f\<rparr>" and ?b = "\<lparr>x_lo = hash_lo hash, x_hi = hash_hi hash\<rparr>"
  have m: "XrsrRandom_make (hash_lo hash) (hash_hi hash) = ?b"
    using h by (auto simp: XrsrRandom_make_def or_eq_0_words)
  have "XrsrRandomFork_from f hash = xrsr_xor ?a ?b"
    using n by (auto simp: XrsrRandomFork_from_def XrsrRandom_make_def or_eq_0_words xor_eq_0_words xrsr_xor_def)
  then have "xrsr_next (XrsrRandomFork_from f hash) = xrsr_xor (xrsr_next ?a) (xrsr_next ?b)"
    by (simp only: xrsr_next_linear)
  then show ?thesis
    by (simp add: octave_yo_fork_hash_def m xrsr_next_def xrsr_xor_def noise_yo_fork_def nextInternal_eq Let_def)
qed

section \<open>Bounded draws\<close>

definition xrsr_draw :: "XrsrRandom \<Rightarrow> nat \<Rightarrow> u32" where
  "xrsr_draw r k = fst (XrsrRandom_nextInt32 ((xrsr_next ^^ k) r))"

definition lemire_accepts :: "u32 \<Rightarrow> u32 \<Rightarrow> bool" where
  "lemire_accepts bound l \<longleftrightarrow> 2 ^ 32 mod unat bound \<le> (unat l * unat bound) mod 2 ^ 32"

lemma nextInt32_eq: "XrsrRandom_nextInt32 r = (xrsr_draw r 0, xrsr_next r)"
  by (simp add: XrsrRandom_nextInt32_def xrsr_draw_def xrsr_next_def split_def Let_def)

lemma xrsr_draw_next: "xrsr_draw (xrsr_next r) k = xrsr_draw r (Suc k)"
  by (simp only: xrsr_draw_def funpow_apply_Suc)

lemma lemire_product: "unat ((ucast (l :: u32) :: u64) * ucast (b :: u32)) = unat l * unat b"
proof -
  have "unat l * unat b < 4294967296 * 4294967296"
    by (rule mult_strict_mono) (auto simp: u32_bound)
  then have "unat l * unat b < 2 ^ LENGTH(64)" by simp
  moreover have "unat (ucast l :: u64) = unat l" "unat (ucast b :: u64) = unat b"
    using u32_bound [of l] u32_bound [of b] by (simp_all add: unat_ucast_mod)
  ultimately show ?thesis
    by (simp add: unat_word_ariths(2))
qed

lemma lemire_high_nat: "(unat (l :: u32) * unat (b :: u32)) div 2 ^ 32 < unat b" if "0 < b"
proof -
  have "0 < unat b" using that by (simp add: word_less_nat_alt)
  then have "unat l * unat b < 2 ^ 32 * unat b" using u32_bound [of l] by simp
  then show ?thesis by (simp add: less_mult_imp_div_less mult.commute)
qed

lemma lemire_high:
  fixes l b :: u32
  assumes "0 < b"
  shows "unat (ucast (drop_bit 32 ((ucast l :: u64) * ucast b)) :: u32) = (unat l * unat b) div 2 ^ 32"
proof -
  have "(unat l * unat b) div 2 ^ 32 < 2 ^ 32"
    using lemire_high_nat [OF assms, of l] u32_bound [of b] by simp
  then show ?thesis
    by (simp add: unat_ucast_mod unat_drop_div lemire_product)
qed

lemma lemire_low: "unat (((ucast (l :: u32) :: u64) * ucast (b :: u32)) AND 0xFFFFFFFF) = (unat l * unat b) mod 2 ^ 32"
proof -
  have m: "(0xFFFFFFFF :: u64) = mask 32" by (simp add: mask_eq_exp_minus_1)
  show ?thesis by (simp only: m unat_and_mask lemire_product)
qed

lemma not_plus_1_mod: "unat ((NOT b + 1) mod (b :: u32)) = 2 ^ 32 mod unat b" if "0 < b"
proof -
  have n: "NOT b + 1 = - b" by (simp add: minus_eq_not_plus_1)
  have p: "0 < unat b" using that by (simp add: word_less_nat_alt)
  have "unat (- b) = 2 ^ 32 - unat b"
    using p using unat_sub_if_size [of 0 b] by (simp add: word_size) 
  then have "unat ((- b) mod b) = (2 ^ 32 - unat b) mod unat b" by (simp add: unat_mod)
  also have "\<dots> = 2 ^ 32 mod unat b"
    using u32_bound [of b] by (simp add: le_mod_geq)
  finally show ?thesis by (simp only: n)
qed

lemma xrsr_reject_test:
  fixes b l :: u32
  assumes "0 < b"
  shows "((ucast l :: u64) * ucast b) AND 0xFFFFFFFF < ucast ((NOT b + 1) mod b) \<longleftrightarrow> \<not> lemire_accepts b l"
proof -
  have "unat (ucast ((NOT b + 1) mod b) :: u64) = unat ((NOT b + 1) mod b)"
    using u32_bound [of "(NOT b + 1) mod b"] by (simp add: unat_ucast_mod)
  then show ?thesis
    by (simp only: word_less_nat_alt lemire_low not_plus_1_mod [OF assms] lemire_accepts_def not_le)
qed

definition lemire_value :: "u32 \<Rightarrow> u32 \<Rightarrow> u32" where
  "lemire_value bound l = of_nat ((unat l * unat bound) div 2 ^ 32)"

lemma lemire_value_eq: "0 < b \<Longrightarrow> ucast (drop_bit 32 ((ucast l :: u64) * ucast b)) = lemire_value b l"
  for b l :: u32
  by (metis lemire_high lemire_value_def of_nat_unat ucast_id)

lemma unat_lemire_value:
  assumes "0 < b"
  shows "unat (lemire_value b l) = (unat l * unat b) div 2 ^ 32"
  by (simp only: lemire_value_eq [OF assms, symmetric] lemire_high [OF assms])

lemma lemire_value_less: "0 < b \<Longrightarrow> lemire_value b l < b"
  by (simp only: word_less_nat_alt unat_lemire_value lemire_high_nat [unfolded word_less_nat_alt])

lemma xrsr_reject_found:
  assumes b: "0 < b"
    and rej: "\<And>i. i < k \<Longrightarrow> \<not> lemire_accepts b (xrsr_draw r i)"
    and acc: "lemire_accepts b (xrsr_draw r k)"
  shows "map_option (\<lambda>(m', q). (ucast (drop_bit 32 m') :: u32, q))
      (XrsrRandom_reject b ((NOT b + 1) mod b) (ucast (xrsr_draw r 0) * ucast b) (xrsr_next r))
      = Some (lemire_value b (xrsr_draw r k), (xrsr_next ^^ Suc k) r)"
  using rej acc
proof (induction k arbitrary: r)
  case 0
  then show ?case
    by (subst XrsrRandom_reject.simps) (simp add: xrsr_reject_test [OF b] lemire_value_eq [OF b])
next
  case (Suc k)
  have "\<not> lemire_accepts b (xrsr_draw r 0)" using Suc.prems(1) by simp
  moreover have "map_option (\<lambda>(m', q). (ucast (drop_bit 32 m') :: u32, q))
      (XrsrRandom_reject b ((NOT b + 1) mod b) (ucast (xrsr_draw (xrsr_next r) 0) * ucast b) (xrsr_next (xrsr_next r)))
      = Some (lemire_value b (xrsr_draw (xrsr_next r) k), (xrsr_next ^^ Suc k) (xrsr_next r))"
    using Suc.prems by (intro Suc.IH) (auto simp: xrsr_draw_next)
  ultimately show ?case
    by (subst XrsrRandom_reject.simps)
      (simp add: xrsr_reject_test [OF b] nextInt32_eq xrsr_draw_next funpow_swap1 del: map_option_eq_Some)
qed

lemma xrsr_reject_some:
  assumes ret: "XrsrRandom_reject b j m q = Some y"
  shows "0 < b \<longrightarrow> j = (NOT b + 1) mod b \<longrightarrow> (\<forall>r. m = ucast (xrsr_draw r 0) * ucast b \<longrightarrow> q = xrsr_next r \<longrightarrow>
     (\<exists>k. lemire_accepts b (xrsr_draw r k)))"
proof (rule XrsrRandom_reject.raw_induct [where P = "\<lambda>b j m q y. 0 < b \<longrightarrow> j = (NOT b + 1) mod b \<longrightarrow> (\<forall>r. m = ucast (xrsr_draw r 0) * ucast b \<longrightarrow> q = xrsr_next r \<longrightarrow>
     (\<exists>k. lemire_accepts b (xrsr_draw r k)))", OF _ ret], intro impI allI)
  fix rec and b j :: u32 and m :: u64 and q y r
  assume IH: "\<And>b j m q y. rec b j m q = Some y \<Longrightarrow> 0 < b \<longrightarrow> j = (NOT b + 1) mod b \<longrightarrow> (\<forall>r. m = ucast (xrsr_draw r 0) * ucast b \<longrightarrow> q = xrsr_next r \<longrightarrow>
     (\<exists>k. lemire_accepts b (xrsr_draw r k)))"
    and step: "(if m AND 0xFFFFFFFF < ucast j
      then rec b j (ucast (fst (XrsrRandom_nextInt32 q)) * ucast b) (snd (XrsrRandom_nextInt32 q))
      else Some (m, q)) = Some y"
    and b: "0 < b" and eqs: "j = (NOT b + 1) mod b" "m = ucast (xrsr_draw r 0) * ucast b" "q = xrsr_next r"
  show "\<exists>k. lemire_accepts b (xrsr_draw r k)"
  proof (cases "lemire_accepts b (xrsr_draw r 0)")
    case False
    then have "rec b j (ucast (xrsr_draw (xrsr_next r) 0) * ucast b) (xrsr_next (xrsr_next r)) = Some y"
      using step by (simp add: eqs xrsr_reject_test [OF b] nextInt32_eq)
    then have "\<exists>k. lemire_accepts b (xrsr_draw (xrsr_next r) k)"
      using IH b eqs(1) by blast
    then show ?thesis by (auto simp: xrsr_draw_next)
  qed blast
qed

lemma small_low_iff:
  fixes b l :: u32
  assumes "0 < b" "\<not> lemire_accepts b l"
  shows "(unat l * unat b) mod 2 ^ 32 < unat b"
proof -
  have "2 ^ 32 mod unat b < unat b" using assms by (simp add: word_less_nat_alt)
  with assms(2) show ?thesis by (simp add: lemire_accepts_def)
qed

lemma nextInt_Some:
  fixes b :: u32
  assumes b: "0 < b"
    and rej: "\<And>i. i < k \<Longrightarrow> \<not> lemire_accepts b (xrsr_draw r i)"
    and acc: "lemire_accepts b (xrsr_draw r k)"
  shows "XrsrRandom_nextInt b r = Some (lemire_value b (xrsr_draw r k), (xrsr_next ^^ Suc k) r)"
proof (cases "(unat (xrsr_draw r 0) * unat b) mod 2 ^ 32 < unat b")
  case True
  have "unat (ucast b :: u64) = unat b" using u32_bound [of b] by (simp add: unat_ucast_mod)
  with True have "((ucast (xrsr_draw r 0) :: u64) * ucast b) AND 0xFFFFFFFF < ucast b"
    by (simp only: word_less_nat_alt lemire_low)
  then show ?thesis
    using xrsr_reject_found [OF b rej acc]
    by (simp add: XrsrRandom_nextInt_def nextInt32_eq Let_def del: map_option_eq_Some)
next
  case False
  have k: "k = 0"
    using small_low_iff [OF b, of "xrsr_draw r 0"] rej [of 0] False by blast
  have "unat (ucast b :: u64) = unat b" using u32_bound [of b] by (simp add: unat_ucast_mod)
  with False have "\<not> (((ucast (xrsr_draw r 0) :: u64) * ucast b) AND 0xFFFFFFFF < ucast b)"
    by (simp only: word_less_nat_alt lemire_low not_False_eq_True)
  then show ?thesis
    by (simp add: XrsrRandom_nextInt_def nextInt32_eq Let_def lemire_value_eq [OF b] k)
qed

lemma nextInt_None:
  fixes b :: u32
  assumes b: "0 < b" and rej: "\<And>i. \<not> lemire_accepts b (xrsr_draw r i)"
  shows "XrsrRandom_nextInt b r = None"
proof -
  have "unat (ucast b :: u64) = unat b" using u32_bound [of b] by (simp add: unat_ucast_mod)
  then have "((ucast (xrsr_draw r 0) :: u64) * ucast b) AND 0xFFFFFFFF < ucast b"
    using small_low_iff [OF b rej [of 0]] by (simp only: word_less_nat_alt lemire_low)
  moreover have "XrsrRandom_reject b ((NOT b + 1) mod b) (ucast (xrsr_draw r 0) * ucast b) (xrsr_next r) = None"
    using xrsr_reject_some [of b _ _ "xrsr_next r"] b rej by (metis not_None_eq)
  ultimately show ?thesis
    by (simp add: XrsrRandom_nextInt_def nextInt32_eq Let_def)
qed

text \<open>
  A bounded draw returns exactly when some draw of the stream is accepted, and then it is the
  value of the first accepted draw.
\<close>

theorem nextInt_first_accepted:
  fixes b :: u32
  assumes "0 < b"
  shows "XrsrRandom_nextInt b r =
     (if \<exists>k. lemire_accepts b (xrsr_draw r k)
      then let k = LEAST k. lemire_accepts b (xrsr_draw r k)
           in Some (lemire_value b (xrsr_draw r k), (xrsr_next ^^ Suc k) r)
      else None)"
proof (cases "\<exists>k. lemire_accepts b (xrsr_draw r k)")
  case True
  have "XrsrRandom_nextInt b r = Some (lemire_value b (xrsr_draw r (LEAST k. lemire_accepts b (xrsr_draw r k))),
      (xrsr_next ^^ Suc (LEAST k. lemire_accepts b (xrsr_draw r k))) r)"
    by (rule nextInt_Some [OF assms]) (use True in \<open>auto dest: not_less_Least intro: LeastI_ex\<close>)
  with True show ?thesis by (simp only: if_True Let_def)
next
  case False
  then show ?thesis using nextInt_None [OF assms, of r] by simp
qed

lemma nextInt_less:
  fixes b :: u32
  assumes "0 < b" "XrsrRandom_nextInt b r = Some (v, r')"
  shows "v < b"
  using assms lemire_value_less by (auto simp: nextInt_first_accepted Let_def split: if_splits)

lemma nextInt_valid:
  fixes b :: u32
  assumes "0 < b" "XrsrRandom_nextInt b r = Some (v, r')" "xrsr_valid r"
  shows "xrsr_valid r'"
proof -
  have "xrsr_valid ((xrsr_next ^^ k) r)" for k using assms(3) by (induction k) auto
  then show ?thesis
    using assms(1,2) by (auto simp: nextInt_first_accepted Let_def simp del: funpow.simps split: if_splits)
qed

lemma nextIntFast_eq: "0 < b \<Longrightarrow> XrsrRandom_nextIntFast b r = (lemire_value b (xrsr_draw r 0), xrsr_next r)"
  by (simp add: XrsrRandom_nextIntFast_def nextInt32_eq Let_def lemire_value_eq)

lemma accepts_power_of_two:
  assumes "unat b = 2 ^ n" "n \<le> 32"
  shows "lemire_accepts b l"
proof -
  have "(2::nat) ^ 32 mod 2 ^ n = 0"
    using assms(2) by (metis dvd_imp_mod_0 le_imp_power_dvd)
  then show ?thesis by (simp add: lemire_accepts_def assms(1))
qed


lemma card_multiples_in_interval:
  fixes a b q :: nat
  assumes "0 < b"
  shows "card {l. a \<le> l * b \<and> l * b < a + b * q} = q"
proof -
  define c where "c = (a + (b - 1)) div b"
  have le: "a \<le> l * b \<longleftrightarrow> c \<le> l" for l
  proof -
    have "c \<le> l \<longleftrightarrow> a + (b - 1) < Suc l * b"
      unfolding c_def less_Suc_eq_le [symmetric] using assms by (simp only: div_less_iff_less_mult)
    then show ?thesis using assms by auto
  qed
  have less: "l * b < a + b * q \<longleftrightarrow> l < c + q" for l
  proof (cases "q \<le> l")
    case True
    have "l * b < a + b * q \<longleftrightarrow> (l - q) * b < a"
      using True by (metis add.commute diff_mult_distrib le_add_diff_inverse2 less_diff_conv2 mult.commute mult_le_mono1)
    also have "\<dots> \<longleftrightarrow> l - q < c" using le [of "l - q"] by linarith
    finally show ?thesis using True by linarith
  next
    case False
    then have "l * b < q * b" using assms by simp
    then have "l * b < a + b * q" by (simp add: mult.commute trans_less_add2)
    with False show ?thesis by simp
  qed
  have "{l. a \<le> l * b \<and> l * b < a + b * q} = {c..<c + q}"
    by (auto simp: le less)
  then show ?thesis by simp
qed

lemma lemire_value_card:
  fixes b :: u32 and v :: nat
  assumes "0 < b" "v < unat b"
  shows "card {l :: u32. lemire_accepts b l \<and> unat (lemire_value b l) = v} = 2 ^ 32 div unat b"
proof -
  define t where "t = (2::nat) ^ 32 mod unat b"
  define q where "q = (2::nat) ^ 32 div unat b"
  have p: "0 < unat b" using assms(1) by (simp add: word_less_nat_alt)
  have split: "2 ^ 32 = t + unat b * q" unfolding t_def q_def by (rule mod_mult_div_eq [symmetric])
  let ?S = "{l. v * 2 ^ 32 + t \<le> l * unat b \<and> l * unat b < (v * 2 ^ 32 + t) + unat b * q}"
  have S: "l \<in> ?S \<longleftrightarrow> (l * unat b) div 2 ^ 32 = v \<and> t \<le> (l * unat b) mod 2 ^ 32" for l
  proof -
    have e: "(l * unat b) = (l * unat b) div 2 ^ 32 * 2 ^ 32 + (l * unat b) mod 2 ^ 32" by simp
    have m: "(l * unat b) mod 2 ^ 32 < 2 ^ 32" by simp
    define d r where "d = (l * unat b) div 2 ^ 32" and "r = (l * unat b) mod 2 ^ 32"
    define W where "W = (2::nat) ^ 32"
    have "v * W + t \<le> d * W + r \<and> d * W + r < v * W + W \<longleftrightarrow> d = v \<and> t \<le> r" if "r < W"
    proof -
      consider "d < v" | "d = v" | "v < d" by linarith
      then show ?thesis
      proof cases
        case 1
        then have "(d + 1) * W \<le> v * W" by (intro mult_le_mono1) simp
        with 1 that show ?thesis by simp
      next
        case 3
        then have "(v + 1) * W \<le> d * W" by (intro mult_le_mono1) simp
        with 3 that show ?thesis by simp
      qed (use that in auto)
    qed
    with m e show ?thesis
      using split by (simp only: mem_Collect_eq d_def r_def W_def add.assoc)
  qed
  have small: "l < 2 ^ 32" if "l \<in> ?S" for l
  proof (rule ccontr)
    assume "\<not> l < 2 ^ 32"
    then have "2 ^ 32 * unat b \<le> l * unat b" by (simp only: not_less mult_le_mono1)
    then have "unat b \<le> (l * unat b) div 2 ^ 32"
      by (simp only: less_eq_div_iff_mult_less_eq zero_less_power zero_less_numeral mult.commute)
    with that S [of l] assms(2) show False by linarith
  qed
  have "{l :: u32. lemire_accepts b l \<and> unat (lemire_value b l) = v} = {l. unat l \<in> ?S}"
    by (simp only: S) (simp only: lemire_accepts_def unat_lemire_value [OF assms(1)] t_def conj_commute)
  moreover have "bij_betw unat {l :: u32. unat l \<in> ?S} ?S"
  proof (rule bij_betwI')
    fix y assume "y \<in> ?S"
    then have "unat (of_nat y :: u32) = y" using small [of y] by (simp add: unat_of_nat)
    with \<open>y \<in> ?S\<close> show "\<exists>x\<in>{l :: u32. unat l \<in> ?S}. y = unat x"
      by (intro bexI [of _ "of_nat y"]) simp_all
  qed (auto intro: word_unat_eq_iff [THEN iffD2])
  ultimately have "card {l :: u32. lemire_accepts b l \<and> unat (lemire_value b l) = v} = card ?S"
    by (simp only: bij_betw_same_card)
  then show ?thesis
    using card_multiples_in_interval [OF p, of "v * 2 ^ 32 + t" q] by (simp only: q_def)
qed

text \<open>
  Bounded draws are unbiased: every result below the bound comes from the same number
  \<open>2^32 div bound\<close> of accepted 32-bit draws.
\<close>

theorem nextInt_unbiased:
  fixes b :: u32 and v :: nat
  assumes "0 < b" "v < unat b"
  shows "card {l :: u32. lemire_accepts b l \<and> unat (lemire_value b l) = v} = 2 ^ 32 div unat b"
  by (rule lemire_value_card [OF assms])

lemma nextInt_unbiased_witness:
  "card {l :: u32. lemire_accepts 6 l \<and> unat (lemire_value 6 l) = 5} = 715827882"
  using nextInt_unbiased [of 6 5] by simp

section \<open>How rare rejections are\<close>

lemma card_lemire_rejected:
  fixes b :: u32
  assumes "0 < b"
  shows "card {l. \<not> lemire_accepts b l} = 2 ^ 32 mod unat b"
proof -
  let ?V = "\<lambda>v. {l :: u32. lemire_accepts b l \<and> unat (lemire_value b l) = v}"
  have "{l. lemire_accepts b l} = (\<Union>v<unat b. ?V v)"
    using lemire_value_less [OF assms] by (auto simp: word_less_nat_alt)
  then have "card {l. lemire_accepts b l} = card (\<Union>v<unat b. ?V v)" by simp
  also have "\<dots> = (\<Sum>v<unat b. card (?V v))"
    by (rule card_UN_disjoint) auto
  also have "\<dots> = unat b * (2 ^ 32 div unat b)"
    using lemire_value_card [OF assms] by simp
  finally have acc: "card {l. lemire_accepts b l} = unat b * (2 ^ 32 div unat b)" .
  have "{l. \<not> lemire_accepts b l} = UNIV - {l. lemire_accepts b l}" by auto
  then have "card {l. \<not> lemire_accepts b l} = card (UNIV :: u32 set) - card {l. lemire_accepts b l}"
    by (simp add: card_Diff_subset)
  also have "card (UNIV :: u32 set) = 2 ^ 32" by (simp add: card_word)
  finally show ?thesis unfolding acc by (simp only: minus_mult_div_eq_mod)
qed

lemma finite_XrsrRandom: "finite (A :: XrsrRandom set)"
proof (rule inj_on_finite [where f = "\<lambda>r. (x_lo r, x_hi r)" and B = UNIV])
  show "inj_on (\<lambda>r. (x_lo r, x_hi r)) A" by (rule inj_onI) simp
qed auto

lemma xrsr_steps_inject: "inj (xrsr_next ^^ k)"
proof (induction k)
  case (Suc k)
  have "inj xrsr_next" by (rule injI) (simp only: xrsr_next_inject)
  with Suc show ?case by (simp only: funpow.simps inj_compose)
qed simp

lemma card_draw_rejected:
  fixes b :: u32
  assumes "0 < b"
  shows "card {r. \<not> lemire_accepts b (xrsr_draw r k)} \<le> 2 ^ 96 * (2 ^ 32 mod unat b)"
proof -
  let ?R = "{l :: u32. \<not> lemire_accepts b l}"
  let ?n = "\<lambda>r. fst (XrsrRandom_nextInternal r)"
  let ?f = "\<lambda>r. (x_lo r, (ucast (drop_bit 32 (?n r)) :: u32), (ucast (?n r) :: u32))"
  have halves: "x = y" if "(ucast x :: u32) = ucast y" "(ucast (drop_bit 32 x) :: u32) = ucast (drop_bit 32 y)" for x y :: u64
  proof (rule bit_word_eqI)
    fix i assume "i < LENGTH(64)"
    then have i: "i < 64" by simp
    show "bit x i = bit y i"
    proof (cases "i < 32")
      case True
      then show ?thesis using arg_cong [OF that(1), of "\<lambda>w. bit w i"] by (simp add: bit_ucast_iff)
    next
      case False
      then have "i - 32 < 32" using i by linarith
      with False show ?thesis using i arg_cong [OF that(2), of "\<lambda>w. bit w (i - 32)"]
        by (simp add: bit_ucast_iff bit_drop_bit_eq)
    qed
  qed
  have inj: "inj ?f"
  proof (rule injI)
    fix r q assume e: "?f r = ?f q"
    then have lo: "x_lo r = x_lo q" and n: "?n r = ?n q" by (auto intro: halves)
    from n have "rol64 (x_lo r + x_hi r) 17 = rol64 (x_lo r + x_hi q) 17"
      by (simp add: nextInternal_eq lo)
    then have "x_hi r = x_hi q" by (simp add: rol64_inject)
    with lo show "r = q" by simp
  qed
  have draw: "xrsr_draw r 0 = ucast (?n r)" for r
    by (simp add: xrsr_draw_def XrsrRandom_nextInt32_def split_def Let_def)
  have "card {r. \<not> lemire_accepts b (xrsr_draw r 0)} \<le> card ((UNIV :: u64 set) \<times> (UNIV :: u32 set) \<times> ?R)"
  proof (rule card_inj_on_le)
    show "inj_on ?f {r. \<not> lemire_accepts b (xrsr_draw r 0)}" using inj by (rule inj_on_subset) simp
    show "?f ` {r. \<not> lemire_accepts b (xrsr_draw r 0)} \<subseteq> UNIV \<times> UNIV \<times> ?R" by (auto simp: draw)
  qed simp
  also have "\<dots> = 2 ^ 96 * (2 ^ 32 mod unat b)"
    by (simp add: card_cartesian_product card_word card_lemire_rejected [OF assms])
  finally have one: "card {r. \<not> lemire_accepts b (xrsr_draw r 0)} \<le> 2 ^ 96 * (2 ^ 32 mod unat b)" .
  have "card {r. \<not> lemire_accepts b (xrsr_draw r k)} \<le> card {r. \<not> lemire_accepts b (xrsr_draw r 0)}"
  proof (rule card_inj_on_le)
    show "inj_on (xrsr_next ^^ k) {r. \<not> lemire_accepts b (xrsr_draw r k)}"
      using xrsr_steps_inject by (rule inj_on_subset) simp
    show "(xrsr_next ^^ k) ` {r. \<not> lemire_accepts b (xrsr_draw r k)} \<subseteq> {r. \<not> lemire_accepts b (xrsr_draw r 0)}"
      by (auto simp: xrsr_draw_def)
    show "finite {r. \<not> lemire_accepts b (xrsr_draw r 0)}" by (rule finite_XrsrRandom)
  qed
  with one show ?thesis by linarith
qed

end
