(* ===== verification/WorldgenRandom.thy ===== *)
theory WorldgenRandom
  imports JavaRandom Xoroshiro
begin

text \<open>
  The class template \<open>WorldgenRandom<R>\<close> of \<open>src/src/Random.h\<close>: Minecraft's world generation
  random, which draws everything from the \<open>nextBits\<close> of a base generator \<open>R\<close>. The template
  parameter is the record \<open>BaseRandom\<close> of the two operations the class calls; what the class needs
  of them is the locale \<open>bit_source\<close> (a draw of \<open>bits\<close> bits is below \<open>2 ^ bits\<close>) and, for the
  rejection loop of \<open>nextInt\<close> to end, \<open>recurrent_bit_source\<close> (a zero is drawn sooner or later).
  Both are interpreted on the generators of \<open>Random.h\<close>. Where C++ leaves the order of the two
  draws of \<open>nextLong\<close> open, the model draws the high half first, as Minecraft does. The product
  \<open>chunk_x * 16\<close> of \<open>getDecorationSeed13\<close> is taken modulo \<open>2 ^ 32\<close>.
\<close>

section \<open>Definitions\<close>

record 'r BaseRandom =
  base_setSeed :: "u64 \<Rightarrow> 'r \<Rightarrow> 'r"
  base_nextBits :: "nat \<Rightarrow> 'r \<Rightarrow> u32 \<times> 'r"

record 'r WorldgenRandom =
  base_random :: 'r

definition WorldgenRandom_setSeed :: "'r BaseRandom \<Rightarrow> u64 \<Rightarrow> 'r WorldgenRandom \<Rightarrow> 'r WorldgenRandom" where
  "WorldgenRandom_setSeed R s this = this\<lparr>base_random := base_setSeed R s (base_random this)\<rparr>"

definition WorldgenRandom_nextBits :: "'r BaseRandom \<Rightarrow> nat \<Rightarrow> 'r WorldgenRandom \<Rightarrow> u32 \<times> 'r WorldgenRandom" where
  "WorldgenRandom_nextBits R bits this =
     (let (b, r) = base_nextBits R bits (base_random this) in (b, this\<lparr>base_random := r\<rparr>))"

definition WorldgenRandom_nextInt32 :: "'r BaseRandom \<Rightarrow> 'r WorldgenRandom \<Rightarrow> u32 \<times> 'r WorldgenRandom" where
  "WorldgenRandom_nextInt32 R this = WorldgenRandom_nextBits R 32 this"

partial_function (option) WorldgenRandom_reject ::
    "'r BaseRandom \<Rightarrow> u32 \<Rightarrow> u32 \<Rightarrow> 'r WorldgenRandom \<Rightarrow> (u32 \<times> 'r WorldgenRandom) option" where
  "WorldgenRandom_reject R bound u this =
     (let r = u mod bound; m = bound - 1
      in if sint (u - r + m) < 0
         then WorldgenRandom_reject R bound (fst (WorldgenRandom_nextBits R 31 this)) (snd (WorldgenRandom_nextBits R 31 this))
         else Some (r, this))"

definition WorldgenRandom_nextInt :: "'r BaseRandom \<Rightarrow> u32 \<Rightarrow> 'r WorldgenRandom \<Rightarrow> (u32 \<times> 'r WorldgenRandom) option" where
  "WorldgenRandom_nextInt R bound this =
     (let (r, this') = WorldgenRandom_nextBits R 31 this; m = bound - 1
      in if bound AND m = 0
         then Some (ucast (drop_bit 31 ((ucast bound :: u64) * ucast r)), this')
         else WorldgenRandom_reject R bound r this')"

definition WorldgenRandom_nextIntFast :: "'r BaseRandom \<Rightarrow> u32 \<Rightarrow> 'r WorldgenRandom \<Rightarrow> u32 \<times> 'r WorldgenRandom" where
  "WorldgenRandom_nextIntFast R bound this =
     (let (r, this') = WorldgenRandom_nextBits R 31 this; m = bound - 1
      in if bound AND m = 0
         then (ucast (drop_bit 31 ((ucast bound :: u64) * ucast r)), this')
         else (r mod bound, this'))"

definition WorldgenRandom_nextLong :: "'r BaseRandom \<Rightarrow> 'r WorldgenRandom \<Rightarrow> u64 \<times> 'r WorldgenRandom" where
  "WorldgenRandom_nextLong R this =
     (let (a, this1) = WorldgenRandom_nextBits R 32 this;
          (b, this2) = WorldgenRandom_nextBits R 32 this1
      in (push_bit 32 (ucast a) + scast b, this2))"

definition WorldgenRandom_nextBoolean :: "'r BaseRandom \<Rightarrow> 'r WorldgenRandom \<Rightarrow> bool \<times> 'r WorldgenRandom" where
  "WorldgenRandom_nextBoolean R this =
     (let (b, this') = WorldgenRandom_nextBits R 1 this in (b \<noteq> 0, this'))"

definition WorldgenRandom_nextFloat :: "'r BaseRandom \<Rightarrow> 'r WorldgenRandom \<Rightarrow> rat \<times> 'r WorldgenRandom" where
  "WorldgenRandom_nextFloat R this =
     (let (b, this') = WorldgenRandom_nextBits R 24 this in (of_nat (unat b) / 2 ^ 24, this'))"

definition WorldgenRandom_nextDouble :: "'r BaseRandom \<Rightarrow> 'r WorldgenRandom \<Rightarrow> rat \<times> 'r WorldgenRandom" where
  "WorldgenRandom_nextDouble R this =
     (let (a, this1) = WorldgenRandom_nextBits R 26 this;
          (b, this2) = WorldgenRandom_nextBits R 27 this1
      in (of_nat (unat (push_bit 27 (ucast a :: u64) + ucast b)) / 2 ^ 53, this2))"

definition getDecorationSeed12 ::
    "'r BaseRandom \<Rightarrow> u64 \<Rightarrow> u32 \<Rightarrow> u32 \<Rightarrow> 'r WorldgenRandom \<Rightarrow> u64 \<times> 'r WorldgenRandom" where
  "getDecorationSeed12 R world_seed chunk_x chunk_z this =
     (let this0 = WorldgenRandom_setSeed R world_seed this;
          (la, this1) = WorldgenRandom_nextLong R this0;
          a = word_of_int (sint la sdiv 2 * 2 + 1);
          (lb, this2) = WorldgenRandom_nextLong R this1;
          b = word_of_int (sint lb sdiv 2 * 2 + 1)
      in ((scast chunk_x * a + scast chunk_z * b) XOR world_seed, this2))"

definition getDecorationSeed13 ::
    "'r BaseRandom \<Rightarrow> u64 \<Rightarrow> u32 \<Rightarrow> u32 \<Rightarrow> 'r WorldgenRandom \<Rightarrow> u64 \<times> 'r WorldgenRandom" where
  "getDecorationSeed13 R world_seed chunk_x chunk_z this =
     (let this0 = WorldgenRandom_setSeed R world_seed this;
          (la, this1) = WorldgenRandom_nextLong R this0;
          a = la OR 1;
          (lb, this2) = WorldgenRandom_nextLong R this1;
          b = lb OR 1
      in ((scast (chunk_x * 16) * a + scast (chunk_z * 16) * b) XOR world_seed, this2))"

definition setFeatureSeed :: "'r BaseRandom \<Rightarrow> u64 \<Rightarrow> u32 \<Rightarrow> 'r WorldgenRandom \<Rightarrow> 'r WorldgenRandom" where
  "setFeatureSeed R decoration_seed salt this =
     WorldgenRandom_setSeed R (decoration_seed + ucast salt) this"

definition setFeatureSeed12 ::
    "'r BaseRandom \<Rightarrow> u64 \<Rightarrow> u32 \<Rightarrow> u32 \<Rightarrow> u32 \<Rightarrow> 'r WorldgenRandom \<Rightarrow> 'r WorldgenRandom" where
  "setFeatureSeed12 R world_seed chunk_x chunk_z salt this =
     (let (d, this') = getDecorationSeed12 R world_seed chunk_x chunk_z this
      in setFeatureSeed R d salt this')"

definition setFeatureSeed13 ::
    "'r BaseRandom \<Rightarrow> u64 \<Rightarrow> u32 \<Rightarrow> u32 \<Rightarrow> u32 \<Rightarrow> 'r WorldgenRandom \<Rightarrow> 'r WorldgenRandom" where
  "setFeatureSeed13 R world_seed chunk_x chunk_z salt this =
     (let (d, this') = getDecorationSeed13 R world_seed chunk_x chunk_z this
      in setFeatureSeed R d salt this')"

definition setLargeFeatureSeed ::
    "'r BaseRandom \<Rightarrow> u64 \<Rightarrow> u32 \<Rightarrow> u32 \<Rightarrow> 'r WorldgenRandom \<Rightarrow> 'r WorldgenRandom" where
  "setLargeFeatureSeed R world_seed chunk_x chunk_z this =
     (let this0 = WorldgenRandom_setSeed R world_seed this;
          (a, this1) = WorldgenRandom_nextLong R this0;
          (b, this2) = WorldgenRandom_nextLong R this1
      in WorldgenRandom_setSeed R ((scast chunk_x * a XOR scast chunk_z * b) XOR world_seed) this2)"

definition setLargeFeatureWithSalt ::
    "'r BaseRandom \<Rightarrow> u64 \<Rightarrow> u32 \<Rightarrow> u32 \<Rightarrow> u32 \<Rightarrow> 'r WorldgenRandom \<Rightarrow> 'r WorldgenRandom" where
  "setLargeFeatureWithSalt R world_seed region_x region_z salt this =
     WorldgenRandom_setSeed R
       (scast region_x * 341873128712 + scast region_z * 132897987541 + world_seed + scast salt) this"

definition JavaBase :: "JavaRandom BaseRandom" where
  "JavaBase = \<lparr>base_setSeed = JavaRandom_setSeed, base_nextBits = JavaRandom_nextBits 1\<rparr>"

definition XrsrBase :: "XrsrRandom BaseRandom" where
  "XrsrBase = \<lparr>base_setSeed = (\<lambda>s _. XrsrRandom_setSeed s),
     base_nextBits = (\<lambda>bits r. let (b, r') = XrsrRandom_nextBits bits r in (ucast b, r'))\<rparr>"

section \<open>What the class needs of its base generator\<close>

locale bit_source =
  fixes R :: "'r BaseRandom"
  assumes base_bound: "bits \<le> 32 \<Longrightarrow> unat (fst (base_nextBits R bits r)) < 2 ^ bits"
begin

lemma wg_bound: "bits \<le> 32 \<Longrightarrow> unat (fst (WorldgenRandom_nextBits R bits w)) < 2 ^ bits"
  using base_bound [of bits "base_random w"] by (simp add: WorldgenRandom_nextBits_def split_def Let_def)

lemma nextIntFast_less:
  assumes "bound \<noteq> 0"
  shows "unat (fst (WorldgenRandom_nextIntFast R bound w)) < unat bound"
proof -
  obtain u w' where uw: "WorldgenRandom_nextBits R 31 w = (u, w')" by (cases "WorldgenRandom_nextBits R 31 w")
  have "unat u < 2 ^ 31" using wg_bound [of 31 w] uw by simp
  from pow2_branch_bound [OF this assms] show ?thesis
    using assms by (simp add: WorldgenRandom_nextIntFast_def uw Let_def unat_mod unat_gt_0)
qed

lemma nextFloat_unit: "0 \<le> fst (WorldgenRandom_nextFloat R w) \<and> fst (WorldgenRandom_nextFloat R w) < 1"
proof -
  have "unat (fst (WorldgenRandom_nextBits R 24 w)) < 2 ^ 24" by (rule wg_bound) simp
  then have "(of_nat (unat (fst (WorldgenRandom_nextBits R 24 w))) :: rat) < 2 ^ 24"
    by (metis of_nat_less_iff of_nat_numeral of_nat_power)
  moreover have "0 \<le> (of_nat (unat (fst (WorldgenRandom_nextBits R 24 w))) :: rat)" by (rule of_nat_0_le_iff)
  ultimately show ?thesis by (simp add: WorldgenRandom_nextFloat_def split_def Let_def)
qed

lemma nextDouble_unit: "0 \<le> fst (WorldgenRandom_nextDouble R w) \<and> fst (WorldgenRandom_nextDouble R w) < 1"
proof -
  obtain a w1 where a: "WorldgenRandom_nextBits R 26 w = (a, w1)" by (cases "WorldgenRandom_nextBits R 26 w")
  obtain b w2 where b: "WorldgenRandom_nextBits R 27 w1 = (b, w2)" by (cases "WorldgenRandom_nextBits R 27 w1")
  have ab: "unat a < 2 ^ 26" "unat b < 2 ^ 27"
    using wg_bound [of 26 w] wg_bound [of 27 w1] a b by simp_all
  have "unat (push_bit 27 (ucast a :: u64) + ucast b) \<le> unat (push_bit 27 (ucast a :: u64)) + unat (ucast b :: u64)"
    by (simp only: unat_word_ariths(1) mod_less_eq_dividend)
  also have "unat (push_bit 27 (ucast a :: u64)) = 2 ^ 27 * unat a"
    using ab(1) by (simp add: push_bit_eq_mult unat_word_ariths unat_ucast_mod)
  also have "unat (ucast b :: u64) = unat b"
    using u32_bound [of b] by (simp add: unat_ucast_mod)
  finally have "unat (push_bit 27 (ucast a :: u64) + ucast b) < 2 ^ 53"
    using ab by simp
  then have "(of_nat (unat (push_bit 27 (ucast a :: u64) + ucast b)) :: rat) < 2 ^ 53"
    by (metis of_nat_less_iff of_nat_numeral of_nat_power)
  moreover have "0 \<le> (of_nat (unat (push_bit 27 (ucast a :: u64) + ucast b)) :: rat)" by (rule of_nat_0_le_iff)
  ultimately show ?thesis by (simp add: WorldgenRandom_nextDouble_def a b)
qed

end


definition wg_draw_step :: "'r BaseRandom \<Rightarrow> 'r WorldgenRandom \<Rightarrow> 'r WorldgenRandom" where
  "wg_draw_step R w = snd (WorldgenRandom_nextBits R 31 w)"

locale recurrent_bit_source = bit_source +
  assumes eventually_zero: "\<exists>k. fst (WorldgenRandom_nextBits R 31 ((wg_draw_step R ^^ k) w)) = 0"
begin

lemma wg_reject_returns:
  assumes "bound \<noteq> 0" "unat bound \<le> 2 ^ 31"
    and "fst (WorldgenRandom_nextBits R 31 ((wg_draw_step R ^^ k) w)) = 0"
  shows "\<exists>r q. WorldgenRandom_reject R bound u w = Some (r, q) \<and> unat r < unat bound"
  using assms(3)
proof (induction k arbitrary: u w)
  case 0
  then show ?case
    using reject_accepts_zero [OF assms(1,2)] assms(1)
    by (subst WorldgenRandom_reject.simps, simp add: Let_def, subst WorldgenRandom_reject.simps)
       (simp add: Let_def unat_mod unat_gt_0)
next
  case (Suc k)
  then have "fst (WorldgenRandom_nextBits R 31 ((wg_draw_step R ^^ k) (snd (WorldgenRandom_nextBits R 31 w)))) = 0"
    by (simp only: wg_draw_step_def [symmetric] funpow_apply_Suc)
  from Suc.IH [OF this] show ?case
    using assms(1) by (subst WorldgenRandom_reject.simps) (auto simp: Let_def unat_mod unat_gt_0 intro: mod_less_divisor)
qed

lemma nextInt_returns:
  assumes "bound \<noteq> 0" "unat bound \<le> 2 ^ 31"
  shows "\<exists>r q. WorldgenRandom_nextInt R bound w = Some (r, q) \<and> unat r < unat bound"
proof -
  obtain u w' where uw: "WorldgenRandom_nextBits R 31 w = (u, w')" by (cases "WorldgenRandom_nextBits R 31 w")
  have u: "unat u < 2 ^ 31" using wg_bound [of 31 w] uw by simp
  obtain k where "fst (WorldgenRandom_nextBits R 31 ((wg_draw_step R ^^ k) w')) = 0"
    using eventually_zero by blast
  from wg_reject_returns [OF assms this] show ?thesis
    using pow2_branch_bound [OF u assms(1)] by (auto simp: WorldgenRandom_nextInt_def uw Let_def)
qed

end

section \<open>The two generators as bases\<close>

lemma JavaBase_nextBits: "base_nextBits JavaBase bits r = JavaRandom_nextBits 1 bits r"
  by (simp add: JavaBase_def)

lemma wg_java_step: "base_random ((wg_draw_step JavaBase ^^ k) w) = (jr_step ^^ k) (base_random w)"
  by (induction k arbitrary: w)
    (simp_all add: wg_draw_step_def WorldgenRandom_nextBits_def JavaBase_nextBits split_def Let_def nextBits_state JavaRandom_skip_one)

lemma java_bound: "bits \<le> 32 \<Longrightarrow> unat (fst (base_nextBits JavaBase bits r)) < 2 ^ bits"
  by (simp only: JavaBase_nextBits nextBits_bound)

lemma java_eventually_zero: "\<exists>k. fst (WorldgenRandom_nextBits JavaBase 31 ((wg_draw_step JavaBase ^^ k) w)) = 0"
proof -
  have "jr_valid (jr_step (base_random w))" "jr_valid (JavaRandom_withSeed 0)"
    by (simp_all add: jr_step_def) (simp add: jr_valid_def JavaRandom_withSeed_def)
  then obtain k where "(jr_step ^^ k) (jr_step (base_random w)) = JavaRandom_withSeed 0"
    by (rule jr_reaches)
  then have "jr_seed (jr_step ((jr_step ^^ k) (base_random w))) = 0"
    by (simp add: funpow_swap1 JavaRandom_withSeed_def)
  then have "fst (JavaRandom_nextBits 1 31 ((jr_step ^^ k) (base_random w))) = 0"
    by (simp add: nextBits_of_zero)
  then show ?thesis
    by (intro exI [of _ k]) (simp add: WorldgenRandom_nextBits_def JavaBase_nextBits split_def Let_def wg_java_step)
qed

interpretation java_bits: recurrent_bit_source JavaBase
  by unfold_locales (rule java_bound, assumption, rule java_eventually_zero)

lemma xrsr_bits_bound:
  assumes "bits \<le> 32"
  shows "unat (fst (base_nextBits XrsrBase bits r)) < 2 ^ bits"
proof -
  let ?x = "fst (XrsrRandom_nextInternal r)"
  have "unat ?x < 2 ^ (64 - bits) * 2 ^ bits"
    using u64_bound [of ?x] assms by (simp flip: power_add)
  then have "unat ?x div 2 ^ (64 - bits) < 2 ^ bits"
    by (simp add: less_mult_imp_div_less mult.commute)
  moreover have "unat ?x div 2 ^ (64 - bits) mod 2 ^ 32 \<le> unat ?x div 2 ^ (64 - bits)"
    by (rule mod_less_eq_dividend)
  ultimately show ?thesis
    by (simp add: XrsrBase_def XrsrRandom_nextBits_def split_def Let_def unat_ucast_mod unat_drop_div)
qed

interpretation xrsr_bits: bit_source XrsrBase
  by unfold_locales (rule xrsr_bits_bound)

text \<open>
  Over either generator of \<open>Random.h\<close>, the floating-point draws lie in \<open>[0, 1)\<close> and the fast
  bounded draw is below its bound.
\<close>

theorem worldgen_draws_in_range:
  assumes "bound \<noteq> 0"
  shows "fst (WorldgenRandom_nextFloat XrsrBase w) \<in> {0..<1} \<and>
         fst (WorldgenRandom_nextDouble XrsrBase w) \<in> {0..<1} \<and>
         unat (fst (WorldgenRandom_nextIntFast XrsrBase bound w)) < unat bound \<and>
         fst (WorldgenRandom_nextFloat JavaBase v) \<in> {0..<1} \<and>
         fst (WorldgenRandom_nextDouble JavaBase v) \<in> {0..<1} \<and>
         unat (fst (WorldgenRandom_nextIntFast JavaBase bound v)) < unat bound"
  using assms by (simp add: xrsr_bits.nextFloat_unit xrsr_bits.nextDouble_unit xrsr_bits.nextIntFast_less
      java_bits.nextFloat_unit java_bits.nextDouble_unit java_bits.nextIntFast_less)

lemma worldgen_draws_in_range_witness:
  "unat (fst (WorldgenRandom_nextIntFast XrsrBase 7 \<lparr>base_random = XrsrRandom_setSeed 1\<rparr>)) < unat (7 :: u32)"
  using worldgen_draws_in_range [of 7 "\<lparr>base_random = XrsrRandom_setSeed 1\<rparr>" "\<lparr>base_random = JavaRandom_withSeed 0\<rparr>"]
  by simp

section \<open>Wrapping the Java generator\<close>

definition wg_java :: "('a \<times> JavaRandom) \<Rightarrow> ('a \<times> JavaRandom WorldgenRandom)" where
  "wg_java = (\<lambda>(a, r). (a, \<lparr>base_random = r\<rparr>))"

lemma wg_java_nextBits:
  "WorldgenRandom_nextBits JavaBase bits \<lparr>base_random = r\<rparr> = wg_java (JavaRandom_nextBits 1 bits r)"
  by (simp add: WorldgenRandom_nextBits_def JavaBase_nextBits wg_java_def split_def Let_def)

lemma wg_java_reject_1:
  assumes "JavaRandom_reject bound u r = Some y"
  shows "WorldgenRandom_reject JavaBase bound u \<lparr>base_random = r\<rparr> = Some (wg_java y)"
  by (rule JavaRandom_reject.raw_induct [where P = "\<lambda>bound u r y.
        WorldgenRandom_reject JavaBase bound u \<lparr>base_random = r\<rparr> = Some (wg_java y)", OF _ assms])
    (subst WorldgenRandom_reject.simps,
      auto simp: Let_def wg_java_nextBits wg_java_def split_def split: if_splits)

lemma wg_java_reject_2:
  assumes "WorldgenRandom_reject R bound u w = Some y"
  shows "R = JavaBase \<longrightarrow> JavaRandom_reject bound u (base_random w) \<noteq> None"
  by (rule WorldgenRandom_reject.raw_induct [where P = "\<lambda>R bound u w y.
        R = JavaBase \<longrightarrow> JavaRandom_reject bound u (base_random w) \<noteq> None", OF _ assms])
    (subst JavaRandom_reject.simps,
      fastforce simp: Let_def WorldgenRandom_nextBits_def JavaBase_nextBits split_def split: if_splits)

lemma wg_java_reject:
  "WorldgenRandom_reject JavaBase bound u \<lparr>base_random = r\<rparr> = map_option wg_java (JavaRandom_reject bound u r)"
  using wg_java_reject_1 [of bound u r] wg_java_reject_2 [of JavaBase bound u "\<lparr>base_random = r\<rparr>"]
  by (cases "JavaRandom_reject bound u r"; cases "WorldgenRandom_reject JavaBase bound u \<lparr>base_random = r\<rparr>") auto

text \<open>
  \<open>WorldgenRandom<JavaRandom>\<close> draws exactly the values of the \<open>JavaRandom\<close> it wraps, and leaves
  it in the same state, for every bound, the diverging ones included.
\<close>

theorem worldgen_java_draws:
  "WorldgenRandom_nextInt JavaBase bound \<lparr>base_random = r\<rparr> = map_option wg_java (JavaRandom_nextInt 1 bound r) \<and>
   WorldgenRandom_nextIntFast JavaBase bound \<lparr>base_random = r\<rparr> = wg_java (JavaRandom_nextIntFast 1 bound r) \<and>
   WorldgenRandom_nextLong JavaBase \<lparr>base_random = r\<rparr> = wg_java (JavaRandom_nextLong 1 r) \<and>
   WorldgenRandom_nextBoolean JavaBase \<lparr>base_random = r\<rparr> = wg_java (JavaRandom_nextBoolean 1 r) \<and>
   WorldgenRandom_nextFloat JavaBase \<lparr>base_random = r\<rparr> = wg_java (JavaRandom_nextFloat 1 r) \<and>
   WorldgenRandom_nextDouble JavaBase \<lparr>base_random = r\<rparr> = wg_java (JavaRandom_nextDouble 1 r)"
proof (intro conjI)
  have w': "wg_java (a, q) = (a, \<lparr>base_random = q\<rparr>)" for a :: u32 and q by (simp add: wg_java_def)
  have v: "wg_java (a, q) = (a, \<lparr>base_random = q\<rparr>)" for a :: u64 and q by (simp add: wg_java_def)
  have u: "wg_java (a, q) = (a, \<lparr>base_random = q\<rparr>)" for a :: bool and q by (simp add: wg_java_def)
  have t: "wg_java (a, q) = (a, \<lparr>base_random = q\<rparr>)" for a :: rat and q by (simp add: wg_java_def)
  note e = wg_java_nextBits wg_java_reject w' v u t split_def Let_def
  show "WorldgenRandom_nextInt JavaBase bound \<lparr>base_random = r\<rparr> = map_option wg_java (JavaRandom_nextInt 1 bound r)"
    by (cases "JavaRandom_nextBits 1 31 r") (simp add: WorldgenRandom_nextInt_def JavaRandom_nextInt_def e)
  show "WorldgenRandom_nextIntFast JavaBase bound \<lparr>base_random = r\<rparr> = wg_java (JavaRandom_nextIntFast 1 bound r)"
    by (cases "JavaRandom_nextBits 1 31 r") (simp add: WorldgenRandom_nextIntFast_def JavaRandom_nextIntFast_def e)
  show "WorldgenRandom_nextBoolean JavaBase \<lparr>base_random = r\<rparr> = wg_java (JavaRandom_nextBoolean 1 r)"
    by (cases "JavaRandom_nextBits 1 1 r") (simp add: WorldgenRandom_nextBoolean_def JavaRandom_nextBoolean_def e)
  show "WorldgenRandom_nextFloat JavaBase \<lparr>base_random = r\<rparr> = wg_java (JavaRandom_nextFloat 1 r)"
    by (cases "JavaRandom_nextBits 1 24 r") (simp add: WorldgenRandom_nextFloat_def JavaRandom_nextFloat_def e)
  show "WorldgenRandom_nextLong JavaBase \<lparr>base_random = r\<rparr> = wg_java (JavaRandom_nextLong 1 r)"
  proof -
    obtain a r1 where a: "JavaRandom_nextBits 1 32 r = (a, r1)" by (cases "JavaRandom_nextBits 1 32 r")
    obtain b r2 where b: "JavaRandom_nextBits 1 32 r1 = (b, r2)" by (cases "JavaRandom_nextBits 1 32 r1")
    show ?thesis by (simp add: WorldgenRandom_nextLong_def JavaRandom_nextLong_def e a b)
  qed
  show "WorldgenRandom_nextDouble JavaBase \<lparr>base_random = r\<rparr> = wg_java (JavaRandom_nextDouble 1 r)"
  proof -
    obtain a r1 where a: "JavaRandom_nextBits 1 26 r = (a, r1)" by (cases "JavaRandom_nextBits 1 26 r")
    obtain b r2 where b: "JavaRandom_nextBits 1 27 r1 = (b, r2)" by (cases "JavaRandom_nextBits 1 27 r1")
    show ?thesis by (simp add: WorldgenRandom_nextDouble_def JavaRandom_nextDouble_def e a b)
  qed
qed

section \<open>Decoration seeds\<close>

lemma odd_mult_cancel:
  fixes x y a :: "'a::len word"
  assumes "odd a" "x * a = y * a"
  shows "x = y"
proof -
  have "(x - y) * a = 0" using assms(2) by (simp add: algebra_simps)
  then have "unat (x - y) * unat a mod 2 ^ LENGTH('a) = 0"
    by (simp add: word_unat_eq_iff unat_word_ariths(2))
  then have "2 ^ LENGTH('a) dvd unat (x - y) * unat a" by (simp add: mod_eq_0_iff_dvd)
  moreover have "odd (unat a)"
    using assms(1) bit_0 [of a] bit_0 [of "unat a"] by (simp add: bit_unsigned_iff)
  then have "coprime (2 ^ LENGTH('a)) (unat a)" by simp
  ultimately have "2 ^ LENGTH('a) dvd unat (x - y)"
    by (simp add: coprime_dvd_mult_left_iff)
  then have "unat (x - y) = 0"
    using unsigned_less [of "x - y"] by (metis dvd_imp_le gr0I not_le)
  then have "x - y = 0" by (simp only: unat_0_iff)
  then show ?thesis by (simp only: right_minus_eq)
qed

lemma scast_32_64_inject: "(scast (x :: u32) :: u64) = scast y \<longleftrightarrow> x = y"
proof
  assume "(scast x :: u64) = scast y"
  moreover have "sint (scast w :: u64) = sint w" for w :: u32
    using sint_ge [of w] sint_lt [of w] by (simp add: signed_scast_eq signed_take_bit_int_eq_self)
  ultimately have "sint x = sint y" by metis
  then have "(of_int (sint x) :: u32) = of_int (sint y)" by simp
  then show "x = y" by (simp only: of_int_sint scast_id)
qed simp

lemma odd_half: "odd ((a :: u64) * 2 + 1)"
  by simp

text \<open>
  Both decoration seeds tell the chunks of a row (and of a column) apart: for a given world seed
  and one fixed coordinate, different chunks get different \<open>getDecorationSeed12\<close> values.
\<close>

theorem decorationSeed12_inject:
  "(fst (getDecorationSeed12 R seed x z w) = fst (getDecorationSeed12 R seed x' z w) \<longleftrightarrow> x = x') \<and>
   (fst (getDecorationSeed12 R seed x z w) = fst (getDecorationSeed12 R seed x z' w) \<longleftrightarrow> z = z')"
  by (auto simp: getDecorationSeed12_def split_def Let_def scast_32_64_inject
      dest!: odd_mult_cancel [OF odd_half])

end
