(* ===== verification/CubRng.thy ===== *)
theory CubRng
  imports WorldgenRandom
begin

text \<open>
  The random number generators and seed helpers of \<open>src/cubiomes/rng.h\<close>, which the CPU side of the
  program uses where the GPU side uses \<open>src/src/Random.h\<close>. A seed passed by pointer is an argument
  and a component of the result; C's \<open>int\<close> results of the generators are kept as 32-bit words, the
  \<open>int\<close> arguments of the seed helpers as integers. The lemmas relate both implementations: the same
  stream, the same bounded draws, the same skips.
\<close>

section \<open>Definitions\<close>

definition rotl64 :: "u64 \<Rightarrow> nat \<Rightarrow> u64" where
  "rotl64 x b = push_bit b x OR drop_bit (64 - b) x"

definition rotr32 :: "u32 \<Rightarrow> nat \<Rightarrow> u32" where
  "rotr32 a b = drop_bit b a OR push_bit (32 - b) a"

definition floordiv :: "int \<Rightarrow> int \<Rightarrow> int" where
  "floordiv a b =
     (let q = a sdiv b; r = a smod b
      in q - (if (a XOR b) < 0 \<and> r \<noteq> 0 then 1 else 0))"

definition cub_setSeed :: "u64 \<Rightarrow> u64" where
  "cub_setSeed value = (value XOR 0x5deece66d) AND (push_bit 48 1 - 1)"

definition cub_next :: "nat \<Rightarrow> u64 \<Rightarrow> u32 \<times> u64" where
  "cub_next bits seed =
     (let seed' = (seed * 0x5deece66d + 0xb) AND (push_bit 48 1 - 1)
      in (ucast (signed_drop_bit (48 - bits) seed'), seed'))"

partial_function (option) cub_nextInt_loop :: "u32 \<Rightarrow> u64 \<Rightarrow> (u32 \<times> u64) option" where
  "cub_nextInt_loop n seed =
     (let bits = fst (cub_next 31 seed); seed' = snd (cub_next 31 seed);
          val = word_of_int (sint bits smod sint n); m = n - 1
      in if sint (bits - val + m) < 0 then cub_nextInt_loop n seed' else Some (val, seed'))"

definition cub_nextInt :: "u32 \<Rightarrow> u64 \<Rightarrow> (u32 \<times> u64) option" where
  "cub_nextInt n seed =
     (let m = n - 1
      in if m AND n = 0
         then let (r, seed') = cub_next 31 seed; x = (scast n :: u64) * scast r
              in Some (ucast (signed_drop_bit 31 x), seed')
         else cub_nextInt_loop n seed)"

definition cub_nextLong :: "u64 \<Rightarrow> u64 \<times> u64" where
  "cub_nextLong seed =
     (let (a, seed1) = cub_next 32 seed; (b, seed2) = cub_next 32 seed1
      in (push_bit 32 (scast a) + scast b, seed2))"

definition cub_nextFloat :: "u64 \<Rightarrow> rat \<times> u64" where
  "cub_nextFloat seed =
     (let (b, seed') = cub_next 24 seed in (of_int (sint b) / of_int (2 ^ 24), seed'))"

definition cub_nextDouble :: "u64 \<Rightarrow> rat \<times> u64" where
  "cub_nextDouble seed =
     (let (a, seed1) = cub_next 26 seed;
          x = push_bit 27 (scast a :: u64);
          (b, seed2) = cub_next 27 seed1
      in (of_int (sint (x + scast b)) / 2 ^ 53, seed2))"

definition JAVA_NEXT_INT24 :: "u64 \<Rightarrow> u32 \<times> u64" where
  "JAVA_NEXT_INT24 S =
     (let a = push_bit 48 1 - 1;
          c = 0x5deece66d * S;
          c = c + 11;
          a = a AND c;
          S' = a;
          a = signed_drop_bit 17 a;
          c = 0xaaaaaaab * a;
          c = signed_drop_bit 36 c
      in (ucast a - ucast (push_bit 3 c) * 3, S'))"

function skipNextN_loop :: "u64 \<Rightarrow> u64 \<Rightarrow> u64 \<Rightarrow> u64 \<Rightarrow> u64 \<Rightarrow> u64 \<times> u64" where
  "skipNextN_loop k m a im ia =
     (if k = 0 then (m, a)
      else let (m', a') = (if k AND 1 \<noteq> 0 then (m * im, im * a + ia) else (m, a))
           in skipNextN_loop (drop_bit 1 k) m' a' (im * im) ((im + 1) * ia))"
  by pat_completeness auto
termination
  by (relation "measure (\<lambda>(k, _). unat k)") (auto simp: unat_drop_div unat_gt_0)

definition skipNextN :: "u64 \<Rightarrow> u64 \<Rightarrow> u64" where
  "skipNextN seed n =
     (let (m, a) = skipNextN_loop n 1 0 0x5deece66d 0xb
      in (seed * m + a) AND 0xffffffffffff)"

record Xoroshiro =
  xr_lo :: u64
  xr_hi :: u64

definition xSetSeed :: "u64 \<Rightarrow> Xoroshiro" where
  "xSetSeed v =
     (let XL = 0x9e3779b97f4a7c15; XH = 0x6a09e667f3bcc909;
          A = 0xbf58476d1ce4e5b9; B = 0x94d049bb133111eb;
          l = v XOR XH;
          h = l + XL;
          l = (l XOR drop_bit 30 l) * A;
          h = (h XOR drop_bit 30 h) * A;
          l = (l XOR drop_bit 27 l) * B;
          h = (h XOR drop_bit 27 h) * B;
          l = l XOR drop_bit 31 l;
          h = h XOR drop_bit 31 h
      in \<lparr>xr_lo = l, xr_hi = h\<rparr>)"

definition xNextLong :: "Xoroshiro \<Rightarrow> u64 \<times> Xoroshiro" where
  "xNextLong xr =
     (let l = xr_lo xr;
          h = xr_hi xr;
          n = rotl64 (l + h) 17 + l;
          h = h XOR l
      in (n, xr\<lparr>xr_lo := rotl64 l 49 XOR h XOR push_bit 21 h, xr_hi := rotl64 h 28\<rparr>))"

partial_function (option) xNextInt_loop :: "u32 \<Rightarrow> u64 \<Rightarrow> Xoroshiro \<Rightarrow> (u64 \<times> Xoroshiro) option" where
  "xNextInt_loop n r xr =
     (if (ucast r :: u32) < (NOT n + 1) mod n
      then xNextInt_loop n ((fst (xNextLong xr) AND 0xFFFFFFFF) * ucast n) (snd (xNextLong xr))
      else Some (r, xr))"

definition xNextInt :: "u32 \<Rightarrow> Xoroshiro \<Rightarrow> (u32 \<times> Xoroshiro) option" where
  "xNextInt n xr =
     (let (x, xr') = xNextLong xr;
          r = (x AND 0xFFFFFFFF) * ucast n
      in map_option (\<lambda>(r, q). (ucast (drop_bit 32 r), q))
           (if (ucast r :: u32) < n then xNextInt_loop n r xr' else Some (r, xr')))"

definition xNextDouble :: "Xoroshiro \<Rightarrow> rat \<times> Xoroshiro" where
  "xNextDouble xr = (let (x, xr') = xNextLong xr in (of_nat (unat (drop_bit (64 - 53) x)) / 2 ^ 53, xr'))"

definition xNextFloat :: "Xoroshiro \<Rightarrow> rat \<times> Xoroshiro" where
  "xNextFloat xr = (let (x, xr') = xNextLong xr in (of_nat (unat (drop_bit (64 - 24) x)) / 2 ^ 24, xr'))"

primrec xSkipN :: "nat \<Rightarrow> Xoroshiro \<Rightarrow> Xoroshiro" where
  "xSkipN 0 xr = xr"
| "xSkipN (Suc count) xr = xSkipN count (snd (xNextLong xr))"

definition xNextLongJ :: "Xoroshiro \<Rightarrow> u64 \<times> Xoroshiro" where
  "xNextLongJ xr =
     (let (x, xr1) = xNextLong xr; a = (ucast (drop_bit 32 x) :: u32);
          (y, xr2) = xNextLong xr1; b = (ucast (drop_bit 32 y) :: u32)
      in (push_bit 32 (scast a) + scast b, xr2))"

partial_function (option) xNextIntJ_loop :: "u32 \<Rightarrow> Xoroshiro \<Rightarrow> (u32 \<times> Xoroshiro) option" where
  "xNextIntJ_loop n xr =
     (let bits = (ucast (drop_bit 33 (fst (xNextLong xr))) :: u32); xr' = snd (xNextLong xr);
          val = bits mod n; m = n - 1
      in if sint (bits - val + m) < 0 then xNextIntJ_loop n xr' else Some (val, xr'))"

definition xNextIntJ :: "u32 \<Rightarrow> Xoroshiro \<Rightarrow> (u32 \<times> Xoroshiro) option" where
  "xNextIntJ n xr =
     (let m = n - 1
      in if m AND n = 0
         then let (r, xr') = xNextLong xr; x = (ucast n :: u64) * drop_bit 33 r
              in Some (ucast (signed_drop_bit 31 x), xr')
         else xNextIntJ_loop n xr)"

definition mcStepSeed :: "u64 \<Rightarrow> u64 \<Rightarrow> u64" where
  "mcStepSeed s salt = s * (s * 6364136223846793005 + 1442695040888963407) + salt"

definition mcFirstInt :: "u64 \<Rightarrow> int \<Rightarrow> int" where
  "mcFirstInt s m = (let ret = (sint s div 2 ^ 24) smod m in if ret < 0 then ret + m else ret)"

definition mcFirstIsZero :: "u64 \<Rightarrow> int \<Rightarrow> bool" where
  "mcFirstIsZero s m \<longleftrightarrow> (sint s div 2 ^ 24) smod m = 0"

definition getChunkSeed :: "u64 \<Rightarrow> int \<Rightarrow> int \<Rightarrow> u64" where
  "getChunkSeed ss x z =
     (let cs = ss + word_of_int x;
          cs = mcStepSeed cs (word_of_int z);
          cs = mcStepSeed cs (word_of_int x);
          cs = mcStepSeed cs (word_of_int z)
      in cs)"

definition getLayerSalt :: "u64 \<Rightarrow> u64" where
  "getLayerSalt salt =
     (let ls = mcStepSeed salt salt;
          ls = mcStepSeed ls salt;
          ls = mcStepSeed ls salt
      in ls)"

definition getStartSalt :: "u64 \<Rightarrow> u64 \<Rightarrow> u64" where
  "getStartSalt ws ls =
     (let st = ws;
          st = mcStepSeed st ls;
          st = mcStepSeed st ls;
          st = mcStepSeed st ls
      in st)"

definition getStartSeed :: "u64 \<Rightarrow> u64 \<Rightarrow> u64" where
  "getStartSeed ws ls =
     (let ss = ws;
          ss = getStartSalt ss ls;
          ss = mcStepSeed ss 0
      in ss)"

definition lerp :: "'a::field \<Rightarrow> 'a \<Rightarrow> 'a \<Rightarrow> 'a" where
  "lerp part v0 v1 = v0 + part * (v1 - v0)"

definition lerp2 :: "'a::field \<Rightarrow> 'a \<Rightarrow> 'a \<Rightarrow> 'a \<Rightarrow> 'a \<Rightarrow> 'a \<Rightarrow> 'a" where
  "lerp2 dx dy v00 v10 v01 v11 = lerp dy (lerp dx v00 v10) (lerp dx v01 v11)"

definition lerp3 :: "'a::field \<Rightarrow> 'a \<Rightarrow> 'a \<Rightarrow> 'a \<Rightarrow> 'a \<Rightarrow> 'a \<Rightarrow> 'a \<Rightarrow> 'a \<Rightarrow> 'a \<Rightarrow> 'a \<Rightarrow> 'a \<Rightarrow> 'a" where
  "lerp3 dx dy dz v000 v100 v010 v110 v001 v101 v011 v111 =
     (let v000 = lerp2 dx dy v000 v100 v010 v110;
          v001 = lerp2 dx dy v001 v101 v011 v111
      in lerp dz v000 v001)"

definition clampedLerp :: "'a::linordered_field \<Rightarrow> 'a \<Rightarrow> 'a \<Rightarrow> 'a" where
  "clampedLerp part v0 v1 = (if part \<le> 0 then v0 else if part \<ge> 1 then v1 else lerp part v0 v1)"

function mulInv_loop :: "u64 \<Rightarrow> u64 \<Rightarrow> u64 \<Rightarrow> u64 \<Rightarrow> u64 option" where
  "mulInv_loop x m a b =
     (if sint x > 1
      then if m = 0 then None
           else let q = x div m in mulInv_loop m (x mod m) (b - q * a) a
      else Some b)"
  by pat_completeness auto
termination
  by (relation "measure (\<lambda>(x, m, _). unat m)") (auto simp: unat_mod unat_gt_0)

definition mulInv :: "u64 \<Rightarrow> u64 \<Rightarrow> u64" where
  "mulInv x m =
     (if sint m \<le> 1 then 0
      else case mulInv_loop x m 0 1 of
             None \<Rightarrow> 0
           | Some b \<Rightarrow> if sint b < 0 then b + m else b)"

declare skipNextN_loop.simps [simp del] mulInv_loop.simps [simp del]

section \<open>The Java generator\<close>

lemma mask48: "(push_bit 48 1 - 1 :: u64) = JAVA_MASK"
  by (simp add: JAVA_MASK_def push_bit_eq_mult)

lemma signed_drop_bit_nonneg:
  fixes x :: u64
  assumes "unat x < 2 ^ 63"
  shows "signed_drop_bit n x = drop_bit n x"
proof -
  have "\<not> bit x 63"
    using assms bit_unsigned_iff [of x 63, where ?'a = nat]
    by (metis bit_iff_odd div_less even_zero less_irrefl_nat possible_bit_nat)
  then show ?thesis
    by (intro bit_word_eqI) (auto simp: bit_simps dest: bit_imp_le_length)
qed

lemma masked_small: "unat (x AND JAVA_MASK) < 2 ^ 48"
  by (simp add: JAVA_MASK_eq unat_and_mask)

lemma cub_setSeed_eq: "cub_setSeed v = jr_seed (JavaRandom_setSeed v r)"
  by (simp only: cub_setSeed_def JavaRandom_setSeed_def mask48 JAVA_MULTIPLIER_def JavaRandom.simps) simp

definition cub_step :: "u64 \<Rightarrow> u64" where
  "cub_step s = jr_seed (jr_step \<lparr>jr_seed = s\<rparr>)"

lemma cub_next_eq:
  "cub_next bits s = (fst (JavaRandom_nextBits 1 bits \<lparr>jr_seed = s\<rparr>), cub_step s)"
proof -
  have e: "(s * 0x5deece66d + 0xb) AND (push_bit 48 1 - 1) = cub_step s"
    unfolding mask48 cub_step_def jr_step_def apply_skip_def JAVA_MULTIPLIER_def JAVA_ADDEND_def by simp
  have "unat (cub_step s) < 2 ^ 63"
    using masked_small [of "s * 0x5deece66d + 0xb"] unfolding e [symmetric] mask48 by simp
  then show ?thesis
    unfolding cub_next_def e Let_def
    by (simp add: signed_drop_bit_nonneg JavaRandom_nextBits_def JavaRandom_skip_one cub_step_def Let_def)
qed

lemma java_nextBits_eq: "JavaRandom_nextBits 1 bits \<lparr>jr_seed = s\<rparr> = (fst (cub_next bits s), \<lparr>jr_seed = cub_step s\<rparr>)"
  by (simp add: cub_next_eq JavaRandom_nextBits_def JavaRandom_skip_one cub_step_def Let_def)

definition as_java :: "'a \<times> u64 \<Rightarrow> 'a \<times> JavaRandom" where
  "as_java = (\<lambda>(v, s). (v, \<lparr>jr_seed = s\<rparr>))"

lemma cub_next_31_bound: "unat (fst (cub_next 31 s)) < 2 ^ 31"
  using nextBits_bound [of 31 1 "\<lparr>jr_seed = s\<rparr>"] by (simp add: cub_next_eq)

lemma sint_nonneg_eq:
  fixes x :: u32
  assumes "unat x < 2 ^ 31"
  shows "sint x = int (unat x)"
proof -
  have "uint x < 2 ^ 31" using assms by (simp flip: nat_uint_eq)
  moreover have "- (2 ^ 31) \<le> uint x" by (rule order_trans [of _ 0]) simp_all
  ultimately have "signed_take_bit 31 (uint x) = uint x" by (rule signed_take_bit_int_eq_self [rotated])
  then show ?thesis by (simp add: sint_uint)
qed

lemma srem_eq_mod:
  fixes x n :: u32
  assumes "unat x < 2 ^ 31" "0 < n" "unat n < 2 ^ 31"
  shows "word_of_int (sint x smod sint n) = x mod n"
proof -
  have "sint x smod sint n = int (unat x mod unat n)"
    using assms by (simp add: sint_nonneg_eq zmod_int smod_mod_positive)
  then show ?thesis by (simp add: word_arith_nat_mod)
qed

lemma cub_loop_body:
  assumes "0 < n" "unat n < 2 ^ 31"
  shows "word_of_int (sint (fst (cub_next 31 s)) smod sint n) = fst (cub_next 31 s) mod n"
  using srem_eq_mod [OF cub_next_31_bound assms] .

lemma cub_loop_1:
  assumes "cub_nextInt_loop n s = Some y"
  shows "0 < n \<and> unat n < 2 ^ 31 \<longrightarrow> JavaRandom_reject n (fst (cub_next 31 s)) \<lparr>jr_seed = cub_step s\<rparr> = Some (as_java y)"
proof (rule cub_nextInt_loop.raw_induct [where P = "\<lambda>n s y. 0 < n \<and> unat n < 2 ^ 31 \<longrightarrow>
        JavaRandom_reject n (fst (cub_next 31 s)) \<lparr>jr_seed = cub_step s\<rparr> = Some (as_java y)", OF _ assms], intro impI, elim conjE)
  fix rec and n :: u32 and s y
  assume IH: "\<And>n s y. rec n s = Some y \<Longrightarrow> 0 < n \<and> unat n < 2 ^ 31 \<longrightarrow>
        JavaRandom_reject n (fst (cub_next 31 s)) \<lparr>jr_seed = cub_step s\<rparr> = Some (as_java y)"
    and step: "(let bits = fst (cub_next 31 s); seed' = snd (cub_next 31 s);
          val = word_of_int (sint bits smod sint n); m = n - 1
      in if sint (bits - val + m) < 0 then rec n seed' else Some (val, seed')) = Some y"
    and n: "0 < n" "unat n < 2 ^ 31"
  note step' = step [unfolded Let_def cub_loop_body [OF n]]
  show "JavaRandom_reject n (fst (cub_next 31 s)) \<lparr>jr_seed = cub_step s\<rparr> = Some (as_java y)"
  proof (cases "sint (fst (cub_next 31 s) - fst (cub_next 31 s) mod n + (n - 1)) < 0")
    case True
    then have "rec n (snd (cub_next 31 s)) = Some y" using step' by (simp only: if_True)
    then have "JavaRandom_reject n (fst (cub_next 31 (cub_step s))) \<lparr>jr_seed = cub_step (cub_step s)\<rparr> = Some (as_java y)"
      using IH [of n "snd (cub_next 31 s)" y] n by (simp add: cub_next_eq)
    with True show ?thesis
      by (subst JavaRandom_reject.simps) (simp only: Let_def java_nextBits_eq fst_conv snd_conv if_True)
  next
    case False
    then have "Some (fst (cub_next 31 s) mod n, snd (cub_next 31 s)) = Some y"
      using step' by (simp only: if_False)
    then have "as_java y = (fst (cub_next 31 s) mod n, \<lparr>jr_seed = cub_step s\<rparr>)"
      by (auto simp: as_java_def cub_next_eq)
    with False show ?thesis
      by (subst JavaRandom_reject.simps) (simp only: Let_def if_False)
  qed
qed

lemma cub_loop_2:
  assumes "JavaRandom_reject n u r = Some y"
  shows "0 < n \<and> unat n < 2 ^ 31 \<longrightarrow> (\<forall>s. u = fst (cub_next 31 s) \<and> r = \<lparr>jr_seed = cub_step s\<rparr> \<longrightarrow> cub_nextInt_loop n s \<noteq> None)"
proof (rule JavaRandom_reject.raw_induct [where P = "\<lambda>n u r y. 0 < n \<and> unat n < 2 ^ 31 \<longrightarrow>
      (\<forall>s. u = fst (cub_next 31 s) \<and> r = \<lparr>jr_seed = cub_step s\<rparr> \<longrightarrow> cub_nextInt_loop n s \<noteq> None)", OF _ assms], intro impI allI, elim conjE)
  fix rec and n u :: u32 and r y s
  assume IH: "\<And>n u r y. rec n u r = Some y \<Longrightarrow> 0 < n \<and> unat n < 2 ^ 31 \<longrightarrow>
      (\<forall>s. u = fst (cub_next 31 s) \<and> r = \<lparr>jr_seed = cub_step s\<rparr> \<longrightarrow> cub_nextInt_loop n s \<noteq> None)"
    and step: "(let r' = u mod n; m = n - 1
      in if sint (u - r' + m) < 0
         then rec n (fst (JavaRandom_nextBits 1 31 r)) (snd (JavaRandom_nextBits 1 31 r))
         else Some (r', r)) = Some y"
    and n: "0 < n" "unat n < 2 ^ 31"
    and eqs: "u = fst (cub_next 31 s)" "r = \<lparr>jr_seed = cub_step s\<rparr>"
  show "cub_nextInt_loop n s \<noteq> None"
  proof (cases "sint (fst (cub_next 31 s) - fst (cub_next 31 s) mod n + (n - 1)) < 0")
    case True
    then have "rec n (fst (cub_next 31 (cub_step s))) \<lparr>jr_seed = cub_step (cub_step s)\<rparr> = Some y"
      using step by (simp only: eqs Let_def if_True java_nextBits_eq fst_conv snd_conv)
    then have "cub_nextInt_loop n (cub_step s) \<noteq> None" using IH n by blast
    moreover have "snd (cub_next 31 s) = cub_step s" by (simp only: cub_next_eq snd_conv)
    ultimately show ?thesis
      using True by (subst cub_nextInt_loop.simps) (simp only: Let_def cub_loop_body [OF n] if_True not_False_eq_True)
  next
    case False
    then show ?thesis
      by (subst cub_nextInt_loop.simps) (simp only: Let_def cub_loop_body [OF n] if_False option.simps not_False_eq_True)
  qed
qed

lemma cub_loop_eq:
  assumes "0 < n" "unat n < 2 ^ 31"
  shows "map_option as_java (cub_nextInt_loop n s) = JavaRandom_reject n (fst (cub_next 31 s)) \<lparr>jr_seed = cub_step s\<rparr>"
  using cub_loop_1 [of n s] cub_loop_2 [of n "fst (cub_next 31 s)" "\<lparr>jr_seed = cub_step s\<rparr>"] assms
  by (cases "cub_nextInt_loop n s"; cases "JavaRandom_reject n (fst (cub_next 31 s)) \<lparr>jr_seed = cub_step s\<rparr>") auto

lemma cub_nextInt_eq:
  assumes "0 < n" "unat n < 2 ^ 31"
  shows "map_option as_java (cub_nextInt n s) = JavaRandom_nextInt 1 n \<lparr>jr_seed = s\<rparr>"
proof -
  have sc: "(scast x :: u64) = ucast x" if "unat x < 2 ^ 31" for x :: u32
  proof -
    have "(scast x :: u64) = word_of_int (int (unat x))"
      by (simp only: scast_eq sint_nonneg_eq [OF that])
    then show ?thesis by simp
  qed
  have b: "unat (fst (cub_next 31 s)) < 2 ^ 31" by (rule cub_next_31_bound)
  have "unat n * unat (fst (cub_next 31 s)) < 2 ^ 31 * 2 ^ 31"
    using assms b by (intro mult_strict_mono) auto
  also have "(2 :: nat) ^ 31 * 2 ^ 31 \<le> 2 ^ 63" by simp
  finally have "unat ((ucast n :: u64) * ucast (fst (cub_next 31 s))) < 2 ^ 63"
    by (simp only: lemire_product)
  then have "signed_drop_bit 31 ((ucast n :: u64) * ucast (fst (cub_next 31 s))) = drop_bit 31 ((ucast n :: u64) * ucast (fst (cub_next 31 s)))"
    by (rule signed_drop_bit_nonneg)
  then have fast: "(ucast (signed_drop_bit 31 ((scast n :: u64) * scast (fst (cub_next 31 s)))) :: u32)
      = ucast (drop_bit 31 ((ucast n :: u64) * ucast (fst (cub_next 31 s))))"
    by (simp only: sc [OF assms(2)] sc [OF b])
  have n: "cub_next 31 s = (fst (cub_next 31 s), cub_step s)"
    by (simp add: cub_next_eq)
  show ?thesis
  proof (cases "n AND (n - 1) = 0")
    case True
    then have "cub_nextInt n s = Some (ucast (drop_bit 31 ((ucast n :: u64) * ucast (fst (cub_next 31 s)))), cub_step s)"
      by (subst cub_nextInt_def) (subst n, simp only: Let_def and.commute [of "n - 1"] if_True simp_thms prod.case fast)
    with True show ?thesis
      by (simp only: JavaRandom_nextInt_def java_nextBits_eq Let_def prod.case if_True simp_thms option.map as_java_def)
  next
    case False
    then show ?thesis
      by (simp only: cub_nextInt_def JavaRandom_nextInt_def java_nextBits_eq Let_def prod.case if_False
          and.commute [of "n - 1"] cub_loop_eq [OF assms])
  qed
qed

lemma cub_draw_returns:
  assumes "0 < n" "unat n < 2 ^ 31"
  shows "\<exists>r s'. cub_nextInt n s = Some (r, s') \<and> unat r < unat n"
proof -
  obtain r q where "JavaRandom_nextInt 1 n \<lparr>jr_seed = s\<rparr> = Some (r, q)" "unat r < unat n"
    using java_nextInt_returns [of n 1 "\<lparr>jr_seed = s\<rparr>"] assms by auto
  then show ?thesis using cub_nextInt_eq [OF assms, of s] by (auto simp: as_java_def)
qed

text \<open>
  cubiomes' Java generator and that of \<open>Random.h\<close> draw the same bounded integers from the same
  seeds, rejections included.
\<close>

theorem cub_nextInt_is_JavaRandom:
  assumes "0 < n" "unat n < 2 ^ 31"
  shows "map_option as_java (cub_nextInt n (cub_setSeed v)) = JavaRandom_nextInt 1 n (JavaRandom_setSeed v r)"
proof -
  have "JavaRandom_setSeed v r = \<lparr>jr_seed = cub_setSeed v\<rparr>"
    by (cases r) (simp add: JavaRandom_setSeed_def cub_setSeed_eq [of v r])
  then show ?thesis by (simp only: cub_nextInt_eq [OF assms])
qed

lemma cub_nextInt_is_JavaRandom_witness:
  "map_option as_java (cub_nextInt 10 (cub_setSeed 42)) = JavaRandom_nextInt 1 10 (JavaRandom_setSeed 42 (JavaRandom_withSeed 0))"
  by (rule cub_nextInt_is_JavaRandom) simp_all

section \<open>Skipping\<close>

text \<open>Affine maps of 64-bit words: \<open>(m, a)\<close> stands for \<open>x \<mapsto> x * m + a\<close>.\<close>

definition affine :: "u64 \<Rightarrow> u64 \<Rightarrow> u64 \<Rightarrow> u64" where
  "affine m a x = x * m + a"

lemma affine_comp: "affine im ia (affine m a x) = affine (m * im) (im * a + ia) x"
  by (simp add: affine_def algebra_simps)

lemma affine_square: "affine im ia (affine im ia x) = affine (im * im) ((im + 1) * ia) x"
  by (simp add: affine_def algebra_simps)

lemma skipNextN_loop_affine:
  "case skipNextN_loop k m a im ia of (m', a') \<Rightarrow>
     affine m' a' x = (affine im ia ^^ unat k) (affine m a x)"
proof (induction k m a im ia rule: skipNextN_loop.induct)
  case (1 k m a im ia)
  show ?case
  proof (cases "k = 0")
    case True
    then show ?thesis by (simp add: skipNextN_loop.simps)
  next
    case False
    define p where "p = (if k AND 1 \<noteq> 0 then (m * im, im * a + ia) else (m, a))"
    have odd: "k AND 1 \<noteq> 0 \<longleftrightarrow> odd (unat k)"
      using bit_0 [of k] bit_0 [of "unat k"] by (simp add: bit_unsigned_iff and_one_eq odd_iff_mod_2_eq_one)
    have half: "unat (drop_bit 1 k) = unat k div 2" by (simp only: unat_drop_div power_one_right)
    have IH: "case skipNextN_loop (drop_bit 1 k) (fst p) (snd p) (im * im) ((im + 1) * ia) of (m', a') \<Rightarrow>
       affine m' a' x = (affine (im * im) ((im + 1) * ia) ^^ unat (drop_bit 1 k)) (affine (fst p) (snd p) x)"
      using "1.IH" [OF False p_def, of "fst p" "snd p"] by simp
    have sq: "affine (im * im) ((im + 1) * ia) = affine im ia ^^ 2"
      by (rule ext) (simp only: numeral_2_eq_2 funpow.simps comp_apply id_apply affine_square)
    have start: "affine (fst p) (snd p) x = (affine im ia ^^ (unat k mod 2)) (affine m a x)"
      by (cases "odd (unat k)") (simp_all add: p_def odd affine_comp odd_iff_mod_2_eq_one)
    have "(affine (im * im) ((im + 1) * ia) ^^ unat (drop_bit 1 k)) (affine (fst p) (snd p) x)
        = (affine im ia ^^ (2 * (unat k div 2) + unat k mod 2)) (affine m a x)"
      by (simp only: sq start half funpow_mult funpow_add comp_apply)
    also have "2 * (unat k div 2) + unat k mod 2 = unat k" by simp
    finally show ?thesis
      using IH False by (subst skipNextN_loop.simps) (simp add: p_def [symmetric] split_def)
  qed
qed

lemma mask_affine: "(affine m a (x AND JAVA_MASK)) AND JAVA_MASK = (affine m a x) AND JAVA_MASK"
proof -
  have "(unat (x AND JAVA_MASK) * unat m + unat a) mod 2 ^ 48 = (unat x * unat m + unat a) mod 2 ^ 48"
    unfolding JAVA_MASK_eq unat_and_mask by (metis mod_add_left_eq mod_mult_left_eq)
  then show ?thesis
    unfolding affine_def by (simp only: word_unat_eq_iff unat_affine)
qed

lemma cub_step_affine: "cub_step s = affine 0x5deece66d 0xb s AND JAVA_MASK"
  by (simp add: cub_step_def jr_step_def apply_skip_def JAVA_MULTIPLIER_def JAVA_ADDEND_def affine_def)

lemma cub_steps_affine:
  "s AND JAVA_MASK = s \<Longrightarrow> (cub_step ^^ n) s = (affine 0x5deece66d 0xb ^^ n) s AND JAVA_MASK"
  by (induction n) (simp_all add: cub_step_affine mask_affine)

text \<open>
  \<open>skipNextN\<close> is \<open>n\<close> calls of \<open>next\<close>, and it agrees with the constant-time skip of \<open>Random.h\<close>.
\<close>

theorem skipNextN_correct:
  assumes "s AND JAVA_MASK = s"
  shows "skipNextN s n = ((\<lambda>s. snd (cub_next 31 s)) ^^ unat n) s \<and>
         \<lparr>jr_seed = skipNextN s n\<rparr> = JavaRandom_skip n \<lparr>jr_seed = s\<rparr>"
proof -
  obtain m a where ma: "skipNextN_loop n 1 0 0x5deece66d 0xb = (m, a)"
    by (cases "skipNextN_loop n 1 0 0x5deece66d 0xb")
  have "affine m a s = (affine 0x5deece66d 0xb ^^ unat n) s"
    using skipNextN_loop_affine [where k = n and m = 1 and a = 0 and im = "0x5deece66d" and ia = "0xb" and x = s] by (simp add: ma affine_def [of 1])
  then have 1: "skipNextN s n = (cub_step ^^ unat n) s"
    using cub_steps_affine [OF assms, of "unat n"]
    by (simp add: skipNextN_def ma affine_def [of m] JAVA_MASK_def)
  have 2: "(\<lambda>s. snd (cub_next 31 s)) = cub_step"
    by (rule ext) (simp add: cub_next_eq)
  have "\<lparr>jr_seed = (cub_step ^^ k) s\<rparr> = (jr_step ^^ k) \<lparr>jr_seed = s\<rparr>" for k
    by (induction k) (simp_all add: cub_step_def)
  moreover have v: "jr_valid \<lparr>jr_seed = s\<rparr>"
    using masked_small [of s] by (simp add: jr_valid_def assms)
  moreover have "(jr_step ^^ unat n) \<lparr>jr_seed = s\<rparr> = (jr_step ^^ (unat n mod 2 ^ 48)) \<lparr>jr_seed = s\<rparr>"
    by (rule jr_step_periodic) (use v in simp_all)
  ultimately show ?thesis
    unfolding 1 2 by (simp add: JavaRandom_skip_funpow)
qed

lemma skipNextN_correct_witness:
  "\<lparr>jr_seed = skipNextN (cub_setSeed 7) 1000\<rparr> = JavaRandom_skip 1000 \<lparr>jr_seed = cub_setSeed 7\<rparr>"
proof -
  have "cub_setSeed 7 AND JAVA_MASK = cub_setSeed 7"
    by (simp only: cub_setSeed_def mask48 and.assoc and.idem)
  from conjunct2 [OF skipNextN_correct [OF this, of 1000]] show ?thesis .
qed


section \<open>The macro for \<open>nextInt(24)\<close>\<close>

lemma div24_magic:
  fixes a :: nat
  assumes "a < 2 ^ 31"
  shows "0xaaaaaaab * a div 2 ^ 36 = a div 24"
proof -
  have "24 * 0xaaaaaaab = (2 :: nat) ^ 36 + 8" by simp
  define q r where "q = a div 24" and "r = a mod 24"
  have a: "a = 24 * q + r" and r: "r < 24" by (simp_all add: q_def r_def)
  have "0xaaaaaaab * a = 2 ^ 36 * q + (8 * q + 0xaaaaaaab * r)" by (simp add: a)
  moreover have "8 * q + 0xaaaaaaab * r < 2 ^ 36"
  proof -
    have "24 * q < 2 ^ 31" using a assms by linarith
    then have "8 * q \<le> 715827882" by simp
    moreover have "0xaaaaaaab * r \<le> 0xaaaaaaab * 23" using r by simp
    ultimately show ?thesis by simp
  qed
  ultimately show ?thesis by (simp add: q_def)
qed

lemma NEXT_INT24_eq:
  "JAVA_NEXT_INT24 S = (fst (cub_next 31 S) mod 24, cub_step S)"
proof -
  define S' where "S' = cub_step S"
  have S': "(push_bit 48 1 - 1) AND (0x5deece66d * S + 11) = S'"
    by (simp only: S'_def cub_step_affine affine_def mask48 and.commute mult.commute)
  have small: "unat S' < 2 ^ 48"
    unfolding S'_def cub_step_affine by (rule masked_small)
  define a where "a = drop_bit 17 S'"
  have sa: "signed_drop_bit 17 S' = a"
    using small by (simp add: signed_drop_bit_nonneg a_def)
  have a31: "unat a < 2 ^ 31"
    using small by (simp add: a_def unat_drop_div less_mult_imp_div_less)
  have prod: "unat (0xaaaaaaab * a) = 0xaaaaaaab * unat a"
    using a31 by (simp add: unat_word_ariths(2))
  have c: "signed_drop_bit 36 (0xaaaaaaab * a) = drop_bit 36 (0xaaaaaaab * a)"
    using a31 by (intro signed_drop_bit_nonneg) (simp add: prod)
  have q: "unat (drop_bit 36 (0xaaaaaaab * a)) = unat a div 24"
    using div24_magic [OF a31] by (simp only: unat_drop_div prod)
  have S'': "(S * 0x5deece66d + 0xb) AND JAVA_MASK = S'"
    by (simp only: S'_def cub_step_affine affine_def)
  have "fst (cub_next 31 S) = ucast (signed_drop_bit (48 - 31) S')"
    by (simp only: cub_next_def Let_def mask48 S'' fst_conv)
  also have "48 - 31 = (17 :: nat)" by simp
  finally have next31: "fst (cub_next 31 S) = ucast a" by (simp only: sa)
  have u: "unat (ucast a :: u32) = unat a" using a31 by (simp add: unat_ucast_mod)
  define d where "d = unat a div 24"
  have d: "d < 2 ^ 27" "24 * d \<le> unat a" using a31 by (simp_all add: d_def)
  have "unat (push_bit 3 (drop_bit 36 (0xaaaaaaab * a))) = 8 * d"
    using d by (simp add: push_bit_eq_mult unat_word_ariths(2) q d_def [symmetric])
  then have "unat (ucast (push_bit 3 (drop_bit 36 (0xaaaaaaab * a))) * (3 :: u32)) = 24 * d"
    using d by (simp add: unat_word_ariths(2) unat_ucast_mod)
  then have "unat (ucast a - ucast (push_bit 3 (drop_bit 36 (0xaaaaaaab * a))) * (3 :: u32)) = unat a - 24 * d"
    using d by (simp add: unat_sub_if_size u)
  also have "\<dots> = unat (ucast a mod (24 :: u32))"
    by (simp add: unat_mod u d_def minus_mult_div_eq_mod)
  finally have "ucast a - ucast (push_bit 3 (drop_bit 36 (0xaaaaaaab * a))) * 3 = ucast a mod (24 :: u32)"
    by (simp only: word_unat_eq_iff)
  then show ?thesis
    by (simp only: JAVA_NEXT_INT24_def Let_def S' sa c next31) (simp add: S'_def)
qed

lemma reject_24_iff:
  fixes u :: u32
  assumes "unat u < 2 ^ 31"
  shows "sint (u - u mod 24 + (24 - 1)) < 0 \<longleftrightarrow> 2 ^ 31 - 8 \<le> unat u"
proof -
  define d r where "d = unat u div 24" and "r = unat u mod 24"
  have m: "unat (u mod 24) = r" by (simp add: unat_mod r_def)
  have e: "unat u = 24 * d + r" and r: "r < 24" by (simp_all add: d_def r_def)
  have "unat (u - u mod 24) = 24 * d"
    using m e by (simp add: unat_sub_if_size)
  then have "unat (u - u mod 24 + (24 - 1)) = 24 * d + 23"
    using e assms by (simp add: unat_word_ariths(1))
  then have "sint (u - u mod 24 + (24 - 1)) < 0 \<longleftrightarrow> 2 ^ 31 \<le> 24 * d + 23"
    by (simp only: sint32_neg_iff)
  also have "\<dots> \<longleftrightarrow> 2 ^ 31 - 8 \<le> unat u"
    using e r assms by simp presburger
  finally show ?thesis .
qed

text \<open>
  The macro \<open>JAVA_NEXT_INT24\<close> is \<open>nextInt(24)\<close> on all but the eight largest 31-bit draws; on those
  \<open>nextInt\<close> draws again and the macro does not, although its comment calls it \<open>nextInt(*S, 24)\<close>.
\<close>

theorem NEXT_INT24_vs_nextInt:
  "cub_nextInt 24 S =
     (if unat (fst (cub_next 31 S)) < 2 ^ 31 - 8 then Some (JAVA_NEXT_INT24 S)
      else cub_nextInt 24 (snd (cub_next 31 S)))"
proof -
  have n: "0 < (24 :: u32)" "unat (24 :: u32) < 2 ^ 31" by simp_all
  have loop: "cub_nextInt 24 s = cub_nextInt_loop 24 s" for s
    by (simp add: cub_nextInt_def)
  show ?thesis
  proof (cases "unat (fst (cub_next 31 S)) < 2 ^ 31 - 8")
    case True
    then have "\<not> sint (fst (cub_next 31 S) - fst (cub_next 31 S) mod 24 + (24 - 1)) < 0"
      by (simp only: reject_24_iff [OF cub_next_31_bound] not_le)
    then have "cub_nextInt_loop 24 S = Some (fst (cub_next 31 S) mod 24, snd (cub_next 31 S))"
      by (subst cub_nextInt_loop.simps) (simp only: Let_def cub_loop_body [OF n] if_False)
    with True show ?thesis
      by (simp only: loop if_True NEXT_INT24_eq cub_next_eq fst_conv snd_conv)
  next
    case False
    then have "sint (fst (cub_next 31 S) - fst (cub_next 31 S) mod 24 + (24 - 1)) < 0"
      by (simp only: reject_24_iff [OF cub_next_31_bound] not_less)
    then have "cub_nextInt_loop 24 S = cub_nextInt_loop 24 (snd (cub_next 31 S))"
      by (subst cub_nextInt_loop.simps) (simp only: Let_def cub_loop_body [OF n] if_True)
    with False show ?thesis
      by (simp only: loop if_False)
  qed
qed

text \<open>
  There is a state on which the macro and \<open>nextInt(24)\<close> return different values.
\<close>

theorem NEXT_INT24_differs:
  "\<exists>S. fst (JAVA_NEXT_INT24 S) = 7 \<and> map_option fst (cub_nextInt 24 S) = Some 17"
proof (intro exI conjI)
  let ?S = "142368275371844 :: u64"
  have n1: "cub_next 31 ?S = (2147483647, 281474976710655)" by (simp add: cub_next_def)
  have n2: "cub_next 31 281474976710655 = (2147291273, 281449761806750)" by (simp add: cub_next_def)
  show "fst (JAVA_NEXT_INT24 ?S) = 7"
    by (simp add: NEXT_INT24_eq n1)
  show "map_option fst (cub_nextInt 24 ?S) = Some 17"
    by (subst NEXT_INT24_vs_nextInt, simp add: n1, subst NEXT_INT24_vs_nextInt) (simp add: n2 NEXT_INT24_eq)
qed

section \<open>The xoroshiro generator\<close>

lemma rotl64_eq [simp]: "rotl64 x b = rol64 x b"
  by (simp add: rotl64_def rol64_def)

definition as_xrsr :: "Xoroshiro \<Rightarrow> XrsrRandom" where
  "as_xrsr xr = \<lparr>x_lo = xr_lo xr, x_hi = xr_hi xr\<rparr>"

lemma xSetSeed_eq: "as_xrsr (xSetSeed v) = XrsrRandom_setSeed v"
  by (simp add: as_xrsr_def xSetSeed_def setSeed_no_repair mix64_def Let_def XRSR_MIX1_def XRSR_MIX2_def
      XRSR_SILVER_RATIO_def XRSR_GOLDEN_RATIO_def)

lemma xNextLong_eq: "map_prod id as_xrsr (xNextLong xr) = XrsrRandom_nextLong (as_xrsr xr)"
  by (simp add: as_xrsr_def xNextLong_def XrsrRandom_nextLong_def nextInternal_eq Let_def)

lemma xNextLong_fst: "fst (xNextLong xr) = fst (XrsrRandom_nextInternal (as_xrsr xr))"
  and xNextLong_snd: "as_xrsr (snd (xNextLong xr)) = xrsr_next (as_xrsr xr)"
  by (simp_all add: as_xrsr_def xNextLong_def xrsr_next_def nextInternal_eq Let_def)

lemma xSkipN_eq: "as_xrsr (xSkipN n xr) = (xrsr_next ^^ n) (as_xrsr xr)"
  by (induction n arbitrary: xr) (simp_all add: xNextLong_snd funpow_swap1)

lemma low32: "(x :: u64) AND 0xFFFFFFFF = ucast (ucast x :: u32)"
proof -
  have m: "(0xFFFFFFFF :: u64) = mask 32" by (simp add: mask_eq_exp_minus_1)
  show ?thesis unfolding m by (rule bit_word_eqI) (auto simp: bit_simps)
qed

lemma less_low32: "((r :: u64) AND 0xFFFFFFFF < ucast (n :: u32)) \<longleftrightarrow> (ucast r :: u32) < n"
proof -
  have "unat (ucast n :: u64) = unat n" using u32_bound [of n] by (simp add: unat_ucast_mod)
  moreover have "unat (ucast (ucast r :: u32) :: u64) = unat (ucast r :: u32)"
    using u32_bound [of "ucast r"] by (simp add: unat_ucast_mod)
  ultimately show ?thesis by (simp only: low32 word_less_nat_alt)
qed

lemma xNextInt_draw: "(fst (xNextLong xr) AND 0xFFFFFFFF) = ucast (fst (XrsrRandom_nextInt32 (as_xrsr xr)))"
  by (simp add: low32 xNextLong_fst XrsrRandom_nextInt32_def split_def Let_def)

lemma xNextInt_state: "as_xrsr (snd (xNextLong xr)) = snd (XrsrRandom_nextInt32 (as_xrsr xr))"
  by (simp add: xNextLong_snd nextInt32_eq)

definition as_xrsr2 :: "'a \<times> Xoroshiro \<Rightarrow> 'a \<times> XrsrRandom" where
  "as_xrsr2 = (\<lambda>(a, xr). (a, as_xrsr xr))"

lemma xloop_1:
  assumes "xNextInt_loop n r xr = Some y"
  shows "XrsrRandom_reject n ((NOT n + 1) mod n) r (as_xrsr xr) = Some (as_xrsr2 y)"
  by (rule xNextInt_loop.raw_induct [where P = "\<lambda>n r xr y.
        XrsrRandom_reject n ((NOT n + 1) mod n) r (as_xrsr xr) = Some (as_xrsr2 y)", OF _ assms],
      subst XrsrRandom_reject.simps)
    (auto simp: less_low32 as_xrsr2_def xNextInt_draw xNextInt_state [symmetric] split: if_splits)

lemma xloop_2:
  assumes "XrsrRandom_reject n j r q = Some y"
  shows "\<forall>xr. j = (NOT n + 1) mod n \<longrightarrow> q = as_xrsr xr \<longrightarrow> xNextInt_loop n r xr \<noteq> None"
  by (rule XrsrRandom_reject.raw_induct [where P = "\<lambda>n j r q y. \<forall>xr. j = (NOT n + 1) mod n \<longrightarrow> q = as_xrsr xr \<longrightarrow>
        xNextInt_loop n r xr \<noteq> None", OF _ assms], intro allI impI, subst xNextInt_loop.simps)
    (auto simp: less_low32 xNextInt_draw xNextInt_state [symmetric] split: if_splits)

lemma xloop_eq: "map_option as_xrsr2 (xNextInt_loop n r xr) = XrsrRandom_reject n ((NOT n + 1) mod n) r (as_xrsr xr)"
  using xloop_1 [of n r xr] xloop_2 [of n "(NOT n + 1) mod n" r "as_xrsr xr"]
  by (cases "xNextInt_loop n r xr"; cases "XrsrRandom_reject n ((NOT n + 1) mod n) r (as_xrsr xr)") auto

lemma xNextInt_eq: "map_option as_xrsr2 (xNextInt n xr) = XrsrRandom_nextInt n (as_xrsr xr)"
proof -
  let ?l = "fst (XrsrRandom_nextInt32 (as_xrsr xr))" and ?q = "snd (xNextLong xr)"
  let ?r = "(ucast ?l :: u64) * ucast n"
  have x: "xNextInt n xr = map_option (\<lambda>(r, q). (ucast (drop_bit 32 r), q))
      (if (ucast ?r :: u32) < n then xNextInt_loop n ?r ?q else Some (?r, ?q))"
    by (simp only: xNextInt_def Let_def split_def xNextInt_draw)
  have y: "XrsrRandom_nextInt n (as_xrsr xr) = (if (ucast ?r :: u32) < n
      then map_option (\<lambda>(m', q). (ucast (drop_bit 32 m'), q)) (XrsrRandom_reject n ((NOT n + 1) mod n) ?r (as_xrsr ?q))
      else Some (ucast (drop_bit 32 ?r), as_xrsr ?q))"
    by (simp only: XrsrRandom_nextInt_def Let_def split_def less_low32 xNextInt_state)
  show ?thesis
    unfolding x y xloop_eq [symmetric]
    by (cases "(ucast ?r :: u32) < n")
      (simp_all only: if_True if_False option.map_comp option.map as_xrsr2_def comp_def split_def fst_conv snd_conv)
qed

text \<open>
  cubiomes' xoroshiro and that of \<open>Random.h\<close> agree: seeding, skipping, raw, bounded and
  floating-point draws.
\<close>

theorem cub_xoroshiro_is_XrsrRandom:
  "as_xrsr (xSetSeed v) = XrsrRandom_setSeed v \<and>
   as_xrsr2 (xNextLong xr) = XrsrRandom_nextLong (as_xrsr xr) \<and>
   map_option as_xrsr2 (xNextInt n xr) = XrsrRandom_nextInt n (as_xrsr xr) \<and>
   as_xrsr2 (xNextDouble xr) = XrsrRandom_nextDouble (as_xrsr xr) \<and>
   as_xrsr2 (xNextFloat xr) = XrsrRandom_nextFloat (as_xrsr xr) \<and>
   as_xrsr (xSkipN k xr) = ((\<lambda>r. snd (XrsrRandom_nextLong r)) ^^ k) (as_xrsr xr)"
proof -
  have p: "map_prod id as_xrsr = as_xrsr2" by (rule ext) (simp add: as_xrsr2_def split_def map_prod_def)
  have step: "(\<lambda>r. snd (XrsrRandom_nextLong r)) = xrsr_next"
    by (rule ext) (simp add: XrsrRandom_nextLong_def xrsr_next_def)
  have long: "as_xrsr2 (xNextLong xr) = XrsrRandom_nextLong (as_xrsr xr)"
    by (simp only: p [symmetric] xNextLong_eq)
  have double: "as_xrsr2 (xNextDouble xr) = XrsrRandom_nextDouble (as_xrsr xr)"
    and float: "as_xrsr2 (xNextFloat xr) = XrsrRandom_nextFloat (as_xrsr xr)"
    by (simp_all add: as_xrsr2_def xNextDouble_def xNextFloat_def XrsrRandom_nextDouble_def
        XrsrRandom_nextFloat_def XrsrRandom_nextBits_def split_def Let_def xNextLong_fst xNextLong_snd xrsr_next_def)
  show ?thesis
    by (simp only: step xSkipN_eq xSetSeed_eq long xNextInt_eq double float simp_thms)
qed

section \<open>Seed helpers and arithmetic\<close>

theorem mcFirstInt_floor_mod:
  assumes "0 < m"
  shows "mcFirstInt s m = (sint s div 2 ^ 24) mod m \<and> mcFirstInt s m \<in> {0..<m} \<and>
         (mcFirstIsZero s m \<longleftrightarrow> mcFirstInt s m = 0)"
proof -
  have e: "mcFirstInt s m = (sint s div 2 ^ 24) mod m"
    unfolding mcFirstInt_def Let_def by (rule smod_pos_adjust [OF assms])
  have "(sint s div 2 ^ 24) smod m = 0 \<longleftrightarrow> (sint s div 2 ^ 24) mod m = 0"
    by (simp only: smod_eq_0_iff mod_eq_0_iff_dvd)
  then show ?thesis using assms e by (simp add: mcFirstIsZero_def)
qed

lemma xor_neg_iff: "(a XOR b < 0) \<longleftrightarrow> (a < 0) \<noteq> (b < (0::int))"
  by (simp add: xor_negative_int_iff)

theorem floordiv_correct:
  assumes "b \<noteq> 0"
  shows "floordiv a b = a div b"
proof -
  have z: "a smod b \<noteq> 0 \<longleftrightarrow> \<not> b dvd a"
    by (simp add: smod_eq_0_iff)
  have "a div b = a sdiv b - of_bool (sgn a \<noteq> sgn b \<and> \<not> b dvd a)"
    using assms by (simp add: divide_int_eq_signed_divide_int)
  moreover have "(a XOR b < 0 \<and> a smod b \<noteq> 0) \<longleftrightarrow> (sgn a \<noteq> sgn b \<and> \<not> b dvd a)"
    using assms by (auto simp: xor_neg_iff z sgn_if split: if_splits)
  ultimately show ?thesis by (simp add: floordiv_def Let_def)
qed

lemma lerp_ends [simp]: "lerp 0 v0 v1 = v0" "lerp 1 v0 v1 = v1"
  by (simp_all add: lerp_def)

theorem clampedLerp_between:
  fixes v0 v1 :: "'a::linordered_field"
  shows "min v0 v1 \<le> clampedLerp part v0 v1 \<and> clampedLerp part v0 v1 \<le> max v0 v1"
proof -
  consider "part \<le> 0" | "1 \<le> part" | "0 < part" "part < 1" by linarith
  then show ?thesis
  proof cases
    case 3
    then have "lerp part v0 v1 = (1 - part) * v0 + part * v1" by (simp add: lerp_def algebra_simps)
    moreover have "(1 - part) * min v0 v1 + part * min v0 v1 \<le> (1 - part) * v0 + part * v1"
      using 3 by (intro add_mono mult_left_mono) auto
    moreover have "(1 - part) * v0 + part * v1 \<le> (1 - part) * max v0 v1 + part * max v0 v1"
      using 3 by (intro add_mono mult_left_mono) auto
    ultimately show ?thesis using 3 by (simp add: clampedLerp_def algebra_simps)
  qed (auto simp: clampedLerp_def)
qed


section \<open>The modular inverse\<close>

text \<open>
  The loop on the integers it stands for: \<open>x\<close>, \<open>m\<close> are the remainders of Euclid's algorithm on
  \<open>x0\<close>, \<open>n\<close>, and the wrapping words \<open>a\<close>, \<open>b\<close> hold coefficients \<open>A\<close>, \<open>B\<close> of opposite signs with
  \<open>|A| * x + |B| * m = n\<close>, so that no coefficient ever leaves the signed range.
\<close>

definition euclid_inv :: "nat \<Rightarrow> nat \<Rightarrow> u64 \<Rightarrow> u64 \<Rightarrow> u64 \<Rightarrow> u64 \<Rightarrow> int \<Rightarrow> int \<Rightarrow> bool" where
  "euclid_inv x0 n x m a b A B \<longleftrightarrow>
     a = of_int A \<and> b = of_int B \<and>
     int n dvd (int (unat x)) - (B * int x0) \<and> int n dvd (int (unat m)) - (A * int x0) \<and>
     \<bar>A\<bar> * int (unat x) + \<bar>B\<bar> * int (unat m) = int n \<and> A * B \<le> 0 \<and> \<bar>B\<bar> < int n \<and>
     0 < unat x \<and> unat x < 2 ^ 63 \<and> unat m < 2 ^ 63 \<and> gcd (unat x) (unat m) = gcd x0 n"

lemma sint64_small: "unat (x :: u64) < 2 ^ 63 \<Longrightarrow> sint x = int (unat x)"
proof -
  assume "unat x < 2 ^ 63"
  then have "uint x < 2 ^ 63" by (simp flip: nat_uint_eq)
  moreover have "- (2 ^ 63) \<le> uint x" by (rule order_trans [of _ 0]) simp_all
  ultimately have "signed_take_bit 63 (uint x) = uint x" by (rule signed_take_bit_int_eq_self [rotated])
  then show ?thesis by (simp add: sint_uint)
qed

lemma abs_opposite_diff:
  fixes A B q :: int
  assumes "A * B \<le> 0" "0 \<le> q"
  shows "\<bar>B - q * A\<bar> = \<bar>B\<bar> + q * \<bar>A\<bar> \<and> A * (B - q * A) \<le> 0"
proof -
  consider "A = 0" | "0 < A" "B \<le> 0" | "A < 0" "0 \<le> B"
    using assms(1) by (cases "A = 0"; cases "0 < A") (auto simp: mult_le_0_iff)
  then show ?thesis
  proof cases
    case 2
    then have "0 \<le> q * A" using assms(2) by simp
    with 2 have "0 \<le> q * A" "B - q * A \<le> 0" by linarith+
    with 2 show ?thesis by (simp add: mult_nonneg_nonpos)
  next
    case 3
    then have "q * A \<le> 0" using assms(2) by (simp add: mult_nonneg_nonpos)
    with 3 show ?thesis by (simp add: mult_nonpos_nonneg)
  qed simp
qed

lemma euclid_inv_step:
  assumes inv: "euclid_inv x0 n x m a b A B" and big: "1 < unat x" and m: "0 < unat m"
  shows "euclid_inv x0 n m (x mod m) (b - (x div m) * a) a (B - int (unat x div unat m) * A) A"
proof -
  let ?X = "int (unat x)" and ?M = "int (unat m)" and ?q = "int (unat x div unat m)"
  note i = inv [unfolded euclid_inv_def]
  have words: "unat (x mod m) = unat x mod unat m" "unat (x div m) = unat x div unat m"
    by (simp_all only: unat_mod unat_div)
  have mod: "int (unat x mod unat m) = ?X - ?q * ?M"
    by (simp add: minus_div_mult_eq_mod zdiv_int zmod_int)
  have "b - (x div m) * a = of_int (B - ?q * A)"
  proof -
    have "x div m = of_int ?q"
    proof -
      have "of_int ?q = (of_nat (unat (x div m)) :: u64)" by (simp only: words(2) of_int_of_nat_eq)
      then show ?thesis by (simp only: of_nat_unat ucast_id)
    qed
    then show ?thesis using i by simp
  qed
  moreover have "int n dvd (?X - ?q * ?M) - ((B - ?q * A) * int x0)"
  proof -
    have "int n dvd (?X - ?q * ?M) - (B * int x0 - ?q * (A * int x0))"
    proof -
      have "?X - ?q * ?M - (B * int x0 - ?q * (A * int x0)) = (?X - B * int x0) - ?q * (?M - A * int x0)"
        by (simp add: algebra_simps)
      then show ?thesis using i by (simp only: dvd_diff dvd_mult)
    qed
    then show ?thesis by (simp add: algebra_simps)
  qed
  moreover have opp: "\<bar>B - ?q * A\<bar> = \<bar>B\<bar> + ?q * \<bar>A\<bar>" "A * (B - ?q * A) \<le> 0"
    using abs_opposite_diff [of A B ?q] i by simp_all
  moreover have "(\<bar>B\<bar> + ?q * \<bar>A\<bar>) * ?M + \<bar>A\<bar> * (?X - ?q * ?M) = int n"
    using i by (simp add: algebra_simps)
  moreover have "\<bar>A\<bar> < int n"
  proof (cases "A = 0")
    case True
    have "0 < int n" using i abs_ge_zero [of B] by linarith
    then show ?thesis using True by simp
  next
    case False
    have "2 \<le> ?X" using big by linarith
    then have "\<bar>A\<bar> * 2 \<le> \<bar>A\<bar> * ?X" by (rule mult_left_mono) simp
    moreover have "\<bar>A\<bar> * ?X \<le> int n" using i mult_nonneg_nonneg [of "\<bar>B\<bar>" ?M] by linarith
    ultimately show ?thesis using False by linarith
  qed
  moreover have "gcd (unat m) (unat x mod unat m) = gcd x0 n"
    using i by (simp add: gcd.commute [of "unat m"] flip: gcd_red_nat)
  moreover have "unat x mod unat m < 2 ^ 63" using m i by (meson less_trans mod_less_divisor)
  ultimately show ?thesis
    using i m unfolding euclid_inv_def words mod by (simp add: mult.commute [of "B - _ * A" A])
qed

lemma mulInv_loop_correct:
  assumes "euclid_inv x0 n x m a b A B"
  shows "if gcd x0 n = 1
         then \<exists>B' :: int. mulInv_loop x m a b = Some (of_int B') \<and> \<bar>B'\<bar> < int n \<and> int n dvd (B' * int x0) - (1)
         else mulInv_loop x m a b = None"
  using assms
proof (induction x m a b arbitrary: A B rule: mulInv_loop.induct)
  case (1 x m a b)
  note i = "1.prems" [unfolded euclid_inv_def]
  have sx: "sint x = int (unat x)" using i by (intro sint64_small) simp
  show ?case
  proof (cases "1 < unat x")
    case False
    then have x: "unat x = 1" using i by simp
    then have "gcd x0 n = 1" using i by simp
    moreover have "int n dvd (B * int x0) - (1)" using i x by (metis dvd_diff_commute of_nat_1)
    moreover have "mulInv_loop x m a b = Some b" using x sx by (subst mulInv_loop.simps) simp
    ultimately show ?thesis using i by auto
  next
    case big: True
    then have sx1: "1 < sint x" unfolding sx by linarith
    show ?thesis
    proof (cases "m = 0")
      case True
      then have "gcd x0 n = unat x" using i by simp
      with big True sx1 show ?thesis by (subst mulInv_loop.simps) (simp add: mulInv_loop.simps [of x m])
    next
      case False
      then have "0 < unat m" by (simp add: unat_gt_0)
      from "1.IH" [OF sx1 False refl euclid_inv_step [OF "1.prems" big this]]
      show ?thesis using sx1 False by (simp add: mulInv_loop.simps [of x m a b])
    qed
  qed
qed

text \<open>
  \<open>mulInv\<close> computes the inverse of \<open>x\<close> modulo \<open>m\<close>, reduced, when there is one, and 0 when the
  two have a common factor; no intermediate coefficient overflows the signed 64-bit range.
\<close>

theorem mulInv_correct:
  fixes x m :: u64
  assumes "0 < unat x" "unat x < 2 ^ 63" "1 < unat m" "unat m < 2 ^ 63"
  shows "if coprime (unat x) (unat m)
         then unat (mulInv x m) < unat m \<and> (unat (mulInv x m) * unat x) mod unat m = 1
         else mulInv x m = 0"
proof -
  let ?n = "unat m"
  have sm: "\<not> sint m \<le> 1" unfolding sint64_small [OF assms(4)] using assms(3) by linarith
  have "euclid_inv (unat x) ?n x m 0 1 0 1"
  proof -
    have "1 < int (unat m)" using assms(3) by linarith
    then show ?thesis using assms by (simp add: euclid_inv_def)
  qed
  note loop = mulInv_loop_correct [OF this]
  show ?thesis
  proof (cases "coprime (unat x) ?n")
    case False
    then have "mulInv_loop x m 0 1 = None" using loop by (simp add: coprime_iff_gcd_eq_1)
    with False sm show ?thesis by (simp add: mulInv_def)
  next
    case True
    then obtain B where B: "mulInv_loop x m 0 1 = Some (of_int B)" "\<bar>B\<bar> < int ?n" "int ?n dvd (B * int (unat x)) - (1)"
      using loop by (auto simp: coprime_iff_gcd_eq_1)
    have "int ?n < 2 ^ 63" using assms(4) by (metis of_nat_less_iff of_nat_numeral of_nat_power)
    then have "- (2 ^ 63) \<le> B" "B < 2 ^ 63" using B(2) by linarith+
    then have sB: "sint (of_int B :: u64) = B"
      by (simp add: sint_sbintrunc' signed_take_bit_int_eq_self)
    define R where "R = (if B < 0 then B + int ?n else B)"
    have R: "0 \<le> R" "R < int ?n" using B(2) by (auto simp: R_def)
    have "mulInv x m = of_int R"
      using sm B(1) sB by (simp add: mulInv_def R_def)
    moreover have "unat (of_int R :: u64) = nat R"
    proof -
      have "of_int R = (of_nat (nat R) :: u64)" using R by simp
      moreover have "nat R < 2 ^ LENGTH(64)"
      proof -
        have "nat R < ?n" using R by linarith
        then show ?thesis using assms(4) by simp
      qed
      ultimately show ?thesis by (simp only: unat_of_nat mod_less)
    qed
    ultimately have u: "unat (mulInv x m) = nat R" by simp
    have "int ?n dvd (R * int (unat x)) - (1)"
    proof -
      have "(B + int ?n) * int (unat x) - 1 = (B * int (unat x) - 1) + int ?n * int (unat x)"
        by (simp add: algebra_simps)
      then have "int ?n dvd (B + int ?n) * int (unat x) - 1"
        using B(3) by (simp only: dvd_add dvd_triv_left)
      then show ?thesis using B(3) by (simp add: R_def)
    qed
    then have "(R * int (unat x)) mod int ?n = 1 mod int ?n"
      by (simp only: mod_eq_dvd_iff)
    then have "int ((nat R * unat x) mod ?n) = 1 mod int ?n"
      using R by (simp add: zmod_int)
    then have "(nat R * unat x) mod ?n = 1 mod ?n" by (metis of_nat_1 of_nat_eq_iff of_nat_mod)
    then have "(nat R * unat x) mod ?n = 1" using assms(3) by simp
    moreover have "nat R < ?n" using R by linarith
    ultimately show ?thesis using True u by simp
  qed
qed

lemma mulInv_correct_witness: "unat (mulInv 3 10) < 10 \<and> (unat (mulInv 3 10) * 3) mod 10 = 1"
  using mulInv_correct [of 3 10] by (simp add: coprime_iff_gcd_eq_1 gcd_nat.simps)

end
