(* ===== verification/Noise.thy ===== *)
theory Noise
  imports CubRng "HOL-Library.Multiset"
begin

text \<open>
  Perlin noise twice: the kernels' \<open>ImprovedNoise\<close> (\<open>src/src/gpu.cu\<close>: configuration tables, gradient
  table, sampling, initialisation) and cubiomes' \<open>PerlinNoise\<close> (\<open>src/cubiomes/noise.c\<close>, with the
  inlined copies \<open>fast_*\<close> of \<open>src/src/cubiomes.c\<close>). Floating-point values are read as exact rationals:
  rounding, infinities and the choice of fused operations are not modelled, so an equality of two
  sampling functions here says that they evaluate the same mathematical expression. Everything that is
  integer work in the code (permutation tables, hashes, cell coordinates, random draws) is exact.
\<close>

section \<open>Definitions: the kernels\<close>

definition hash_continentalness :: XrsrForkHash where
  "hash_continentalness = \<lparr>hash_lo = 0x83886c9d0ae3a662, hash_hi = 0xafa638a61b42e8ad\<rparr>"

definition hash_continentalness_large :: XrsrForkHash where
  "hash_continentalness_large = \<lparr>hash_lo = 0x9a3f51a113fce8dc, hash_hi = 0xee2dbd157e5dcdad\<rparr>"

definition hash_octave :: "XrsrForkHash list" where
  "hash_octave =
    [\<lparr>hash_lo = 0xb198de63a8012672, hash_hi = 0x7b84cad43ef7b5a8\<rparr>,
     \<lparr>hash_lo = 0x0fd787bfbc403ec3, hash_hi = 0x74a4a31ca21b48b8\<rparr>,
     \<lparr>hash_lo = 0x36d326eed40efeb2, hash_hi = 0x5be9ce18223c636a\<rparr>,
     \<lparr>hash_lo = 0x082fe255f8be6631, hash_hi = 0x4e96119e22dedc81\<rparr>,
     \<lparr>hash_lo = 0x0ef68ec68504005e, hash_hi = 0x48b6bf93a2789640\<rparr>,
     \<lparr>hash_lo = 0xf11268128982754f, hash_hi = 0x257a1d670430b0aa\<rparr>,
     \<lparr>hash_lo = 0xe51c98ce7d1de664, hash_hi = 0x5f9478a733040c45\<rparr>,
     \<lparr>hash_lo = 0x6d7b49e7e429850a, hash_hi = 0x2e3063c622a24777\<rparr>,
     \<lparr>hash_lo = 0xbd90d5377ba1b762, hash_hi = 0xc07317d419a7548d\<rparr>,
     \<lparr>hash_lo = 0x53d39c6752dac858, hash_hi = 0xbcd1c5a80ab65b3e\<rparr>,
     \<lparr>hash_lo = 0xb4a24d7a84e7677b, hash_hi = 0x023ff9668e89b5c4\<rparr>,
     \<lparr>hash_lo = 0xdffa22b534c5f608, hash_hi = 0xb9b67517d3665ca9\<rparr>,
     \<lparr>hash_lo = 0xd50708086cef4d7c, hash_hi = 0x6e1651ecc7f43309\<rparr>]"

record ImprovedNoise =
  in_p :: "u8 list"
  in_xo :: rat
  in_yo :: rat
  in_zo :: rat

record NoiseParameters =
  first_octave :: int
  amplitudes :: "rat list"

definition make_noise_parameters :: "int \<Rightarrow> rat list \<Rightarrow> NoiseParameters" where
  "make_noise_parameters first amps = \<lparr>first_octave = first, amplitudes = amps\<rparr>"

definition continentalness_parameters :: NoiseParameters where
  "continentalness_parameters = make_noise_parameters (- 9) [1, 1, 2, 2, 2, 1, 1, 1, 1]"

definition continentalness_large_parameters :: NoiseParameters where
  "continentalness_large_parameters = make_noise_parameters (- 11) [1, 1, 2, 2, 2, 1, 1, 1, 1]"

record OctaveConfig =
  oc_hash :: XrsrForkHash
  oc_input :: rat
  oc_value :: rat

record NormalNoiseConfig =
  nn_hash :: XrsrForkHash
  nn_a :: "OctaveConfig list"
  nn_b :: "OctaveConfig list"

primrec make_octaves :: "nat \<Rightarrow> int \<Rightarrow> rat list \<Rightarrow> rat \<Rightarrow> rat \<Rightarrow> (OctaveConfig \<times> OctaveConfig) list" where
  "make_octaves i first [] input_factor value_factor = []"
| "make_octaves i first (a # as) input_factor value_factor =
     (\<lparr>oc_hash = hash_octave ! nat (first + 12 + int i), oc_input = input_factor, oc_value = value_factor * a\<rparr>,
      \<lparr>oc_hash = hash_octave ! nat (first + 12 + int i), oc_input = input_factor * (10181268882175227 / 10000000000000000),
       oc_value = value_factor * a\<rparr>)
     # make_octaves (Suc i) first as (input_factor * 2) (value_factor * (1 / 2))"

definition make_normal_noise_config :: "NoiseParameters \<Rightarrow> XrsrForkHash \<Rightarrow> NormalNoiseConfig" where
  "make_normal_noise_config params fork_hash =
     (let first = first_octave params;
          amps = amplitudes params;
          n = length amps;
          root_value_factor = (16666666666666666 / 100000000000000000) / ((1 / 10) * (1 + 1 / of_nat n));
          input_factor = 1 / of_nat (2 ^ nat (- first));
          value_factor = of_nat (2 ^ (n - 1)) / (of_nat (2 ^ n) - 1) * root_value_factor;
          octaves = make_octaves 0 first amps input_factor value_factor
      in \<lparr>nn_hash = fork_hash, nn_a = map fst octaves, nn_b = map snd octaves\<rparr>)"

definition continentalness_config :: NormalNoiseConfig where
  "continentalness_config = make_normal_noise_config continentalness_parameters hash_continentalness"

definition continentalness_large_config :: NormalNoiseConfig where
  "continentalness_large_config = make_normal_noise_config continentalness_large_parameters hash_continentalness_large"

definition chosen_continentalness_config :: "bool \<Rightarrow> NormalNoiseConfig" where
  "chosen_continentalness_config large_biomes =
     (if large_biomes then continentalness_large_config else continentalness_config)"

record GradDotTable =
  gd_x :: "rat list"
  gd_y :: "rat list"
  gd_z :: "rat list"

definition set_grad :: "nat \<Rightarrow> rat \<Rightarrow> rat \<Rightarrow> rat \<Rightarrow> GradDotTable \<Rightarrow> GradDotTable" where
  "set_grad i x y z t = t\<lparr>gd_x := (gd_x t)[i := x], gd_y := (gd_y t)[i := y], gd_z := (gd_z t)[i := z]\<rparr>"

definition init_grad_dot_table :: GradDotTable where
  "init_grad_dot_table =
     (set_grad 15 0 (-1) (-1) \<circ> set_grad 14 (-1) 1 0 \<circ> set_grad 13 0 (-1) 1 \<circ> set_grad 12 1 1 0 \<circ>
      set_grad 11 0 (-1) (-1) \<circ> set_grad 10 0 1 (-1) \<circ> set_grad 9 0 (-1) 1 \<circ> set_grad 8 0 1 1 \<circ>
      set_grad 7 (-1) 0 (-1) \<circ> set_grad 6 1 0 (-1) \<circ> set_grad 5 (-1) 0 1 \<circ> set_grad 4 1 0 1 \<circ>
      set_grad 3 (-1) (-1) 0 \<circ> set_grad 2 1 (-1) 0 \<circ> set_grad 1 (-1) 1 0 \<circ> set_grad 0 1 1 0)
     \<lparr>gd_x = replicate 16 0, gd_y = replicate 16 0, gd_z = replicate 16 0\<rparr>"

definition gradDot :: "GradDotTable \<Rightarrow> u8 \<Rightarrow> rat \<Rightarrow> rat \<Rightarrow> rat \<Rightarrow> rat" where
  "gradDot table p x y z =
     (let hash = unat (p AND 0xF)
      in x * gd_x table ! hash + (y * gd_y table ! hash + z * gd_z table ! hash))"

definition smoothstep :: "rat \<Rightarrow> rat" where
  "smoothstep v = v * v * v * (v * (v * 6 - 15) + 10)"

definition g_lerp1 :: "rat \<Rightarrow> rat \<Rightarrow> rat \<Rightarrow> rat" where
  "g_lerp1 fx v0 v1 = fx * (v1 - v0) + v0"

definition g_lerp2 :: "rat \<Rightarrow> rat \<Rightarrow> rat \<Rightarrow> rat \<Rightarrow> rat \<Rightarrow> rat \<Rightarrow> rat" where
  "g_lerp2 fx fy v00 v10 v01 v11 = g_lerp1 fy (g_lerp1 fx v00 v10) (g_lerp1 fx v01 v11)"

definition g_lerp3 :: "rat \<Rightarrow> rat \<Rightarrow> rat \<Rightarrow> rat \<Rightarrow> rat \<Rightarrow> rat \<Rightarrow> rat \<Rightarrow> rat \<Rightarrow> rat \<Rightarrow> rat \<Rightarrow> rat \<Rightarrow> rat" where
  "g_lerp3 fx fy fz v000 v100 v010 v110 v001 v101 v011 v111 =
     g_lerp1 fz (g_lerp2 fx fy v000 v100 v010 v110) (g_lerp2 fx fy v001 v101 v011 v111)"

definition p_at :: "ImprovedNoise \<Rightarrow> int \<Rightarrow> u8" where
  "p_at noise i = in_p noise ! nat (i AND 0xFF)"

definition sample_noise :: "GradDotTable \<Rightarrow> ImprovedNoise \<Rightarrow> rat \<Rightarrow> rat \<Rightarrow> rat \<Rightarrow> rat" where
  "sample_noise table noise x0 y0 z0 =
     (let x = x0 + in_xo noise;
          y = y0 + in_yo noise;
          z = z0 + in_zo noise;
          int_x = floor x;
          int_y = floor y;
          int_z = floor z;
          frac_x = x - of_int int_x;
          frac_y = y - of_int int_y;
          frac_z = z - of_int int_z;
          p0 = uint (p_at noise int_x);
          p1 = uint (p_at noise (int_x + 1));
          p00 = uint (p_at noise (p0 + int_y));
          p01 = uint (p_at noise (p0 + int_y + 1));
          p10 = uint (p_at noise (p1 + int_y));
          p11 = uint (p_at noise (p1 + int_y + 1));
          n000 = gradDot table (p_at noise (p00 + int_z)) frac_x frac_y frac_z;
          n100 = gradDot table (p_at noise (p10 + int_z)) (frac_x - 1) frac_y frac_z;
          n010 = gradDot table (p_at noise (p01 + int_z)) frac_x (frac_y - 1) frac_z;
          n110 = gradDot table (p_at noise (p11 + int_z)) (frac_x - 1) (frac_y - 1) frac_z;
          n001 = gradDot table (p_at noise (p00 + int_z + 1)) frac_x frac_y (frac_z - 1);
          n101 = gradDot table (p_at noise (p10 + int_z + 1)) (frac_x - 1) frac_y (frac_z - 1);
          n011 = gradDot table (p_at noise (p01 + int_z + 1)) frac_x (frac_y - 1) (frac_z - 1);
          n111 = gradDot table (p_at noise (p11 + int_z + 1)) (frac_x - 1) (frac_y - 1) (frac_z - 1);
          fx = smoothstep frac_x;
          fy = smoothstep frac_y;
          fz = smoothstep frac_z
      in g_lerp3 fx fy fz n000 n100 n010 n110 n001 n101 n011 n111)"

definition wrap :: "rat \<Rightarrow> rat" where
  "wrap v = v"

definition sample_octave :: "OctaveConfig \<Rightarrow> GradDotTable \<Rightarrow> ImprovedNoise \<Rightarrow> int \<Rightarrow> int \<Rightarrow> int \<Rightarrow> rat" where
  "sample_octave config table noise x y z =
     sample_noise table noise (wrap (of_int x * oc_input config)) (wrap (of_int y * oc_input config))
       (wrap (of_int z * oc_input config)) * oc_value config"

primrec init_noise_loop :: "nat list \<Rightarrow> u8 list \<Rightarrow> XrsrRandom \<Rightarrow> (u8 list \<times> XrsrRandom) option" where
  "init_noise_loop [] p random = Some (p, random)"
| "init_noise_loop (i # is) p random =
     Option.bind (XrsrRandom_nextInt (256 - of_nat i) random) (\<lambda>(j, random').
       let b = p ! i;
           p1 = p[i := p ! (i + unat j)];
           p2 = p1[i + unat j := b]
       in init_noise_loop is p2 random')"

definition init_noise :: "XrsrRandom \<Rightarrow> ImprovedNoise option" where
  "init_noise random =
     (let (xo, random1) = XrsrRandom_nextFloat random;
          (yo, random2) = XrsrRandom_nextFloat random1;
          (zo, random3) = XrsrRandom_nextFloat random2;
          p = map of_nat [0..<256]
      in map_option (\<lambda>(p', _). \<lparr>in_p = p', in_xo = xo * 256, in_yo = yo * 256, in_zo = zo * 256\<rparr>)
           (init_noise_loop [0..<256] p random3))"

definition sample_only_a ::
    "nat \<Rightarrow> NormalNoiseConfig \<Rightarrow> ImprovedNoise list \<Rightarrow> GradDotTable \<Rightarrow> int \<Rightarrow> int \<Rightarrow> int \<Rightarrow> rat" where
  "sample_only_a Octaves config octaves table x y z =
     (let so = (\<lambda>c noise. sample_octave c table noise x y z);
          a = nn_a config;
          b = nn_b config;
          val = 0;
          val = (if Octaves \<ge> 1 then val + so (a ! 0) (octaves ! 0) else val);
          val = (if Octaves \<ge> 3 then val + so (a ! 1) (octaves ! 2) else val);
          val = (if Octaves \<ge> 5 then val + so (a ! 2) (octaves ! 4) else val);
          val = (if Octaves \<ge> 7 then val + so (a ! 3) (octaves ! 6) else val);
          val = (if Octaves \<ge> 9 then val + so (a ! 4) (octaves ! 8) else val);
          val = (if Octaves \<ge> 11 then val + so (a ! 5) (octaves ! 10) else val);
          val = (if Octaves \<ge> 13 then val + so (a ! 6) (octaves ! 12) else val);
          val = (if Octaves \<ge> 15 then val + so (a ! 7) (octaves ! 14) else val);
          val = (if Octaves \<ge> 17 then val + so (a ! 8) (octaves ! 16) else val)
      in val)"

definition sample_all ::
    "nat \<Rightarrow> NormalNoiseConfig \<Rightarrow> ImprovedNoise list \<Rightarrow> GradDotTable \<Rightarrow> int \<Rightarrow> int \<Rightarrow> int \<Rightarrow> rat" where
  "sample_all Octaves config octaves table x y z =
     (let so = (\<lambda>c noise. sample_octave c table noise x y z);
          a = nn_a config;
          b = nn_b config;
          val = 0;
          val = (if Octaves \<ge> 1 then val + so (a ! 0) (octaves ! 0) else val);
          val = (if Octaves \<ge> 2 then val + so (b ! 0) (octaves ! 1) else val);
          val = (if Octaves \<ge> 3 then val + so (a ! 1) (octaves ! 2) else val);
          val = (if Octaves \<ge> 4 then val + so (b ! 1) (octaves ! 3) else val);
          val = (if Octaves \<ge> 5 then val + so (a ! 2) (octaves ! 4) else val);
          val = (if Octaves \<ge> 6 then val + so (b ! 2) (octaves ! 5) else val);
          val = (if Octaves \<ge> 7 then val + so (a ! 3) (octaves ! 6) else val);
          val = (if Octaves \<ge> 8 then val + so (b ! 3) (octaves ! 7) else val);
          val = (if Octaves \<ge> 9 then val + so (a ! 4) (octaves ! 8) else val);
          val = (if Octaves \<ge> 10 then val + so (b ! 4) (octaves ! 9) else val);
          val = (if Octaves \<ge> 11 then val + so (a ! 5) (octaves ! 10) else val);
          val = (if Octaves \<ge> 12 then val + so (b ! 5) (octaves ! 11) else val);
          val = (if Octaves \<ge> 13 then val + so (a ! 6) (octaves ! 12) else val);
          val = (if Octaves \<ge> 14 then val + so (b ! 6) (octaves ! 13) else val);
          val = (if Octaves \<ge> 15 then val + so (a ! 7) (octaves ! 14) else val);
          val = (if Octaves \<ge> 16 then val + so (b ! 7) (octaves ! 15) else val);
          val = (if Octaves \<ge> 17 then val + so (a ! 8) (octaves ! 16) else val);
          val = (if Octaves \<ge> 18 then val + so (b ! 8) (octaves ! 17) else val)
      in val)"

definition sample_first12 ::
    "nat \<Rightarrow> NormalNoiseConfig \<Rightarrow> ImprovedNoise list \<Rightarrow> GradDotTable \<Rightarrow> int \<Rightarrow> int \<Rightarrow> int \<Rightarrow> rat" where
  "sample_first12 Octaves config octaves table x y z =
     (let so = (\<lambda>c noise. sample_octave c table noise x y z);
          a = nn_a config;
          b = nn_b config;
          val = 0;
          val = (if Octaves \<ge> 1 then val + so (a ! 0) (octaves ! 0) else val);
          val = (if Octaves \<ge> 2 then val + so (b ! 0) (octaves ! 1) else val);
          val = (if Octaves \<ge> 3 then val + so (a ! 1) (octaves ! 2) else val);
          val = (if Octaves \<ge> 4 then val + so (b ! 1) (octaves ! 3) else val);
          val = (if Octaves \<ge> 5 then val + so (a ! 2) (octaves ! 4) else val);
          val = (if Octaves \<ge> 6 then val + so (b ! 2) (octaves ! 5) else val);
          val = (if Octaves \<ge> 7 then val + so (a ! 3) (octaves ! 6) else val);
          val = (if Octaves \<ge> 8 then val + so (b ! 3) (octaves ! 7) else val);
          val = (if Octaves \<ge> 9 then val + so (a ! 4) (octaves ! 8) else val);
          val = (if Octaves \<ge> 10 then val + so (b ! 4) (octaves ! 9) else val);
          val = (if Octaves \<ge> 11 then val + so (a ! 5) (octaves ! 10) else val);
          val = (if Octaves \<ge> 12 then val + so (b ! 5) (octaves ! 11) else val)
      in val)"

definition sample_rest12 ::
    "nat \<Rightarrow> NormalNoiseConfig \<Rightarrow> ImprovedNoise list \<Rightarrow> GradDotTable \<Rightarrow> int \<Rightarrow> int \<Rightarrow> int \<Rightarrow> rat" where
  "sample_rest12 Octaves config octaves table x y z =
     (let so = (\<lambda>c noise. sample_octave c table noise x y z);
          a = nn_a config;
          b = nn_b config;
          val = 0;
          val = (if Octaves \<ge> 13 then val + so (a ! 6) (octaves ! 12) else val);
          val = (if Octaves \<ge> 14 then val + so (b ! 6) (octaves ! 13) else val);
          val = (if Octaves \<ge> 15 then val + so (a ! 7) (octaves ! 14) else val);
          val = (if Octaves \<ge> 16 then val + so (b ! 7) (octaves ! 15) else val);
          val = (if Octaves \<ge> 17 then val + so (a ! 8) (octaves ! 16) else val);
          val = (if Octaves \<ge> 18 then val + so (b ! 8) (octaves ! 17) else val)
      in val)"

definition rest12_margin :: "nat \<Rightarrow> NormalNoiseConfig \<Rightarrow> rat" where
  "rest12_margin Octaves config =
     (let a = nn_a config;
          m = 0;
          m = (if Octaves \<ge> 13 then m + 2 * oc_value (a ! 6) else m);
          m = (if Octaves \<ge> 15 then m + 2 * oc_value (a ! 7) else m);
          m = (if Octaves \<ge> 17 then m + 2 * oc_value (a ! 8) else m)
      in m)"

section \<open>Definitions: cubiomes\<close>

definition maintainPrecision :: "rat \<Rightarrow> rat" where
  "maintainPrecision x = x"

record PerlinNoise =
  pn_d :: "u8 list"
  pn_h2 :: u8
  pn_a :: rat
  pn_b :: rat
  pn_c :: rat
  pn_amplitude :: rat
  pn_lacunarity :: rat
  pn_d2 :: rat
  pn_t2 :: rat

record OctaveNoise =
  on_octaves :: "PerlinNoise list"

record DoublePerlinNoise =
  dp_amplitude :: rat
  dp_octA :: OctaveNoise
  dp_octB :: OctaveNoise

definition indexedLerp :: "u8 \<Rightarrow> rat \<Rightarrow> rat \<Rightarrow> rat \<Rightarrow> rat" where
  "indexedLerp idx a b c =
     (let k = idx AND 0xf
      in if k = 0 then a + b
         else if k = 1 then - a + b
         else if k = 2 then a - b
         else if k = 3 then - a - b
         else if k = 4 then a + c
         else if k = 5 then - a + c
         else if k = 6 then a - c
         else if k = 7 then - a - c
         else if k = 8 then b + c
         else if k = 9 then - b + c
         else if k = 10 then b - c
         else if k = 11 then - b - c
         else if k = 12 then a + b
         else if k = 13 then - b + c
         else if k = 14 then - a + b
         else if k = 15 then - b - c
         else 0)"

definition perlin_finish :: "rat \<Rightarrow> rat \<Rightarrow> rat \<Rightarrow> u8 list \<Rightarrow> PerlinNoise" where
  "perlin_finish a b c idx =
     (let i2 = floor b;
          d2 = b - of_int i2
      in \<lparr>pn_d = idx @ [idx ! 0], pn_h2 = word_of_int i2, pn_a = a, pn_b = b, pn_c = c,
          pn_amplitude = 1, pn_lacunarity = 1, pn_d2 = d2,
          pn_t2 = d2 * d2 * d2 * (d2 * (d2 * 6 - 15) + 10)\<rparr>)"

primrec perlinInit_loop :: "nat list \<Rightarrow> u8 list \<Rightarrow> u64 \<Rightarrow> (u8 list \<times> u64) option" where
  "perlinInit_loop [] idx seed = Some (idx, seed)"
| "perlinInit_loop (i # is) idx seed =
     Option.bind (cub_nextInt (256 - of_nat i) seed) (\<lambda>(r, seed').
       let j = unat r + i;
           n = idx ! i;
           idx1 = idx[i := idx ! j];
           idx2 = idx1[j := n]
       in perlinInit_loop is idx2 seed')"

definition perlinInit :: "u64 \<Rightarrow> (PerlinNoise \<times> u64) option" where
  "perlinInit seed =
     (let (a, seed1) = cub_nextDouble seed;
          (b, seed2) = cub_nextDouble seed1;
          (c, seed3) = cub_nextDouble seed2
      in map_option (\<lambda>(idx, seed'). (perlin_finish (a * 256) (b * 256) (c * 256) idx, seed'))
           (perlinInit_loop [0..<256] (map of_nat [0..<256]) seed3))"

primrec xPerlinInit_loop :: "nat list \<Rightarrow> u8 list \<Rightarrow> Xoroshiro \<Rightarrow> (u8 list \<times> Xoroshiro) option" where
  "xPerlinInit_loop [] idx xr = Some (idx, xr)"
| "xPerlinInit_loop (i # is) idx xr =
     Option.bind (xNextInt (256 - of_nat i) xr) (\<lambda>(r, xr').
       let j = unat r + i;
           n = idx ! i;
           idx1 = idx[i := idx ! j];
           idx2 = idx1[j := n]
       in xPerlinInit_loop is idx2 xr')"

definition xPerlinInit :: "Xoroshiro \<Rightarrow> (PerlinNoise \<times> Xoroshiro) option" where
  "xPerlinInit xr =
     (let (a, xr1) = xNextDouble xr;
          (b, xr2) = xNextDouble xr1;
          (c, xr3) = xNextDouble xr2
      in map_option (\<lambda>(idx, xr'). (perlin_finish (a * 256) (b * 256) (c * 256) idx, xr'))
           (xPerlinInit_loop [0..<256] (map of_nat [0..<256]) xr3))"

definition samplePerlin :: "PerlinNoise \<Rightarrow> rat \<Rightarrow> rat \<Rightarrow> rat \<Rightarrow> rat \<Rightarrow> rat \<Rightarrow> rat" where
  "samplePerlin noise d1 d2 d3 yamp ymin =
     (let (d2, h2, t2) =
            (if d2 = 0 then (pn_d2 noise, pn_h2 noise, pn_t2 noise)
             else let d2 = d2 + pn_b noise;
                      i2 = floor d2;
                      d2 = d2 - of_int i2
                  in (d2, word_of_int i2, d2 * d2 * d2 * (d2 * (d2 * 6 - 15) + 10)));
          d1 = d1 + pn_a noise;
          d3 = d3 + pn_c noise;
          i1 = floor d1;
          i3 = floor d3;
          d1 = d1 - of_int i1;
          d3 = d3 - of_int i3;
          h1 = (word_of_int i1 :: u8);
          h3 = (word_of_int i3 :: u8);
          t1 = d1 * d1 * d1 * (d1 * (d1 * 6 - 15) + 10);
          t3 = d3 * d3 * d3 * (d3 * (d3 * 6 - 15) + 10);
          d2 = (if yamp \<noteq> 0
                then let yclamp = (if ymin < d2 then ymin else d2)
                     in d2 - of_int (floor (yclamp / yamp)) * yamp
                else d2);
          idx = pn_d noise;
          v1a = idx ! unat h1 + h2;
          v1b = idx ! (unat h1 + 1) + h2;
          v2a = idx ! unat v1a + h3;
          v2b = idx ! (unat v1a + 1) + h3;
          v3a = idx ! unat v1b + h3;
          v3b = idx ! (unat v1b + 1) + h3;
          l1 = indexedLerp (idx ! unat v2a) d1 d2 d3;
          l5 = indexedLerp (idx ! (unat v2a + 1)) d1 d2 (d3 - 1);
          l2 = indexedLerp (idx ! unat v3a) (d1 - 1) d2 d3;
          l6 = indexedLerp (idx ! (unat v3a + 1)) (d1 - 1) d2 (d3 - 1);
          l3 = indexedLerp (idx ! unat v2b) d1 (d2 - 1) d3;
          l7 = indexedLerp (idx ! (unat v2b + 1)) d1 (d2 - 1) (d3 - 1);
          l4 = indexedLerp (idx ! unat v3b) (d1 - 1) (d2 - 1) d3;
          l8 = indexedLerp (idx ! (unat v3b + 1)) (d1 - 1) (d2 - 1) (d3 - 1);
          l1 = lerp t1 l1 l2;
          l3 = lerp t1 l3 l4;
          l5 = lerp t1 l5 l6;
          l7 = lerp t1 l7 l8;
          l1 = lerp t2 l1 l3;
          l5 = lerp t2 l5 l7
      in lerp t3 l1 l5)"


definition md5_octave_n :: "(u64 \<times> u64) list" where
  "md5_octave_n =
    [(0xb198de63a8012672, 0x7b84cad43ef7b5a8), (0x0fd787bfbc403ec3, 0x74a4a31ca21b48b8),
     (0x36d326eed40efeb2, 0x5be9ce18223c636a), (0x082fe255f8be6631, 0x4e96119e22dedc81),
     (0x0ef68ec68504005e, 0x48b6bf93a2789640), (0xf11268128982754f, 0x257a1d670430b0aa),
     (0xe51c98ce7d1de664, 0x5f9478a733040c45), (0x6d7b49e7e429850a, 0x2e3063c622a24777),
     (0xbd90d5377ba1b762, 0xc07317d419a7548d), (0x53d39c6752dac858, 0xbcd1c5a80ab65b3e),
     (0xb4a24d7a84e7677b, 0x023ff9668e89b5c4), (0xdffa22b534c5f608, 0xb9b67517d3665ca9),
     (0xd50708086cef4d7c, 0x6e1651ecc7f43309)]"

definition lacuna_ini :: "rat list" where
  "lacuna_ini = [1, 1/2, 1/4, 1/8, 1/16, 1/32, 1/64, 1/128, 1/256, 1/512, 1/1024, 1/2048, 1/4096]"

definition persist_ini :: "rat list" where
  "persist_ini = [0, 1, 2/3, 4/7, 8/15, 16/31, 32/63, 64/127, 128/255, 256/511]"

definition amp_ini :: "rat list" where
  "amp_ini = [0, 5/6, 10/9, 15/12, 20/15, 25/18, 30/21, 35/24, 40/27, 45/30]"

text \<open>
  The octave loop of \<open>xOctaveInit\<close>: \<open>i\<close> counts amplitudes, \<open>n\<close> the octaves stored so far; \<open>nmax = - 1\<close>
  lets the loop run to the end of the amplitudes.
\<close>

primrec xOctaveInit_loop ::
    "nat \<Rightarrow> int \<Rightarrow> u64 \<Rightarrow> u64 \<Rightarrow> int \<Rightarrow> int \<Rightarrow> rat list \<Rightarrow> rat \<Rightarrow> rat \<Rightarrow> PerlinNoise list option" where
  "xOctaveInit_loop i n xlo xhi omin nmax [] lacuna persist = Some []"
| "xOctaveInit_loop i n xlo xhi omin nmax (a # as) lacuna persist =
     (if n = nmax then Some []
      else if a = 0 then xOctaveInit_loop (Suc i) n xlo xhi omin nmax as (lacuna * 2) (persist * (1 / 2))
      else
        let (mlo, mhi) = md5_octave_n ! nat (12 + omin + int i);
            pxr = \<lparr>xr_lo = xlo XOR mlo, xr_hi = xhi XOR mhi\<rparr>
        in Option.bind (xPerlinInit pxr) (\<lambda>(oct, _).
             map_option (\<lambda>rest. oct\<lparr>pn_amplitude := a * persist, pn_lacunarity := lacuna\<rparr> # rest)
               (xOctaveInit_loop (Suc i) (n + 1) xlo xhi omin nmax as (lacuna * 2) (persist * (1 / 2)))))"

definition xOctaveInit :: "Xoroshiro \<Rightarrow> rat list \<Rightarrow> int \<Rightarrow> int \<Rightarrow> (OctaveNoise \<times> Xoroshiro) option" where
  "xOctaveInit xr amps omin nmax =
     (let lacuna = lacuna_ini ! nat (- omin);
          persist = persist_ini ! length amps;
          (xlo, xr1) = xNextLong xr;
          (xhi, xr2) = xNextLong xr1
      in map_option (\<lambda>octs. (\<lparr>on_octaves = octs\<rparr>, xr2))
           (xOctaveInit_loop 0 0 xlo xhi omin nmax amps lacuna persist))"

definition xDoublePerlinInit :: "Xoroshiro \<Rightarrow> rat list \<Rightarrow> int \<Rightarrow> int \<Rightarrow> (DoublePerlinNoise \<times> Xoroshiro) option" where
  "xDoublePerlinInit xr amps omin nmax =
     (let na = (if nmax > 0 then (nmax + 1) div 2 else - 1);
          nb = (if nmax > 0 then nmax - na else - 1)
      in Option.bind (xOctaveInit xr amps omin na) (\<lambda>(octA, xr1).
         Option.bind (xOctaveInit xr1 amps omin nb) (\<lambda>(octB, xr2).
           let len = length amps;
               len = len - length (takeWhile (\<lambda>a. a = 0) (rev amps));
               len = len - length (takeWhile (\<lambda>a. a = 0) amps)
           in Some (\<lparr>dp_amplitude = amp_ini ! len, dp_octA = octA, dp_octB = octB\<rparr>, xr2))))"

primrec octaveInit_loop :: "nat \<Rightarrow> u64 \<Rightarrow> rat \<Rightarrow> rat \<Rightarrow> (PerlinNoise list \<times> u64) option" where
  "octaveInit_loop 0 seed persist lacuna = Some ([], seed)"
| "octaveInit_loop (Suc k) seed persist lacuna =
     Option.bind (perlinInit seed) (\<lambda>(oct, seed').
       map_option (\<lambda>(rest, seed''). (oct\<lparr>pn_amplitude := persist, pn_lacunarity := lacuna\<rparr> # rest, seed''))
         (octaveInit_loop k seed' (persist * 2) (lacuna * (1 / 2))))"

text \<open>
  \<open>octaveInit\<close>: the inner option is None for an octave range the function refuses (it prints a message
  and leaves the noise alone), the outer one for a random draw that never ends.
\<close>

definition octaveInit :: "u64 \<Rightarrow> int \<Rightarrow> int \<Rightarrow> (OctaveNoise option \<times> u64) option" where
  "octaveInit seed omin len =
     (let last = omin + len - 1;
          persist = 1 / (of_int (2 ^ nat len) - 1);
          lacuna = 1 / of_int (2 ^ nat (- last))
      in if len < 1 \<or> last > 0 then Some (None, seed)
         else if last = 0
         then Option.bind (perlinInit seed) (\<lambda>(oct, seed').
           map_option (\<lambda>(rest, seed''). (Some \<lparr>on_octaves = oct\<lparr>pn_amplitude := persist, pn_lacunarity := lacuna\<rparr> # rest\<rparr>, seed''))
             (octaveInit_loop (nat len - 1) seed' (persist * 2) (lacuna * (1 / 2))))
         else map_option (\<lambda>(octs, seed''). (Some \<lparr>on_octaves = octs\<rparr>, seed''))
           (octaveInit_loop (nat len) (skipNextN seed (word_of_int (- last * 262))) persist lacuna))"

primrec octaveInitBeta_loop :: "nat \<Rightarrow> u64 \<Rightarrow> rat \<Rightarrow> rat \<Rightarrow> rat \<Rightarrow> rat \<Rightarrow> (PerlinNoise list \<times> u64) option" where
  "octaveInitBeta_loop 0 seed lac lacMul persist persistMul = Some ([], seed)"
| "octaveInitBeta_loop (Suc k) seed lac lacMul persist persistMul =
     Option.bind (perlinInit seed) (\<lambda>(oct, seed').
       map_option (\<lambda>(rest, seed''). (oct\<lparr>pn_amplitude := persist, pn_lacunarity := lac\<rparr> # rest, seed''))
         (octaveInitBeta_loop k seed' (lac * lacMul) lacMul (persist * persistMul) persistMul))"

definition octaveInitBeta :: "u64 \<Rightarrow> nat \<Rightarrow> rat \<Rightarrow> rat \<Rightarrow> rat \<Rightarrow> rat \<Rightarrow> (OctaveNoise \<times> u64) option" where
  "octaveInitBeta seed octcnt lac lacMul persist persistMul =
     map_option (\<lambda>(octs, seed'). (\<lparr>on_octaves = octs\<rparr>, seed'))
       (octaveInitBeta_loop octcnt seed lac lacMul persist persistMul)"

definition doublePerlinInit :: "u64 \<Rightarrow> int \<Rightarrow> int \<Rightarrow> (rat \<times> OctaveNoise option \<times> OctaveNoise option \<times> u64) option" where
  "doublePerlinInit seed omin len =
     Option.bind (octaveInit seed omin len) (\<lambda>(octA, seed1).
     Option.bind (octaveInit seed1 omin len) (\<lambda>(octB, seed2).
       Some ((10 / 6) * of_int len / of_int (len + 1), octA, octB, seed2)))"

definition sampleOctaveAmp :: "OctaveNoise \<Rightarrow> rat \<Rightarrow> rat \<Rightarrow> rat \<Rightarrow> rat \<Rightarrow> rat \<Rightarrow> bool \<Rightarrow> rat" where
  "sampleOctaveAmp noise x y z yamp ymin ydefault =
     fold (\<lambda>p v.
         let lf = pn_lacunarity p;
             ax = maintainPrecision (x * lf);
             ay = (if ydefault then - pn_b p else maintainPrecision (y * lf));
             az = maintainPrecision (z * lf);
             pv = samplePerlin p ax ay az (yamp * lf) (ymin * lf)
         in v + pn_amplitude p * pv)
       (on_octaves noise) 0"

definition sampleOctave :: "OctaveNoise \<Rightarrow> rat \<Rightarrow> rat \<Rightarrow> rat \<Rightarrow> rat" where
  "sampleOctave noise x y z =
     fold (\<lambda>p v.
         let lf = pn_lacunarity p;
             ax = maintainPrecision (x * lf);
             ay = maintainPrecision (y * lf);
             az = maintainPrecision (z * lf);
             pv = samplePerlin p ax ay az 0 0
         in v + pn_amplitude p * pv)
       (on_octaves noise) 0"

definition sampleDoublePerlin :: "DoublePerlinNoise \<Rightarrow> rat \<Rightarrow> rat \<Rightarrow> rat \<Rightarrow> rat" where
  "sampleDoublePerlin noise x y z =
     (let f = 337 / 331;
          v = 0;
          v = v + sampleOctave (dp_octA noise) x y z;
          v = v + sampleOctave (dp_octB noise) (x * f) (y * f) (z * f)
      in v * dp_amplitude noise)"

section \<open>Definitions: the inlined copies\<close>

definition fast_indexedLerp :: "u8 \<Rightarrow> rat \<Rightarrow> rat \<Rightarrow> rat \<Rightarrow> rat" where
  "fast_indexedLerp idx a b c =
     (let k = idx AND 0xf
      in if k = 0 then a + b
         else if k = 1 then - a + b
         else if k = 2 then a - b
         else if k = 3 then - a - b
         else if k = 4 then a + c
         else if k = 5 then - a + c
         else if k = 6 then a - c
         else if k = 7 then - a - c
         else if k = 8 then b + c
         else if k = 9 then - b + c
         else if k = 10 then b - c
         else if k = 11 then - b - c
         else if k = 12 then a + b
         else if k = 13 then - b + c
         else if k = 14 then - a + b
         else - b - c)"

definition fast_samplePerlin :: "PerlinNoise \<Rightarrow> rat \<Rightarrow> rat \<Rightarrow> rat \<Rightarrow> rat \<Rightarrow> rat \<Rightarrow> rat" where
  "fast_samplePerlin noise d1 d2 d3 yamp ymin =
     (let (d2, h2, t2) =
            (if d2 = 0 then (pn_d2 noise, pn_h2 noise, pn_t2 noise)
             else let d2 = d2 + pn_b noise;
                      i2 = floor d2;
                      d2 = d2 - of_int i2
                  in (d2, word_of_int i2, d2 * d2 * d2 * (d2 * (d2 * 6 - 15) + 10)));
          d1 = d1 + pn_a noise;
          d3 = d3 + pn_c noise;
          i1 = floor d1;
          i3 = floor d3;
          d1 = d1 - of_int i1;
          d3 = d3 - of_int i3;
          h1 = (word_of_int i1 :: u8);
          h3 = (word_of_int i3 :: u8);
          t1 = d1 * d1 * d1 * (d1 * (d1 * 6 - 15) + 10);
          t3 = d3 * d3 * d3 * (d3 * (d3 * 6 - 15) + 10);
          d2 = (if yamp \<noteq> 0
                then let yclamp = (if ymin < d2 then ymin else d2)
                     in d2 - of_int (floor (yclamp / yamp)) * yamp
                else d2);
          idx = pn_d noise;
          v1a = idx ! unat h1 + h2;
          v1b = idx ! (unat h1 + 1) + h2;
          v2a = idx ! unat v1a + h3;
          v2b = idx ! (unat v1a + 1) + h3;
          v3a = idx ! unat v1b + h3;
          v3b = idx ! (unat v1b + 1) + h3;
          l1 = fast_indexedLerp (idx ! unat v2a) d1 d2 d3;
          l5 = fast_indexedLerp (idx ! (unat v2a + 1)) d1 d2 (d3 - 1);
          l2 = fast_indexedLerp (idx ! unat v3a) (d1 - 1) d2 d3;
          l6 = fast_indexedLerp (idx ! (unat v3a + 1)) (d1 - 1) d2 (d3 - 1);
          l3 = fast_indexedLerp (idx ! unat v2b) d1 (d2 - 1) d3;
          l7 = fast_indexedLerp (idx ! (unat v2b + 1)) d1 (d2 - 1) (d3 - 1);
          l4 = fast_indexedLerp (idx ! unat v3b) (d1 - 1) (d2 - 1) d3;
          l8 = fast_indexedLerp (idx ! (unat v3b + 1)) (d1 - 1) (d2 - 1) (d3 - 1);
          l1 = lerp t1 l1 l2;
          l3 = lerp t1 l3 l4;
          l5 = lerp t1 l5 l6;
          l7 = lerp t1 l7 l8;
          l1 = lerp t2 l1 l3;
          l5 = lerp t2 l5 l7
      in lerp t3 l1 l5)"

definition fast_sampleOctave :: "OctaveNoise \<Rightarrow> rat \<Rightarrow> rat \<Rightarrow> rat \<Rightarrow> rat" where
  "fast_sampleOctave noise x y z =
     fold (\<lambda>p v.
         let lf = pn_lacunarity p;
             ax = maintainPrecision (x * lf);
             ay = maintainPrecision (y * lf);
             az = maintainPrecision (z * lf)
         in v + pn_amplitude p * fast_samplePerlin p ax ay az 0 0)
       (on_octaves noise) 0"

definition fast_sampleDoublePerlin :: "DoublePerlinNoise \<Rightarrow> rat \<Rightarrow> rat \<Rightarrow> rat \<Rightarrow> rat" where
  "fast_sampleDoublePerlin noise x y z =
     (let f = 337 / 331;
          v = fast_sampleOctave (dp_octA noise) x y z;
          v = v + fast_sampleOctave (dp_octB noise) (x * f) (y * f) (z * f)
      in v * dp_amplitude noise)"


section \<open>The gradient table\<close>

lemma grad_table:
  "gd_x init_grad_dot_table = [1, -1, 1, -1, 1, -1, 1, -1, 0, 0, 0, 0, 1, 0, -1, 0]"
  "gd_y init_grad_dot_table = [1, 1, -1, -1, 0, 0, 0, 0, 1, -1, 1, -1, 1, -1, 1, -1]"
  "gd_z init_grad_dot_table = [0, 0, 0, 0, 1, 1, -1, -1, 1, 1, -1, -1, 0, 1, 0, -1]"
  by (simp_all add: init_grad_dot_table_def set_grad_def eval_nat_numeral)

lemma low_nibble_cases:
  fixes p :: u8
  obtains n where "n < 16" "p AND 0xF = of_nat n" "unat (p AND 0xF) = n"
proof -
  have m: "(0xF :: u8) = mask 4" by (simp add: mask_eq_exp_minus_1)
  have "unat (p AND 0xF) < 16" unfolding m unat_and_mask by simp
  moreover have "p AND 0xF = of_nat (unat (p AND 0xF))" by simp
  ultimately show ?thesis using that by blast
qed

lemma less_16_cases: "n < 16 \<Longrightarrow> n \<in> {0, 1, 2, 3, 4, 5, 6, 7, 8, 9, 10, 11, 12, 13, 14, 15 :: nat}"
  unfolding insert_iff empty_iff by presburger

lemma gradDot_eq: "gradDot init_grad_dot_table p x y z = indexedLerp p x y z"
proof -
  obtain n where n: "n < 16" "p AND 0xF = of_nat n" "unat (p AND 0xF) = n"
    by (rule low_nibble_cases)
  show ?thesis
    using less_16_cases [OF n(1)] unfolding gradDot_def indexedLerp_def Let_def n(2) grad_table
    by (elim insertE emptyE) simp_all
qed

lemma indexedLerp_bound:
  assumes "\<bar>a\<bar> \<le> 1" "\<bar>b\<bar> \<le> 1" "\<bar>c\<bar> \<le> 1"
  shows "\<bar>indexedLerp p a b c\<bar> \<le> 2"
proof -
  obtain n where n: "n < 16" "p AND 0xF = of_nat n" "unat (p AND 0xF) = n"
    by (rule low_nibble_cases)
  show ?thesis
    using less_16_cases [OF n(1)] unfolding indexedLerp_def Let_def n(2)
    by (elim insertE emptyE; simp only:; simp; use assms in linarith)
qed

lemma fast_indexedLerp_eq: "fast_indexedLerp p a b c = indexedLerp p a b c"
proof -
  obtain n where n: "n < 16" "p AND 0xF = of_nat n" "unat (p AND 0xF) = n"
    by (rule low_nibble_cases)
  show ?thesis
    using less_16_cases [OF n(1)] unfolding fast_indexedLerp_def indexedLerp_def Let_def n(2)
    by (elim insertE emptyE) simp_all
qed

lemma fast_samplePerlin_eq: "fast_samplePerlin = samplePerlin"
  by (intro ext) (simp only: fast_samplePerlin_def samplePerlin_def fast_indexedLerp_eq)

text \<open>
  The inlined noise functions of \<open>src/src/cubiomes.c\<close> are those of \<open>noise.c\<close>, as their comment says.
\<close>

theorem fast_noise_is_noise:
  "fast_sampleOctave = sampleOctave \<and> fast_sampleDoublePerlin = sampleDoublePerlin"
proof -
  have o: "fast_sampleOctave = sampleOctave"
    by (intro ext) (simp only: fast_sampleOctave_def sampleOctave_def fast_samplePerlin_eq Let_def)
  then show ?thesis
    by (simp add: fun_eq_iff fast_sampleDoublePerlin_def sampleDoublePerlin_def Let_def)
qed

section \<open>The permutation table\<close>

lemma swap_loop_mset:
  fixes p :: "u8 list"
  assumes "i + j < length p"
  shows "mset (p[i := p ! (i + j), i + j := p ! i]) = mset p"
  using assms by (intro mset_swap) simp_all

lemma init_noise_loop_perm:
  assumes "init_noise_loop is p r = Some (p', r')" "length p = 256" "\<forall>i\<in>set is. i < 256"
  shows "mset p' = mset p"
  using assms
proof (induction "is" arbitrary: p r)
  case (Cons i "is")
  from Cons.prems(1) obtain j q where jq: "XrsrRandom_nextInt (256 - of_nat i) r = Some (j, q)"
    and rest: "init_noise_loop is (p[i := p ! (i + unat j), i + unat j := p ! i]) q = Some (p', r')"
    by (auto simp: Let_def bind_eq_Some_conv)
  have i: "i < 256" using Cons.prems(3) by simp
  then have u: "unat (256 - of_nat i :: u32) = 256 - i"
    by (simp add: unat_sub_if_size unat_of_nat)
  then have "0 < (256 - of_nat i :: u32)" using i by (simp add: word_less_nat_alt)
  from nextInt_less [OF this jq] have "unat j < 256 - i" by (simp only: word_less_nat_alt u)
  then have "i + unat j < length p" using Cons.prems(2) by simp
  then have "mset (p[i := p ! (i + unat j), i + unat j := p ! i]) = mset p"
    by (rule swap_loop_mset)
  with Cons.IH [OF rest] Cons.prems show ?case by simp
qed simp

lemma byte_table_all: "set (map of_nat [0..<256] :: u8 list) = UNIV"
proof -
  have "w \<in> set (map of_nat [0..<256])" for w :: u8
  proof -
    have "w = of_nat (unat w)" "unat w < 256" using u8_bound [of w] by simp_all
    then show ?thesis by (metis atLeastLessThan_iff imageI list.set_map set_upt zero_le)
  qed
  then show ?thesis by blast
qed

lemma init_noise_perm_table:
  assumes "init_noise r = Some noise"
  shows "length (in_p noise) = 256 \<and> distinct (in_p noise) \<and> set (in_p noise) = UNIV"
proof -
  obtain p' r3 r' where loop: "init_noise_loop [0..<256] (map of_nat [0..<256]) r3 = Some (p', r')"
    and p: "in_p noise = p'"
    using assms by (auto simp: init_noise_def split_def Let_def)
  have m: "mset p' = mset (map of_nat [0..<256] :: u8 list)"
    by (rule init_noise_loop_perm [OF loop]) auto
  have inj: "inj_on (of_nat :: nat \<Rightarrow> u8) {0..<256}"
  proof (rule inj_onI)
    fix x y :: nat
    assume xy: "x \<in> {0..<256}" "y \<in> {0..<256}" "(of_nat x :: u8) = of_nat y"
    have "unat (of_nat x :: u8) = x" "unat (of_nat y :: u8) = y" using xy(1,2) by (simp_all add: unat_of_nat)
    with xy(3) show "x = y" by metis
  qed
  have d: "distinct (map of_nat [0..<256] :: u8 list)"
    by (simp add: distinct_map inj)
  show ?thesis
    unfolding p using m d byte_table_all by (metis length_map length_upt minus_nat.diff_0 mset_eq_imp_distinct_iff mset_eq_length mset_eq_setD)
qed

lemma init_noise_loop_cubiomes:
  "init_noise_loop is p (as_xrsr xr) = map_option as_xrsr2 (xPerlinInit_loop is p xr)"
proof (induction "is" arbitrary: p xr)
  case Nil
  then show ?case by (simp add: as_xrsr2_def)
next
  case (Cons i "is")
  show ?case
  proof (cases "xNextInt (256 - of_nat i) xr")
    case None
    then show ?thesis using xNextInt_eq [of "256 - of_nat i" xr] by simp
  next
    case (Some jq)
    obtain j q where jq: "jq = (j, q)" by (cases jq)
    have "XrsrRandom_nextInt (256 - of_nat i) (as_xrsr xr) = Some (j, as_xrsr q)"
      using xNextInt_eq [of "256 - of_nat i" xr] by (simp add: Some jq as_xrsr2_def)
    then show ?thesis by (simp add: Some jq Let_def Cons.IH add.commute [of i])
  qed
qed

lemma nextFloat_state: "snd (XrsrRandom_nextFloat r) = xrsr_next r"
  by (simp add: XrsrRandom_nextFloat_def XrsrRandom_nextBits_def xrsr_next_def split_def Let_def)

lemma xNextDouble_state: "as_xrsr (snd (xNextDouble xr)) = xrsr_next (as_xrsr xr)"
  by (simp add: xNextDouble_def split_def Let_def xNextLong_snd)

text \<open>
  The float of 24 and the double of 53 bits of one draw: the double refines the float.
\<close>

lemma float_of_double:
  "fst (XrsrRandom_nextFloat (as_xrsr xr)) \<le> fst (xNextDouble xr) \<and>
   fst (xNextDouble xr) < fst (XrsrRandom_nextFloat (as_xrsr xr)) + 1 / 2 ^ 24"
proof -
  let ?x = "unat (fst (xNextLong xr))"
  define d where "d = ?x div 2 ^ 11"
  have f: "fst (XrsrRandom_nextFloat (as_xrsr xr)) = of_nat (?x div 2 ^ 40) / 2 ^ 24"
    unfolding xNextLong_fst
    by (simp only: XrsrRandom_nextFloat_def XrsrRandom_nextBits_def split_def Let_def fst_conv snd_conv unat_drop_div) simp
  have e: "fst (xNextDouble xr) = of_nat d / 2 ^ 53"
    by (simp only: xNextDouble_def split_def Let_def fst_conv snd_conv unat_drop_div d_def) simp
  have q: "?x div 2 ^ 40 = d div 2 ^ 29"
    by (simp add: d_def flip: div_mult2_eq)
  have "(of_nat (d div 2 ^ 29) :: rat) * 536870912 \<le> of_nat d"
    "(of_nat d :: rat) < (of_nat (d div 2 ^ 29) + 1) * 536870912"
    using rat_div_bounds [of "2 ^ 29" d, where ?'a = rat] by simp_all
  then show ?thesis unfolding f e q by (simp add: field_simps)
qed

definition trunc_offset :: "rat \<Rightarrow> rat" where
  "trunc_offset a = of_int (floor (a * 2 ^ 16)) / 2 ^ 16"

lemma trunc_offset_double:
  "fst (XrsrRandom_nextFloat (as_xrsr xr)) * 256 = trunc_offset (fst (xNextDouble xr) * 256)"
proof -
  let ?f = "fst (XrsrRandom_nextFloat (as_xrsr xr))" and ?d = "fst (xNextDouble xr)"
  define n where "n = unat (fst (XrsrRandom_nextBits 24 (as_xrsr xr)))"
  have n: "?f = of_nat n / 2 ^ 24"
    by (simp only: XrsrRandom_nextFloat_def split_def Let_def fst_conv n_def)
  have b: "?f \<le> ?d" "?d < ?f + 1 / 2 ^ 24" using float_of_double [of xr] by simp_all
  have "floor (?d * 256 * 2 ^ 16) = int n"
  proof (rule floor_unique)
    show "of_int (int n) \<le> ?d * 256 * 2 ^ 16" "?d * 256 * 2 ^ 16 < of_int (int n) + 1"
      using b unfolding n by (simp_all add: field_simps)
  qed
  then show ?thesis by (simp add: trunc_offset_def n)
qed

lemma init_noise_xPerlinInit:
  "init_noise (as_xrsr xr) =
     map_option (\<lambda>(pn, _). \<lparr>in_p = take 256 (pn_d pn), in_xo = trunc_offset (pn_a pn),
        in_yo = trunc_offset (pn_b pn), in_zo = trunc_offset (pn_c pn)\<rparr>) (xPerlinInit xr)"
proof -
  define xr1 xr2 xr3 where "xr1 = snd (xNextDouble xr)" and "xr2 = snd (xNextDouble xr1)" and "xr3 = snd (xNextDouble xr2)"
  have s: "xrsr_next (as_xrsr xr) = as_xrsr xr1" "xrsr_next (as_xrsr xr1) = as_xrsr xr2" "xrsr_next (as_xrsr xr2) = as_xrsr xr3"
    by (simp_all add: xr1_def xr2_def xr3_def xNextDouble_state)
  have gpu: "init_noise (as_xrsr xr) = map_option (\<lambda>(p', _). \<lparr>in_p = p',
      in_xo = fst (XrsrRandom_nextFloat (as_xrsr xr)) * 256, in_yo = fst (XrsrRandom_nextFloat (as_xrsr xr1)) * 256,
      in_zo = fst (XrsrRandom_nextFloat (as_xrsr xr2)) * 256\<rparr>)
      (init_noise_loop [0..<256] (map of_nat [0..<256]) (as_xrsr xr3))"
    by (simp only: init_noise_def split_def Let_def nextFloat_state s)
  have cpu: "xPerlinInit xr = map_option (\<lambda>(p', q). (perlin_finish (fst (xNextDouble xr) * 256)
      (fst (xNextDouble xr1) * 256) (fst (xNextDouble xr2) * 256) p', q))
      (xPerlinInit_loop [0..<256] (map of_nat [0..<256]) xr3)"
    by (simp only: xPerlinInit_def split_def Let_def xr1_def [symmetric] xr2_def [symmetric] xr3_def [symmetric] fst_conv snd_conv)
  have len: "length p' = 256" if "xPerlinInit_loop [0..<256] (map of_nat [0..<256]) xr3 = Some (p', q)" for p' q
  proof -
    have "init_noise_loop [0..<256] (map of_nat [0..<256]) (as_xrsr xr3) = Some (p', as_xrsr q)"
      by (simp add: init_noise_loop_cubiomes that as_xrsr2_def)
    from init_noise_loop_perm [OF this] have "mset p' = mset (map of_nat [0..<256] :: u8 list)" by simp
    then have "length p' = length (map of_nat [0..<256] :: u8 list)" by (rule mset_eq_length)
    then show ?thesis by simp
  qed
  show ?thesis
    unfolding gpu cpu init_noise_loop_cubiomes trunc_offset_double
    by (cases "xPerlinInit_loop [0..<256] (map of_nat [0..<256]) xr3")
      (auto simp: as_xrsr2_def perlin_finish_def Let_def len)
qed

text \<open>
  C11: Started from the same generator, the GPU's \<open>init_noise\<close> and cubiomes' \<open>xPerlinInit\<close> build the
  same permutation table (cubiomes repeats its first entry), and the GPU's offsets are cubiomes'
  truncated to 16 fractional bits; one returns exactly when the other does.
\<close>

theorem init_noise_vs_xPerlinInit:
  "init_noise (as_xrsr xr) =
     map_option (\<lambda>(pn, _). \<lparr>in_p = take 256 (pn_d pn), in_xo = trunc_offset (pn_a pn),
        in_yo = trunc_offset (pn_b pn), in_zo = trunc_offset (pn_c pn)\<rparr>) (xPerlinInit xr)"
  by (rule init_noise_xPerlinInit)

section \<open>How rarely the initialisation rejects a draw\<close>

lemma init_noise_loop_returns:
  assumes "\<And>i. i < 256 \<Longrightarrow> lemire_accepts (256 - of_nat i) (xrsr_draw r i)"
  shows "k \<le> 256 \<Longrightarrow> init_noise_loop [k..<256] p ((xrsr_next ^^ k) r) \<noteq> None"
proof (induction "256 - k" arbitrary: k p)
  case (Suc n)
  then have k: "k < 256" by linarith
  then have up: "[k..<256] = k # [Suc k..<256]" by (simp add: upt_rec)
  have "0 < (256 - of_nat k :: u32)"
    using k by (simp add: word_less_nat_alt unat_sub_if_size unat_of_nat)
  moreover have "lemire_accepts (256 - of_nat k) (xrsr_draw ((xrsr_next ^^ k) r) 0)"
    using assms [OF k] by (simp add: xrsr_draw_def)
  ultimately have "XrsrRandom_nextInt (256 - of_nat k) ((xrsr_next ^^ k) r)
      = Some (lemire_value (256 - of_nat k) (xrsr_draw ((xrsr_next ^^ k) r) 0), (xrsr_next ^^ Suc 0) ((xrsr_next ^^ k) r))"
    by (intro nextInt_Some) simp_all
  moreover have "init_noise_loop [Suc k..<256] q ((xrsr_next ^^ Suc k) r) \<noteq> None" for q
    using Suc k by (intro Suc.hyps(1)) simp_all
  ultimately show ?case unfolding up by (simp add: Let_def)
qed simp

text \<open>
  C28: The random draws behind a noise table practically always come out: of the \<open>2^128\<close> generator
  states, fewer than \<open>2^112\<close> can keep \<open>init_noise\<close> from returning; and what it returns is a
  permutation of the 256 bytes.
\<close>

theorem init_noise_returns_permutation:
  "card {r. init_noise r = None} < 2 ^ 112 \<and>
   map_option (\<lambda>noise. (length (in_p noise), distinct (in_p noise), set (in_p noise))) (init_noise r) \<in> {None, Some (256, True, UNIV)}"
proof
  have none: "{r. init_noise r = None} \<subseteq> (\<Union>i<256. {r. \<not> lemire_accepts (256 - of_nat i) (xrsr_draw r (i + 3))})"
  proof
    fix r assume "r \<in> {r. init_noise r = None}"
    then have "init_noise_loop [0..<256] (map of_nat [0..<256]) (xrsr_next (xrsr_next (xrsr_next r))) = None"
      by (auto simp: init_noise_def split_def Let_def nextFloat_state)
    then obtain i where "i < 256" "\<not> lemire_accepts (256 - of_nat i) (xrsr_draw (xrsr_next (xrsr_next (xrsr_next r))) i)"
      using init_noise_loop_returns [of "xrsr_next (xrsr_next (xrsr_next r))" 0] by (metis funpow_0 zero_le)
    moreover have "xrsr_draw (xrsr_next (xrsr_next (xrsr_next r))) i = xrsr_draw r (i + 3)"
      by (simp only: xrsr_draw_next) (simp add: eval_nat_numeral)
    ultimately show "r \<in> (\<Union>i<256. {r. \<not> lemire_accepts (256 - of_nat i) (xrsr_draw r (i + 3))})" by auto
  qed
  have each: "card {r. \<not> lemire_accepts (256 - of_nat i) (xrsr_draw r (i + 3))} \<le> 2 ^ 96 * 255" if "i < 256" for i
  proof -
    have u: "unat (256 - of_nat i :: u32) = 256 - i" using that by (simp add: unat_sub_if_size unat_of_nat)
    then have p: "0 < (256 - of_nat i :: u32)" using that by (simp add: word_less_nat_alt)
    have "2 ^ 32 mod unat (256 - of_nat i :: u32) < 256 - i" unfolding u using that by (intro mod_less_divisor) simp
    then have "2 ^ 32 mod unat (256 - of_nat i :: u32) \<le> 255" by linarith
    then show ?thesis using card_draw_rejected [OF p, of "i + 3"] by (meson le_trans mult_le_mono2)
  qed
  have "card {r. init_noise r = None} \<le> card (\<Union>i<256. {r. \<not> lemire_accepts (256 - of_nat i) (xrsr_draw r (i + 3))})"
    by (rule card_mono [OF finite_XrsrRandom none])
  also have "\<dots> \<le> (\<Sum>i<256. card {r. \<not> lemire_accepts (256 - of_nat i) (xrsr_draw r (i + 3))})"
    by (rule card_UN_le) simp
  also have "\<dots> \<le> (\<Sum>i<256::nat. 2 ^ 96 * 255)"
    by (rule sum_mono) (use each in simp)
  finally show "card {r. init_noise r = None} < 2 ^ 112" by simp
  show "map_option (\<lambda>noise. (length (in_p noise), distinct (in_p noise), set (in_p noise))) (init_noise r) \<in> {None, Some (256, True, UNIV)}"
    using init_noise_perm_table by (cases "init_noise r") auto
qed

section \<open>What the prefilter knows of an octave\<close>

definition frac :: "rat \<Rightarrow> rat" where
  "frac x = x - of_int (floor x)"

text \<open>
  The prefilter's \<open>octave_yo_mod1\<close> is the fractional part of the vertical offset that
  \<open>init_noise\<close> later draws for that octave, with 8 more bits: it exceeds that fraction by less than
  \<open>2^-16\<close>. The condition says that the forked state is not the one state the generator repairs.
\<close>

theorem octave_yo_mod1_is_frac_yo:
  assumes "hash_lo hash \<noteq> 0 \<or> hash_hi hash \<noteq> 0"
    and "fork_lo f \<noteq> hash_lo hash \<or> fork_hi f \<noteq> hash_hi hash"
  shows "\<exists>yo. map_option in_yo (init_noise (XrsrRandomFork_from f hash)) \<in> {None, Some yo} \<and>
         frac yo \<le> octave_yo_mod1 hash (noise_yo_fork f) \<and>
         octave_yo_mod1 hash (noise_yo_fork f) < frac yo + 1 / 2 ^ 16"
proof -
  let ?r = "xrsr_next (XrsrRandomFork_from f hash)"
  define x where "x = unat (fst (XrsrRandom_nextInternal ?r))"
  have yo: "map_option in_yo (init_noise (XrsrRandomFork_from f hash)) \<in> {None, Some (of_nat (x div 2 ^ 40) / 2 ^ 24 * 256)}"
  proof -
    have "map_option in_yo (init_noise (XrsrRandomFork_from f hash)) \<in> {None, Some (fst (XrsrRandom_nextFloat ?r) * 256)}"
      by (cases "init_noise (XrsrRandomFork_from f hash)") (auto simp: init_noise_def split_def Let_def nextFloat_state)
    also have "fst (XrsrRandom_nextFloat ?r) = of_nat (x div 2 ^ 40) / 2 ^ 24"
      by (simp only: XrsrRandom_nextFloat_def XrsrRandom_nextBits_def split_def Let_def fst_conv snd_conv unat_drop_div x_def) simp
    finally show ?thesis .
  qed
  have st: "x_lo ?r = fork_lo (noise_yo_fork f) XOR hash_lo (octave_yo_fork_hash hash)"
    "x_hi ?r = fork_hi (noise_yo_fork f) XOR hash_hi (octave_yo_fork_hash hash)"
    by (simp_all only: yo_state [OF assms(1,2), symmetric] XrsrRandom.simps)
  have m: "(0xFFFFFF :: u64) = mask 24" by (simp add: mask_eq_exp_minus_1)
  have mod1: "octave_yo_mod1 hash (noise_yo_fork f) = of_nat (x div 2 ^ 32 mod 2 ^ 24) / 2 ^ 24"
    by (simp only: octave_yo_mod1_def Let_def st [symmetric] m unat_and_mask unat_drop_div x_def nextInternal_eq fst_conv)
  define d where "d = x div 2 ^ 32"
  have q: "x div 2 ^ 40 = d div 2 ^ 8" by (simp add: d_def flip: div_mult2_eq)
  define e where "e = d div 2 ^ 8"
  have small: "e < 2 ^ 24" using u64_bound [of "fst (XrsrRandom_nextInternal ?r)"]
    by (simp add: e_def d_def x_def less_mult_imp_div_less)
  have fr: "frac (of_nat e / 2 ^ 24 * 256) = of_nat (e mod 2 ^ 16) / 2 ^ 16"
  proof -
    have eq: "of_nat e / 2 ^ 24 * 256 = (of_nat e / of_nat (2 ^ 16) :: rat)" by simp
    have fl: "floor (of_nat e / of_nat (2 ^ 16) :: rat) = int (e div 2 ^ 16)" by (rule floor_divide_of_nat_eq)
    have dec: "(of_nat e :: rat) = of_nat (e div 2 ^ 16) * of_nat (2 ^ 16) + of_nat (e mod 2 ^ 16)"
      by (metis div_mult_mod_eq of_nat_add of_nat_mult)
    show ?thesis unfolding eq frac_def fl by (subst dec) (simp add: add_divide_distrib)
  qed
  have split: "d mod 2 ^ 24 div 2 ^ 8 = e mod 2 ^ 16"
    by (simp add: e_def flip: div_mult2_eq take_bit_eq_mod drop_bit_eq_div) (simp add: take_bit_eq_mod drop_bit_eq_div mod_mult2_eq [of d "2 ^ 8" "2 ^ 16", simplified])
  have "(of_nat (e mod 2 ^ 16) :: rat) * 256 \<le> of_nat (d mod 2 ^ 24)"
    "(of_nat (d mod 2 ^ 24) :: rat) < (of_nat (e mod 2 ^ 16) + 1) * 256"
    using rat_div_bounds [of "2 ^ 8" "d mod 2 ^ 24", where ?'a = rat] unfolding split by simp_all
  then have "frac (of_nat (x div 2 ^ 40) / 2 ^ 24 * 256) \<le> octave_yo_mod1 hash (noise_yo_fork f)"
    "octave_yo_mod1 hash (noise_yo_fork f) < frac (of_nat (x div 2 ^ 40) / 2 ^ 24 * 256) + 1 / 2 ^ 16"
    unfolding mod1 q d_def [symmetric] e_def [symmetric] fr by (simp_all add: field_simps)
  with yo show ?thesis by blast
qed

lemma octave_yo_mod1_is_frac_yo_witness:
  "\<exists>yo. map_option in_yo (init_noise (XrsrRandomFork_from \<lparr>fork_lo = 5, fork_hi = 6\<rparr> (hash_octave ! 3))) \<in> {None, Some yo} \<and>
     frac yo \<le> octave_yo_mod1 (hash_octave ! 3) (noise_yo_fork \<lparr>fork_lo = 5, fork_hi = 6\<rparr>) \<and>
     octave_yo_mod1 (hash_octave ! 3) (noise_yo_fork \<lparr>fork_lo = 5, fork_hi = 6\<rparr>) < frac yo + 1 / 2 ^ 16"
  by (rule octave_yo_mod1_is_frac_yo) (simp_all add: hash_octave_def)

section \<open>Sampling\<close>

definition p_byte :: "ImprovedNoise \<Rightarrow> u8 \<Rightarrow> u8" where
  "p_byte noise w = in_p noise ! unat w"

lemma and_255: "i AND 0xFF = uint (word_of_int i :: u8)" for i :: int
proof -
  have "uint (word_of_int i :: u8) = take_bit 8 i" by (simp add: uint_word_of_int_eq)
  also have "\<dots> = i AND mask 8" by (rule take_bit_eq_mask)
  also have "(mask 8 :: int) = 0xFF" by (simp add: mask_eq_exp_minus_1)
  finally show ?thesis by (rule sym)
qed

lemma p_at_byte: "p_at noise i = p_byte noise (word_of_int i)"
  by (simp only: p_at_def p_byte_def and_255 nat_uint_eq)

lemma word_of_int_sum:
  "word_of_int (uint w + i) = w + word_of_int i" "word_of_int (i + 1) = word_of_int i + (1 :: u8)" for w :: u8
  by simp_all

lemma table_257:
  assumes "length (in_p noise) = 256" "idx = in_p noise @ [in_p noise ! 0]"
  shows "idx ! unat w = p_byte noise w" "idx ! (unat w + 1) = p_byte noise (w + 1)"
proof -
  have w: "unat w < 256" by (rule u8_bound)
  then show "idx ! unat w = p_byte noise w"
    using assms by (simp add: p_byte_def nth_append)
  show "idx ! (unat w + 1) = p_byte noise (w + 1)"
  proof (cases "unat w = 255")
    case True
    then have "w + 1 = 0" by (simp add: word_unat_eq_iff unat_word_ariths(1))
    with True assms show ?thesis by (simp add: p_byte_def nth_append)
  next
    case False
    then have "unat (w + 1) = unat w + 1" using w by (simp add: unat_word_ariths(1))
    with False w assms show ?thesis by (simp add: p_byte_def nth_append)
  qed
qed

definition sample_bytes :: "(u8 \<Rightarrow> u8) \<Rightarrow> u8 \<Rightarrow> u8 \<Rightarrow> u8 \<Rightarrow> rat \<Rightarrow> rat \<Rightarrow> rat \<Rightarrow> rat" where
  "sample_bytes P h1 h2 h3 d1 d2 d3 =
     (let l1 = indexedLerp (P (P (P h1 + h2) + h3)) d1 d2 d3;
          l2 = indexedLerp (P (P (P (h1 + 1) + h2) + h3)) (d1 - 1) d2 d3;
          l3 = indexedLerp (P (P (P h1 + h2 + 1) + h3)) d1 (d2 - 1) d3;
          l4 = indexedLerp (P (P (P (h1 + 1) + h2 + 1) + h3)) (d1 - 1) (d2 - 1) d3;
          l5 = indexedLerp (P (P (P h1 + h2) + h3 + 1)) d1 d2 (d3 - 1);
          l6 = indexedLerp (P (P (P (h1 + 1) + h2) + h3 + 1)) (d1 - 1) d2 (d3 - 1);
          l7 = indexedLerp (P (P (P h1 + h2 + 1) + h3 + 1)) d1 (d2 - 1) (d3 - 1);
          l8 = indexedLerp (P (P (P (h1 + 1) + h2 + 1) + h3 + 1)) (d1 - 1) (d2 - 1) (d3 - 1)
      in lerp (smoothstep d3)
           (lerp (smoothstep d2) (lerp (smoothstep d1) l1 l2) (lerp (smoothstep d1) l3 l4))
           (lerp (smoothstep d2) (lerp (smoothstep d1) l5 l6) (lerp (smoothstep d1) l7 l8)))"

lemma g_lerp1_eq: "g_lerp1 fx v0 v1 = lerp fx v0 v1"
  by (simp add: g_lerp1_def lerp_def algebra_simps)

lemma sample_noise_bytes:
  "sample_noise init_grad_dot_table noise x y z =
     sample_bytes (p_byte noise)
       (word_of_int (floor (x + in_xo noise))) (word_of_int (floor (y + in_yo noise))) (word_of_int (floor (z + in_zo noise)))
       (frac (x + in_xo noise)) (frac (y + in_yo noise)) (frac (z + in_zo noise))"
  by (simp only: sample_noise_def Let_def gradDot_eq p_at_byte word_of_int_sum g_lerp3_def g_lerp2_def g_lerp1_eq
      sample_bytes_def frac_def)

lemma samplePerlin_bytes:
  assumes "length (in_p noise) = 256" "pn_d pn = in_p noise @ [in_p noise ! 0]"
    and h2: "pn_h2 pn = word_of_int (floor (pn_b pn))" and d2: "pn_d2 pn = frac (pn_b pn)"
    and t2: "pn_t2 pn = smoothstep (pn_d2 pn)"
  shows "samplePerlin pn x y z 0 ymin =
     sample_bytes (p_byte noise)
       (word_of_int (floor (x + pn_a pn))) (word_of_int (floor (y + pn_b pn))) (word_of_int (floor (z + pn_c pn)))
       (frac (x + pn_a pn)) (frac (y + pn_b pn)) (frac (z + pn_c pn))"
proof -
  have pick: "(if y = 0 then (pn_d2 pn, pn_h2 pn, pn_t2 pn)
             else let d2 = y + pn_b pn; i2 = floor d2; d2 = d2 - of_int i2
                  in (d2, word_of_int i2, d2 * d2 * d2 * (d2 * (d2 * 6 - 15) + 10)))
      = (frac (y + pn_b pn), word_of_int (floor (y + pn_b pn)) :: u8, smoothstep (frac (y + pn_b pn)))"
    by (simp add: h2 d2 t2 frac_def smoothstep_def Let_def)
  show ?thesis
    unfolding samplePerlin_def pick
    by (simp only: Let_def prod.case table_257 [OF assms(1,2)] sample_bytes_def frac_def smoothstep_def
        not_True_eq_False if_False simp_thms)
qed

text \<open>
  C11: On the same table and offsets the kernels' \<open>sample_noise\<close> and cubiomes' \<open>samplePerlin\<close> are the
  same function of the coordinates.
\<close>

theorem sample_noise_is_samplePerlin:
  assumes "length idx = 256"
  shows "sample_noise init_grad_dot_table \<lparr>in_p = idx, in_xo = a, in_yo = b, in_zo = c\<rparr> x y z =
         samplePerlin (perlin_finish a b c idx) x y z 0 ymin"
proof -
  let ?n = "\<lparr>in_p = idx, in_xo = a, in_yo = b, in_zo = c\<rparr>"
  have "samplePerlin (perlin_finish a b c idx) x y z 0 ymin = sample_bytes (p_byte ?n)
       (word_of_int (floor (x + a))) (word_of_int (floor (y + b))) (word_of_int (floor (z + c)))
       (frac (x + a)) (frac (y + b)) (frac (z + c))"
    using samplePerlin_bytes [of ?n "perlin_finish a b c idx" x y z ymin] assms
    by (simp add: perlin_finish_def Let_def frac_def smoothstep_def)
  then show ?thesis by (simp add: sample_noise_bytes)
qed

lemma sample_noise_is_samplePerlin_witness:
  "sample_noise init_grad_dot_table \<lparr>in_p = replicate 256 7, in_xo = 1/2, in_yo = 3, in_zo = 9\<rparr> 4 0 (1/3) =
   samplePerlin (perlin_finish (1/2) 3 9 (replicate 256 7)) 4 0 (1/3) 0 0"
  by (rule sample_noise_is_samplePerlin) simp

lemma sample_noise_shift:
  "sample_noise init_grad_dot_table noise (x + 256 * of_int i) (y + 256 * of_int j) (z + 256 * of_int k) =
   sample_noise init_grad_dot_table noise x y z"
proof -
  have f: "frac (u + 256 * of_int n + v) = frac (u + v)" for u v :: rat and n :: int
  proof -
    have "u + 256 * of_int n + v = (u + v) + of_int (256 * n)" by simp
    then show ?thesis by (simp only: frac_def floor_add_int [symmetric] of_int_add add_diff_cancel_right)
  qed
  have w: "(word_of_int (floor (u + 256 * of_int n + v)) :: u8) = word_of_int (floor (u + v))" for u v :: rat and n :: int
  proof -
    have "u + 256 * of_int n + v = (u + v) + of_int (256 * n)" by simp
    then have "floor (u + 256 * of_int n + v) = floor (u + v) + 256 * n" by (simp only: floor_add_int)
    then show ?thesis by (simp only: word_of_int_eq_iff take_bit_eq_mod) simp
  qed
  show ?thesis by (simp only: sample_noise_bytes f w)
qed

text \<open>
  The noise has period 256 in every coordinate, so leaving out the reduction in \<open>wrap\<close> (the
  commented-out body) does not change a sample.
\<close>

theorem sample_noise_periodic:
  "sample_noise init_grad_dot_table noise (x + 256 * of_int i) (y + 256 * of_int j) (z + 256 * of_int k) =
   sample_noise init_grad_dot_table noise x y z"
  by (rule sample_noise_shift)

lemma smoothstep_unit:
  assumes "0 \<le> v" "v \<le> 1"
  shows "0 \<le> smoothstep v \<and> smoothstep v \<le> 1"
proof -
  have "v * (v * 6 - 15) + 10 = 6 * ((v - 5/4) * (v - 5/4)) + 5/8" by (simp add: field_simps)
  moreover have "0 \<le> (v - 5/4) * (v - 5/4)" by (rule zero_le_square)
  ultimately have pos: "0 \<le> v * (v * 6 - 15) + 10" by linarith
  have "1 - smoothstep v = (1 - v) * (1 - v) * (1 - v) * (1 + 3 * v + 6 * v * v)"
    by (simp add: smoothstep_def algebra_simps)
  moreover have "0 \<le> (1 - v) * (1 - v) * (1 - v) * (1 + 3 * v + 6 * v * v)"
    using assms by (intro mult_nonneg_nonneg) auto
  moreover have "0 \<le> smoothstep v" unfolding smoothstep_def using assms pos by (intro mult_nonneg_nonneg) auto
  ultimately show ?thesis by linarith
qed

lemma lerp_bound:
  fixes v0 v1 :: rat
  assumes "0 \<le> t" "t \<le> 1" "\<bar>v0\<bar> \<le> B" "\<bar>v1\<bar> \<le> B"
  shows "\<bar>lerp t v0 v1\<bar> \<le> B"
proof -
  have e: "lerp t v0 v1 = (1 - t) * v0 + t * v1" by (simp add: lerp_def algebra_simps)
  have "\<bar>(1 - t) * v0 + t * v1\<bar> \<le> (1 - t) * \<bar>v0\<bar> + t * \<bar>v1\<bar>"
    using assms by (metis abs_mult abs_of_nonneg abs_triangle_ineq diff_ge_0_iff_ge)
  also have "\<dots> \<le> (1 - t) * B + t * B"
    using assms by (intro add_mono mult_left_mono) auto
  finally show ?thesis unfolding e by (simp add: algebra_simps)
qed

lemma frac_unit: "0 \<le> frac x" "frac x < 1"
  using floor_correct [of x] by (simp_all add: frac_def)

text \<open>
  A sample of any noise lies in \<open>[-2, 2]\<close>, whatever the table and the coordinates.
\<close>

theorem sample_noise_bounded: "\<bar>sample_noise init_grad_dot_table noise x y z\<bar> \<le> 2"
proof -
  have b: "\<bar>frac u\<bar> \<le> 1" "\<bar>frac u - 1\<bar> \<le> 1" "0 \<le> smoothstep (frac u)" "smoothstep (frac u) \<le> 1" for u
    using frac_unit [of u] smoothstep_unit [of "frac u"] by auto
  show ?thesis
    unfolding sample_noise_bytes sample_bytes_def Let_def by (intro lerp_bound indexedLerp_bound b)
qed

section \<open>Sums of octaves\<close>

text \<open>
  With all 18 octaves the full sample is the sum of its first twelve octaves and its last six, the
  two parts the late filter stages evaluate separately; and it is the plain sum over the octaves.
\<close>

theorem sample_all_splits:
  "sample_all 18 config octaves table x y z =
     sample_first12 18 config octaves table x y z + sample_rest12 18 config octaves table x y z \<and>
   sample_all 18 config octaves table x y z =
     sum_list (map (\<lambda>i. sample_octave ((if even i then nn_a config else nn_b config) ! (i div 2)) table (octaves ! i) x y z) [0..<18])"
proof
  show "sample_all 18 config octaves table x y z =
     sample_first12 18 config octaves table x y z + sample_rest12 18 config octaves table x y z"
    by (simp add: sample_all_def sample_first12_def sample_rest12_def Let_def)
  show "sample_all 18 config octaves table x y z =
     sum_list (map (\<lambda>i. sample_octave ((if even i then nn_a config else nn_b config) ! (i div 2)) table (octaves ! i) x y z) [0..<18])"
  proof -
    have "[0..<18] = [0, 1, 2, 3, 4, 5, 6, 7, 8, 9, 10, 11, 12, 13, 14, 15, 16, 17 :: nat]" by code_simp
    then show ?thesis by (simp add: sample_all_def Let_def)
  qed
qed

lemma sample_octave_abs:
  assumes "\<bar>sample_noise table noise (of_int x * oc_input c) (of_int y * oc_input c) (of_int z * oc_input c)\<bar> \<le> 1"
    and "0 \<le> oc_value c"
  shows "\<bar>sample_octave c table noise x y z\<bar> \<le> oc_value c"
  using assms mult_right_mono [of "\<bar>sample_noise table noise (of_int x * oc_input c) (of_int y * oc_input c) (of_int z * oc_input c)\<bar>" 1 "oc_value c"]
  by (simp add: sample_octave_def wrap_def abs_mult)

section \<open>The octave tables\<close>

lemma continentalness_values:
  "map oc_value (nn_a (chosen_continentalness_config l)) = map oc_value (nn_b (chosen_continentalness_config l))"
  by (simp add: chosen_continentalness_config_def continentalness_config_def continentalness_large_config_def
      make_normal_noise_config_def continentalness_parameters_def continentalness_large_parameters_def make_noise_parameters_def Let_def)

lemma rest12_terms:
  "sample_rest12 18 config octaves table x y z =
     sample_octave (nn_a config ! 6) table (octaves ! 12) x y z + sample_octave (nn_b config ! 6) table (octaves ! 13) x y z +
     (sample_octave (nn_a config ! 7) table (octaves ! 14) x y z + sample_octave (nn_b config ! 7) table (octaves ! 15) x y z) +
     (sample_octave (nn_a config ! 8) table (octaves ! 16) x y z + sample_octave (nn_b config ! 8) table (octaves ! 17) x y z)"
  by (simp add: sample_rest12_def Let_def)

lemma rest12_margin_terms:
  "rest12_margin 18 config = 2 * oc_value (nn_a config ! 6) + 2 * oc_value (nn_a config ! 7) + 2 * oc_value (nn_a config ! 8)"
  by (simp add: rest12_margin_def Let_def)

lemma continentalness_octaves:
  "map oc_input (nn_a continentalness_config) = [1/512, 1/256, 1/128, 1/64, 1/32, 1/16, 1/8, 1/4, 1/2]"
  "map oc_value (nn_a continentalness_config) = map (\<lambda>v. v * (74999999999999997 / 50000000000000000))
     [256/511, 128/511, 128/511, 64/511, 32/511, 8/511, 4/511, 2/511, 1/511]"
  "map oc_hash (nn_a continentalness_config) = drop 3 (take 12 hash_octave)"
  by (simp_all add: continentalness_config_def make_normal_noise_config_def continentalness_parameters_def
      make_noise_parameters_def Let_def hash_octave_def)

primrec oct_list :: "rat list \<Rightarrow> rat \<Rightarrow> rat \<Rightarrow> (rat \<times> rat) list" where
  "oct_list [] lacuna persist = []"
| "oct_list (a # as) lacuna persist = (lacuna, a * persist) # oct_list as (lacuna * 2) (persist * (1 / 2))"

lemma xOctaveInit_loop_factors:
  assumes "\<forall>a\<in>set as. a \<noteq> 0" "nmax < 0" "0 \<le> n"
  shows "map_option (map (\<lambda>p. (pn_lacunarity p, pn_amplitude p)))
      (xOctaveInit_loop i n xlo xhi omin nmax as lacuna persist) \<in> {None, Some (oct_list as lacuna persist)}"
  using assms
proof (induction as arbitrary: i n lacuna persist)
  case (Cons a as)
  let ?rest = "xOctaveInit_loop (Suc i) (n + 1) xlo xhi omin nmax as (lacuna * 2) (persist * (1 / 2))"
  have IH: "map_option (map (\<lambda>p. (pn_lacunarity p, pn_amplitude p))) ?rest \<in> {None, Some (oct_list as (lacuna * 2) (persist * (1 / 2)))}"
    using Cons.prems by (intro Cons.IH) auto
  have n: "n \<noteq> nmax" "a \<noteq> 0" using Cons.prems by auto
  obtain mlo mhi where m: "md5_octave_n ! nat (12 + omin + int i) = (mlo, mhi)" by (cases "md5_octave_n ! nat (12 + omin + int i)")
  show ?case
  proof (cases "xPerlinInit \<lparr>xr_lo = xlo XOR mlo, xr_hi = xhi XOR mhi\<rparr>")
    case (Some oq)
    obtain oct q where oct: "oq = (oct, q)" by (cases oq)
    show ?thesis using IH n by (cases ?rest) (simp_all add: m Some oct Let_def)
  qed (use n m in \<open>simp add: Let_def\<close>)
qed simp

text \<open>
  The GPU's octave table and cubiomes' \<open>xOctaveInit\<close> describe the same octaves: the same forking
  hashes, the same frequencies, and the same weights up to the constant factor by which the kernels'
  decimal \<open>0.16666666666666666\<close> misses one sixth.
\<close>

theorem octave_tables_agree:
  "map_option (\<lambda>(on, _). map (\<lambda>p. (pn_lacunarity p, pn_amplitude p * (45 / 30))) (on_octaves on))
     (xOctaveInit xr (amplitudes continentalness_parameters) (first_octave continentalness_parameters) (- 1))
   \<in> {None, Some (map (\<lambda>c. (oc_input c, oc_value c * (75000000000000000 / 74999999999999997))) (nn_a continentalness_config))} \<and>
   md5_octave_n = map (\<lambda>h. (hash_lo h, hash_hi h)) hash_octave"
proof
  let ?amps = "[1, 1, 2, 2, 2, 1, 1, 1, 1 :: rat]"
  let ?octs = "\<lambda>xlo xhi. xOctaveInit_loop 0 0 xlo xhi (- 9) (- 1) ?amps (1 / 512) (256 / 511)"
  have fac: "map_option (map (\<lambda>p. (pn_lacunarity p, pn_amplitude p))) (?octs xlo xhi) \<in> {None, Some (oct_list ?amps (1 / 512) (256 / 511))}" for xlo xhi
    by (rule xOctaveInit_loop_factors) simp_all
  obtain xlo xr1 where 1: "xNextLong xr = (xlo, xr1)" by (cases "xNextLong xr")
  obtain xhi xr2 where 2: "xNextLong xr1 = (xhi, xr2)" by (cases "xNextLong xr1")
  have init: "xOctaveInit xr ?amps (- 9) (- 1) = map_option (\<lambda>octs. (\<lparr>on_octaves = octs\<rparr>, xr2)) (?octs xlo xhi)"
    by (simp add: xOctaveInit_def lacuna_ini_def persist_ini_def 1 2 del: xOctaveInit_loop.simps)
  have params: "amplitudes continentalness_parameters = ?amps" "first_octave continentalness_parameters = - 9"
    by (simp_all add: continentalness_parameters_def make_noise_parameters_def)
  have gpu: "map (\<lambda>c. (oc_input c, oc_value c * (75000000000000000 / 74999999999999997))) (nn_a continentalness_config)
      = map (\<lambda>(lf, a). (lf, a * (45 / 30))) (oct_list ?amps (1 / 512) (256 / 511))"
  proof -
    have zip: "map (\<lambda>c. (oc_input c, oc_value c * r)) cs = zip (map oc_input cs) (map (\<lambda>v. v * r) (map oc_value cs))" for r cs
      by (induction cs) simp_all
    show ?thesis unfolding zip continentalness_octaves by simp
  qed
  have scale: "map (\<lambda>p. (pn_lacunarity p, pn_amplitude p * (45 / 30))) octs
      = map (\<lambda>(lf, a). (lf, a * (45 / 30))) (map (\<lambda>p. (pn_lacunarity p, pn_amplitude p)) octs)" for octs
    by (induction octs) simp_all
  show "map_option (\<lambda>(on, _). map (\<lambda>p. (pn_lacunarity p, pn_amplitude p * (45 / 30))) (on_octaves on))
     (xOctaveInit xr (amplitudes continentalness_parameters) (first_octave continentalness_parameters) (- 1))
   \<in> {None, Some (map (\<lambda>c. (oc_input c, oc_value c * (75000000000000000 / 74999999999999997))) (nn_a continentalness_config))}"
    unfolding params init gpu using fac [of xlo xhi]
    by (cases "?octs xlo xhi") (simp_all only: option.map prod.case OctaveNoise.simps scale insert_iff empty_iff option.inject option.distinct simp_thms)
  show "md5_octave_n = map (\<lambda>h. (hash_lo h, hash_hi h)) hash_octave"
    by (simp add: md5_octave_n_def hash_octave_def)
qed

section \<open>The last six octaves\<close>

definition octave_noise :: "OctaveConfig \<Rightarrow> ImprovedNoise \<Rightarrow> GradDotTable \<Rightarrow> int \<Rightarrow> int \<Rightarrow> int \<Rightarrow> rat" where
  "octave_noise c noise table x y z =
     sample_noise table noise (wrap (of_int x * oc_input c)) (wrap (of_int y * oc_input c)) (wrap (of_int z * oc_input c))"

lemma chosen_values:
  assumes "i < 9"
  shows "oc_value (nn_b (chosen_continentalness_config l) ! i) = oc_value (nn_a (chosen_continentalness_config l) ! i)"
    and "0 \<le> oc_value (nn_a (chosen_continentalness_config l) ! i)"
proof -
  let ?c = "chosen_continentalness_config l"
  have len: "length (nn_a ?c) = 9" "length (nn_b ?c) = 9"
    by (simp_all add: chosen_continentalness_config_def continentalness_config_def continentalness_large_config_def
      make_normal_noise_config_def continentalness_parameters_def continentalness_large_parameters_def make_noise_parameters_def Let_def)
  show "oc_value (nn_b ?c ! i) = oc_value (nn_a ?c ! i)"
    using continentalness_values [of l] assms len by (metis nth_map)
  have "\<forall>v\<in>set (map oc_value (nn_a ?c)). 0 \<le> v"
    by (simp add: chosen_continentalness_config_def continentalness_config_def continentalness_large_config_def
      make_normal_noise_config_def continentalness_parameters_def continentalness_large_parameters_def make_noise_parameters_def Let_def)
  then show "0 \<le> oc_value (nn_a ?c ! i)" using assms len by simp
qed

lemma rest12_within_margin:
  assumes "\<And>i. i < 18 \<Longrightarrow> \<bar>octave_noise ((if even i then nn_a else nn_b) (chosen_continentalness_config l) ! (i div 2)) (octaves ! i) table x y z\<bar> \<le> 1"
  shows "\<bar>sample_rest12 18 (chosen_continentalness_config l) octaves table x y z\<bar> \<le> rest12_margin 18 (chosen_continentalness_config l)"
proof -
  let ?c = "chosen_continentalness_config l"
  have o: "\<bar>sample_octave c table noise x y z\<bar> \<le> oc_value c"
    if "\<bar>octave_noise c noise table x y z\<bar> \<le> 1" "0 \<le> oc_value c" for c noise
    using that sample_octave_abs [of table noise x c y z] by (simp add: octave_noise_def wrap_def)
  have a: "\<bar>sample_octave (nn_a ?c ! k) table (octaves ! (2 * k)) x y z\<bar> \<le> oc_value (nn_a ?c ! k)" if "k < 9" for k
    using o [of "nn_a ?c ! k" "octaves ! (2 * k)"] assms [of "2 * k"] chosen_values(2) [OF that, of l] that by simp
  have b: "\<bar>sample_octave (nn_b ?c ! k) table (octaves ! (2 * k + 1)) x y z\<bar> \<le> oc_value (nn_a ?c ! k)" if "k < 9" for k
    using o [of "nn_b ?c ! k" "octaves ! (2 * k + 1)"] assms [of "2 * k + 1"] chosen_values [OF that, of l] that by simp
  show ?thesis
    using a [of 6] b [of 6] a [of 7] b [of 7] a [of 8] b [of 8] unfolding rest12_terms rest12_margin_terms
    by simp
qed

end
