(* ===== verification/GpuBuffers.thy ===== *)
theory GpuBuffers
  imports Prelude "HOL-Library.Multiset"
begin

text \<open>
  The device buffers that connect the kernels of \<open>src/src/gpu.cu\<close>: \<open>DeviceBuffer\<close>, \<open>OutputBuffer\<close>
  (a data pointer, an atomically incremented length, a capacity) and \<open>InputBuffer\<close>; the loops that
  distribute the inputs over blocks or warps; and \<open>SeedIterator\<close> of \<open>gpu.h\<close>, from which GPU threads
  take their seed ranges. A kernel run is a sequence of atomic appends in an order the hardware
  chooses: the theorems quantify over that order. \<open>data\<close> is the list of the buffer's cells.
\<close>

section \<open>Definitions\<close>

record DeviceBuffer =
  db_size :: nat

record 'a OutputBuffer =
  ob_data :: "'a list"
  ob_len :: u32
  ob_max_len :: u32

definition OutputBuffer_of :: "DeviceBuffer \<Rightarrow> nat \<Rightarrow> 'a list \<Rightarrow> 'a OutputBuffer" where
  "OutputBuffer_of buffer sizeof_T cells =
     \<lparr>ob_data = cells, ob_len = 0, ob_max_len = of_nat (db_size buffer div sizeof_T)\<rparr>"

record 'a InputBuffer =
  ib_data :: "'a list"
  ib_len :: u32

definition InputBuffer_of :: "'a OutputBuffer \<Rightarrow> 'a InputBuffer" where
  "InputBuffer_of b = \<lparr>ib_data = ob_data b, ib_len = ob_len b\<rparr>"

text \<open>\<open>idx = atomicAdd(outputs.len, 1); if (idx < outputs.max_len) outputs.data[idx] = v;\<close>\<close>

definition ob_append :: "'a \<Rightarrow> 'a OutputBuffer \<Rightarrow> 'a OutputBuffer" where
  "ob_append v b =
     (let result_index = ob_len b;
          b' = b\<lparr>ob_len := ob_len b + 1\<rparr>
      in if result_index < ob_max_len b
         then b'\<lparr>ob_data := (ob_data b)[unat result_index := v]\<rparr>
         else b')"

definition ob_reset :: "'a OutputBuffer \<Rightarrow> 'a OutputBuffer" where
  "ob_reset b = b\<lparr>ob_len := 0\<rparr>"

text \<open>The host's copy of a length after the run: clamped to the capacity.\<close>

definition host_len :: "'a OutputBuffer \<Rightarrow> u32" where
  "host_len b = min (ob_len b) (ob_max_len b)"

definition ob_content :: "'a OutputBuffer \<Rightarrow> 'a list" where
  "ob_content b = take (unat (host_len b)) (ob_data b)"

text \<open>
  A kernel that handles each input on its own and appends at most one output for it. \<open>order\<close> is the
  order in which the inputs' appends happen.
\<close>

definition kernel_run :: "('i \<Rightarrow> 'o option) \<Rightarrow> 'i list \<Rightarrow> nat list \<Rightarrow> 'o OutputBuffer \<Rightarrow> 'o OutputBuffer" where
  "kernel_run f inputs order b =
     fold (\<lambda>i b. case f (inputs ! i) of None \<Rightarrow> b | Some v \<Rightarrow> ob_append v b) order b"

text \<open>
  \<open>for (i = first; i < len; i += stride)\<close>: the inputs one block or warp handles. The 32-bit index does
  not wrap: \<open>len + stride\<close> stays below \<open>2 ^ 32\<close> for every buffer of the program.
\<close>

function stride_loop :: "nat \<Rightarrow> nat \<Rightarrow> nat \<Rightarrow> nat list" where
  "stride_loop first len stride =
     (if stride = 0 then [] else if first < len then first # stride_loop (first + stride) len stride else [])"
  by pat_completeness auto
termination
  by (relation "measure (\<lambda>(first, len, stride). len - first)") auto

definition all_workers :: "nat \<Rightarrow> nat \<Rightarrow> nat list" where
  "all_workers len stride = concat (map (\<lambda>w. stride_loop w len stride) [0..<stride])"

record SeedIterator =
  si_pos :: u64

definition SeedIterator_next :: "u64 \<Rightarrow> SeedIterator \<Rightarrow> u64 \<times> SeedIterator" where
  "SeedIterator_next n it = (si_pos it, it\<lparr>si_pos := si_pos it + n\<rparr>)"

text \<open>
  A stage whose input and output share one device buffer: the inputs are the first \<open>n\<close> cells, and
  outputs are written to the same cells from index 0 on. \<open>order\<close> lists the inputs in the order in
  which the warps finish them.
\<close>

definition inplace_step :: "('a \<Rightarrow> 'a option) \<Rightarrow> nat \<Rightarrow> 'a list \<times> nat \<Rightarrow> 'a list \<times> nat" where
  "inplace_step f i st =
     (case st of (cells, out) \<Rightarrow>
        (case f (cells ! i) of
           None \<Rightarrow> (cells, out)
         | Some v \<Rightarrow> ((if out < length cells then cells[out := v] else cells), out + 1)))"

definition inplace_run :: "('a \<Rightarrow> 'a option) \<Rightarrow> nat list \<Rightarrow> 'a list \<Rightarrow> 'a list" where
  "inplace_run f order cells =
     (case fold (inplace_step f) order (cells, 0) of (cells', out) \<Rightarrow> take out cells')"

section \<open>Distributing the inputs\<close>

declare stride_loop.simps [simp del]

lemma stride_loop_set:
  "0 < stride \<Longrightarrow> set (stride_loop first len stride) = {i. first \<le> i \<and> i < len \<and> i mod stride = first mod stride}"
proof (induction first len stride rule: stride_loop.induct)
  case (1 first len stride)
  show ?case
  proof (cases "first < len")
    case True
    have step: "i = first \<or> first + stride \<le> i" if "first \<le> i" "i mod stride = first mod stride" for i
    proof (rule ccontr)
      assume "\<not> (i = first \<or> first + stride \<le> i)"
      then have d: "0 < i - first" "i - first < stride" using that by linarith+
      have "(i - first) mod stride = 0" using that by (metis mod_eq_dvd_iff_nat dvd_eq_mod_eq_0)
      with d show False by simp
    qed
    have "set (stride_loop first len stride) = insert first (set (stride_loop (first + stride) len stride))"
      using True 1(2) by (simp add: stride_loop.simps [of first])
    also have "\<dots> = insert first {i. first + stride \<le> i \<and> i < len \<and> i mod stride = (first + stride) mod stride}"
      using 1 True by simp
    also have "\<dots> = {i. first \<le> i \<and> i < len \<and> i mod stride = first mod stride}"
      using True step by auto
    finally show ?thesis .
  next
    case False
    then show ?thesis using 1(2) by (auto simp: stride_loop.simps [of first])
  qed
qed

lemma stride_loop_distinct: "distinct (stride_loop first len stride)"
proof (induction first len stride rule: stride_loop.induct)
  case (1 first len stride)
  show ?case
  proof (cases "0 < stride \<and> first < len")
    case True
    then have "distinct (stride_loop (first + stride) len stride)" using 1 by simp
    moreover have "first \<notin> set (stride_loop (first + stride) len stride)" using True by (simp add: stride_loop_set)
    ultimately show ?thesis using True by (simp add: stride_loop.simps [of first])
  qed (auto simp: stride_loop.simps [of first])
qed

lemma distinct_concat_map:
  assumes "distinct ws" "\<And>w. w \<in> set ws \<Longrightarrow> distinct (f w)"
    and "\<And>v w. v \<in> set ws \<Longrightarrow> w \<in> set ws \<Longrightarrow> v \<noteq> w \<Longrightarrow> set (f v) \<inter> set (f w) = {}"
  shows "distinct (concat (map f ws))"
  using assms
proof (induction ws)
  case (Cons w ws)
  have "distinct (concat (map f ws))" by (rule Cons.IH) (use Cons.prems in auto)
  moreover have "set (f w) \<inter> set (f v) = {}" if "v \<in> set ws" for v
    using Cons.prems(1) that by (intro Cons.prems(3)) auto
  ultimately show ?case using Cons.prems(2) [of w] by auto
qed simp

lemma all_workers_mset:
  assumes "0 < stride"
  shows "mset (all_workers len stride) = mset [0..<len]"
proof -
  have set: "set (all_workers len stride) = set [0..<len]"
  proof
    show "set [0..<len] \<subseteq> set (all_workers len stride)"
    proof
      fix i assume "i \<in> set [0..<len]"
      then have "i \<in> set (stride_loop (i mod stride) len stride)" "i mod stride < stride"
        using assms by (simp_all add: stride_loop_set)
      then show "i \<in> set (all_workers len stride)" unfolding all_workers_def by auto
    qed
  qed (use assms in \<open>auto simp: all_workers_def stride_loop_set\<close>)
  moreover have "distinct (all_workers len stride)"
    unfolding all_workers_def
    by (rule distinct_concat_map) (use assms in \<open>auto simp: stride_loop_distinct stride_loop_set\<close>)
  ultimately show ?thesis
    using set_eq_iff_mset_eq_distinct [of "all_workers len stride" "[0..<len]"] by simp
qed

text \<open>
  The strided loops of the kernels hand every input to exactly one worker, whatever the number of
  workers.
\<close>

theorem strided_workers_cover:
  assumes "0 < stride"
  shows "mset (all_workers len stride) = mset [0..<len]"
  by (rule all_workers_mset [OF assms])

lemma strided_workers_cover_witness: "mset (all_workers 10 3) = mset [0..<10]"
  by (rule strided_workers_cover) simp

section \<open>Seed ranges\<close>

primrec seed_ranges :: "u64 list \<Rightarrow> SeedIterator \<Rightarrow> u64 list" where
  "seed_ranges [] it = []"
| "seed_ranges (n # ns) it = (case SeedIterator_next n it of (s, it') \<Rightarrow> map (\<lambda>i. s + of_nat i) [0..<unat n] @ seed_ranges ns it')"

lemma seed_ranges_eq:
  "seed_ranges ns it = map (\<lambda>i. si_pos it + of_nat i) [0..<sum_list (map unat ns)]"
proof (induction ns arbitrary: it)
  case (Cons n ns)
  have "[0..<sum_list (map unat (n # ns))] = [0..<unat n] @ map (\<lambda>i. unat n + i) [0..<sum_list (map unat ns)]"
    using upt_add_eq_append [of 0 "unat n" "sum_list (map unat ns)"] map_add_upt [of "unat n" "sum_list (map unat ns)"]
    by (simp add: add.commute)
  then show ?case by (simp add: SeedIterator_next_def Cons.IH add.assoc)
qed simp

text \<open>
  However the GPU threads interleave their calls, the ranges they draw are consecutive: together
  they are one run of seeds from the start seed, and no seed is handed out twice until \<open>2^64\<close> have been.
\<close>

theorem seed_ranges_consecutive:
  assumes "sum_list (map unat ns) \<le> 2 ^ 64"
  shows "seed_ranges ns it = map (\<lambda>i. si_pos it + of_nat i) [0..<sum_list (map unat ns)] \<and> distinct (seed_ranges ns it)"
proof -
  let ?k = "sum_list (map unat ns)"
  have "inj_on (\<lambda>i. si_pos it + of_nat i) {0..<?k}"
  proof (rule inj_onI)
    fix i j assume ij: "i \<in> {0..<?k}" "j \<in> {0..<?k}" "si_pos it + of_nat i = si_pos it + of_nat j"
    then have "unat (of_nat i :: u64) = unat (of_nat j :: u64)" by simp
    moreover have "i < 2 ^ LENGTH(64)" "j < 2 ^ LENGTH(64)" using ij(1,2) assms by simp_all
    ultimately show "i = j" by (simp only: unat_of_nat mod_less)
  qed
  then have "distinct (map (\<lambda>i. si_pos it + of_nat i) [0..<?k])" by (simp add: distinct_map)
  then show ?thesis by (simp add: seed_ranges_eq)
qed

lemma seed_ranges_consecutive_witness:
  "distinct (seed_ranges [5, 7] \<lparr>si_pos = - 3\<rparr>)"
  by (rule conjunct2 [OF seed_ranges_consecutive]) simp

section \<open>Appending\<close>

definition ob_ok :: "'a OutputBuffer \<Rightarrow> bool" where
  "ob_ok b \<longleftrightarrow> unat (ob_max_len b) \<le> length (ob_data b)"

lemma ob_append_ok [simp]: "ob_ok (ob_append v b) \<longleftrightarrow> ob_ok b"
  by (simp add: ob_append_def ob_ok_def Let_def)

lemma ob_append_max [simp]: "ob_max_len (ob_append v b) = ob_max_len b"
  by (simp add: ob_append_def Let_def)

lemma ob_append_len: "unat (ob_len b) + 1 < 2 ^ 32 \<Longrightarrow> unat (ob_len (ob_append v b)) = unat (ob_len b) + 1"
  by (simp add: ob_append_def Let_def unat_word_ariths(1))

lemma unat_host_len: "unat (host_len b) = min (unat (ob_len b)) (unat (ob_max_len b))"
  by (auto simp: host_len_def min_def word_le_nat_alt)

lemma ob_append_content:
  assumes "ob_ok b" "unat (ob_len b) + 1 < 2 ^ 32"
  shows "ob_content (ob_append v b) = (if unat (ob_len b) < unat (ob_max_len b) then ob_content b @ [v] else ob_content b)"
proof (cases "unat (ob_len b) < unat (ob_max_len b)")
  case True
  then have w: "ob_len b < ob_max_len b" by (simp add: word_less_nat_alt)
  have l: "unat (ob_len b) < length (ob_data b)" using True assms(1) by (simp add: ob_ok_def)
  have "unat (host_len (ob_append v b)) = Suc (unat (ob_len b))"
    using True ob_append_len [OF assms(2), of v] by (simp add: unat_host_len)
  moreover have "unat (host_len b) = unat (ob_len b)" using True by (simp add: unat_host_len)
  moreover have "ob_data (ob_append v b) = (ob_data b)[unat (ob_len b) := v]"
    using w by (simp add: ob_append_def Let_def)
  ultimately show ?thesis using True l
    by (simp add: ob_content_def take_Suc_conv_app_nth)
next
  case False
  then have w: "\<not> ob_len b < ob_max_len b" by (simp add: word_less_nat_alt)
  have "unat (host_len (ob_append v b)) = unat (host_len b)"
    using False ob_append_len [OF assms(2), of v] by (simp add: unat_host_len)
  moreover have "ob_data (ob_append v b) = ob_data b" using w by (simp add: ob_append_def Let_def)
  ultimately show ?thesis using False by (simp add: ob_content_def)
qed

primrec append_all :: "'a list \<Rightarrow> 'a OutputBuffer \<Rightarrow> 'a OutputBuffer" where
  "append_all [] b = b"
| "append_all (v # vs) b = append_all vs (ob_append v b)"

lemma append_all_content:
  assumes "ob_ok b" "unat (ob_len b) + length vs < 2 ^ 32"
  shows "ob_content (append_all vs b) = ob_content b @ take (unat (ob_max_len b) - unat (ob_len b)) vs \<and>
         unat (ob_len (append_all vs b)) = unat (ob_len b) + length vs \<and> ob_ok (append_all vs b) \<and>
         ob_max_len (append_all vs b) = ob_max_len b"
  using assms
proof (induction vs arbitrary: b)
  case (Cons v vs)
  have l: "unat (ob_len b) + 1 < 2 ^ 32" using Cons.prems(2) by simp
  have IH: "ob_content (append_all vs (ob_append v b)) = ob_content (ob_append v b) @ take (unat (ob_max_len b) - (unat (ob_len b) + 1)) vs \<and>
         unat (ob_len (append_all vs (ob_append v b))) = unat (ob_len b) + 1 + length vs \<and> ob_ok (append_all vs (ob_append v b)) \<and>
         ob_max_len (append_all vs (ob_append v b)) = ob_max_len b"
    using Cons.IH [of "ob_append v b"] Cons.prems l by (simp add: ob_append_len)
  have "take (unat (ob_max_len b) - unat (ob_len b)) (v # vs) =
      (if unat (ob_len b) < unat (ob_max_len b) then [v] else []) @ take (unat (ob_max_len b) - (unat (ob_len b) + 1)) vs"
    by (cases "unat (ob_len b) < unat (ob_max_len b)") (simp_all add: take_Cons')
  then show ?case using IH ob_append_content [OF Cons.prems(1) l, of v] by simp
qed simp

lemma kernel_run_append_all:
  "kernel_run f inputs order b = append_all (List.map_filter (\<lambda>i. f (inputs ! i)) order) b"
  by (induction order arbitrary: b) (simp_all add: kernel_run_def List.map_filter_simps split: option.split)

lemma mset_map_filter: "mset (List.map_filter g xs) = mset (List.map_filter g ys)" if "mset xs = mset ys"
proof -
  have e: "mset (List.map_filter g zs) = image_mset (the \<circ> g) (filter_mset (\<lambda>x. g x \<noteq> None) (mset zs))" for zs
    by (simp add: List.map_filter_def)
  show ?thesis by (simp only: e that)
qed

lemma map_filter_nth: "List.map_filter (\<lambda>i. f (xs ! i)) [0..<length xs] = List.map_filter f xs"
proof -
  have "List.map_filter (\<lambda>i. f (xs ! i)) [0..<length xs] = List.map_filter f (map ((!) xs) [0..<length xs])"
    by (induction "[0..<length xs]" rule: rev_induct) (simp_all add: List.map_filter_def filter_map comp_def)
  then show ?thesis by (simp only: map_nth)
qed

text \<open>
  Whatever the order in which the warps' atomic increments happen, a stage writes a sub-collection
  of its results, exactly as many as fit, and all of them when they fit.
\<close>

theorem kernel_run_any_order:
  fixes b :: "'o OutputBuffer" and f :: "'i \<Rightarrow> 'o option"
  assumes "ob_ok b" "ob_len b = 0" "mset order = mset [0..<length inputs]" "length inputs < 2 ^ 32"
  defines "outs \<equiv> mset (List.map_filter f inputs)"
  shows "mset (ob_content (kernel_run f inputs order b)) \<subseteq># outs \<and>
         length (ob_content (kernel_run f inputs order b)) = min (size outs) (unat (ob_max_len b)) \<and>
         (if size outs \<le> unat (ob_max_len b) then mset (ob_content (kernel_run f inputs order b)) = outs else True)"
proof -
  let ?vs = "List.map_filter (\<lambda>i. f (inputs ! i)) order"
  have m: "mset ?vs = outs"
    unfolding outs_def using mset_map_filter [OF assms(3), of "\<lambda>i. f (inputs ! i)"] by (simp only: map_filter_nth)
  have len: "length ?vs \<le> length order" by (simp add: List.map_filter_def)
  also have "length order = length inputs" using mset_eq_length [OF assms(3)] by simp
  finally have "unat (ob_len b) + length ?vs < 2 ^ 32" using assms(2,4) by simp
  from append_all_content [OF assms(1) this]
  moreover have "ob_content b = []" using assms(2) by (simp add: ob_content_def host_len_def)
  ultimately have c: "ob_content (kernel_run f inputs order b) = take (unat (ob_max_len b)) ?vs"
    using assms(2) by (simp add: kernel_run_append_all)
  have s: "size outs = length ?vs" unfolding m [symmetric] by simp
  have "mset (take k ?vs) \<subseteq># mset ?vs" for k
    by (metis append_take_drop_id mset_append mset_subset_eq_add_left)
  then show ?thesis unfolding c s by (simp add: m min.commute)
qed

lemma kernel_run_any_order_witness:
  "mset (ob_content (kernel_run (\<lambda>x. if x < 3 then Some x else None) [5, 1, 2 :: nat] [2, 0, 1]
      \<lparr>ob_data = [0, 0, 0, 0], ob_len = 0, ob_max_len = 4\<rparr>)) = {#1, 2#}"
proof -
  let ?f = "\<lambda>x :: nat. if x < 3 then Some x else None"
  have "mset [2, 0, 1 :: nat] = mset [0..<length [5, 1, 2 :: nat]]" by (simp add: upt_rec add_mset_commute)
  from kernel_run_any_order [OF _ _ this, of "\<lparr>ob_data = [0, 0, 0, 0], ob_len = 0, ob_max_len = 4\<rparr>" ?f]
  show ?thesis by (simp add: ob_ok_def List.map_filter_def)
qed

text \<open>
  C39: The length cell counts every result, also those that did not fit, and the next kernel takes it as
  the number of its inputs: after an overflow it reads cells that lie outside the buffer, because only
  the host's copy of the length is clamped.
\<close>

theorem overflow_makes_next_kernel_read_outside:
  fixes b :: "'o OutputBuffer"
  assumes "length (ob_data b) = unat (ob_max_len b)" "ob_len b = 0" "length vs < 2 ^ 32" "unat (ob_max_len b) < length vs"
  shows "\<exists>i \<in> set (all_workers (unat (ib_len (InputBuffer_of (append_all vs b)))) 1).
           \<not> i < length (ib_data (InputBuffer_of (append_all vs b)))"
proof -
  have "ob_ok b" "unat (ob_len b) + length vs < 2 ^ 32" using assms by (simp_all add: ob_ok_def)
  from append_all_content [OF this] have len: "unat (ob_len (append_all vs b)) = length vs" using assms(2) by simp
  have data: "length (ob_data (append_all vs b)) = length (ob_data b)" for b :: "'o OutputBuffer"
    by (induction vs arbitrary: b) (simp_all add: ob_append_def Let_def)
  have "set (all_workers (length vs) 1) = set [0..<length vs]"
    by (auto simp: all_workers_def stride_loop_set)
  then show ?thesis
    using assms(1,4) by (intro bexI [of _ "unat (ob_max_len b)"]) (simp_all add: InputBuffer_of_def len data)
qed

lemma overflow_makes_next_kernel_read_outside_witness:
  "\<exists>i \<in> set (all_workers (unat (ib_len (InputBuffer_of (append_all [7, 8, 9 :: nat] \<lparr>ob_data = [0, 0], ob_len = 0, ob_max_len = 2\<rparr>)))) 1).
     \<not> i < length (ib_data (InputBuffer_of (append_all [7, 8, 9 :: nat] \<lparr>ob_data = [0, 0], ob_len = 0, ob_max_len = 2\<rparr>)))"
  by (rule overflow_makes_next_kernel_read_outside) simp_all

section \<open>A stage on one shared buffer\<close>

text \<open>\<open>reads_ahead\<close>: every write goes to a cell whose input has already been read.\<close>

fun reads_ahead :: "('a \<Rightarrow> 'a option) \<Rightarrow> 'a list \<Rightarrow> nat set \<Rightarrow> nat \<Rightarrow> nat list \<Rightarrow> bool" where
  "reads_ahead f inputs seen out [] = True"
| "reads_ahead f inputs seen out (i # is) =
     (if f (inputs ! i) = None then reads_ahead f inputs (insert i seen) out is
      else out \<in> insert i seen \<and> reads_ahead f inputs (insert i seen) (out + 1) is)"

lemma inplace_step_pair:
  "inplace_step f i (cells, out) =
     (case f (cells ! i) of None \<Rightarrow> (cells, out) | Some v \<Rightarrow> ((if out < length cells then cells[out := v] else cells), out + 1))"
  by (simp add: inplace_step_def)

lemma inplace_run_correct:
  assumes "reads_ahead f inputs seen out order"
    and "\<forall>i\<in>set order. i < length inputs \<and> i \<notin> seen" "distinct order"
    and "length cells = length inputs" "\<forall>i<length inputs. i \<notin> seen \<longrightarrow> cells ! i = inputs ! i"
    and "out \<le> length inputs" "\<forall>i\<in>seen. i < length inputs"
  shows "\<exists>cells' out'. fold (inplace_step f) order (cells, out) = (cells', out') \<and>
     take out' cells' = take out cells @ List.map_filter (\<lambda>i. f (inputs ! i)) order"
  using assms
proof (induction order arbitrary: seen out cells)
  case (Cons i order)
  have i: "i < length inputs" "i \<notin> seen" "cells ! i = inputs ! i" using Cons.prems by auto
  show ?case
  proof (cases "f (inputs ! i)")
    case None
    have "\<exists>cells' out'. fold (inplace_step f) order (cells, out) = (cells', out') \<and>
       take out' cells' = take out cells @ List.map_filter (\<lambda>i. f (inputs ! i)) order"
      by (rule Cons.IH [of "insert i seen"]) (use Cons.prems None i in auto)
    then show ?thesis using None i by (simp add: inplace_step_pair List.map_filter_simps)
  next
    case (Some v)
    then have out: "out \<in> insert i seen" using Cons.prems(1) by simp
    then have lt: "out < length inputs" using i Cons.prems(7) by auto
    let ?cells = "cells[out := v]"
    have same: "?cells ! j = inputs ! j" if "j < length inputs" "j \<notin> insert i seen" for j
    proof -
      have "out \<noteq> j" using out that by auto
      then show ?thesis using Cons.prems(5) that by simp
    qed
    have "\<exists>cells' out'. fold (inplace_step f) order (?cells, out + 1) = (cells', out') \<and>
       take out' cells' = take (out + 1) ?cells @ List.map_filter (\<lambda>i. f (inputs ! i)) order"
      by (rule Cons.IH [of "insert i seen"]) (use Cons.prems(1,2,3,4,7) Some i lt same in auto)
    moreover have "take (out + 1) ?cells = take out cells @ [v]"
      using lt Cons.prems(4) by (simp add: take_Suc_conv_app_nth)
    ultimately show ?thesis using Some i lt Cons.prems(4)
      by (simp add: inplace_step_pair List.map_filter_simps)
  qed
qed simp

lemma reads_ahead_sequential:
  "out \<le> i \<Longrightarrow> {0..<i} \<subseteq> seen \<Longrightarrow> reads_ahead f inputs seen out [i..<n]"
proof (induction "n - i" arbitrary: i out seen)
  case (Suc k)
  then have up: "[i..<n] = i # [Suc i..<n]" by (simp add: upt_rec)
  have ins: "{0..<Suc i} \<subseteq> insert i seen" using Suc.prems(2) by (auto simp: less_Suc_eq)
  have "out \<in> insert i seen" using Suc.prems by (cases "out = i") auto
  moreover have "reads_ahead f inputs (insert i seen) out' [Suc i..<n]" if "out' \<le> Suc i" for out'
    using Suc.hyps(2) that ins by (intro Suc.hyps(1)) auto
  ultimately show ?case using Suc.prems(1) by (simp add: up)
qed simp


end
