(* ===== verification/GpuFilters.thy ===== *)
theory GpuFilters
  imports Noise GpuBuffers
begin

text \<open>
  The filter kernels of \<open>src/src/gpu.cu\<close> that decide which seeds and positions survive: the seed
  prefilter (\<open>KernelFilterSeeds\<close>), the warp reductions, the sampling filter \<open>KernelFilter2\<close> with its
  template parameters, the specialised first stages \<open>KernelFilter2_0A\<close> and \<open>KernelFilter2_0B\<close> that
  cache grid cells, and their variants in \<open>src/src/gpu_compat.cu\<close> with the one-octave prefilter.
  The lemmas show that each of the optimised kernels keeps exactly the inputs a plain count over the
  sample grid keeps. Block coordinates are \<open>int\<close> (the code's 32-bit sums stay far from overflow).
\<close>

section \<open>Definitions: the seed prefilter\<close>

definition maxScore :: rat where "maxScore = 38 / 1000"

definition filter_seeds :: "bool \<Rightarrow> u64 \<Rightarrow> u64 option" where
  "filter_seeds large_biomes seed =
     (let config = chosen_continentalness_config large_biomes;
          yo = (\<lambda>octave fork. octave_yo_mod1 (oc_hash octave) fork);
          seed_fork = XrsrRandom_seed_fork seed;
          noise_random = XrsrRandomFork_from seed_fork (nn_hash config);
          (fork_a, noise_random) = XrsrRandom_fork noise_random;
          noise_a_yo_fork = noise_yo_fork fork_a;
          c_0A_yo = yo (nn_a config ! 0) noise_a_yo_fork;
          score = 35/100 * \<bar>c_0A_yo - 1/2\<bar>
      in if score \<ge> maxScore then None else
      let (fork_b, noise_random) = XrsrRandom_fork noise_random;
          noise_b_yo_fork = noise_yo_fork fork_b;
          c_0B_yo = yo (nn_b config ! 0) noise_b_yo_fork;
          score = score + 35/100 * \<bar>c_0B_yo - 1/2\<bar>
      in if score \<ge> maxScore then None else
      let c_1A_yo = yo (nn_a config ! 1) noise_a_yo_fork;
          score = score + 11/100 * \<bar>c_1A_yo - 1/2\<bar>
      in if score \<ge> maxScore then None else
      let c_1B_yo = yo (nn_b config ! 1) noise_b_yo_fork;
          score = score + 11/100 * \<bar>c_1B_yo - 1/2\<bar>
      in if score \<ge> maxScore then None else
      let c_2A_yo = yo (nn_a config ! 2) noise_a_yo_fork;
          score = score + 4/100 * \<bar>c_2A_yo - 1/2\<bar>
      in if score \<ge> maxScore then None else
      let c_2B_yo = yo (nn_b config ! 2) noise_b_yo_fork;
          score = score + 4/100 * \<bar>c_2B_yo - 1/2\<bar>
      in if score \<ge> maxScore then None else Some seed)"

text \<open>One launch: thread \<open>index\<close> of \<open>2^28\<close> tests the seed \<open>start_seed + index\<close>.\<close>

definition filter_seeds_run :: "bool \<Rightarrow> u64 \<Rightarrow> nat \<Rightarrow> nat list \<Rightarrow> u64 OutputBuffer \<Rightarrow> u64 OutputBuffer" where
  "filter_seeds_run large_biomes start_seed threads_per_run order outputs =
     kernel_run (filter_seeds large_biomes) (map (\<lambda>index. start_seed + of_nat index) [0..<threads_per_run]) order outputs"

section \<open>Definitions: reductions over a warp\<close>

definition shfl_down :: "('a \<Rightarrow> 'a \<Rightarrow> 'a) \<Rightarrow> nat \<Rightarrow> 'a list \<Rightarrow> 'a list" where
  "shfl_down add d vals =
     map (\<lambda>i. add (vals ! i) (if i + d < length vals then vals ! (i + d) else vals ! i)) [0..<length vals]"

definition warp_reduce_add :: "('a \<Rightarrow> 'a \<Rightarrow> 'a) \<Rightarrow> 'a list \<Rightarrow> 'a list" where
  "warp_reduce_add add val =
     (let val = shfl_down add 1 val;
          val = shfl_down add 2 val;
          val = shfl_down add 4 val;
          val = shfl_down add 8 val;
          val = shfl_down add 16 val
      in val)"

definition shfl_xor :: "('a \<Rightarrow> 'a \<Rightarrow> 'a) \<Rightarrow> nat \<Rightarrow> 'a list \<Rightarrow> 'a list" where
  "shfl_xor add d vals = map (\<lambda>i. add (vals ! i) (vals ! (i XOR d))) [0..<length vals]"

definition compat_warp_reduce_add :: "('a \<Rightarrow> 'a \<Rightarrow> 'a) \<Rightarrow> 'a list \<Rightarrow> 'a list" where
  "compat_warp_reduce_add add v = fold (shfl_xor add) [16, 8, 4, 2, 1] v"

section \<open>Definitions: the sampling filter\<close>

record SeedPos =
  seed_index :: u32
  pos_x :: int
  pos_z :: int

definition is_pow2 :: "u32 \<Rightarrow> bool" where
  "is_pow2 val \<longleftrightarrow> val AND (val - 1) = 0"

definition countl_zero :: "u32 \<Rightarrow> nat" where
  "countl_zero val = length (takeWhile (\<lambda>i. \<not> bit val i) (rev [0..<32]))"

definition log2 :: "u32 \<Rightarrow> nat" where
  "log2 val = 31 - countl_zero val"

record Template =
  NoiseThreshold :: int
  t_octaves :: nat
  pos_range :: nat
  samples :: nat
  min_count :: u32
  flipped_sparse_samples :: bool
  move_center :: bool
  only_a :: bool

definition noise_threshold :: "Template \<Rightarrow> rat" where
  "noise_threshold T = of_int (NoiseThreshold T) / 10000"

definition threads_per_block :: nat where "threads_per_block = 256"

definition samples_square_size :: "Template \<Rightarrow> nat" where
  "samples_square_size T = 2 ^ ((log2 (of_nat (samples T)) + 1) div 2)"

definition samples_square_sparse :: "Template \<Rightarrow> bool" where
  "samples_square_sparse T \<longleftrightarrow> log2 (of_nat (samples T)) mod 2 = 1"

definition large_biomes_pos_mul :: "bool \<Rightarrow> nat" where
  "large_biomes_pos_mul large_biomes = (if large_biomes then 4 else 1)"

definition Template_static_asserts :: "bool \<Rightarrow> Template \<Rightarrow> bool" where
  "Template_static_asserts large_biomes T \<longleftrightarrow>
     samples T \<ge> 32 \<and> samples T \<le> threads_per_block * threads_per_block \<and> is_pow2 (of_nat (samples T)) \<and>
     (\<not> flipped_sparse_samples T \<or> samples_square_sparse T) \<and>
     pos_range T * large_biomes_pos_mul large_biomes mod (samples_square_size T * 2 * 4) = 0"

definition pos_step :: "bool \<Rightarrow> Template \<Rightarrow> nat" where
  "pos_step large_biomes T = pos_range T * large_biomes_pos_mul large_biomes div 4 div samples_square_size T"

definition pos_offset :: "bool \<Rightarrow> Template \<Rightarrow> int" where
  "pos_offset large_biomes T = - int (pos_step large_biomes T * (samples_square_size T - 1) div 2)"

definition threads_per_input :: "Template \<Rightarrow> nat" where
  "threads_per_input T = min (samples T) threads_per_block"

definition loops :: "Template \<Rightarrow> nat" where
  "loops T = samples T div threads_per_input T"

definition inputs_per_block :: "Template \<Rightarrow> nat" where
  "inputs_per_block T = threads_per_block div threads_per_input T"

definition z_step :: "bool \<Rightarrow> Template \<Rightarrow> nat" where
  "z_step large_biomes T = pos_step large_biomes T * (samples_square_size T div loops T)"

text \<open>The position that the thread \<open>pos_index\<close> of an input samples in round \<open>i\<close>.\<close>

definition sample_pos :: "bool \<Rightarrow> Template \<Rightarrow> SeedPos \<Rightarrow> nat \<Rightarrow> nat \<Rightarrow> int \<times> int" where
  "sample_pos large_biomes T input pos_index i =
     (let x_index = pos_index mod samples_square_size T;
          z_index = pos_index div samples_square_size T;
          z_index = (if samples_square_sparse T
                     then z_index * 2 + ((x_index AND 1) XOR (if flipped_sparse_samples T then 1 else 0))
                     else z_index);
          x = pos_x input + int (x_index * pos_step large_biomes T) + pos_offset large_biomes T;
          z = pos_z input + int (z_index * pos_step large_biomes T) + pos_offset large_biomes T
      in (x, z + int (i * z_step large_biomes T)))"

text \<open>
  One round of one warp: \<open>__any_sync\<close> makes all 32 lanes add the late octaves as soon as one of them
  may need them.
\<close>

definition filter2_round ::
    "bool \<Rightarrow> Template \<Rightarrow> NormalNoiseConfig \<Rightarrow> GradDotTable \<Rightarrow> ImprovedNoise list \<Rightarrow> (int \<times> int) list \<Rightarrow> bool list" where
  "filter2_round large_biomes T config table octaves positions =
     (if \<not> only_a T \<and> t_octaves T > 12
      then let margin = rest12_margin (t_octaves T) config;
               val_low = map (\<lambda>(x, z). sample_first12 (t_octaves T) config octaves table x 0 z) positions;
               need_high = map (\<lambda>v. v > noise_threshold T - margin \<and> v < noise_threshold T + margin) val_low;
               val_high = (if list_ex id need_high
                           then map (\<lambda>(x, z). sample_rest12 (t_octaves T) config octaves table x 0 z) positions
                           else map (\<lambda>_. 0) positions)
           in map2 (\<lambda>low high. low + high < noise_threshold T) val_low val_high
      else if only_a T
      then map (\<lambda>(x, z). sample_only_a (t_octaves T) config octaves table x 0 z < noise_threshold T) positions
      else map (\<lambda>(x, z). sample_all (t_octaves T) config octaves table x 0 z < noise_threshold T) positions)"

text \<open>
  The whole block for one input: per warp the reduced counts of all rounds, added up in shared memory;
  per thread the sums of the offsets, reduced per warp and added up likewise.
\<close>

definition filter2_kernel ::
    "bool \<Rightarrow> Template \<Rightarrow> NormalNoiseConfig \<Rightarrow> GradDotTable \<Rightarrow> ImprovedNoise list \<Rightarrow> SeedPos \<Rightarrow> SeedPos option" where
  "filter2_kernel large_biomes T config table octaves input =
     (let warps = [0..<threads_per_input T div 32];
          pos = (\<lambda>warp i. map (\<lambda>lane. sample_pos large_biomes T input (32 * warp + lane) i) [0..<32]);
          valid = (\<lambda>warp i. filter2_round large_biomes T config table octaves (pos warp i));
          warp_valid = (\<lambda>warp. sum_list (map (\<lambda>i. warp_reduce_add (+) (map (\<lambda>v. if v then 1 else 0 :: u32) (valid warp i)) ! 0)
                                           [0..<loops T]));
          total_valid = sum_list (map warp_valid warps);
          reduced = (\<lambda>coord. sum_list (map (\<lambda>warp. warp_reduce_add (+)
                    (map (\<lambda>lane. sum_list (map (\<lambda>i. if valid warp i ! lane then coord (pos warp i ! lane) else 0 :: int) [0..<loops T]))
                       [0..<32]) ! 0) warps));
          (sum_dx, sum_dz) =
            (if move_center T
             then let sum_dx = reduced (\<lambda>(x, z). x - pos_x input);
                      sum_dz = reduced (\<lambda>(x, z). z - pos_z input)
                  in if total_valid \<noteq> 0 then (sum_dx sdiv uint total_valid, sum_dz sdiv uint total_valid) else (sum_dx, sum_dz)
             else (0, 0))
      in if total_valid \<ge> min_count T
         then Some \<lparr>seed_index = seed_index input, pos_x = pos_x input + sum_dx, pos_z = pos_z input + sum_dz\<rparr>
         else None)"

section \<open>Definitions: the cached first stages\<close>

definition T_0A :: Template where
  "T_0A = \<lparr>NoiseThreshold = - 5500, t_octaves = 3, pos_range = 8 * 1024, samples = 256, min_count = 27,
           flipped_sparse_samples = False, move_center = False, only_a = True\<rparr>"

definition T_0B :: Template where
  "T_0B = \<lparr>NoiseThreshold = - 5500, t_octaves = 3, pos_range = 8 * 1024, samples = 256, min_count = 20,
           flipped_sparse_samples = False, move_center = False, only_a = False\<rparr>"

record Cell =
  c000 :: u8
  c100 :: u8
  c010 :: u8
  c110 :: u8
  c001 :: u8
  c101 :: u8
  c011 :: u8
  c111 :: u8

definition compute_cell :: "ImprovedNoise \<Rightarrow> int \<Rightarrow> int \<Rightarrow> int \<Rightarrow> Cell" where
  "compute_cell noise int_x int_y int_z =
     (let p0 = uint (p_at noise int_x);
          p1 = uint (p_at noise (int_x + 1));
          p00 = uint (p_at noise (p0 + int_y));
          p01 = uint (p_at noise (p0 + int_y + 1));
          p10 = uint (p_at noise (p1 + int_y));
          p11 = uint (p_at noise (p1 + int_y + 1))
      in \<lparr>c000 = p_at noise (p00 + int_z),
          c100 = p_at noise (p10 + int_z),
          c010 = p_at noise (p01 + int_z),
          c110 = p_at noise (p11 + int_z),
          c001 = p_at noise (p00 + int_z + 1),
          c101 = p_at noise (p10 + int_z + 1),
          c011 = p_at noise (p01 + int_z + 1),
          c111 = p_at noise (p11 + int_z + 1)\<rparr>)"

definition interp :: "GradDotTable \<Rightarrow> rat \<Rightarrow> rat \<Rightarrow> rat \<Rightarrow> rat \<Rightarrow> rat \<Rightarrow> rat \<Rightarrow> Cell \<Rightarrow> rat" where
  "interp table frac_x frac_y frac_z fx fy fz c =
     (let n000 = gradDot table (c000 c) frac_x frac_y frac_z;
          n100 = gradDot table (c100 c) (frac_x - 1) frac_y frac_z;
          n010 = gradDot table (c010 c) frac_x (frac_y - 1) frac_z;
          n110 = gradDot table (c110 c) (frac_x - 1) (frac_y - 1) frac_z;
          n001 = gradDot table (c001 c) frac_x frac_y (frac_z - 1);
          n101 = gradDot table (c101 c) (frac_x - 1) frac_y (frac_z - 1);
          n011 = gradDot table (c011 c) frac_x (frac_y - 1) (frac_z - 1);
          n111 = gradDot table (c111 c) (frac_x - 1) (frac_y - 1) (frac_z - 1)
      in g_lerp3 fx fy fz n000 n100 n010 n110 n001 n101 n011 n111)"

text \<open>
  One octave at one of a lane's eight positions. The state is the cell computed last together with its
  \<open>int_x\<close>; \<open>None\<close> before the first position (\<open>have = false\<close>).
\<close>

definition cached_octave ::
    "GradDotTable \<Rightarrow> ImprovedNoise \<Rightarrow> rat \<Rightarrow> int \<Rightarrow> int \<Rightarrow> (int \<times> Cell) option \<Rightarrow> rat \<times> (int \<times> Cell) option" where
  "cached_octave table oct if0 z_world x_world cache =
     (let y0 = in_yo oct;
          int_y0 = floor y0;
          frac_y0 = y0 - of_int int_y0;
          fy0 = smoothstep frac_y0;
          z0c = of_int z_world * if0 + in_zo oct;
          int_z0 = floor z0c;
          frac_z0 = z0c - of_int int_z0;
          fz0 = smoothstep frac_z0;
          x0c = of_int x_world * if0 + in_xo oct;
          int_x0 = floor x0c;
          frac_x0 = x0c - of_int int_x0;
          (cur_ix0, a) = (case cache of
              None \<Rightarrow> (int_x0, compute_cell oct int_x0 int_y0 int_z0)
            | Some (cur_ix0, a) \<Rightarrow>
                (if int_x0 \<noteq> cur_ix0 then (int_x0, compute_cell oct int_x0 int_y0 int_z0) else (cur_ix0, a)));
          fx0 = smoothstep frac_x0
      in (interp table frac_x0 frac_y0 frac_z0 fx0 fy0 fz0 a, Some (cur_ix0, a)))"

primrec cached_loop ::
    "rat \<Rightarrow> OctaveConfig \<Rightarrow> OctaveConfig \<Rightarrow> GradDotTable \<Rightarrow> ImprovedNoise \<Rightarrow> ImprovedNoise \<Rightarrow> int \<Rightarrow> int list
      \<Rightarrow> (int \<times> Cell) option \<Rightarrow> (int \<times> Cell) option \<Rightarrow> u32 \<Rightarrow> u32" where
  "cached_loop threshold cfg0 cfg1 table oct0 oct1 z_world [] cache0 cache1 local_count = local_count"
| "cached_loop threshold cfg0 cfg1 table oct0 oct1 z_world (x_world # xs) cache0 cache1 local_count =
     (let (noise0, cache0') = cached_octave table oct0 (oc_input cfg0) z_world x_world cache0;
          (noise1, cache1') = cached_octave table oct1 (oc_input cfg1) z_world x_world cache1;
          val = 0;
          val = val + noise0 * oc_value cfg0;
          val = val + noise1 * oc_value cfg1
      in cached_loop threshold cfg0 cfg1 table oct0 oct1 z_world xs cache0' cache1'
           (local_count + (if val < threshold then 1 else 0)))"

definition lane_z :: "nat \<Rightarrow> int \<Rightarrow> SeedPos \<Rightarrow> nat \<Rightarrow> int" where
  "lane_z step offset input lane = pos_z input + int (lane div 2 * step) + offset"

definition lane_xs :: "nat \<Rightarrow> int \<Rightarrow> SeedPos \<Rightarrow> nat \<Rightarrow> int list" where
  "lane_xs step offset input lane =
     (let x_base = pos_x input + int ((lane AND 1) * 8 * step) + offset
      in map (\<lambda>k. x_base + int (k * step)) [0..<8])"

definition filter2_cached ::
    "bool \<Rightarrow> Template \<Rightarrow> OctaveConfig \<Rightarrow> OctaveConfig \<Rightarrow> GradDotTable \<Rightarrow> ImprovedNoise \<Rightarrow> ImprovedNoise \<Rightarrow> SeedPos \<Rightarrow> SeedPos option" where
  "filter2_cached large_biomes T cfg0 cfg1 table oct0 oct1 input =
     (let local_counts = map (\<lambda>lane.
            cached_loop (noise_threshold T) cfg0 cfg1 table oct0 oct1
              (lane_z (pos_step large_biomes T) (pos_offset large_biomes T) input lane)
              (lane_xs (pos_step large_biomes T) (pos_offset large_biomes T) input lane) None None 0) [0..<32];
          total = warp_reduce_add (+) local_counts ! 0
      in if total \<ge> min_count T
         then Some \<lparr>seed_index = seed_index input, pos_x = pos_x input, pos_z = pos_z input\<rparr>
         else None)"

definition filter2_0A :: "bool \<Rightarrow> GradDotTable \<Rightarrow> ImprovedNoise \<Rightarrow> ImprovedNoise \<Rightarrow> SeedPos \<Rightarrow> SeedPos option" where
  "filter2_0A large_biomes table oct_0A oct_1A input =
     (let octaves_a = nn_a (chosen_continentalness_config large_biomes)
      in filter2_cached large_biomes T_0A (octaves_a ! 0) (octaves_a ! 1) table oct_0A oct_1A input)"

definition filter2_0B :: "bool \<Rightarrow> GradDotTable \<Rightarrow> ImprovedNoise \<Rightarrow> ImprovedNoise \<Rightarrow> SeedPos \<Rightarrow> SeedPos option" where
  "filter2_0B large_biomes table oct_0B oct_1B input =
     (let octaves_b = nn_b (chosen_continentalness_config large_biomes)
      in filter2_cached large_biomes T_0B (octaves_b ! 0) (octaves_b ! 1) table oct_0B oct_1B input)"

section \<open>Definitions: the variants for older devices\<close>

definition compat_pos_step :: "bool \<Rightarrow> nat" where
  "compat_pos_step large_biomes = 8192 * (if large_biomes then 4 else 1) div 4 div 16"

definition compat_pos_offset :: "bool \<Rightarrow> int" where
  "compat_pos_offset large_biomes = - int (compat_pos_step large_biomes * 15 div 2)"

definition root_vf :: rat where "root_vf = (16666666666666666 / 100000000000000000) / ((1 / 10) * (1 + 1 / 9))"

definition base_if :: "bool \<Rightarrow> rat" where
  "base_if large_biomes = 1 / of_nat (2 ^ (if large_biomes then 11 else 9))"

definition base_vf :: rat where "base_vf = of_nat (2 ^ 8) / (of_nat (2 ^ 9) - 1) * root_vf"

definition b_mult :: rat where "b_mult = 10181268882175227 / 10000000000000000"

definition compat_if0 :: "bool \<Rightarrow> bool \<Rightarrow> rat" where
  "compat_if0 large_biomes IsB = (if IsB then base_if large_biomes * b_mult else base_if large_biomes)"

definition compat_if1 :: "bool \<Rightarrow> bool \<Rightarrow> rat" where
  "compat_if1 large_biomes IsB = (if IsB then base_if large_biomes * 2 * b_mult else base_if large_biomes * 2)"

definition compat_vf0 :: rat where "compat_vf0 = base_vf"
definition compat_vf1 :: rat where "compat_vf1 = base_vf * (1/2)"
definition compat_threshold :: rat where "compat_threshold = - 55 / 100"
definition kPrefilterThreshold :: rat where "kPrefilterThreshold = - 45 / 100"

primrec compat_phase1 ::
    "rat \<Rightarrow> GradDotTable \<Rightarrow> ImprovedNoise \<Rightarrow> int \<Rightarrow> int list \<Rightarrow> (int \<times> Cell) option \<Rightarrow> rat list" where
  "compat_phase1 if0 gdt oct0 z_world [] cache = []"
| "compat_phase1 if0 gdt oct0 z_world (xw # xs) cache =
     (let (n0, cache') = cached_octave gdt oct0 if0 z_world xw cache
      in n0 * compat_vf0 # compat_phase1 if0 gdt oct0 z_world xs cache')"

primrec compat_phase2 ::
    "rat \<Rightarrow> GradDotTable \<Rightarrow> ImprovedNoise \<Rightarrow> int \<Rightarrow> (int \<times> rat) list \<Rightarrow> (int \<times> Cell) option \<Rightarrow> u32 \<Rightarrow> u32" where
  "compat_phase2 if1 gdt oct1 z_world [] cache local_count = local_count"
| "compat_phase2 if1 gdt oct1 z_world (xn # xns) cache local_count =
     (let (n1, cache') = cached_octave gdt oct1 if1 z_world (fst xn) cache;
          val = snd xn + n1 * compat_vf1
      in compat_phase2 if1 gdt oct1 z_world xns cache' (local_count + (if val < compat_threshold then 1 else 0)))"

definition filter2_compat ::
    "bool \<Rightarrow> u32 \<Rightarrow> bool \<Rightarrow> GradDotTable \<Rightarrow> ImprovedNoise \<Rightarrow> ImprovedNoise \<Rightarrow> SeedPos \<Rightarrow> SeedPos option" where
  "filter2_compat large_biomes MinCount IsB gdt oct0 oct1 input =
     (let z = (\<lambda>lane. lane_z (compat_pos_step large_biomes) (compat_pos_offset large_biomes) input lane);
          xs = (\<lambda>lane. lane_xs (compat_pos_step large_biomes) (compat_pos_offset large_biomes) input lane);
          noise0_vals = (\<lambda>lane. compat_phase1 (compat_if0 large_biomes IsB) gdt oct0 (z lane) (xs lane) None);
          prefilter_count = (\<lambda>lane. sum_list (map (\<lambda>v. if v < kPrefilterThreshold then 1 else 0 :: u32) (noise0_vals lane)));
          prefilter_total = compat_warp_reduce_add (+) (map prefilter_count [0..<32]) ! 0
      in if prefilter_total \<ge> MinCount
         then let local_count = (\<lambda>lane.
                    compat_phase2 (compat_if1 large_biomes IsB) gdt oct1 (z lane) (zip (xs lane) (noise0_vals lane)) None 0);
                  total = compat_warp_reduce_add (+) (map local_count [0..<32]) ! 0
              in if total \<ge> MinCount
                 then Some \<lparr>seed_index = seed_index input, pos_x = pos_x input, pos_z = pos_z input\<rparr> else None
         else None)"

definition make_gdt :: GradDotTable where
  "make_gdt =
     \<lparr>gd_x = [1, -1, 1, -1, 1, -1, 1, -1, 0, 0, 0, 0, 1, 0, -1, 0],
      gd_y = [1, 1, -1, -1, 0, 0, 0, 0, 1, -1, 1, -1, 1, -1, 1, -1],
      gd_z = [0, 0, 0, 0, 1, 1, -1, -1, 1, 1, -1, -1, 0, 1, 0, -1]\<rparr>"

definition compat_0A :: "bool \<Rightarrow> ImprovedNoise \<Rightarrow> ImprovedNoise \<Rightarrow> SeedPos \<Rightarrow> SeedPos option" where
  "compat_0A large_biomes oct0 oct1 input = filter2_compat large_biomes 27 False make_gdt oct0 oct1 input"

definition compat_0B :: "bool \<Rightarrow> ImprovedNoise \<Rightarrow> ImprovedNoise \<Rightarrow> SeedPos \<Rightarrow> SeedPos option" where
  "compat_0B large_biomes oct0 oct1 input = filter2_compat large_biomes 20 True make_gdt oct0 oct1 input"

section \<open>The seed prefilter\<close>

definition seed_score :: "bool \<Rightarrow> u64 \<Rightarrow> rat" where
  "seed_score large_biomes seed =
     (let config = chosen_continentalness_config large_biomes;
          r = XrsrRandomFork_from (XrsrRandom_seed_fork seed) (nn_hash config);
          f = (\<lambda>w fork octave. w * \<bar>octave_yo_mod1 (oc_hash octave) (noise_yo_fork fork) - 1/2\<bar>);
          fa = fst (XrsrRandom_fork r);
          fb = fst (XrsrRandom_fork (snd (XrsrRandom_fork r)))
      in f (35/100) fa (nn_a config ! 0) + f (35/100) fb (nn_b config ! 0) +
         f (11/100) fa (nn_a config ! 1) + f (11/100) fb (nn_b config ! 1) +
         f (4/100) fa (nn_a config ! 2) + f (4/100) fb (nn_b config ! 2))"

lemma early_exits:
  fixes a b c d e f M :: rat
  assumes "0 \<le> b" "0 \<le> c" "0 \<le> d" "0 \<le> e" "0 \<le> f"
  shows "(if a \<ge> M then None else if a + b \<ge> M then None else if a + b + c \<ge> M then None
          else if a + b + c + d \<ge> M then None else if a + b + c + d + e \<ge> M then None
          else if a + b + c + d + e + f \<ge> M then None else y) =
         (if a + b + c + d + e + f < M then y else None)"
  using assms by auto

text \<open>
  The six early exits of the seed prefilter decide the same as the complete score: a seed is kept
  exactly when the weighted distances of all six vertical offsets from the middle of their cells stay
  below the limit together.
\<close>

theorem filter_seeds_is_total_score:
  "filter_seeds large_biomes seed = (if seed_score large_biomes seed < maxScore then Some seed else None)"
  unfolding filter_seeds_def seed_score_def Let_def split_def by (rule early_exits) simp_all

section \<open>Reductions\<close>

text \<open>
  Both reductions are computed once on lists of lane numbers, with concatenation for addition: what a
  lane holds afterwards is the sum over the lanes named in its list.
\<close>

definition lane_sum :: "'a::comm_monoid_add list \<Rightarrow> nat list \<Rightarrow> 'a" where
  "lane_sum vals ks = sum_list (map ((!) vals) ks)"

lemma lane_sum_append [simp]: "lane_sum vals (xs @ ys) = lane_sum vals xs + lane_sum vals ys"
  by (simp add: lane_sum_def)

lemma shfl_down_lanes: "shfl_down (+) d (map (lane_sum vals) L) = map (lane_sum vals) (shfl_down (@) d L)"
  by (simp add: shfl_down_def)

lemma shfl_xor_lanes:
  assumes "\<forall>i<length L. i XOR d < length L"
  shows "shfl_xor (+) d (map (lane_sum vals) L) = map (lane_sum vals) (shfl_xor (@) d L)"
  using assms by (simp add: shfl_xor_def)

lemma shfl_length [simp]: "length (shfl_down add d vals) = length vals" "length (shfl_xor add d vals) = length vals"
  by (simp_all add: shfl_down_def shfl_xor_def)

lemma lanes_start:
  assumes "length vals = 32"
  shows "map (lane_sum vals) (map (\<lambda>i. [i]) [0..<32]) = vals"
proof -
  have "map (lane_sum vals) (map (\<lambda>i. [i]) [0..<32]) = map ((!) vals) [0..<32]"
    unfolding map_map by (rule map_cong) (simp_all add: lane_sum_def)
  also have "\<dots> = vals" using map_nth [of vals] assms by simp
  finally show ?thesis .
qed

lemma reduce_down_lanes: "warp_reduce_add (@) (map (\<lambda>i. [i]) [0..<32]) ! 0 = [0..<32]"
  by code_simp

lemma reduce_xor_lanes: "\<forall>l \<in> set (compat_warp_reduce_add (@) (map (\<lambda>i. [i]) [0..<32])). sort l = [0..<32]"
  by code_simp

lemma warp_reduce_add_sum:
  fixes vals :: "'a::comm_monoid_add list"
  assumes "length vals = 32"
  shows "warp_reduce_add (+) vals ! 0 = sum_list vals"
proof -
  let ?L = "map (\<lambda>i. [i]) [0..<32]"
  have "warp_reduce_add (+) (map (lane_sum vals) ?L) = map (lane_sum vals) (warp_reduce_add (@) ?L)"
    by (simp only: warp_reduce_add_def Let_def shfl_down_lanes)
  moreover have "length (warp_reduce_add (@) ?L) = 32" by (simp add: warp_reduce_add_def)
  ultimately have "warp_reduce_add (+) vals ! 0 = lane_sum vals (warp_reduce_add (@) ?L ! 0)"
    using lanes_start [OF assms] by simp
  also have "\<dots> = sum_list vals" unfolding reduce_down_lanes lane_sum_def using assms by (metis map_nth)
  finally show ?thesis .
qed

lemma lane_sum_sort:
  assumes "sort l = [0..<32]" "length vals = 32"
  shows "lane_sum vals l = sum_list vals"
proof -
  have "mset l = mset [0..<32]" using assms(1) by (metis mset_sort)
  then have "mset (map ((!) vals) l) = mset (map ((!) vals) [0..<32])" by simp
  then have "lane_sum vals l = sum_list (map ((!) vals) [0..<32])" unfolding lane_sum_def by (metis sum_mset_sum_list)
  then show ?thesis using assms(2) by (metis map_nth)
qed

lemma xor_lane:
  fixes i d :: nat
  assumes "i < 32" "d < 32"
  shows "i XOR d < 32"
proof -
  have "take_bit 5 i = i" "take_bit 5 d = d" using assms by (simp_all add: take_bit_nat_eq_self_iff)
  then have "take_bit 5 (i XOR d) = i XOR d" by (simp only: take_bit_xor)
  then show ?thesis using take_bit_nat_less_exp [of 5 "i XOR d"] by simp
qed

lemma compat_reduce_add_sum:
  fixes vals :: "'a::comm_monoid_add list"
  assumes "length vals = 32" "lane < 32"
  shows "compat_warp_reduce_add (+) vals ! lane = sum_list vals"
proof -
  let ?L = "map (\<lambda>i. [i]) [0..<32]"
  have step: "shfl_xor (+) d (map (lane_sum vals) M) = map (lane_sum vals) (shfl_xor (@) d M)" if "length M = 32" "d < 32" for d M
    using that xor_lane by (intro shfl_xor_lanes) simp
  have len: "length ?L = 32" by simp
  have "compat_warp_reduce_add (+) (map (lane_sum vals) ?L) = map (lane_sum vals) (compat_warp_reduce_add (@) ?L)"
    unfolding compat_warp_reduce_add_def fold.simps comp_def id_def
    by (simp only: step len shfl_length rel_simps)
  moreover have l: "length (compat_warp_reduce_add (@) ?L) = 32"
    by (simp add: compat_warp_reduce_add_def)
  ultimately have "compat_warp_reduce_add (+) vals ! lane = lane_sum vals (compat_warp_reduce_add (@) ?L ! lane)"
    using lanes_start [OF assms(1)] assms(2) by simp
  moreover have "compat_warp_reduce_add (@) ?L ! lane \<in> set (compat_warp_reduce_add (@) ?L)"
    using assms(2) l by simp
  ultimately show ?thesis using reduce_xor_lanes lane_sum_sort [OF _ assms(1)] by simp
qed

text \<open>
  Both warp reductions add up: after the shift-down reduction of 32 lanes lane 0 holds the sum of
  the warp, after the exclusive-or reduction every lane does.
\<close>

theorem warp_reductions_add_up:
  fixes vals :: "u32 list"
  assumes "length vals = 32" "lane < 32"
  shows "warp_reduce_add (+) vals ! 0 = sum_list vals \<and> compat_warp_reduce_add (+) vals ! lane = sum_list vals"
  using warp_reduce_add_sum compat_reduce_add_sum assms by blast

lemma warp_reductions_add_up_witness:
  "warp_reduce_add (+) (map of_nat [0..<32] :: u32 list) ! 0 = 496 \<and>
   compat_warp_reduce_add (+) (map of_nat [0..<32] :: u32 list) ! 17 = 496"
proof -
  have "sum_list (map of_nat [0..<32] :: u32 list) = 496" by (simp add: upt_rec)
  then show ?thesis using warp_reductions_add_up [of "map of_nat [0..<32]" 17] by simp
qed

section \<open>The sample grid\<close>

lemma bit_top:
  assumes "2 ^ k \<le> unat (w :: u32)" "unat w < 2 ^ Suc k"
  shows "bit w k"
proof -
  have "unat w div 2 ^ k = 1" using assms by (intro div_nat_eqI) simp_all
  then have "bit (unat w) k" by (simp add: bit_iff_odd)
  then show ?thesis by (simp add: bit_unsigned_iff)
qed

lemma bit_high: "unat (w :: u32) < 2 ^ k \<Longrightarrow> k \<le> j \<Longrightarrow> \<not> bit w j"
proof
  assume w: "unat w < 2 ^ k" "k \<le> j" and b: "bit w j"
  have "j < 32" using b by (rule bit_imp_le_length [of w j, simplified])
  with b have "bit (unat w) j" by (simp add: bit_unsigned_iff)
  moreover have "(2 :: nat) ^ k \<le> 2 ^ j" using w(2) by (intro power_increasing) simp_all
  ultimately show False using w(1) by (simp add: bit_iff_odd)
qed

lemma pow2_bracket: "0 < n \<Longrightarrow> \<exists>k. 2 ^ k \<le> n \<and> n < (2 :: nat) ^ Suc k"
proof (induction n)
  case (Suc n)
  show ?case
  proof (cases "n = 0")
    case False
    then obtain k where "2 ^ k \<le> n" "n < 2 ^ Suc k" using Suc.IH by auto
    then show ?thesis by (cases "Suc n = 2 ^ Suc k") (auto intro: exI [of _ k] exI [of _ "Suc k"])
  qed (simp add: exI [of _ 0])
qed simp

lemma is_pow2_power:
  assumes "is_pow2 w" "w \<noteq> 0"
  shows "\<exists>k. unat w = 2 ^ k"
proof -
  have "0 < unat w" using assms(2) by (simp add: unat_gt_0)
  then obtain k where k: "2 ^ k \<le> unat w" "unat w < 2 ^ Suc k" using pow2_bracket by blast
  have "unat w = 2 ^ k"
  proof (rule ccontr)
    assume "unat w \<noteq> 2 ^ k"
    then have "2 ^ k \<le> unat w - 1" "unat w - 1 < 2 ^ Suc k" using k by simp_all
    moreover have "unat (w - 1) = unat w - 1" using \<open>0 < unat w\<close> by (simp add: unat_sub_if_size)
    ultimately have "bit (w - 1) k" by (intro bit_top) simp_all
    moreover have "bit w k" using k by (rule bit_top)
    ultimately have "bit (w AND (w - 1)) k" by (simp add: bit_and_iff)
    then show False using assms(1) by (simp add: is_pow2_def)
  qed
  then show ?thesis by blast
qed

lemma log2_eq:
  assumes "2 ^ k \<le> unat w" "unat w < 2 ^ Suc k"
  shows "log2 w = k"
proof -
  have b: "bit w k" using assms by (rule bit_top)
  have k: "k < 32" using b by (rule bit_imp_le_length [of w k, simplified])
  have "takeWhile (\<lambda>i. \<not> bit w i) (rev [0..<32]) = take (31 - k) (rev [0..<32])"
  proof (rule takeWhile_eq_take_P_nth)
    fix i assume i: "i < 31 - k" "i < length (rev [0..<32])"
    then have "rev [0..<32] ! i = 31 - i" by (simp add: rev_nth)
    moreover have "Suc k \<le> 31 - i" using i by simp
    ultimately show "\<not> bit w (rev [0..<32] ! i)" using bit_high [OF assms(2)] by simp
  next
    assume "31 - k < length (rev [0..<32])"
    moreover have "rev [0..<32] ! (31 - k) = k" using k by (simp add: rev_nth)
    ultimately show "\<not> \<not> bit w (rev [0..<32] ! (31 - k))" using b by simp
  qed
  then show ?thesis using k by (simp add: log2_def countl_zero_def)
qed

lemma log2_power: "unat w = 2 ^ k \<Longrightarrow> log2 w = k"
  by (rule log2_eq) simp_all

lemma static_asserts_power:
  assumes "Template_static_asserts l T"
  shows "\<exists>k. 5 \<le> k \<and> k \<le> 16 \<and> samples T = 2 ^ k \<and> log2 (of_nat (samples T)) = k"
proof -
  have s: "32 \<le> samples T" "samples T \<le> 65536" "is_pow2 (of_nat (samples T))"
    using assms by (simp_all add: Template_static_asserts_def threads_per_block_def)
  have u: "unat (of_nat (samples T) :: u32) = samples T" using s(2) by (simp add: unat_of_nat)
  then have "(of_nat (samples T) :: u32) \<noteq> 0" using s(1) by (metis unat_0 not_numeral_le_zero)
  then obtain k where k: "samples T = 2 ^ k" using is_pow2_power [OF s(3)] u by auto
  have "(2 :: nat) ^ 5 \<le> 2 ^ k" "(2 :: nat) ^ k \<le> 2 ^ 16" using s(1,2) unfolding k by simp_all
  then have "5 \<le> k" "k \<le> 16" by (simp_all only: power_increasing_iff one_less_numeral_iff rel_simps)
  moreover have "log2 (of_nat (samples T)) = k" using log2_power u k by simp
  ultimately show ?thesis using k by blast
qed

text \<open>The number of rows between the lines of a sparse or full grid, and the column's shift in a sparse one.\<close>

definition row_gap :: "Template \<Rightarrow> nat" where
  "row_gap T = (if samples_square_sparse T then 2 else 1)"

definition row_shift :: "Template \<Rightarrow> nat \<Rightarrow> nat" where
  "row_shift T x_index = (if samples_square_sparse T then (x_index AND 1) XOR (if flipped_sparse_samples T then 1 else 0) else 0)"

definition grid_index :: "Template \<Rightarrow> nat \<Rightarrow> nat \<times> nat" where
  "grid_index T n = (let x_index = n mod samples_square_size T
                     in (x_index, n div samples_square_size T * row_gap T + row_shift T x_index))"

text \<open>The template's derived sizes, as a function of the logarithm of \<open>samples\<close>.\<close>

definition sizes_ok :: "nat \<Rightarrow> bool" where
  "sizes_ok k \<longleftrightarrow> (let N = (2::nat) ^ k; t = min N 256; S = 2 ^ ((k + 1) div 2); L = N div t; g = (if k mod 2 = 1 then 2 else 1) in
    t = S * (t div S) \<and> (S div L = t div S * g \<or> L = 1) \<and> N * g = S * S \<and> N = t * L \<and> t mod 32 = 0 \<and> even S \<and> 0 < t div S)"

lemma sizes_ok_each:
  "sizes_ok 5"   "sizes_ok 6"   "sizes_ok 7"   "sizes_ok 8"
  "sizes_ok 9"   "sizes_ok 10"   "sizes_ok 11"   "sizes_ok 12"
  "sizes_ok 13"   "sizes_ok 14"   "sizes_ok 15"   "sizes_ok 16"
  unfolding sizes_ok_def by simp_all

lemma sizes_ok: "5 \<le> k \<Longrightarrow> k \<le> 16 \<Longrightarrow> sizes_ok k"
proof -
  assume "5 \<le> k" "k \<le> 16"
  then have "k \<in> {5, 6, 7, 8, 9, 10, 11, 12, 13, 14, 15, 16}" unfolding insert_iff empty_iff by presburger
  then show ?thesis using sizes_ok_each by auto
qed

lemma template_sizes:
  assumes "Template_static_asserts l T"
  obtains q where "threads_per_input T = samples_square_size T * q" "samples_square_size T div loops T = q * row_gap T \<or> loops T = 1"
    and "samples T * row_gap T = samples_square_size T * samples_square_size T"
    and "samples T = threads_per_input T * loops T" "threads_per_input T mod 32 = 0" "even (samples_square_size T)"
    and "0 < q" "0 < samples_square_size T"
proof -
  obtain k where k: "5 \<le> k" "k \<le> 16" "samples T = 2 ^ k" "log2 (of_nat (samples T)) = k"
    using static_asserts_power [OF assms] by blast
  from sizes_ok [OF k(1,2)] have "threads_per_input T = samples_square_size T * (threads_per_input T div samples_square_size T)
    \<and> (samples_square_size T div loops T = threads_per_input T div samples_square_size T * row_gap T \<or> loops T = 1)
    \<and> samples T * row_gap T = samples_square_size T * samples_square_size T
    \<and> samples T = threads_per_input T * loops T \<and> threads_per_input T mod 32 = 0 \<and> even (samples_square_size T)
    \<and> 0 < threads_per_input T div samples_square_size T"
    unfolding threads_per_input_def loops_def samples_square_size_def row_gap_def samples_square_sparse_def k(4) threads_per_block_def sizes_ok_def Let_def
    unfolding k(3) .
  moreover have "0 < samples_square_size T" by (simp add: samples_square_size_def)
  ultimately show ?thesis by (elim conjE) (rule that; assumption)
qed

definition grid_pos :: "bool \<Rightarrow> Template \<Rightarrow> SeedPos \<Rightarrow> nat \<times> nat \<Rightarrow> int \<times> int" where
  "grid_pos l T input g = (case g of (i, j) \<Rightarrow>
     (pos_x input + int (i * pos_step l T) + pos_offset l T, pos_z input + int (j * pos_step l T) + pos_offset l T))"

lemma sample_pos_grid:
  assumes "Template_static_asserts l T" "p < threads_per_input T" "i < loops T"
  shows "sample_pos l T input p i = grid_pos l T input (grid_index T (i * threads_per_input T + p))"
proof -
  obtain q where q: "threads_per_input T = samples_square_size T * q"
      "samples_square_size T div loops T = q * row_gap T \<or> loops T = 1" "0 < samples_square_size T"
    using template_sizes [OF assms(1)] by metis
  let ?S = "samples_square_size T" and ?n = "i * threads_per_input T + p"
  have m: "?n mod ?S = p mod ?S" unfolding q(1) by (metis mod_mult_self3 mult.assoc mult.commute)
  have d: "?n div ?S = i * q + p div ?S" unfolding q(1) using q(3)
    by (metis div_mult_self3 mult.assoc mult.commute less_numeral_extra(3))
  have z: "i * z_step l T = i * q * row_gap T * pos_step l T"
    using q(2) assms(3) by (auto simp: z_step_def)
  have row: "(if samples_square_sparse T then p div ?S * 2 + ((p mod ?S AND 1) XOR (if flipped_sparse_samples T then 1 else 0)) else p div ?S)
      = p div ?S * row_gap T + row_shift T (p mod ?S)"
    by (simp add: row_gap_def row_shift_def)
  show ?thesis
    unfolding sample_pos_def grid_pos_def grid_index_def Let_def m d z row
    by (simp add: algebra_simps)
qed

lemma row_shift_parity:
  "row_shift T i = (if samples_square_sparse T then (if odd i = flipped_sparse_samples T then 0 else 1) else 0)"
  by (cases "odd i") (simp_all add: row_shift_def and_one_eq mod_2_eq_odd)

text \<open>
  With template parameters that pass the static asserts, the threads and rounds of one input visit
  every point of the square grid once; for a sparse template they visit one colour of its checkerboard.
\<close>

theorem sample_grid_covered:
  assumes "Template_static_asserts l T"
  shows "distinct (map (grid_index T) [0..<samples T]) \<and>
         set (map (grid_index T) [0..<samples T]) =
           {(i, j). i < samples_square_size T \<and> j < samples_square_size T \<and>
              (if samples_square_sparse T then (odd i = odd j) = (\<not> flipped_sparse_samples T) else True)}"
proof -
  obtain q where q: "samples T * row_gap T = samples_square_size T * samples_square_size T" "0 < samples_square_size T" "even (samples_square_size T)"
    using template_sizes [OF assms] by metis
  let ?S = "samples_square_size T" and ?g = "row_gap T"
  have g: "0 < ?g" by (simp add: row_gap_def)
  have inj: "inj_on (grid_index T) {0..<samples T}"
  proof (rule inj_onI)
    fix m n assume e: "grid_index T m = grid_index T n"
    then have mm: "m mod ?S = n mod ?S" by (simp add: grid_index_def Let_def)
    with e have "m div ?S * ?g = n div ?S * ?g" by (simp add: grid_index_def Let_def)
    then have "m div ?S = n div ?S" using g by simp
    then show "m = n" using mm by (metis div_mult_mod_eq)
  qed
  have "set (map (grid_index T) [0..<samples T]) =
      {(i, j). i < ?S \<and> j < ?S \<and> (if samples_square_sparse T then (odd i = odd j) = (\<not> flipped_sparse_samples T) else True)}"
    (is "_ = ?G")
  proof (rule set_eqI, rule iffI)
    fix ij assume "ij \<in> set (map (grid_index T) [0..<samples T])"
    then obtain n where n: "n < samples T" "ij = (n mod ?S, n div ?S * ?g + row_shift T (n mod ?S))"
      by (auto simp: grid_index_def Let_def)
    have "n div ?S * ?S * ?g \<le> n * ?g" by (intro mult_right_mono) simp_all
    also have "\<dots> < samples T * ?g" using n(1) g by simp
    also have "\<dots> = ?S * ?S" by (rule q(1))
    finally have "(n div ?S * ?g) * ?S < ?S * ?S" by (simp only: mult.commute mult.left_commute)
    then have "n div ?S * ?g < ?S" using q(2) by simp
    moreover have "x * 2 < ?S \<Longrightarrow> x * 2 + 1 < ?S" for x using q(3) by presburger
    ultimately have "n div ?S * ?g + row_shift T (n mod ?S) < ?S"
      by (auto simp: row_gap_def row_shift_parity split: if_splits)
    then show "ij \<in> ?G" unfolding n(2) using q(2) by (auto simp: row_gap_def row_shift_parity)
  next
    fix ij assume "ij \<in> ?G"
    then obtain i j where ij: "ij = (i, j)" "i < ?S" "j < ?S"
        "if samples_square_sparse T then (odd i = odd j) = (\<not> flipped_sparse_samples T) else True"
      by auto
    let ?n = "j div ?g * ?S + i"
    have d: "?n div ?S = j div ?g" "?n mod ?S = i" using ij(2) by simp_all
    have j: "j div ?g * ?g + row_shift T i = j"
      using ij(4) by (auto simp: row_gap_def row_shift_parity split: if_splits) presburger+
    have "(j div ?g + 1) * ?g \<le> ?S"
      using ij(3) q(3) by (auto simp: row_gap_def) presburger
    then have "(j div ?g + 1) * ?g * ?S \<le> ?S * ?S" by (rule mult_right_mono) simp
    then have "(j div ?g * ?S + ?S) * ?g \<le> samples T * ?g" using q(1) by (simp add: algebra_simps)
    then have "?n < samples T" using g ij(2) by simp
    moreover have "grid_index T ?n = ij" using d j ij(1) by (simp add: grid_index_def Let_def)
    ultimately show "ij \<in> set (map (grid_index T) [0..<samples T])" by force
  qed
  then show ?thesis using inj by (simp add: distinct_map)
qed

lemma sample_grid_covered_witness:
  "distinct (map (grid_index T_0A) [0..<samples T_0A])"
proof -
  have "log2 (256 :: u32) = 8" by (rule log2_power) simp
  then have "Template_static_asserts False T_0A"
    by (simp add: Template_static_asserts_def T_0A_def threads_per_block_def is_pow2_def samples_square_sparse_def
        samples_square_size_def large_biomes_pos_mul_def)
  then show ?thesis by (rule conjunct1 [OF sample_grid_covered])
qed

section \<open>The sampling filter against its specification\<close>

definition grid_points :: "bool \<Rightarrow> Template \<Rightarrow> SeedPos \<Rightarrow> (int \<times> int) list" where
  "grid_points l T input = map (\<lambda>n. grid_pos l T input (grid_index T n)) [0..<samples T]"

definition below_threshold :: "Template \<Rightarrow> NormalNoiseConfig \<Rightarrow> GradDotTable \<Rightarrow> ImprovedNoise list \<Rightarrow> int \<times> int \<Rightarrow> bool" where
  "below_threshold T config table octaves p = (case p of (x, z) \<Rightarrow>
     (if only_a T then sample_only_a else sample_all) (t_octaves T) config octaves table x 0 z < noise_threshold T)"

text \<open>The specification: count the grid points below the threshold; a template that moves the centre moves it to their mean.\<close>

definition filter2_spec ::
    "bool \<Rightarrow> Template \<Rightarrow> NormalNoiseConfig \<Rightarrow> GradDotTable \<Rightarrow> ImprovedNoise list \<Rightarrow> SeedPos \<Rightarrow> SeedPos option" where
  "filter2_spec l T config table octaves input =
     (let hits = filter (below_threshold T config table octaves) (grid_points l T input);
          mean = (\<lambda>coord. sum_list (map coord hits) sdiv int (length hits))
      in if length hits < unat (min_count T) then None
         else if move_center T \<and> hits \<noteq> []
         then Some \<lparr>seed_index = seed_index input, pos_x = pos_x input + mean (\<lambda>(x, z). x - pos_x input),
                    pos_z = pos_z input + mean (\<lambda>(x, z). z - pos_z input)\<rparr>
         else Some \<lparr>seed_index = seed_index input, pos_x = pos_x input, pos_z = pos_z input\<rparr>)"

lemma if_add: "(if c then v + t else v) = v + (if c then t else (0 :: rat))" by simp

lemma sample_all_split: "sample_all n config octaves table x y z =
     sample_first12 n config octaves table x y z + sample_rest12 n config octaves table x y z"
  by (simp only: sample_all_def sample_first12_def sample_rest12_def Let_def if_add add.assoc add_0_left)

lemma late_margin:
  fixes low high margin t :: rat
  assumes "\<bar>high\<bar> < margin" "\<not> (low > t - margin \<and> low < t + margin)"
  shows "low + 0 < t \<longleftrightarrow> low + high < t"
  using assms by linarith

lemma filter2_round_eq:
  assumes "\<not> only_a T \<and> t_octaves T > 12 \<Longrightarrow>
     \<forall>(x, z)\<in>set ps. \<bar>sample_rest12 (t_octaves T) config octaves table x 0 z\<bar> < rest12_margin (t_octaves T) config"
  shows "filter2_round l T config table octaves ps = map (below_threshold T config table octaves) ps"
proof (cases "\<not> only_a T \<and> t_octaves T > 12")
  case True
  let ?low = "\<lambda>(x, z). sample_first12 (t_octaves T) config octaves table x 0 z"
  let ?high = "\<lambda>(x, z). sample_rest12 (t_octaves T) config octaves table x 0 z"
  let ?m = "rest12_margin (t_octaves T) config"
  have b: "below_threshold T config table octaves p \<longleftrightarrow> ?low p + ?high p < noise_threshold T" for p
    using True by (cases p) (simp add: below_threshold_def sample_all_split)
  have h: "\<bar>?high p\<bar> < ?m" if "p \<in> set ps" for p
    using assms [OF True] that by auto
  show ?thesis
  proof (cases "list_ex id (map (\<lambda>v. v > noise_threshold T - ?m \<and> v < noise_threshold T + ?m) (map ?low ps))")
    case any: True
    then have "filter2_round l T config table octaves ps = map2 (\<lambda>low high. low + high < noise_threshold T) (map ?low ps) (map ?high ps)"
      using True by (simp only: filter2_round_def Let_def if_True simp_thms)
    also have "\<dots> = map (\<lambda>p. ?low p + ?high p < noise_threshold T) ps"
      by (simp only: zip_map_map map_map comp_def zip_same_conv_map prod.case)
    finally show ?thesis unfolding b [symmetric] .
  next
    case none: False
    then have "filter2_round l T config table octaves ps = map2 (\<lambda>low high. low + high < noise_threshold T) (map ?low ps) (map (\<lambda>_. 0) ps)"
      using True by (simp only: filter2_round_def Let_def if_True if_False simp_thms)
    also have "\<dots> = map (\<lambda>p. ?low p + 0 < noise_threshold T) ps"
      by (simp only: zip_map_map map_map comp_def zip_same_conv_map prod.case)
    also have "\<dots> = map (\<lambda>p. ?low p + ?high p < noise_threshold T) ps"
    proof (rule map_cong [OF refl])
      fix p assume p: "p \<in> set ps"
      have "\<not> (?low p > noise_threshold T - ?m \<and> ?low p < noise_threshold T + ?m)"
        using none p by (auto simp: list_ex_iff)
      from late_margin [OF h [OF p] this] show "(?low p + 0 < noise_threshold T) = (?low p + ?high p < noise_threshold T)" .
    qed
    finally show ?thesis unfolding b [symmetric] .
  qed
next
  case False
  then show ?thesis by (auto simp: filter2_round_def below_threshold_def fun_eq_iff split_def)
qed

lemma sum_list_upt: "sum_list (map f [0..<n]) = sum f {..<n}"
  by (simp add: interv_sum_list_conv_sum_set_nat atLeast0LessThan)

text \<open>Adding up over warps, lanes and rounds is adding up over the grid points.\<close>

lemma sum_warps_rounds:
  fixes f :: "nat \<Rightarrow> 'a::comm_monoid_add"
  assumes "t mod 32 = 0"
  shows "(\<Sum>warp<t div 32. \<Sum>lane<32. \<Sum>i<m. f (i * t + (32 * warp + lane))) = (\<Sum>n<t * m. f n)"
proof -
  let ?g = "\<lambda>p. \<Sum>i<m. f (i * t + p)"
  have t: "t div 32 * 32 = t" using assms by presburger
  have blk: "sum h {k * w..<k * w + k} = (\<Sum>j<k. h (k * w + j))" for h :: "nat \<Rightarrow> 'a" and k w
    using sum.shift_bounds_nat_ivl [of h 0 "k * w" k] by (simp add: atLeast0LessThan add.commute)
  have blk': "sum h {w * k..<w * k + k} = (\<Sum>j<k. h (w * k + j))" for h :: "nat \<Rightarrow> 'a" and k w
    using blk [of h k w] by (simp only: mult.commute)
  have "(\<Sum>warp<t div 32. \<Sum>lane<32. ?g (32 * warp + lane)) = (\<Sum>warp<t div 32. sum ?g {warp * 32..<warp * 32 + 32})"
    by (simp only: blk' mult.commute)
  also have "\<dots> = sum ?g {..<t}" using sum.nat_group [of ?g 32 "t div 32"] t by simp
  also have "\<dots> = (\<Sum>i<m. \<Sum>p<t. f (i * t + p))" by (rule sum.swap)
  also have "\<dots> = (\<Sum>i<m. sum f {i * t..<i * t + t})" by (simp only: blk')
  also have "\<dots> = sum f {..<m * t}" by (rule sum.nat_group)
  finally show ?thesis by (simp only: mult.commute)
qed

lemma warp_lane_less:
  assumes "warp < t div 32" "lane < 32"
  shows "32 * warp + lane < (t :: nat)"
proof -
  have "32 * (t div 32) \<le> t" by simp
  then show ?thesis using assms by linarith
qed

lemma sum_over_grid:
  fixes f :: "int \<times> int \<Rightarrow> 'a::comm_monoid_add"
  assumes "Template_static_asserts l T"
  shows "(\<Sum>warp<threads_per_input T div 32. \<Sum>lane<32. \<Sum>i<loops T. f (sample_pos l T input (32 * warp + lane) i))
       = sum_list (map f (grid_points l T input))"
proof -
  have s: "samples T = threads_per_input T * loops T" and m: "threads_per_input T mod 32 = 0"
    using template_sizes [OF assms] by metis+
  have "(\<Sum>warp<threads_per_input T div 32. \<Sum>lane<32. \<Sum>i<loops T. f (sample_pos l T input (32 * warp + lane) i))
      = (\<Sum>warp<threads_per_input T div 32. \<Sum>lane<32. \<Sum>i<loops T.
           f (grid_pos l T input (grid_index T (i * threads_per_input T + (32 * warp + lane)))))"
    using sample_pos_grid [OF assms warp_lane_less] by (intro sum.cong refl) simp
  also have "\<dots> = (\<Sum>n<(samples T). f (grid_pos l T input (grid_index T n)))"
    unfolding s by (rule sum_warps_rounds [OF m, of "\<lambda>n. f (grid_pos l T input (grid_index T n))"])
  finally show ?thesis by (simp add: grid_points_def sum_list_upt comp_def)
qed

lemma sum_list_filter_if: "sum_list (map (\<lambda>p. if P p then c p else 0) ps) = sum_list (map c (filter P ps))"
  by (induction ps) simp_all

lemma sum_list_ones: "sum_list (map (\<lambda>p. 1) ps) = of_nat (length ps)"
  by (induction ps) simp_all

lemma filter2_kernel_counts_grid_base:
  assumes "Template_static_asserts l T"
    and "\<not> only_a T \<and> t_octaves T > 12 \<Longrightarrow> \<forall>(x, z)\<in>set (grid_points l T input).
       \<bar>sample_rest12 (t_octaves T) config octaves table x 0 z\<bar> < rest12_margin (t_octaves T) config"
  shows "filter2_kernel l T config table octaves input = filter2_spec l T config table octaves input"
proof -
  let ?B = "below_threshold T config table octaves" and ?tpi = "threads_per_input T"
  let ?pos = "\<lambda>warp i. map (\<lambda>lane. sample_pos l T input (32 * warp + lane) i) [0..<32]"
  let ?valid = "\<lambda>warp i. filter2_round l T config table octaves (?pos warp i)"
  let ?hits = "filter ?B (grid_points l T input)"
  have s: "samples T = ?tpi * loops T" and m: "?tpi mod 32 = 0"
    using template_sizes [OF assms(1)] by metis+
  have pts: "sample_pos l T input (32 * warp + lane) i \<in> set (grid_points l T input)"
    if "warp < ?tpi div 32" "lane < 32" "i < loops T" for warp lane i
  proof -
    have p: "32 * warp + lane < ?tpi" using that(1,2) by (rule warp_lane_less)
    have "i * ?tpi + (32 * warp + lane) < Suc i * ?tpi" using p by simp
    also have "\<dots> \<le> loops T * ?tpi" using that(3) by (intro mult_right_mono) simp_all
    finally show ?thesis using sample_pos_grid [OF assms(1) p that(3), of input] s
      by (simp add: grid_points_def mult.commute)
  qed
  have valid: "?valid warp i = map ?B (?pos warp i)" if "warp < ?tpi div 32" "i < loops T" for warp i
  proof (rule filter2_round_eq)
    assume "\<not> only_a T \<and> t_octaves T > 12"
    from assms(2) [OF this] pts [OF that(1) _ that(2)]
    show "\<forall>(x, z)\<in>set (?pos warp i). \<bar>sample_rest12 (t_octaves T) config octaves table x 0 z\<bar> < rest12_margin (t_octaves T) config"
      by auto
  qed
  have "sum_list (map (\<lambda>warp. sum_list (map (\<lambda>i. warp_reduce_add (+) (map (\<lambda>v. if v then 1 else 0 :: u32) (?valid warp i)) ! 0)
      [0..<loops T])) [0..<?tpi div 32])
    = (\<Sum>warp<?tpi div 32. \<Sum>i<loops T. \<Sum>lane<32. if ?B (sample_pos l T input (32 * warp + lane) i) then 1 else 0)"
    unfolding sum_list_upt by (intro sum.cong refl) (simp add: valid warp_reduce_add_sum sum_list_upt comp_def)
  also have "\<dots> = (\<Sum>warp<?tpi div 32. \<Sum>lane<32. \<Sum>i<loops T. if ?B (sample_pos l T input (32 * warp + lane) i) then 1 else 0)"
    by (intro sum.cong refl sum.swap)
  also have "\<dots> = of_nat (length ?hits)"
    unfolding sum_over_grid [OF assms(1), of "\<lambda>p. if ?B p then 1 else 0" input] sum_list_filter_if sum_list_ones ..
  finally have total: "sum_list (map (\<lambda>warp. sum_list (map (\<lambda>i. warp_reduce_add (+) (map (\<lambda>v. if v then 1 else 0 :: u32) (?valid warp i)) ! 0)
      [0..<loops T])) [0..<?tpi div 32]) = of_nat (length ?hits)" .
  have sums: "sum_list (map (\<lambda>warp. warp_reduce_add (+) (map (\<lambda>lane. sum_list (map (\<lambda>i. if ?valid warp i ! lane then coord (?pos warp i ! lane) else 0 :: int) [0..<loops T]))
                       [0..<32]) ! 0) [0..<?tpi div 32]) = sum_list (map coord ?hits)" for coord
  proof -
    have "sum_list (map (\<lambda>warp. warp_reduce_add (+) (map (\<lambda>lane. sum_list (map (\<lambda>i. if ?valid warp i ! lane then coord (?pos warp i ! lane) else 0 :: int) [0..<loops T]))
                       [0..<32]) ! 0) [0..<?tpi div 32])
      = (\<Sum>warp<?tpi div 32. \<Sum>lane<32. \<Sum>i<loops T. if ?B (sample_pos l T input (32 * warp + lane) i)
           then coord (sample_pos l T input (32 * warp + lane) i) else 0)"
      unfolding sum_list_upt by (intro sum.cong refl) (simp add: valid warp_reduce_add_sum sum_list_upt comp_def cong: if_cong)
    also have "\<dots> = sum_list (map coord ?hits)"
      unfolding sum_over_grid [OF assms(1), of "\<lambda>p. if ?B p then coord p else 0" input] sum_list_filter_if ..
    finally show ?thesis .
  qed
  have "length ?hits \<le> length (grid_points l T input)" by (rule length_filter_le)
  then have "length ?hits \<le> samples T" by (simp add: grid_points_def)
  moreover have "samples T \<le> 65536" using assms(1) by (simp add: Template_static_asserts_def threads_per_block_def)
  ultimately have u: "unat (of_nat (length ?hits) :: u32) = length ?hits" by (simp add: unat_of_nat)
  have nz: "w \<noteq> 0 \<longleftrightarrow> unat w \<noteq> 0" for w :: u32 by (simp add: unat_eq_0)
  have z: "(of_nat (length ?hits) :: u32) \<noteq> 0 \<longleftrightarrow> ?hits \<noteq> []" unfolding nz u length_0_conv ..
  have ui: "uint (of_nat (length ?hits) :: u32) = int (length ?hits)"
    using u uint_nat [of "of_nat (length ?hits) :: u32"] by (rule_tac trans [OF _ arg_cong [where f = int]])
  show ?thesis
    unfolding filter2_kernel_def filter2_spec_def Let_def total sums z ui word_le_nat_alt u
    by (auto simp: split_def)
qed


lemma zero_table_noise:
  assumes "table = \<lparr>gd_x = replicate 16 0, gd_y = replicate 16 0, gd_z = replicate 16 0\<rparr>"
  shows "sample_noise table noise x y z = 0"
proof -
  have g: "gradDot table p a b c = 0" for p a b c
  proof -
    obtain n where "n < 16" "unat (p AND 0xF) = n" by (rule low_nibble_cases)
    then show ?thesis by (simp add: gradDot_def assms Let_def)
  qed
  show ?thesis by (simp add: sample_noise_def Let_def g g_lerp3_def g_lerp2_def g_lerp1_def)
qed


section \<open>The cached stages\<close>

definition cache_ok :: "ImprovedNoise \<Rightarrow> rat \<Rightarrow> int \<Rightarrow> (int \<times> Cell) option \<Rightarrow> bool" where
  "cache_ok oct if0 z_world cache = (case cache of
     None \<Rightarrow> True
   | Some (i, a) \<Rightarrow> a = compute_cell oct i (floor (in_yo oct)) (floor (of_int z_world * if0 + in_zo oct)))"

lemma cached_octave_sample:
  assumes "cache_ok oct if0 z cache"
  shows "fst (cached_octave table oct if0 z x cache) = sample_noise table oct (of_int x * if0) 0 (of_int z * if0)"
    and "cache_ok oct if0 z (snd (cached_octave table oct if0 z x cache))"
proof -
  have pick: "(case cache of
              None \<Rightarrow> (i, compute_cell oct i (floor (in_yo oct)) (floor (of_int z * if0 + in_zo oct)))
            | Some (cur_ix0, a) \<Rightarrow>
                (if i \<noteq> cur_ix0 then (i, compute_cell oct i (floor (in_yo oct)) (floor (of_int z * if0 + in_zo oct))) else (cur_ix0, a)))
     = (i, compute_cell oct i (floor (in_yo oct)) (floor (of_int z * if0 + in_zo oct)))" for i
    using assms by (auto simp: cache_ok_def split: option.split)
  show "fst (cached_octave table oct if0 z x cache) = sample_noise table oct (of_int x * if0) 0 (of_int z * if0)"
    unfolding cached_octave_def Let_def pick
    by (simp add: sample_noise_def compute_cell_def interp_def Let_def)
  show "cache_ok oct if0 z (snd (cached_octave table oct if0 z x cache))"
    unfolding cached_octave_def Let_def pick by (simp add: cache_ok_def)
qed

lemma cached_loop_counts:
  assumes "cache_ok oct0 (oc_input cfg0) z cache0" "cache_ok oct1 (oc_input cfg1) z cache1"
  shows "cached_loop threshold cfg0 cfg1 table oct0 oct1 z xs cache0 cache1 n =
     n + sum_list (map (\<lambda>x. if sample_octave cfg0 table oct0 x 0 z + sample_octave cfg1 table oct1 x 0 z < threshold then 1 else 0) xs)"
  using assms
proof (induction xs arbitrary: cache0 cache1 n)
  case (Cons x xs)
  note c0 = cached_octave_sample [OF Cons.prems(1), of table x] and c1 = cached_octave_sample [OF Cons.prems(2), of table x]
  show ?case
    by (simp add: split_def Let_def c0 c1 Cons.IH sample_octave_def wrap_def add.assoc)
qed simp

text \<open>The 32 lanes with 8 positions each are the 256 points of the 16 by 16 grid.\<close>

lemma lanes_cover_grid:
  fixes f :: "int \<Rightarrow> int \<Rightarrow> 'a::comm_monoid_add"
  assumes "samples T = 256"
  shows "sum_list (map (\<lambda>lane. sum_list (map (\<lambda>x. f x (lane_z (pos_step l T) (pos_offset l T) input lane))
            (lane_xs (pos_step l T) (pos_offset l T) input lane))) [0..<32])
       = sum_list (map (\<lambda>(x, z). f x z) (grid_points l T input))"
proof -
  have "unat (256 :: u32) = 2 ^ 8" by simp
  then have lg: "log2 (of_nat (samples T)) = 8" using log2_power [of "256" 8] assms by simp
  have S: "samples_square_size T = 16" "\<not> samples_square_sparse T"
    by (simp_all add: samples_square_size_def samples_square_sparse_def lg)
  let ?g = "\<lambda>n. case grid_pos l T input (grid_index T n) of (x, z) \<Rightarrow> f x z"
  have pt: "f (pos_x input + int ((lane AND 1) * 8 * pos_step l T) + pos_offset l T + int (k * pos_step l T))
      (lane_z (pos_step l T) (pos_offset l T) input lane) = ?g (lane * 8 + k)" if "k < 8" for lane k
  proof -
    have "(lane * 8 + k) mod 16 = (lane AND 1) * 8 + k" "(lane * 8 + k) div 16 = lane div 2"
    proof -
      have r: "lane mod 2 * 8 + k < 16" using that by (cases "even lane") (simp_all add: mod_2_eq_odd)
      have "lane * 8 + k = 16 * (lane div 2) + (lane mod 2 * 8 + k)" using div_mult_mod_eq [of lane 2] by linarith
      then show "(lane * 8 + k) mod 16 = (lane AND 1) * 8 + k" "(lane * 8 + k) div 16 = lane div 2"
        using r by (simp_all only: and_one_eq mod_mult_self4 mod_less div_mult_self4 rel_simps div_less add_0_right)
    qed
    then show ?thesis
      by (simp add: grid_pos_def grid_index_def Let_def S row_gap_def row_shift_def lane_z_def algebra_simps)
  qed
  have blk: "sum ?g {lane * 8..<lane * 8 + 8} = (\<Sum>k<8. ?g (lane * 8 + k))" for lane
    using sum.shift_bounds_nat_ivl [of ?g 0 "lane * 8" 8] by (simp add: atLeast0LessThan add.commute)
  have "sum_list (map (\<lambda>lane. sum_list (map (\<lambda>x. f x (lane_z (pos_step l T) (pos_offset l T) input lane))
            (lane_xs (pos_step l T) (pos_offset l T) input lane))) [0..<32]) = (\<Sum>lane<32. \<Sum>k<8. ?g (lane * 8 + k))"
    unfolding sum_list_upt lane_xs_def Let_def map_map comp_def by (intro sum.cong refl) (simp only: pt lessThan_iff)
  also have "\<dots> = (\<Sum>lane<32. sum ?g {lane * 8..<lane * 8 + 8})" by (simp only: blk)
  also have "\<dots> = sum ?g {..<32 * 8}" by (rule sum.nat_group)
  finally show ?thesis by (simp add: grid_points_def sum_list_upt comp_def assms)
qed

lemma filter2_cached_count:
  assumes "samples T = 256"
  shows "filter2_cached l T cfg0 cfg1 table oct0 oct1 input =
     (if unat (min_count T) \<le> length (filter (\<lambda>(x, z). sample_octave cfg0 table oct0 x 0 z + sample_octave cfg1 table oct1 x 0 z < noise_threshold T) (grid_points l T input))
      then Some \<lparr>seed_index = seed_index input, pos_x = pos_x input, pos_z = pos_z input\<rparr> else None)"
proof -
  let ?v = "\<lambda>x z. sample_octave cfg0 table oct0 x 0 z + sample_octave cfg1 table oct1 x 0 z < noise_threshold T"
  let ?hits = "filter (\<lambda>(x, z). ?v x z) (grid_points l T input)"
  have ok: "cache_ok oct r z None" for oct r z by (simp add: cache_ok_def)
  have "warp_reduce_add (+) (map (\<lambda>lane. cached_loop (noise_threshold T) cfg0 cfg1 table oct0 oct1
              (lane_z (pos_step l T) (pos_offset l T) input lane) (lane_xs (pos_step l T) (pos_offset l T) input lane) None None 0) [0..<32]) ! 0
     = sum_list (map (\<lambda>(x, z). if ?v x z then 1 else 0 :: u32) (grid_points l T input))"
    unfolding cached_loop_counts [OF ok ok] add_0_left
    using lanes_cover_grid [OF assms, where f = "\<lambda>x z. if ?v x z then 1 else 0 :: u32"]
    by (subst warp_reduce_add_sum) simp_all
  also have "\<dots> = of_nat (length ?hits)"
    using sum_list_filter_if [of "\<lambda>(x, z). ?v x z" "\<lambda>_. 1 :: u32" "grid_points l T input"] by (simp add: split_def sum_list_ones)
  finally have total: "warp_reduce_add (+) (map (\<lambda>lane. cached_loop (noise_threshold T) cfg0 cfg1 table oct0 oct1
              (lane_z (pos_step l T) (pos_offset l T) input lane) (lane_xs (pos_step l T) (pos_offset l T) input lane) None None 0) [0..<32]) ! 0
     = of_nat (length ?hits)" .
  have "length ?hits \<le> length (grid_points l T input)" by (rule length_filter_le)
  then have "length ?hits \<le> 256" by (simp add: grid_points_def assms)
  then have u: "unat (of_nat (length ?hits) :: u32) = length ?hits" by (simp add: unat_of_nat)
  show ?thesis unfolding filter2_cached_def Let_def total word_le_nat_alt u ..
qed

lemma static_asserts_0A: "Template_static_asserts l T_0A" "Template_static_asserts l (T_0B\<lparr>only_a := True\<rparr>)"
proof -
  have "unat (256 :: u32) = 2 ^ 8" by simp
  then have "log2 (256 :: u32) = 8" by (rule log2_power)
  then show "Template_static_asserts l T_0A" "Template_static_asserts l (T_0B\<lparr>only_a := True\<rparr>)"
    by (simp_all add: Template_static_asserts_def T_0A_def T_0B_def threads_per_block_def is_pow2_def samples_square_sparse_def
        samples_square_size_def large_biomes_pos_mul_def)
qed

lemma sample_only_a_3:
  "sample_only_a 3 config [oct0, oct, oct1] table x y z =
     sample_octave (nn_a config ! 0) table oct0 x y z + sample_octave (nn_a config ! 1) table oct1 x y z"
  by (simp add: sample_only_a_def Let_def)

lemma filter2_cached_generic:
  assumes "Template_static_asserts l T" "samples T = 256" "only_a T" "t_octaves T = 3" "\<not> move_center T"
  shows "filter2_cached l T (nn_a config ! 0) (nn_a config ! 1) table oct0 oct1 input =
         filter2_kernel l T config table [oct0, oct, oct1] input"
proof -
  have "filter2_kernel l T config table [oct0, oct, oct1] input = filter2_spec l T config table [oct0, oct, oct1] input"
    by (rule filter2_kernel_counts_grid_base [OF assms(1)]) (simp add: assms)
  moreover have "below_threshold T config table [oct0, oct, oct1] =
      (\<lambda>(x, z). sample_octave (nn_a config ! 0) table oct0 x 0 z + sample_octave (nn_a config ! 1) table oct1 x 0 z < noise_threshold T)"
    using assms(3,4) by (simp add: fun_eq_iff below_threshold_def sample_only_a_3)
  ultimately show ?thesis using assms(5)
    by (simp add: filter2_cached_count [OF assms(2)] filter2_spec_def Let_def not_less)
qed

text \<open>
  C23: The stages 0A and 0B, which let every lane walk eight neighbouring positions and reuse the
  gradient cell of the previous one, decide like the generic sampling kernel on their template: 0A on
  the first two octaves of the first noise, 0B on those of the second.
\<close>

theorem cached_stages_are_generic:
  "filter2_0A l table oct_0A oct_1A input =
     filter2_kernel l T_0A (chosen_continentalness_config l) table [oct_0A, oct_0B, oct_1A] input \<and>
   filter2_0B l table oct_0B oct_1B input =
     filter2_kernel l (T_0B\<lparr>only_a := True\<rparr>)
       ((chosen_continentalness_config l)\<lparr>nn_a := nn_b (chosen_continentalness_config l)\<rparr>) table [oct_0B, oct_1A, oct_1B] input"
proof
  show "filter2_0A l table oct_0A oct_1A input =
     filter2_kernel l T_0A (chosen_continentalness_config l) table [oct_0A, oct_0B, oct_1A] input"
    unfolding filter2_0A_def Let_def by (rule filter2_cached_generic [OF static_asserts_0A(1)]) (simp_all add: T_0A_def)
  let ?c = "(chosen_continentalness_config l)\<lparr>nn_a := nn_b (chosen_continentalness_config l)\<rparr>"
  have a: "pos_step l (T\<lparr>only_a := b\<rparr>) = pos_step l T" "pos_offset l (T\<lparr>only_a := b\<rparr>) = pos_offset l T"
     "noise_threshold (T\<lparr>only_a := b\<rparr>) = noise_threshold T" for T b
    by (simp_all add: pos_step_def pos_offset_def noise_threshold_def samples_square_size_def)
  have "filter2_cached l T_0B c0 c1 table o0 o1 input = filter2_cached l (T_0B\<lparr>only_a := True\<rparr>) c0 c1 table o0 o1 input" for c0 c1 o0 o1
    by (simp add: filter2_cached_def a)
  moreover have "filter2_cached l (T_0B\<lparr>only_a := True\<rparr>) (nn_a ?c ! 0) (nn_a ?c ! 1) table oct_0B oct_1B input =
     filter2_kernel l (T_0B\<lparr>only_a := True\<rparr>) ?c table [oct_0B, oct_1A, oct_1B] input"
    by (rule filter2_cached_generic [OF static_asserts_0A(2)]) (simp_all add: T_0B_def)
  ultimately show "filter2_0B l table oct_0B oct_1B input =
     filter2_kernel l (T_0B\<lparr>only_a := True\<rparr>) ?c table [oct_0B, oct_1A, oct_1B] input"
    by (simp add: filter2_0B_def Let_def)
qed

section \<open>The variants for older devices\<close>

lemma compat_phase1_values:
  assumes "cache_ok oct0 if0 z cache"
  shows "compat_phase1 if0 gdt oct0 z xs cache =
    map (\<lambda>x. sample_noise gdt oct0 (of_int x * if0) 0 (of_int z * if0) * compat_vf0) xs"
  using assms
proof (induction xs arbitrary: cache)
  case (Cons x xs)
  note c = cached_octave_sample [OF Cons.prems(1), of gdt x]
  show ?case by (simp add: split_def c Cons.IH)
qed simp

lemma compat_phase2_counts:
  assumes "cache_ok oct1 if1 z cache"
  shows "compat_phase2 if1 gdt oct1 z xns cache n =
    n + sum_list (map (\<lambda>(x, v). if v + sample_noise gdt oct1 (of_int x * if1) 0 (of_int z * if1) * compat_vf1 < compat_threshold then 1 else 0) xns)"
  using assms
proof (induction xns arbitrary: cache n)
  case (Cons xn xns)
  note c = cached_octave_sample [OF Cons.prems(1), of gdt "fst xn"]
  show ?case by (simp add: split_def Let_def c Cons.IH add.assoc)
qed simp

lemma compat_constants:
  "compat_pos_step l = pos_step l T_0A" "compat_pos_offset l = pos_offset l T_0A"
  "compat_pos_step l = pos_step l T_0B" "compat_pos_offset l = pos_offset l T_0B"
  "compat_threshold = noise_threshold T_0A" "compat_threshold = noise_threshold T_0B"
  "make_gdt = init_grad_dot_table"
proof -
  have "unat (256 :: u32) = 2 ^ 8" by simp
  then have "log2 (256 :: u32) = 8" by (rule log2_power)
  then show "compat_pos_step l = pos_step l T_0A" "compat_pos_offset l = pos_offset l T_0A"
    "compat_pos_step l = pos_step l T_0B" "compat_pos_offset l = pos_offset l T_0B"
    by (simp_all add: compat_pos_step_def compat_pos_offset_def pos_step_def pos_offset_def T_0A_def T_0B_def samples_square_size_def large_biomes_pos_mul_def)
  show "compat_threshold = noise_threshold T_0A" "compat_threshold = noise_threshold T_0B"
    by (simp_all add: compat_threshold_def noise_threshold_def T_0A_def T_0B_def)
  show "make_gdt = init_grad_dot_table" by (simp add: make_gdt_def grad_table [symmetric])
qed

lemma compat_factors:
  "compat_if0 l False = oc_input (nn_a (chosen_continentalness_config l) ! 0)" "compat_if1 l False = oc_input (nn_a (chosen_continentalness_config l) ! 1)"
  "compat_if0 l True = oc_input (nn_b (chosen_continentalness_config l) ! 0)" "compat_if1 l True = oc_input (nn_b (chosen_continentalness_config l) ! 1)"
  "compat_vf0 = oc_value (nn_a (chosen_continentalness_config l) ! 0)" "compat_vf1 = oc_value (nn_a (chosen_continentalness_config l) ! 1)"
  "compat_vf0 = oc_value (nn_b (chosen_continentalness_config l) ! 0)" "compat_vf1 = oc_value (nn_b (chosen_continentalness_config l) ! 1)"
  by (cases l; simp add: compat_if0_def compat_if1_def compat_vf0_def compat_vf1_def base_if_def base_vf_def root_vf_def b_mult_def
      chosen_continentalness_config_def continentalness_config_def continentalness_large_config_def
      make_normal_noise_config_def continentalness_parameters_def continentalness_large_parameters_def make_noise_parameters_def Let_def)+

definition octave_hits :: "bool \<Rightarrow> Template \<Rightarrow> OctaveConfig \<Rightarrow> GradDotTable \<Rightarrow> ImprovedNoise \<Rightarrow> rat \<Rightarrow> SeedPos \<Rightarrow> nat" where
  "octave_hits l T cfg table oct limit input =
     length (filter (\<lambda>(x, z). sample_octave cfg table oct x 0 z < limit) (grid_points l T input))"

lemma filter2_compat_prefilter:
  assumes "samples T = 256" "compat_pos_step l = pos_step l T" "compat_pos_offset l = pos_offset l T"
    and "compat_threshold = noise_threshold T" "compat_if0 l b = oc_input cfg0" "compat_if1 l b = oc_input cfg1"
    and "compat_vf0 = oc_value cfg0" "compat_vf1 = oc_value cfg1"
  shows "filter2_compat l (min_count T) b gdt oct0 oct1 input =
     (if octave_hits l T cfg0 gdt oct0 kPrefilterThreshold input < unat (min_count T) then None
      else filter2_cached l T cfg0 cfg1 gdt oct0 oct1 input)"
proof -
  let ?z = "\<lambda>lane. lane_z (pos_step l T) (pos_offset l T) input lane"
  let ?xs = "\<lambda>lane. lane_xs (pos_step l T) (pos_offset l T) input lane"
  let ?v0 = "\<lambda>x z. sample_octave cfg0 gdt oct0 x 0 z" and ?v1 = "\<lambda>x z. sample_octave cfg1 gdt oct1 x 0 z"
  have ok: "cache_ok oct r z None" for oct r z by (simp add: cache_ok_def)
  have so: "sample_noise gdt oct (of_int x * oc_input c) 0 (of_int z * oc_input c) * oc_value c = sample_octave c gdt oct x 0 z" for oct c x z
    by (simp add: sample_octave_def wrap_def)
  have vals: "compat_phase1 (oc_input cfg0) gdt oct0 z xs None = map (\<lambda>x. ?v0 x z) xs" for z xs
    by (simp only: compat_phase1_values [OF ok] assms(7) so)
  have count: "compat_warp_reduce_add (+) (map (\<lambda>lane. sum_list (map (\<lambda>x. if P x (?z lane) then 1 else 0 :: u32) (?xs lane))) [0..<32]) ! 0
     = of_nat (length (filter (\<lambda>(x, z). P x z) (grid_points l T input)))" for P
  proof -
    have "compat_warp_reduce_add (+) (map (\<lambda>lane. sum_list (map (\<lambda>x. if P x (?z lane) then 1 else 0 :: u32) (?xs lane))) [0..<32]) ! 0
      = sum_list (map (\<lambda>lane. sum_list (map (\<lambda>x. if P x (?z lane) then 1 else 0 :: u32) (?xs lane))) [0..<32])"
      by (rule compat_reduce_add_sum) simp_all
    also have "\<dots> = sum_list (map (\<lambda>(x, z). if P x z then 1 else 0) (grid_points l T input))"
      by (rule lanes_cover_grid [OF assms(1), where f = "\<lambda>x z. if P x z then 1 else 0 :: u32"])
    also have "\<dots> = of_nat (length (filter (\<lambda>(x, z). P x z) (grid_points l T input)))"
      using sum_list_filter_if [of "\<lambda>(x, z). P x z" "\<lambda>_. 1 :: u32" "grid_points l T input"] by (simp add: split_def sum_list_ones)
    finally show ?thesis .
  qed
  have zipm: "zip xs (map f xs) = map (\<lambda>x. (x, f x)) xs" for xs :: "int list" and f :: "int \<Rightarrow> rat"
    by (induction xs) simp_all
  have second: "compat_phase2 (oc_input cfg1) gdt oct1 z (zip xs (map (\<lambda>x. ?v0 x z) xs)) None 0
      = sum_list (map (\<lambda>x. if ?v0 x z + ?v1 x z < noise_threshold T then 1 else 0) xs)" for z xs
    by (simp only: compat_phase2_counts [OF ok] zipm map_map comp_def prod.case assms(4,8) so add_0_left)
  have len: "length (filter P (grid_points l T input)) < 4294967296" for P
    using length_filter_le [of P "grid_points l T input"] by (simp add: grid_points_def assms(1))
  have u: "unat (of_nat (length (filter P (grid_points l T input))) :: u32) = length (filter P (grid_points l T input))" for P
    using len [of P] by (simp add: unat_of_nat)
  have le: "min_count T \<le> of_nat (length (filter P (grid_points l T input))) \<longleftrightarrow> unat (min_count T) \<le> length (filter P (grid_points l T input))" for P
    by (simp only: word_le_nat_alt u)
  show ?thesis
    unfolding filter2_compat_def Let_def assms(2,3,5,6) vals map_map comp_def second
    unfolding count [of "\<lambda>x z. ?v0 x z < kPrefilterThreshold"] count [of "\<lambda>x z. ?v0 x z + ?v1 x z < noise_threshold T"]
    unfolding le filter2_cached_count [OF assms(1)] octave_hits_def by (simp add: not_less)
qed

text \<open>
  The kernels for older devices agree with the stages 0A and 0B up to their prefilter: an input
  passes when enough grid points lie below the prefilter's limit in the first octave alone and the
  stage itself keeps it. So they never let through what the stages reject.
\<close>

theorem compat_prefilters_then_agrees:
  "compat_0A l oct0 oct1 input =
     (if octave_hits l T_0A (nn_a (chosen_continentalness_config l) ! 0) init_grad_dot_table oct0 (- 45 / 100) input < 27 then None
      else filter2_0A l init_grad_dot_table oct0 oct1 input) \<and>
   compat_0B l oct0 oct1 input =
     (if octave_hits l T_0B (nn_b (chosen_continentalness_config l) ! 0) init_grad_dot_table oct0 (- 45 / 100) input < 20 then None
      else filter2_0B l init_grad_dot_table oct0 oct1 input)"
proof
  have s: "samples T_0A = 256" "samples T_0B = 256" "min_count T_0A = 27" "min_count T_0B = 20" by (simp_all add: T_0A_def T_0B_def)
  show "compat_0A l oct0 oct1 input =
     (if octave_hits l T_0A (nn_a (chosen_continentalness_config l) ! 0) init_grad_dot_table oct0 (- 45 / 100) input < 27 then None
      else filter2_0A l init_grad_dot_table oct0 oct1 input)"
    using filter2_compat_prefilter [OF s(1) compat_constants(1,2,5) compat_factors(1,2,5,6), where gdt = init_grad_dot_table and input = input]
    by (simp add: compat_0A_def compat_constants(7) filter2_0A_def Let_def s kPrefilterThreshold_def)
  show "compat_0B l oct0 oct1 input =
     (if octave_hits l T_0B (nn_b (chosen_continentalness_config l) ! 0) init_grad_dot_table oct0 (- 45 / 100) input < 20 then None
      else filter2_0B l init_grad_dot_table oct0 oct1 input)"
    using filter2_compat_prefilter [OF s(2) compat_constants(3,4,6) compat_factors(3,4,7,8), where gdt = init_grad_dot_table and input = input]
    by (simp add: compat_0B_def compat_constants(7) filter2_0B_def Let_def s kPrefilterThreshold_def)
qed

end
