(* ===== verification/GpuGradVecs.thy ===== *)
theory GpuGradVecs
  imports GpuFilters
begin

text \<open>
  The two matched filters of \<open>src/src/gpu.cu\<close> that propose positions from the permutation table alone
  (\<open>KernelFilterGradVecs1\<close> on octave 0A, \<open>KernelFilterGradVecs2\<close> on octave 0B), and the origin filter
  (\<open>KernelFilterOriginCheck\<close>). The weights of the filters (\<open>kernel_0A.h\<close>, \<open>kernel_0B.h\<close>) are a
  parameter of the model. The lemmas show that the sliding window of the first filter and the batches
  of the second one evaluate, for every cell, the twelve-term score of the direct formula.
\<close>

section \<open>Definitions\<close>

text \<open>\<open>host_kernel[dny][dnx][dnz][p]\<close> is uploaded transposed as \<open>device_kernel[dnx][dnz][p][dny]\<close>.\<close>

type_synonym host_kernel = "nat \<Rightarrow> nat \<Rightarrow> nat \<Rightarrow> nat \<Rightarrow> rat"
type_synonym device_kernel = "nat \<Rightarrow> nat \<Rightarrow> nat \<Rightarrow> nat \<Rightarrow> rat"

definition init_conv_kernels :: "host_kernel \<Rightarrow> device_kernel" where
  "init_conv_kernels host = (\<lambda>dnx dnz p dny. host dny dnx dnz p)"

definition kGradVecs1PrefilterThreshold :: rat where "kGradVecs1PrefilterThreshold = - 12"
definition kGradVecs1FinalThreshold :: rat where "kGradVecs1FinalThreshold = - 185 / 10"
definition kGradVecs2PrefilterThreshold :: rat where "kGradVecs2PrefilterThreshold = - 135 / 10"
definition kGradVecs2FinalThreshold :: rat where "kGradVecs2FinalThreshold = - 20"

type_synonym conv = "rat list list"

definition score_center_2x2 :: "conv \<Rightarrow> conv \<Rightarrow> nat list \<Rightarrow> nat list \<Rightarrow> rat" where
  "score_center_2x2 conv_z0 conv_z1 idx0 idx1 =
     conv_z0 ! (idx0 ! 2) ! 2 + conv_z0 ! (idx0 ! 3) ! 3 + conv_z1 ! (idx1 ! 2) ! 2 + conv_z1 ! (idx1 ! 3) ! 3"

definition score_full_12 :: "conv \<Rightarrow> conv \<Rightarrow> nat list \<Rightarrow> nat list \<Rightarrow> rat" where
  "score_full_12 conv_z0 conv_z1 idx0 idx1 =
     fold (\<lambda>i score. score + conv_z0 ! (idx0 ! i) ! i + conv_z1 ! (idx1 ! i) ! i) [0..<6] 0"

definition conv_cell :: "device_kernel \<Rightarrow> ImprovedNoise \<Rightarrow> nat \<Rightarrow> nat \<Rightarrow> nat \<Rightarrow> rat" where
  "conv_cell K oct dny V dnx =
     fold (\<lambda>dnz conv. conv + K dnx dnz (unat (p_at oct (int (V + dnz)) AND 0xF)) dny) [0..<6] 0"

definition conv_rows :: "device_kernel \<Rightarrow> ImprovedNoise \<Rightarrow> nat \<Rightarrow> conv" where
  "conv_rows K oct dny = map (\<lambda>V. map (\<lambda>dnx. conv_cell K oct dny V dnx) [0..<6]) [0..<256]"

text \<open>A C cast from float to int.\<close>

definition trunc_int :: "rat \<Rightarrow> int" where
  "trunc_int r = (if 0 \<le> r then floor r else ceiling r)"

subsection \<open>The first filter\<close>

definition idx_xy :: "ImprovedNoise \<Rightarrow> nat \<Rightarrow> u8 list \<Rightarrow> u8 list" where
  "idx_xy oct dny junk =
     (let ny = trunc_int (in_yo oct);
          v = (\<lambda>nz. let idx_x = uint (in_p oct ! nz) in p_at oct (idx_x + ny + int dny))
      in map v [0..<256] @ map v [0..<6] @ junk)"

definition load4 :: "u8 list \<Rightarrow> nat \<Rightarrow> u8 list" where
  "load4 arr k = [arr ! k, arr ! (k + 1), arr ! (k + 2), arr ! (k + 3)]"

definition gv1_candidate :: "conv \<Rightarrow> conv \<Rightarrow> nat list \<Rightarrow> nat list \<Rightarrow> nat \<Rightarrow> bool" where
  "gv1_candidate conv_z0 conv_z1 w0 w1 candidate =
     (let cz0_2 = conv_z0 ! (w0 ! (candidate + 2)) ! 2;
          cz0_3 = conv_z0 ! (w0 ! (candidate + 3)) ! 3;
          cz1_2 = conv_z1 ! (w1 ! (candidate + 2)) ! 2;
          cz1_3 = conv_z1 ! (w1 ! (candidate + 3)) ! 3;
          gate = cz0_2 + cz0_3 + cz1_2 + cz1_3
      in if gate \<ge> kGradVecs1PrefilterThreshold
         then let score = gate;
                  score = score + conv_z0 ! (w0 ! (candidate + 0)) ! 0;
                  score = score + conv_z0 ! (w0 ! (candidate + 1)) ! 1;
                  score = score + conv_z0 ! (w0 ! (candidate + 4)) ! 4;
                  score = score + conv_z0 ! (w0 ! (candidate + 5)) ! 5;
                  score = score + conv_z1 ! (w1 ! (candidate + 0)) ! 0;
                  score = score + conv_z1 ! (w1 ! (candidate + 1)) ! 1;
                  score = score + conv_z1 ! (w1 ! (candidate + 4)) ! 4;
                  score = score + conv_z1 ! (w1 ! (candidate + 5)) ! 5
              in score > kGradVecs1FinalThreshold
         else False)"

primrec gv1_loop ::
    "conv \<Rightarrow> conv \<Rightarrow> u8 list \<Rightarrow> u8 list \<Rightarrow> u32 \<Rightarrow> int \<Rightarrow> int \<Rightarrow> nat \<Rightarrow> nat list
      \<Rightarrow> int \<Rightarrow> u8 list \<Rightarrow> u8 list \<Rightarrow> u8 list \<Rightarrow> u8 list \<Rightarrow> SeedPos list" where
  "gv1_loop conv_z0 conv_z1 xy0 xy1 seed cell_size z nz [] x c0_0 c0_1 c1_0 c1_1 = []"
| "gv1_loop conv_z0 conv_z1 xy0 xy1 seed cell_size z nz (nx # nxs) x c0_0 c0_1 c1_0 c1_1 =
     (let c0_2 = load4 xy0 (nx + 8);
          c0_3 = load4 xy0 (nx + 12);
          c1_2 = load4 xy1 (nx + 8);
          c1_3 = load4 xy1 (nx + 12);
          w0 = map (\<lambda>c. unat c + nz) (c0_0 @ c0_1 @ c0_2 @ [c0_3 ! 0]);
          w1 = map (\<lambda>c. unat c + nz) (c1_0 @ c1_1 @ c1_2 @ [c1_3 ! 0]);
          hits = map (\<lambda>candidate. \<lparr>seed_index = seed, pos_x = x + int candidate * cell_size, pos_z = z\<rparr>)
                   (filter (gv1_candidate conv_z0 conv_z1 w0 w1) [0..<8])
      in hits @ gv1_loop conv_z0 conv_z1 xy0 xy1 seed cell_size z nz nxs (x + 8 * cell_size) c0_2 c0_3 c1_2 c1_3)"

text \<open>
  Thread \<open>nz\<close> of the block that handles a seed: the appends it makes, in its order. \<open>junk0\<close> and
  \<open>junk1\<close> are the ten cells of shared memory past the wrapped-around part that nobody writes.
\<close>

definition gradvecs1_thread ::
    "bool \<Rightarrow> device_kernel \<Rightarrow> ImprovedNoise \<Rightarrow> u8 list \<Rightarrow> u8 list \<Rightarrow> u32 \<Rightarrow> nat \<Rightarrow> SeedPos list" where
  "gradvecs1_thread large_biomes K oct_0A junk0 junk1 seed nz =
     (let conv_z0 = conv_rows K oct_0A 0 @ conv_rows K oct_0A 0;
          conv_z1 = conv_rows K oct_0A 1 @ conv_rows K oct_0A 1;
          cell_size = 512 * int (large_biomes_pos_mul large_biomes);
          x_center = trunc_int ((5/2 - in_xo oct_0A) * of_int cell_size);
          z_center = trunc_int ((5/2 - in_zo oct_0A) * of_int cell_size);
          xy0 = idx_xy oct_0A 0 junk0;
          xy1 = idx_xy oct_0A 1 junk1;
          x = x_center;
          z = z_center + int nz * cell_size
      in gv1_loop conv_z0 conv_z1 xy0 xy1 seed cell_size z nz (map (\<lambda>k. 8 * k) [0..<32]) x
           (load4 xy0 0) (load4 xy0 4) (load4 xy1 0) (load4 xy1 4))"

subsection \<open>The second filter\<close>

definition grid_width :: "bool \<Rightarrow> bool \<Rightarrow> nat" where
  "grid_width unbound large_biomes = (if unbound then 331 else if large_biomes then 29 else 115)"

definition HBATCH :: nat where "HBATCH = 40"

definition cell_size_0A :: "bool \<Rightarrow> int" where
  "cell_size_0A large_biomes = trunc_int (1 / oc_input (nn_a (chosen_continentalness_config large_biomes) ! 0)) * 256"

text \<open>The twelve table entries of one column of tiles, which all threads of the block share.\<close>

definition s_hoisted_xy :: "rat \<Rightarrow> ImprovedNoise \<Rightarrow> int \<Rightarrow> nat \<Rightarrow> nat \<Rightarrow> u8" where
  "s_hoisted_xy input_factor_b oct_0B x dny dnx =
     (let ny = trunc_int (in_yo oct_0B);
          nx = floor (of_int x * input_factor_b + in_xo oct_0B - 2);
          idx_x = uint (p_at oct_0B (nx + int dnx))
      in p_at oct_0B (idx_x + ny + int dny))"

definition gv2_tile :: "conv \<Rightarrow> conv \<Rightarrow> (nat \<Rightarrow> nat \<Rightarrow> u8) \<Rightarrow> rat \<Rightarrow> ImprovedNoise \<Rightarrow> int \<Rightarrow> bool" where
  "gv2_tile conv_z0 conv_z1 hoisted input_factor_b oct_0B z =
     (let nz = floor (of_int z * input_factor_b + in_zo oct_0B - 2);
          nz_masked = nz AND 0xFF;
          idx0 = map (\<lambda>i. uint (hoisted 0 i) + nz_masked) [0..<6];
          idx1 = map (\<lambda>i. uint (hoisted 1 i) + nz_masked) [0..<6];
          cz = (\<lambda>conv idx i. conv ! nat (idx ! i AND 0xFF) ! i);
          gate = cz conv_z0 idx0 2 + cz conv_z0 idx0 3 + cz conv_z1 idx1 2 + cz conv_z1 idx1 3
      in if gate \<ge> kGradVecs2PrefilterThreshold
         then fold (\<lambda>i score. score + cz conv_z0 idx0 i + cz conv_z1 idx1 i) [0..<6] 0 > kGradVecs2FinalThreshold
         else False)"

text \<open>The batches: \<open>for (tx_base = 0; tx_base < grid_width; tx_base += HBATCH)\<close> with the columns of each.\<close>

definition gv2_batches :: "nat \<Rightarrow> nat list" where
  "gv2_batches width = concat (map (\<lambda>tx_base.
     let batch_len = (if tx_base + HBATCH \<le> width then HBATCH else width - tx_base)
     in map (\<lambda>bi. tx_base + bi) [0..<batch_len]) (stride_loop 0 width HBATCH))"

definition gradvecs2_thread ::
    "bool \<Rightarrow> bool \<Rightarrow> device_kernel \<Rightarrow> ImprovedNoise \<Rightarrow> SeedPos \<Rightarrow> nat \<Rightarrow> SeedPos list" where
  "gradvecs2_thread unbound large_biomes K oct_0B input thread =
     (let input_factor_b = oc_input (nn_b (chosen_continentalness_config large_biomes) ! 0);
          width = grid_width unbound large_biomes;
          grid_half = width div 2;
          conv_z0 = conv_rows K oct_0B 0;
          conv_z1 = conv_rows K oct_0B 1;
          cell = cell_size_0A large_biomes
      in concat (map (\<lambda>tx.
           let x = pos_x input + (int tx - int grid_half) * cell;
               hoisted = s_hoisted_xy input_factor_b oct_0B x
           in map (\<lambda>tz. \<lparr>seed_index = seed_index input, pos_x = x, pos_z = pos_z input + (int tz - int grid_half) * cell\<rparr>)
                (filter (\<lambda>tz. gv2_tile conv_z0 conv_z1 hoisted input_factor_b oct_0B (pos_z input + (int tz - int grid_half) * cell))
                   (stride_loop thread width 128)))
         (gv2_batches width)))"

subsection \<open>The origin filter\<close>

definition origin_threshold :: rat where "origin_threshold = - 9500 / 10000"
definition grid_threshold :: rat where "grid_threshold = - 10500 / 10000"
definition origin_grid_size :: nat where "origin_grid_size = 16"
definition origin_grid_step :: nat where "origin_grid_step = 128"
definition origin_grid_offset :: int where "origin_grid_offset = - int (origin_grid_step * (origin_grid_size - 1) div 2)"
definition origin_min_count :: u32 where "origin_min_count = 16"

definition origin_check ::
    "NormalNoiseConfig \<Rightarrow> GradDotTable \<Rightarrow> ImprovedNoise list \<Rightarrow> u32 \<Rightarrow> SeedPos option" where
  "origin_check config table s_octaves seed =
     (let sample = (\<lambda>x z. sample_all 18 config s_octaves table x 0 z);
          shared_origin_ok = sample 0 0 < origin_threshold
      in if \<not> shared_origin_ok then None
         else let hit = (\<lambda>thread.
                    let x_index = thread mod origin_grid_size;
                        z_index = thread div origin_grid_size;
                        x = int (x_index * origin_grid_step) + origin_grid_offset;
                        z = int (z_index * origin_grid_step) + origin_grid_offset
                    in sample x z < grid_threshold);
                  shared_count = fold (\<lambda>thread count. if hit thread then count + 1 else count) [0..<256] (0 :: u32)
              in if shared_count \<ge> origin_min_count
                 then Some \<lparr>seed_index = seed, pos_x = 0, pos_z = 0\<rparr> else None)"

section \<open>The first filter is the direct formula\<close>

text \<open>The direct formula for the cell \<open>(nx, nz)\<close>: the table entries of the six columns around it.\<close>

definition gv_index :: "ImprovedNoise \<Rightarrow> nat \<Rightarrow> int \<Rightarrow> int \<Rightarrow> nat \<Rightarrow> nat" where
  "gv_index oct dny nx nz i =
     (let v = p_at oct (uint (p_at oct (nx + int i)) + trunc_int (in_yo oct) + int dny) in nat ((uint v + nz) AND 0xFF))"

definition gv_hit :: "rat \<Rightarrow> rat \<Rightarrow> device_kernel \<Rightarrow> ImprovedNoise \<Rightarrow> int \<Rightarrow> int \<Rightarrow> bool" where
  "gv_hit gate_limit limit K oct nx nz =
     (let idx0 = map (gv_index oct 0 nx nz) [0..<6]; idx1 = map (gv_index oct 1 nx nz) [0..<6]
      in score_center_2x2 (conv_rows K oct 0) (conv_rows K oct 1) idx0 idx1 \<ge> gate_limit \<and>
         score_full_12 (conv_rows K oct 0) (conv_rows K oct 1) idx0 idx1 > limit)"

lemma and_255_mod: "i AND 0xFF = i mod 256" for i :: int
proof -
  have "i mod 2 ^ LENGTH(8) = i mod 256" by simp
  with uint_word_of_int [of i, where 'a = 8] have "uint (word_of_int i :: u8) = i mod 256" by (rule trans)
  then show ?thesis by (simp only: and_255)
qed

lemma and_255_nat: "nat ((uint (v :: u8) + int nz) AND 0xFF) = (unat v + nz) mod 256"
proof -
  have "uint v + int nz = int (unat v + nz)" by simp
  then have "(uint v + int nz) AND 0xFF = int ((unat v + nz) mod 256)"
    unfolding and_255_mod by (simp only: zmod_int of_nat_numeral)
  then show ?thesis by (simp only: nat_int)
qed

lemma p_at_mod: "p_at oct (int (n mod 256)) = p_at oct (int n)"
  unfolding p_at_def and_255_mod by (simp add: zmod_int)

lemma p_at_small: "n < 256 \<Longrightarrow> p_at oct (int n) = in_p oct ! n"
  unfolding p_at_def and_255_mod by simp

lemma double_rows: "j < 512 \<Longrightarrow> (rows @ rows) ! j = rows ! (j mod 256)" if "length rows = 256"
  using that by (cases "j < 256") (simp_all add: nth_append mod_if)

lemma idx_xy_nth:
  assumes "n < 262"
  shows "idx_xy oct dny junk ! n = p_at oct (uint (p_at oct (int n)) + trunc_int (in_yo oct) + int dny)"
proof (cases "n < 256")
  case True
  then show ?thesis by (simp add: idx_xy_def Let_def nth_append p_at_small)
next
  case False
  then have m: "n mod 256 = n - 256" "n - 256 < 6" using assms by (simp_all add: mod_if)
  have "p_at oct (int n) = in_p oct ! (n - 256)" using p_at_mod [of oct n] m p_at_small [of "n - 256" oct] by simp
  then show ?thesis using False m by (simp add: idx_xy_def Let_def nth_append)
qed

lemma conv_rows_length [simp]: "length (conv_rows K oct dny) = 256"
  by (simp add: conv_rows_def)

text \<open>A window over the index array: the thirteen entries from column \<open>nx\<close> on.\<close>

definition window :: "u8 list \<Rightarrow> nat \<Rightarrow> nat \<Rightarrow> nat list" where
  "window xy nz nx = map (\<lambda>i. unat (xy ! (nx + i)) + nz) [0..<13]"

lemma window_regs:
  "map (\<lambda>c. unat c + nz) (load4 xy nx @ load4 xy (nx + 4) @ load4 xy (nx + 8) @ [load4 xy (nx + 12) ! 0]) = window xy nz nx"
  by (simp add: window_def load4_def upt_rec eval_nat_numeral)

lemma window_nth: "i < 13 \<Longrightarrow> window xy nz nx ! i = unat (xy ! (nx + i)) + nz"
  by (simp add: window_def)

lemma gv1_loop_windows:
  "gv1_loop conv_z0 conv_z1 xy0 xy1 seed cell_size z nz (map (\<lambda>k. nx + 8 * k) [0..<n]) x
     (load4 xy0 nx) (load4 xy0 (nx + 4)) (load4 xy1 nx) (load4 xy1 (nx + 4)) =
   map (\<lambda>c. \<lparr>seed_index = seed, pos_x = x + int c * cell_size, pos_z = z\<rparr>)
     (filter (\<lambda>c. gv1_candidate conv_z0 conv_z1 (window xy0 nz (nx + c div 8 * 8)) (window xy1 nz (nx + c div 8 * 8)) (c mod 8)) [0..<8 * n])"
proof (induction n arbitrary: nx x)
  case (Suc n)
  have m: "map (\<lambda>k. nx + 8 * k) [0..<Suc n] = nx # map (\<lambda>k. (nx + 8) + 8 * k) [0..<n]"
    by (simp only: upt_conv_Cons [OF zero_less_Suc] map_Suc_upt [symmetric] list.map map_map comp_def) simp
  have e: "(+) 8 = (\<lambda>i. i + 8 :: nat)" by (simp add: fun_eq_iff)
  have u: "[0..<8 * Suc n] = [0..<8] @ map ((+) 8) [0..<8 * n]"
    using upt_add_eq_append [of 0 8 "8 * n"] map_add_upt [of 8 "8 * n"] unfolding e by (simp add: add.commute)
  have hd: "filter (\<lambda>c. gv1_candidate conv_z0 conv_z1 (window xy0 nz (nx + 8 * (c div 8))) (window xy1 nz (nx + 8 * (c div 8))) (c mod 8)) [0..<8]
      = filter (gv1_candidate conv_z0 conv_z1 (window xy0 nz nx) (window xy1 nz nx)) [0..<8]"
    by (rule filter_cong) simp_all
  have sh: "(8 + c) div 8 = Suc (c div 8)" "(8 + c) mod 8 = c mod 8" for c :: nat by simp_all
  have a: "nx + 8 + 4 = nx + 12" by simp
  show ?case
    unfolding m u gv1_loop.simps Let_def window_regs
    using Suc.IH [of "nx + 8" "x + 8 * cell_size"]
    by (simp add: filter_map comp_def sh hd a algebra_simps)
qed simp

lemma gv1_candidate_direct:
  assumes "c < 256" "nz < 256"
  shows "gv1_candidate (conv_rows K oct 0 @ conv_rows K oct 0) (conv_rows K oct 1 @ conv_rows K oct 1)
      (window (idx_xy oct 0 junk0) nz (c div 8 * 8)) (window (idx_xy oct 1 junk1) nz (c div 8 * 8)) (c mod 8)
    \<longleftrightarrow> gv_hit kGradVecs1PrefilterThreshold kGradVecs1FinalThreshold K oct (int c) (int nz)"
proof -
  let ?c0 = "conv_rows K oct 0 @ conv_rows K oct 0" and ?c1 = "conv_rows K oct 1 @ conv_rows K oct 1"
  let ?w0 = "window (idx_xy oct 0 junk0) nz (c div 8 * 8)" and ?w1 = "window (idx_xy oct 1 junk1) nz (c div 8 * 8)"
  have e: "(conv_rows K oct dny @ conv_rows K oct dny) ! (window (idx_xy oct dny junk) nz (c div 8 * 8) ! (c mod 8 + i)) = conv_rows K oct dny ! gv_index oct dny (int c) (int nz) i"
    if "i < 6" for dny junk i
  proof -
    let ?v = "p_at oct (uint (p_at oct (int c + int i)) + trunc_int (in_yo oct) + int dny)"
    have "c mod 8 + i < 13" using that by (simp add: add_less_le_mono [of "c mod 8" 8 i 5])
    then have "window (idx_xy oct dny junk) nz (c div 8 * 8) ! (c mod 8 + i) = unat (idx_xy oct dny junk ! (c div 8 * 8 + (c mod 8 + i))) + nz"
      by (rule window_nth)
    also have "c div 8 * 8 + (c mod 8 + i) = c + i" by (simp add: div_mult_mod_eq flip: add.assoc)
    also have "idx_xy oct dny junk ! (c + i) = ?v" using assms(1) that by (subst idx_xy_nth) simp_all
    finally have w: "window (idx_xy oct dny junk) nz (c div 8 * 8) ! (c mod 8 + i) = unat ?v + nz" .
    have "unat ?v + nz < 512" using u8_bound [of ?v] assms(2) by linarith
    then have "(conv_rows K oct dny @ conv_rows K oct dny) ! (unat ?v + nz) = conv_rows K oct dny ! ((unat ?v + nz) mod 256)"
      by (rule double_rows [OF conv_rows_length])
    then show ?thesis unfolding w gv_index_def Let_def and_255_nat .
  qed
  have u: "[0..<6] = [0, 1, 2, 3, 4, 5 :: nat]" by (simp add: upt_rec)
  have fold_u: "fold f [0..<6] (s :: rat) = f 5 (f 4 (f 3 (f 2 (f 1 (f 0 s)))))" for f :: "nat \<Rightarrow> rat \<Rightarrow> rat" and s
    by (simp add: u)
  have idx: "map (gv_index oct dny (int c) (int nz)) [0..<6] ! i = gv_index oct dny (int c) (int nz) i" if "i < 6" for dny i
    using that by simp
  have center: "?c0 ! (?w0 ! (c mod 8 + 2)) ! 2 + ?c0 ! (?w0 ! (c mod 8 + 3)) ! 3 + ?c1 ! (?w1 ! (c mod 8 + 2)) ! 2 + ?c1 ! (?w1 ! (c mod 8 + 3)) ! 3
      = score_center_2x2 (conv_rows K oct 0) (conv_rows K oct 1) (map (gv_index oct 0 (int c) (int nz)) [0..<6]) (map (gv_index oct 1 (int c) (int nz)) [0..<6])"
    by (simp only: score_center_2x2_def e idx rel_simps)
  have full: "score_center_2x2 (conv_rows K oct 0) (conv_rows K oct 1) (map (gv_index oct 0 (int c) (int nz)) [0..<6]) (map (gv_index oct 1 (int c) (int nz)) [0..<6])
       + ?c0 ! (?w0 ! (c mod 8 + 0)) ! 0 + ?c0 ! (?w0 ! (c mod 8 + 1)) ! 1 + ?c0 ! (?w0 ! (c mod 8 + 4)) ! 4 + ?c0 ! (?w0 ! (c mod 8 + 5)) ! 5
       + ?c1 ! (?w1 ! (c mod 8 + 0)) ! 0 + ?c1 ! (?w1 ! (c mod 8 + 1)) ! 1 + ?c1 ! (?w1 ! (c mod 8 + 4)) ! 4 + ?c1 ! (?w1 ! (c mod 8 + 5)) ! 5
      = score_full_12 (conv_rows K oct 0) (conv_rows K oct 1) (map (gv_index oct 0 (int c) (int nz)) [0..<6]) (map (gv_index oct 1 (int c) (int nz)) [0..<6])"
    by (simp only: score_center_2x2_def score_full_12_def e idx rel_simps zero_less_numeral one_less_numeral_iff fold.simps comp_def id_def fold_u)
  show ?thesis unfolding gv1_candidate_def Let_def center full gv_hit_def by simp
qed

text \<open>
  The first matched filter finds, for every seed, exactly the cells of the \<open>256 x 256\<close> table
  period whose twelve table entries pass both limits, in order, each with its position; the cells of
  shared memory that nobody initialises do not matter.
\<close>

theorem gradvecs1_is_direct:
  "concat (map (gradvecs1_thread l K oct_0A junk0 junk1 seed) [0..<256]) =
   concat (map (\<lambda>nz. map (\<lambda>nx.
       \<lparr>seed_index = seed,
        pos_x = trunc_int ((5/2 - in_xo oct_0A) * of_int (512 * int (large_biomes_pos_mul l))) + int nx * (512 * int (large_biomes_pos_mul l)),
        pos_z = trunc_int ((5/2 - in_zo oct_0A) * of_int (512 * int (large_biomes_pos_mul l))) + int nz * (512 * int (large_biomes_pos_mul l))\<rparr>)
     (filter (\<lambda>nx. gv_hit (- 12) (- 185 / 10) K oct_0A (int nx) (int nz)) [0..<256])) [0..<256])"
proof (intro arg_cong [where f = concat] map_cong refl)
  fix nz assume "nz \<in> set [0..<256 :: nat]"
  then have nz: "nz < 256" by simp
  have f: "filter (\<lambda>c. gv1_candidate (conv_rows K oct_0A 0 @ conv_rows K oct_0A 0) (conv_rows K oct_0A 1 @ conv_rows K oct_0A 1)
      (window (idx_xy oct_0A 0 junk0) nz (c div 8 * 8)) (window (idx_xy oct_0A 1 junk1) nz (c div 8 * 8)) (c mod 8)) [0..<256]
     = filter (\<lambda>nx. gv_hit (- 12) (- 185 / 10) K oct_0A (int nx) (int nz)) [0..<256]"
    by (rule filter_cong) (use gv1_candidate_direct [OF _ nz] in \<open>simp_all add: kGradVecs1PrefilterThreshold_def kGradVecs1FinalThreshold_def\<close>)
  have k256: "8 * 32 = (256 :: nat)" by simp
  show "gradvecs1_thread l K oct_0A junk0 junk1 seed nz = map (\<lambda>nx.
       \<lparr>seed_index = seed,
        pos_x = trunc_int ((5/2 - in_xo oct_0A) * of_int (512 * int (large_biomes_pos_mul l))) + int nx * (512 * int (large_biomes_pos_mul l)),
        pos_z = trunc_int ((5/2 - in_zo oct_0A) * of_int (512 * int (large_biomes_pos_mul l))) + int nz * (512 * int (large_biomes_pos_mul l))\<rparr>)
     (filter (\<lambda>nx. gv_hit (- 12) (- 185 / 10) K oct_0A (int nx) (int nz)) [0..<256])"
    unfolding gradvecs1_thread_def Let_def
    using gv1_loop_windows [of "conv_rows K oct_0A 0 @ conv_rows K oct_0A 0" "conv_rows K oct_0A 1 @ conv_rows K oct_0A 1" "idx_xy oct_0A 0 junk0" "idx_xy oct_0A 1 junk1"
        seed "512 * int (large_biomes_pos_mul l)" "trunc_int ((5/2 - in_zo oct_0A) * of_int (512 * int (large_biomes_pos_mul l))) + int nz * (512 * int (large_biomes_pos_mul l))"
        nz 0 32]
    by (simp only: add_0_left k256 f)
qed

section \<open>The second filter is the direct formula\<close>

lemma batch_blocks:
  assumes "0 < B"
  shows "concat (map (\<lambda>base. map (\<lambda>bi. base + bi) [0..<(if base + B \<le> width then B else width - base)]) (stride_loop first width B)) = [first..<width]"
  using assms
proof (induction first width B rule: stride_loop.induct)
  case (1 first width B)
  show ?case
  proof (cases "first < width")
    case True
    have l: "stride_loop first width B = first # stride_loop (first + B) width B"
      using True 1(2) by (simp add: stride_loop.simps [of first])
    have sh: "map (\<lambda>bi. first + bi) [0..<n] = [first..<first + n]" for n
      using map_add_upt [of first n] by (simp add: add.commute)
    have "[first..<width] = [first..<first + (if first + B \<le> width then B else width - first)] @ [first + B..<width]"
      using True upt_add_eq_append [of first "first + B" "width - (first + B)"] by (cases "first + B \<le> width") simp_all
    then show ?thesis using 1 True by (simp add: l sh)
  next
    case False
    then show ?thesis using 1(2) by (simp add: stride_loop.simps [of first])
  qed
qed

lemma gv2_batches_all: "gv2_batches width = [0..<width]"
  unfolding gv2_batches_def Let_def by (rule batch_blocks) (simp add: HBATCH_def)

lemma and_255_add: "(a + (b AND 0xFF)) AND 0xFF = (a + b) AND (0xFF :: int)"
  unfolding and_255_mod by (rule mod_add_right_eq)

lemma gv2_tile_direct:
  "gv2_tile (conv_rows K oct 0) (conv_rows K oct 1) (s_hoisted_xy f oct x) f oct z \<longleftrightarrow>
   gv_hit kGradVecs2PrefilterThreshold kGradVecs2FinalThreshold K oct (floor (of_int x * f + in_xo oct - 2)) (floor (of_int z * f + in_zo oct - 2))"
proof -
  let ?nx = "floor (of_int x * f + in_xo oct - 2)" and ?nz = "floor (of_int z * f + in_zo oct - 2)"
  have i: "nat ((map (\<lambda>i. uint (s_hoisted_xy f oct x dny i) + (?nz AND 0xFF)) [0..<6] ! i) AND 0xFF) = gv_index oct dny ?nx ?nz i"
    if "i < 6" for dny i
    using that by (simp only: nth_map length_upt diff_zero nth_upt add_0_left and_255_add)
      (simp only: s_hoisted_xy_def gv_index_def Let_def)
  have idx: "map (gv_index oct dny ?nx ?nz) [0..<6] ! i = gv_index oct dny ?nx ?nz i" if "i < 6" for dny i
    using that by simp
  have fold: "fold (\<lambda>i score. score + g0 i + g1 i) [0..<6] 0 = fold (\<lambda>i score. score + h0 i + h1 i) [0..<6] (0 :: rat)"
    if "\<And>i. i < 6 \<Longrightarrow> g0 i = h0 i \<and> g1 i = h1 i" for g0 g1 h0 h1
    by (rule fold_cong) (use that in auto)
  have full: "fold (\<lambda>i score. score + conv_rows K oct 0 ! nat ((map (\<lambda>i. uint (s_hoisted_xy f oct x 0 i) + (?nz AND 0xFF)) [0..<6] ! i) AND 0xFF) ! i
       + conv_rows K oct 1 ! nat ((map (\<lambda>i. uint (s_hoisted_xy f oct x 1 i) + (?nz AND 0xFF)) [0..<6] ! i) AND 0xFF) ! i) [0..<6] 0
     = score_full_12 (conv_rows K oct 0) (conv_rows K oct 1) (map (gv_index oct 0 ?nx ?nz) [0..<6]) (map (gv_index oct 1 ?nx ?nz) [0..<6])"
    unfolding score_full_12_def by (rule fold) (simp only: i idx)
  show ?thesis
    unfolding gv2_tile_def Let_def full gv_hit_def score_center_2x2_def
    by (simp only: i idx rel_simps) simp
qed

lemma sum_list_swap:
  fixes f :: "'a \<Rightarrow> 'b \<Rightarrow> 'c::comm_monoid_add"
  shows "(\<Sum>x\<leftarrow>xs. \<Sum>y\<leftarrow>ys. f x y) = (\<Sum>y\<leftarrow>ys. \<Sum>x\<leftarrow>xs. f x y)"
  by (induction xs) (simp_all add: sum_list_addf)

lemma mset_concat_map: "mset (concat (map f xs)) = (\<Sum>x\<leftarrow>xs. mset (f x))"
  by (induction xs) simp_all

lemma workers_filter:
  assumes "0 < stride"
  shows "(\<Sum>w\<leftarrow>[0..<stride]. mset (map g (filter P (stride_loop w len stride)))) = mset (map g (filter P [0..<len]))"
proof -
  have "(\<Sum>w\<leftarrow>[0..<stride]. mset (map g (filter P (stride_loop w len stride)))) = mset (map g (filter P (all_workers len stride)))"
    unfolding all_workers_def filter_concat map_concat map_map comp_def mset_concat_map ..
  also have "\<dots> = image_mset g (filter_mset P (mset (all_workers len stride)))" by simp
  finally show ?thesis by (simp add: all_workers_mset [OF assms])
qed

text \<open>
  C25: The second matched filter, with its batches of columns, shared table entries and strided rows,
  tests every tile of the square around a position once, by the direct formula, and reports the tiles
  that pass.
\<close>

theorem gradvecs2_is_direct:
  "mset (concat (map (gradvecs2_thread unbound l K oct_0B input) [0..<128])) =
   (let f = oc_input (nn_b (chosen_continentalness_config l) ! 0);
        width = grid_width unbound l;
        at_tile = (\<lambda>c t. c + (int t - int (width div 2)) * cell_size_0A l)
    in mset (concat (map (\<lambda>tx. map (\<lambda>tz. \<lparr>seed_index = seed_index input, pos_x = at_tile (pos_x input) tx, pos_z = at_tile (pos_z input) tz\<rparr>)
        (filter (\<lambda>tz. gv_hit (- 135 / 10) (- 20) K oct_0B
                   (floor (of_int (at_tile (pos_x input) tx) * f + in_xo oct_0B - 2))
                   (floor (of_int (at_tile (pos_z input) tz) * f + in_zo oct_0B - 2))) [0..<width])) [0..<width])))"
proof -
  let ?f = "oc_input (nn_b (chosen_continentalness_config l) ! 0)"
  let ?w = "grid_width unbound l"
  let ?at = "\<lambda>c t. c + (int t - int (?w div 2)) * cell_size_0A l"
  let ?P = "\<lambda>tx tz. gv_hit kGradVecs2PrefilterThreshold kGradVecs2FinalThreshold K oct_0B
      (floor (of_int (?at (pos_x input) tx) * ?f + in_xo oct_0B - 2)) (floor (of_int (?at (pos_z input) tz) * ?f + in_zo oct_0B - 2))"
  let ?g = "\<lambda>tx tz. \<lparr>seed_index = seed_index input, pos_x = ?at (pos_x input) tx, pos_z = ?at (pos_z input) tz\<rparr>"
  have "mset (concat (map (gradvecs2_thread unbound l K oct_0B input) [0..<128])) =
      (\<Sum>w\<leftarrow>[0..<128]. \<Sum>tx\<leftarrow>[0..<?w]. mset (map (?g tx) (filter (?P tx) (stride_loop w ?w 128))))"
    unfolding mset_concat_map gradvecs2_thread_def Let_def gv2_batches_all gv2_tile_direct ..
  also have "\<dots> = (\<Sum>tx\<leftarrow>[0..<?w]. \<Sum>w\<leftarrow>[0..<128]. mset (map (?g tx) (filter (?P tx) (stride_loop w ?w 128))))"
    by (rule sum_list_swap)
  also have "\<dots> = (\<Sum>tx\<leftarrow>[0..<?w]. mset (map (?g tx) (filter (?P tx) [0..<?w])))"
    by (simp only: workers_filter [OF zero_less_numeral])
  finally show ?thesis
    unfolding Let_def mset_concat_map kGradVecs2PrefilterThreshold_def kGradVecs2FinalThreshold_def by (simp only: minus_divide_left)
qed

section \<open>The origin filter\<close>

lemma fold_count: "fold (\<lambda>t count. if P t then count + 1 else count) ts (n :: u32) = n + of_nat (length (filter P ts))"
  by (induction ts arbitrary: n) simp_all

text \<open>The sampled coordinates: -960, -832, ..., 960.\<close>

definition origin_coords :: "int list" where
  "origin_coords = map (\<lambda>i. int (i * 128) - 960) [0..<16]"

text \<open>
  The origin filter keeps a seed when the sample at the origin is below its limit and at least 16
  of the 256 points of the grid from -960 to 960 are below the mushroom limit.
\<close>

theorem origin_check_counts:
  "origin_check config table octaves seed =
     (if sample_all 18 config octaves table 0 0 0 < - 95 / 100 \<and>
         16 \<le> length (filter (\<lambda>(x, z). sample_all 18 config octaves table x 0 z < - 105 / 100) (List.product origin_coords origin_coords))
      then Some \<lparr>seed_index = seed, pos_x = 0, pos_z = 0\<rparr> else None)"
proof -
  let ?S = "\<lambda>x z. sample_all 18 config octaves table x 0 z < - 105 / 100"
  let ?c = "\<lambda>i. int (i * 128) - 960"
  let ?hit = "\<lambda>t. ?S (?c (t mod 16)) (?c (t div 16))"
  have off: "int (i * origin_grid_step) + origin_grid_offset = ?c i" for i
    by (simp add: origin_grid_offset_def origin_grid_step_def origin_grid_size_def)
  have ts: "map (\<lambda>t. (t mod 16, t div 16)) [0..<256] = map (\<lambda>(z, x). (x, z)) (List.product [0..<16] [0..<16 :: nat])"
    by code_simp
  have "length (filter ?hit [0..<256]) = length (filter (\<lambda>(x, z). ?S (?c x) (?c z)) (map (\<lambda>t. (t mod 16, t div 16)) [0..<256]))"
    by (simp add: filter_map comp_def)
  also have "\<dots> = length (filter (\<lambda>(z, x). ?S (?c x) (?c z)) (List.product [0..<16] [0..<16]))"
    unfolding ts by (simp add: filter_map comp_def split_def)
  also have "\<dots> = card {(z, x). z < 16 \<and> x < 16 \<and> ?S (?c x) (?c z)}"
  proof -
    have "length (filter (\<lambda>(z, x). ?S (?c x) (?c z)) (List.product [0..<16] [0..<16])) = card (set (filter (\<lambda>(z, x). ?S (?c x) (?c z)) (List.product [0..<16] [0..<16])))"
      by (rule distinct_card [symmetric]) (simp add: distinct_product)
    also have "set (filter (\<lambda>(z, x). ?S (?c x) (?c z)) (List.product [0..<16] [0..<16])) = {(z, x). z < 16 \<and> x < 16 \<and> ?S (?c x) (?c z)}"
      by auto
    finally show ?thesis .
  qed
  also have "\<dots> = card {(x, z). x < 16 \<and> z < 16 \<and> ?S (?c x) (?c z)}"
    by (rule bij_betw_same_card [of prod.swap]) (auto simp: bij_betw_def inj_on_def image_def)
  also have "\<dots> = length (filter (\<lambda>(x, z). ?S (?c x) (?c z)) (List.product [0..<16] [0..<16]))"
  proof -
    have "length (filter (\<lambda>(x, z). ?S (?c x) (?c z)) (List.product [0..<16] [0..<16])) = card (set (filter (\<lambda>(x, z). ?S (?c x) (?c z)) (List.product [0..<16] [0..<16])))"
      by (rule distinct_card [symmetric]) (simp add: distinct_product)
    also have "set (filter (\<lambda>(x, z). ?S (?c x) (?c z)) (List.product [0..<16] [0..<16])) = {(x, z). x < 16 \<and> z < 16 \<and> ?S (?c x) (?c z)}"
      by auto
    finally show ?thesis by (rule sym)
  qed
  also have "\<dots> = length (filter (\<lambda>(x, z). ?S x z) (List.product origin_coords origin_coords))"
  proof -
    have "List.product origin_coords origin_coords = map (\<lambda>(x, z). (?c x, ?c z)) (List.product [0..<16] [0..<16])"
      unfolding origin_coords_def by (simp add: product_concat_map map_concat comp_def)
    then show ?thesis by (simp add: filter_map comp_def split_def)
  qed
  finally have n: "length (filter ?hit [0..<256]) = length (filter (\<lambda>(x, z). ?S x z) (List.product origin_coords origin_coords))" .
  have "length (filter ?hit [0..<256]) \<le> 256" using length_filter_le [of ?hit "[0..<256]"] by simp
  then have u: "unat (of_nat (length (filter ?hit [0..<256])) :: u32) = length (filter ?hit [0..<256])" by (simp add: unat_of_nat)
  have g: "grid_threshold = - 105 / 100" "origin_threshold = - 95 / 100" "origin_grid_size = 16" "unat origin_min_count = 16"
    by (simp_all add: grid_threshold_def origin_threshold_def origin_grid_size_def origin_min_count_def)
  show ?thesis
    unfolding origin_check_def Let_def off g(1-3) fold_count add_0_left word_le_nat_alt n u [unfolded n] g(4) by simp
qed

section \<open>Tiles\<close>

lemma chosen_inputs:
  assumes "k < 9"
  shows "oc_input (nn_a (chosen_continentalness_config l) ! k) = 2 ^ k / (512 * of_nat (large_biomes_pos_mul l))"
proof -
  have n: "length (nn_a (chosen_continentalness_config l)) = 9"
    by (simp add: chosen_continentalness_config_def continentalness_config_def continentalness_large_config_def
      make_normal_noise_config_def continentalness_parameters_def continentalness_large_parameters_def make_noise_parameters_def Let_def)
  have "map oc_input (nn_a (chosen_continentalness_config l)) = map (\<lambda>k. 2 ^ k / (512 * of_nat (large_biomes_pos_mul l))) [0, 1, 2, 3, 4, 5, 6, 7, 8]"
    by (simp add: chosen_continentalness_config_def continentalness_config_def continentalness_large_config_def large_biomes_pos_mul_def
      make_normal_noise_config_def continentalness_parameters_def continentalness_large_parameters_def make_noise_parameters_def Let_def)
  also have "\<dots> = map (\<lambda>k. 2 ^ k / (512 * of_nat (large_biomes_pos_mul l))) [0..<9]" by (simp add: upt_rec)
  finally have "map oc_input (nn_a (chosen_continentalness_config l)) ! k = map (\<lambda>k. 2 ^ k / (512 * of_nat (large_biomes_pos_mul l))) [0..<9] ! k"
    by (rule arg_cong)
  then show ?thesis using assms n by simp
qed

lemma cell_size_0A_eq: "cell_size_0A l = 256 * (512 * int (large_biomes_pos_mul l))"
  unfolding cell_size_0A_def chosen_inputs [OF zero_less_numeral] by (simp add: trunc_int_def large_biomes_pos_mul_def)

lemma sample_octave_tile:
  assumes "k < 9"
  shows "sample_octave (nn_a (chosen_continentalness_config l) ! k) init_grad_dot_table noise (x + s * cell_size_0A l) y (z + t * cell_size_0A l) =
         sample_octave (nn_a (chosen_continentalness_config l) ! k) init_grad_dot_table noise x y z"
proof -
  let ?f = "oc_input (nn_a (chosen_continentalness_config l) ! k)"
  have m: "(of_nat (large_biomes_pos_mul l) :: rat) \<noteq> 0" by (simp add: large_biomes_pos_mul_def)
  have "of_int (x + s * cell_size_0A l) * ?f = of_int x * ?f + 256 * of_int (s * 2 ^ k)" for x s
    using m by (simp add: chosen_inputs [OF assms] cell_size_0A_eq field_simps)
  then show ?thesis
    using sample_noise_shift [of noise "of_int x * ?f" "s * 2 ^ k" "of_int y * ?f" 0 "of_int z * ?f" "t * 2 ^ k"]
    by (simp add: sample_octave_def wrap_def)
qed

text \<open>
  The tiles of the second filter are whole periods of the first noise: shifting a position by tiles
  leaves every sum of octaves of the first noise unchanged, which is why stage 0A runs once per tile
  pattern and not once per tile.
\<close>

theorem tile_shift_keeps_first_noise:
  "sample_only_a n (chosen_continentalness_config l) octaves init_grad_dot_table (x + s * cell_size_0A l) y (z + t * cell_size_0A l) =
   sample_only_a n (chosen_continentalness_config l) octaves init_grad_dot_table x y z"
proof -
  have k: "(0::nat) < 9" "(1::nat) < 9" "(2::nat) < 9" "(3::nat) < 9" "(4::nat) < 9" "(5::nat) < 9" "(6::nat) < 9" "(7::nat) < 9" "(8::nat) < 9"
    by simp_all
  show ?thesis unfolding sample_only_a_def Let_def sample_octave_tile [OF k(1)] sample_octave_tile [OF k(2)] sample_octave_tile [OF k(3)]
    sample_octave_tile [OF k(4)] sample_octave_tile [OF k(5)] sample_octave_tile [OF k(6)] sample_octave_tile [OF k(7)]
    sample_octave_tile [OF k(8)] sample_octave_tile [OF k(9)] ..
qed

end
