(* ===== verification/GpuInit.thy ===== *)
theory GpuInit
  imports GpuGradVecs
begin

text \<open>
  The noise tables of the seeds on the device (\<open>KernelSeed1\<close> of \<open>src/src/gpu.cu\<close>): which octaves each
  kernel initialises, the cooperative copy from shared memory, and the late kernels, which initialise
  further octaves only for seeds that survived so far and use a flag per seed to do it once. The late
  initialisation is a state machine; its invariant says which octaves of a seed may be sampled at
  which flag. The results buffer is never cleared: whatever an earlier iteration left there is part of
  the initial state.
\<close>

section \<open>Definitions\<close>

text \<open>
  A \<open>Result\<close> is the list of its 18 tables in the order of the struct, 0A, 0B, 1A, 1B and so on: octave
  \<open>k\<close> of the first noise is in slot \<open>2 * k\<close>, that of the second in slot \<open>2 * k + 1\<close>. \<open>ResultSampler\<close>
  reads the struct as this array.
\<close>

type_synonym Result = "ImprovedNoise list"

definition slot_a :: "nat \<Rightarrow> nat" where "slot_a k = 2 * k"
definition slot_b :: "nat \<Rightarrow> nat" where "slot_b k = 2 * k + 1"

definition noise_forks :: "bool \<Rightarrow> u64 \<Rightarrow> XrsrRandomFork \<times> XrsrRandomFork" where
  "noise_forks large_biomes seed =
     (let seed_fork = XrsrRandom_seed_fork seed;
          noise_random = XrsrRandomFork_from seed_fork (nn_hash (chosen_continentalness_config large_biomes))
      in XrsrRandom_double_fork noise_random)"

text \<open>The table that belongs into a slot; \<open>None\<close> if its initialisation does not return.\<close>

definition seed_octave :: "bool \<Rightarrow> u64 \<Rightarrow> nat \<Rightarrow> ImprovedNoise option" where
  "seed_octave large_biomes seed slot =
     (let config = chosen_continentalness_config large_biomes;
          (noise_a_fork, noise_b_fork) = noise_forks large_biomes seed
      in init_noise (if even slot
           then XrsrRandomFork_from noise_a_fork (oc_hash (nn_a config ! (slot div 2)))
           else XrsrRandomFork_from noise_b_fork (oc_hash (nn_b config ! (slot div 2)))))"

primrec init_octaves :: "bool \<Rightarrow> u64 \<Rightarrow> nat list \<Rightarrow> Result \<Rightarrow> Result option" where
  "init_octaves large_biomes seed [] result = Some result"
| "init_octaves large_biomes seed (slot # slots) result =
     Option.bind (seed_octave large_biomes seed slot)
       (\<lambda>noise. init_octaves large_biomes seed slots (result[slot := noise]))"

definition kernel_slots :: "nat list" where
  "kernel_slots = [slot_a 0, slot_a 1, slot_b 0, slot_b 1]"

definition kernel_full_slots :: "nat list" where
  "kernel_full_slots =
     [slot_a 0, slot_a 1, slot_a 2, slot_a 3, slot_a 4, slot_a 5, slot_a 6, slot_a 7, slot_a 8,
      slot_b 0, slot_b 1, slot_b 2, slot_b 3, slot_b 4, slot_b 5, slot_b 6, slot_b 7, slot_b 8]"

definition late_slots :: "nat \<Rightarrow> nat list" where
  "late_slots Stage =
     (if Stage = 1 then [slot_a 2, slot_a 3, slot_a 4, slot_a 5, slot_b 2, slot_b 3, slot_b 4, slot_b 5]
      else if Stage = 2 then [slot_a 6, slot_b 6]
      else if Stage = 3 then [slot_a 7, slot_b 7]
      else if Stage = 4 then [slot_a 8, slot_b 8]
      else [])"

text \<open>\<open>kernel\<close> and \<open>kernel_full\<close>: thread \<open>index\<close> initialises the slots of seed \<open>index\<close>.\<close>

primrec kernel_init :: "bool \<Rightarrow> nat list \<Rightarrow> u64 list \<Rightarrow> nat list \<Rightarrow> Result list \<Rightarrow> Result list option" where
  "kernel_init large_biomes slots seeds [] results = Some results"
| "kernel_init large_biomes slots seeds (index # is) results =
     Option.bind (init_octaves large_biomes (seeds ! index) slots (results ! index))
       (\<lambda>result. kernel_init large_biomes slots seeds is (results[index := result]))"

record LateState =
  ls_results :: "Result list"
  ls_flags :: "u32 list"

text \<open>
  One input of \<open>late_kernel<Stage>\<close>: the compare-and-swap of the seed's flag from \<open>Stage - 1\<close> to
  \<open>Stage\<close> decides which of the inputs with this seed does the work.
\<close>

definition late_step :: "bool \<Rightarrow> u64 list \<Rightarrow> nat \<Rightarrow> u32 \<Rightarrow> LateState \<Rightarrow> LateState option" where
  "late_step large_biomes seeds Stage sidx st =
     (if ls_flags st ! unat sidx \<noteq> of_nat Stage - 1 then Some st
      else map_option
        (\<lambda>result. \<lparr>ls_results = (ls_results st)[unat sidx := result],
                   ls_flags = (ls_flags st)[unat sidx := of_nat Stage]\<rparr>)
        (init_octaves large_biomes (seeds ! unat sidx) (late_slots Stage) (ls_results st ! unat sidx)))"

primrec late_kernel :: "bool \<Rightarrow> u64 list \<Rightarrow> nat \<Rightarrow> SeedPos list \<Rightarrow> LateState \<Rightarrow> LateState option" where
  "late_kernel large_biomes seeds Stage [] st = Some st"
| "late_kernel large_biomes seeds Stage (input # inputs) st =
     Option.bind (late_step large_biomes seeds Stage (seed_index input) st)
       (late_kernel large_biomes seeds Stage inputs)"

text \<open>
  The cooperative copy of a warp's 32 tables from shared memory: a table is 17 words of 16 bytes, and
  thread \<open>t\<close> copies the words \<open>t, t + 32, ...\<close> of the flat array, those of seeds past the end excepted.
\<close>

definition u4_per_struct :: nat where "u4_per_struct = 17"

definition copy_word :: "'w list list \<Rightarrow> nat \<Rightarrow> nat \<Rightarrow> nat \<Rightarrow> 'w list list \<Rightarrow> 'w list list" where
  "copy_word shared_noise block_base input_len i results =
     (let struct_idx = i div u4_per_struct;
          word_idx = i mod u4_per_struct
      in if block_base + struct_idx < input_len
         then results[block_base + struct_idx :=
                (results ! (block_base + struct_idx))[word_idx := shared_noise ! struct_idx ! word_idx]]
         else results)"

definition copy_noise :: "'w list list \<Rightarrow> nat \<Rightarrow> nat \<Rightarrow> nat list \<Rightarrow> 'w list list \<Rightarrow> 'w list list" where
  "copy_noise shared_noise block_base input_len order results =
     fold (copy_word shared_noise block_base input_len) order results"

section \<open>The copy from shared memory\<close>

text \<open>\<open>order\<close> is any order of the words that the 32 threads' strided loops visit.\<close>

definition words_copied :: "'w list list \<Rightarrow> 'w list list \<Rightarrow> nat \<Rightarrow> nat \<Rightarrow> nat set \<Rightarrow> 'w list list" where
  "words_copied shared results base len seen =
     map (\<lambda>r. map (\<lambda>w. if base \<le> r \<and> r < len \<and> (r - base) * 17 + w \<in> seen then shared ! (r - base) ! w else results ! r ! w)
            [0..<17]) [0..<length results]"

declare copy_word_def [copy_simps] u4_per_struct_def [copy_simps] words_copied_def [copy_simps] Let_def [copy_simps]

lemma copy_word_words:
  assumes "len \<le> length results"
  shows "copy_word shared base len i (words_copied shared results base len seen)
       = words_copied shared results base len (insert i seen)"
proof (cases "base + i div 17 < len")
  case True
  let ?s = "i div 17" and ?w = "i mod 17"
  have r: "base + ?s < length results" using True assms by simp
  have hit: "(q - base) * 17 + w = i \<longleftrightarrow> q = base + ?s \<and> w = ?w" if "base \<le> q" "w < 17" for q w
  proof
    assume e: "(q - base) * 17 + w = i"
    then have "?s = q - base" "?w = w" using that(2) by auto
    then show "q = base + ?s \<and> w = ?w" using that(1) by simp
  qed (use div_mult_mod_eq [of i 17] in simp)
  show ?thesis
  proof (rule nth_equalityI)
    fix q assume q: "q < length (copy_word shared base len i (words_copied shared results base len seen))"
    then have ql: "q < length results" by (simp add: copy_simps True)
    show "copy_word shared base len i (words_copied shared results base len seen) ! q = words_copied shared results base len (insert i seen) ! q"
    proof (rule nth_equalityI)
      show "length (copy_word shared base len i (words_copied shared results base len seen) ! q) = length (words_copied shared results base len (insert i seen) ! q)"
        using ql r by (simp add: copy_simps True nth_list_update)
      fix w assume "w < length (copy_word shared base len i (words_copied shared results base len seen) ! q)"
      then have w: "w < 17" using ql r
        by (simp add: copy_simps True nth_list_update split: if_splits)
      show "copy_word shared base len i (words_copied shared results base len seen) ! q ! w = words_copied shared results base len (insert i seen) ! q ! w"
        using ql r w True hit [of q w]
        by (auto simp: copy_simps nth_list_update)
    qed
  qed (simp add: copy_simps True)
next
  case False
  then have "(q - base) * 17 + w \<noteq> i" if "q < len" "w < 17" "base \<le> q" for q w
    using that by auto
  then have "(base \<le> q \<and> q < len \<and> (q - base) * 17 + w \<in> insert i seen) = (base \<le> q \<and> q < len \<and> (q - base) * 17 + w \<in> seen)"
    if "w < 17" for q w using that by auto
  then show ?thesis using False by (auto simp: copy_simps intro!: map_cong)
qed

text \<open>
  Whatever the order of the 544 word copies of a block, afterwards the table of every seed of the
  block that exists is the one prepared in shared memory, and no other seed's table has changed.
\<close>

theorem copy_noise_copies_active:
  assumes "mset order = mset [0..<32 * 17]" "length shared = 32" "\<forall>t\<in>set shared. length t = 17"
    and "\<forall>t\<in>set results. length t = 17" "len \<le> length results"
  shows "copy_noise shared base len order results =
     map (\<lambda>r. if base \<le> r \<and> r < min len (base + 32) then shared ! (r - base) else results ! r) [0..<length results]"
proof -
  have run: "fold (copy_word shared base len) order (words_copied shared results base len seen) = words_copied shared results base len (seen \<union> set order)" for seen
  proof (induction order arbitrary: seen)
    case (Cons i order)
    then show ?case by (simp add: copy_word_words [OF assms(5)] Cons.IH)
  qed simp
  have start: "words_copied shared results base len {} = results"
  proof (rule nth_equalityI)
    fix r assume "r < length (words_copied shared results base len {})"
    then have "r < length results" by (simp add: copy_simps)
    then have "length (results ! r) = 17" using assms(4) by simp
    then show "words_copied shared results base len {} ! r = results ! r"
      using \<open>r < length results\<close> by (simp add: copy_simps) (metis map_nth)
  qed (simp add: copy_simps)
  have "set order = {0..<32 * 17}" using mset_eq_setD [OF assms(1)] by simp
  then have "copy_noise shared base len order results = words_copied shared results base len {0..<32 * 17}"
    using run [of "{}"] by (simp add: copy_noise_def start)
  also have "\<dots> = map (\<lambda>r. if base \<le> r \<and> r < min len (base + 32) then shared ! (r - base) else results ! r) [0..<length results]"
    unfolding words_copied_def
  proof (rule map_cong [OF refl])
    fix r assume "r \<in> set [0..<length results]"
    then have r: "length (results ! r) = 17" using assms(4) by simp
    have all: "(r - base) * 17 + w \<in> {0..<32 * 17} \<longleftrightarrow> r - base < 32" if "w < 17" for w using that by auto
    show "map (\<lambda>w. if base \<le> r \<and> r < len \<and> (r - base) * 17 + w \<in> {0..<32 * 17} then shared ! (r - base) ! w else results ! r ! w) [0..<17]
       = (if base \<le> r \<and> r < min len (base + 32) then shared ! (r - base) else results ! r)"
    proof (cases "base \<le> r \<and> r < min len (base + 32)")
      case True
      then have i: "r - base < 32" by auto
      then have l: "length (shared ! (r - base)) = 17" using assms(2,3) by simp
      have "map (\<lambda>w. if base \<le> r \<and> r < len \<and> (r - base) * 17 + w \<in> {0..<32 * 17} then shared ! (r - base) ! w else results ! r ! w) [0..<17]
          = map ((!) (shared ! (r - base))) [0..<17]"
        by (rule map_cong) (use True i all in auto)
      also have "\<dots> = shared ! (r - base)" using l map_nth [of "shared ! (r - base)"] by simp
      finally show ?thesis unfolding if_P [OF True] .
    next
      case False
      have "map (\<lambda>w. if base \<le> r \<and> r < len \<and> (r - base) * 17 + w \<in> {0..<32 * 17} then shared ! (r - base) ! w else results ! r ! w) [0..<17]
          = map ((!) (results ! r)) [0..<17]"
        by (rule map_cong) (use False all in auto)
      also have "\<dots> = results ! r" using r map_nth [of "results ! r"] by simp
      finally show ?thesis unfolding if_not_P [OF False] .
    qed
  qed
  finally show ?thesis .
qed

lemma copy_noise_copies_active_witness:
  "copy_noise (replicate 32 (replicate 17 (1 :: nat))) 32 40 (rev [0..<32 * 17]) (replicate 64 (replicate 17 0)) ! 35 = replicate 17 1"
proof -
  have "copy_noise (replicate 32 (replicate 17 (1 :: nat))) 32 40 (rev [0..<32 * 17]) (replicate 64 (replicate 17 0)) =
     map (\<lambda>r. if 32 \<le> r \<and> r < min 40 (32 + 32) then replicate 32 (replicate 17 (1 :: nat)) ! (r - 32) else replicate 64 (replicate 17 0) ! r)
       [0..<length (replicate 64 (replicate 17 (0 :: nat)))]"
    by (rule copy_noise_copies_active) simp_all
  then show ?thesis by simp
qed

section \<open>The late initialisation\<close>

definition octaves_ready :: "bool \<Rightarrow> u64 \<Rightarrow> nat set \<Rightarrow> Result \<Rightarrow> bool" where
  "octaves_ready l seed slots r \<longleftrightarrow> (\<forall>s\<in>slots. seed_octave l seed s = Some (r ! s))"

lemma init_octaves_ready:
  assumes "init_octaves l seed slots r = Some r'" "length r = 18" "set slots \<subseteq> {0..<18}"
  shows "length r' = 18 \<and> octaves_ready l seed (set slots) r' \<and> (\<forall>s. s \<notin> set slots \<longrightarrow> r' ! s = r ! s)"
  using assms
proof (induction slots arbitrary: r)
  case (Cons s slots)
  from Cons.prems(1) obtain n where n: "seed_octave l seed s = Some n" "init_octaves l seed slots (r[s := n]) = Some r'"
    by (auto simp: bind_eq_Some_conv)
  have s: "s < 18" "set slots \<subseteq> {0..<18}" using Cons.prems(3) by auto
  have IH: "length r' = 18 \<and> octaves_ready l seed (set slots) r' \<and> (\<forall>t. t \<notin> set slots \<longrightarrow> r' ! t = r[s := n] ! t)"
    using Cons.IH [OF n(2)] Cons.prems(2) s by simp
  have "r' ! s = n" if "s \<notin> set slots" using IH that s Cons.prems(2) by simp
  then have "seed_octave l seed s = Some (r' ! s)" using IH n(1) by (cases "s \<in> set slots") (auto simp: octaves_ready_def)
  then show ?case using IH by (auto simp: octaves_ready_def)
qed (simp add: octaves_ready_def)

text \<open>The slots that may be read when a seed's flag has a value.\<close>

definition ready_slots :: "nat \<Rightarrow> nat" where
  "ready_slots flag = [4, 12, 14, 16, 18] ! flag"

lemma kernel_slots_set: "set kernel_slots = {0..<4}"
  by (auto simp: kernel_slots_def slot_a_def slot_b_def)

lemma kernel_full_slots_set: "set kernel_full_slots = {0..<18}"
proof -
  have "{0..<18 :: nat} = set [0..<18]" by simp
  also have "[0..<18 :: nat] = [0, 1, 2, 3, 4, 5, 6, 7, 8, 9, 10, 11, 12, 13, 14, 15, 16, 17]" by code_simp
  finally show ?thesis by (auto simp: kernel_full_slots_def slot_a_def slot_b_def)
qed

lemma late_slots_set:
  assumes "1 \<le> Stage" "Stage \<le> 4"
  shows "set (late_slots Stage) = {ready_slots (Stage - 1)..<ready_slots Stage}"
proof -
  have s: "Stage = 1 \<or> Stage = 2 \<or> Stage = 3 \<or> Stage = 4" using assms by linarith
  have u: "{4..<12 :: nat} = set [4..<12]" "{12..<14 :: nat} = set [12..<14]" "{14..<16 :: nat} = set [14..<16]" "{16..<18 :: nat} = set [16..<18]"
    by (simp_all only: set_upt)
  have v: "[4..<12 :: nat] = [4, 5, 6, 7, 8, 9, 10, 11]" "[12..<14 :: nat] = [12, 13]" "[14..<16 :: nat] = [14, 15]" "[16..<18 :: nat] = [16, 17]"
    by code_simp+
  show ?thesis using s
    by (elim disjE) (auto simp: late_slots_def slot_a_def slot_b_def ready_slots_def u v)
qed

lemma stage_cases: "k \<le> 4 \<Longrightarrow> k = 0 \<or> k = 1 \<or> k = 2 \<or> k = 3 \<or> k = (4 :: nat)"
  by linarith

lemma ready_slots_values:
  "k \<le> 4 \<Longrightarrow> ready_slots k \<le> 18"
  "1 \<le> k \<Longrightarrow> k \<le> 4 \<Longrightarrow> ready_slots (k - 1) \<le> ready_slots k"
  by (drule stage_cases, elim disjE, simp_all add: ready_slots_def)+

definition late_inv :: "bool \<Rightarrow> u64 list \<Rightarrow> LateState \<Rightarrow> bool" where
  "late_inv l seeds st \<longleftrightarrow>
     length seeds \<le> length (ls_results st) \<and> length (ls_flags st) = length (ls_results st) \<and>
     (\<forall>i<length seeds. length (ls_results st ! i) = 18 \<and> unat (ls_flags st ! i) \<le> 4 \<and>
        octaves_ready l (seeds ! i) {0..<ready_slots (unat (ls_flags st ! i))} (ls_results st ! i))"

lemma late_step_inv:
  assumes "late_inv l seeds st" "1 \<le> Stage" "Stage \<le> 4" "unat si < length seeds" "late_step l seeds Stage si st = Some st'"
  shows "late_inv l seeds st'"
proof (cases "ls_flags st ! unat si \<noteq> of_nat Stage - 1")
  case True
  then show ?thesis using assms(1,5) by (simp add: late_step_def)
next
  case False
  let ?i = "unat si"
  from False assms(5) obtain r where r: "init_octaves l (seeds ! ?i) (late_slots Stage) (ls_results st ! ?i) = Some r"
    and st': "st' = \<lparr>ls_results = (ls_results st)[?i := r], ls_flags = (ls_flags st)[?i := of_nat Stage]\<rparr>"
    by (auto simp: late_step_def)
  have f: "unat (ls_flags st ! ?i) = Stage - 1"
    using False assms(2,3) by (simp add: unat_sub_if_size unat_of_nat)
  have old: "length (ls_results st ! ?i) = 18" "octaves_ready l (seeds ! ?i) {0..<ready_slots (Stage - 1)} (ls_results st ! ?i)"
    using assms(1,4) f by (auto simp: late_inv_def)
  have "set (late_slots Stage) \<subseteq> {0..<18}"
    using late_slots_set [OF assms(2,3)] ready_slots_values(1) [OF assms(3)] by auto
  from init_octaves_ready [OF r old(1) this] have new: "length r = 18"
      "octaves_ready l (seeds ! ?i) (set (late_slots Stage)) r" "\<And>s. s \<notin> set (late_slots Stage) \<Longrightarrow> r ! s = ls_results st ! ?i ! s"
    by auto
  have "octaves_ready l (seeds ! ?i) {0..<ready_slots Stage} r"
    unfolding octaves_ready_def
  proof
    fix s assume s: "s \<in> {0..<ready_slots Stage}"
    show "seed_octave l (seeds ! ?i) s = Some (r ! s)"
    proof (cases "s \<in> set (late_slots Stage)")
      case True then show ?thesis using new(2) by (simp add: octaves_ready_def)
    next
      case False
      then have "s \<in> {0..<ready_slots (Stage - 1)}" using s late_slots_set [OF assms(2,3)] by auto
      then show ?thesis using old(2) new(3) [OF False] by (simp add: octaves_ready_def)
    qed
  qed
  moreover have "unat (of_nat Stage :: u32) = Stage" using assms(3) by (simp add: unat_of_nat)
  ultimately show ?thesis using assms(1,3,4) new(1)
    by (auto simp: late_inv_def st' nth_list_update)
qed

lemma kernel_init_ready:
  assumes "kernel_init l slots seeds is results = Some rs" "set slots \<subseteq> {0..<18}" "\<forall>i\<in>set is. i < length results \<and> length (results ! i) = 18"
  shows "length rs = length results \<and> (\<forall>i\<in>set is. length (rs ! i) = 18 \<and> octaves_ready l (seeds ! i) (set slots) (rs ! i)) \<and>
         (\<forall>i. i \<notin> set is \<longrightarrow> rs ! i = results ! i)"
  using assms
proof (induction "is" arbitrary: results)
  case (Cons i "is")
  from Cons.prems(1) obtain r where r: "init_octaves l (seeds ! i) slots (results ! i) = Some r"
      "kernel_init l slots seeds is (results[i := r]) = Some rs"
    by (auto simp: bind_eq_Some_conv)
  have i: "i < length results" "length (results ! i) = 18" using Cons.prems(3) by auto
  have new: "length r = 18" "octaves_ready l (seeds ! i) (set slots) r"
    using init_octaves_ready [OF r(1) i(2) Cons.prems(2)] by auto
  have "\<forall>j\<in>set is. j < length (results[i := r]) \<and> length (results[i := r] ! j) = 18"
    using Cons.prems(3) i new by (auto simp: nth_list_update)
  from Cons.IH [OF r(2) Cons.prems(2) this] show ?case using i new by (cases "i \<in> set is") (auto simp: nth_list_update)
qed simp

text \<open>
  The reachable states of one iteration: the first kernel has run over whatever the buffer held before,
  the flags have been cleared, and the late kernels' inputs are handled one by one, in any order and of
  any stage.
\<close>

inductive late_reach :: "bool \<Rightarrow> u64 list \<Rightarrow> LateState \<Rightarrow> bool" for l seeds where
  late_start: "late_reach l seeds \<lparr>ls_results = rs, ls_flags = replicate (length results) 0\<rparr>"
    if "kernel_init l kernel_slots seeds order results = Some rs" "set order = {0..<length seeds}"
      "length seeds \<le> length results" "\<forall>r\<in>set results. length r = 18"
| late_next: "late_reach l seeds st'"
    if "late_reach l seeds st" "1 \<le> Stage" "Stage \<le> 4" "unat si < length seeds" "late_step l seeds Stage si st = Some st'"

lemma late_reach_inv: "late_reach l seeds st \<Longrightarrow> late_inv l seeds st"
proof (induction rule: late_reach.induct)
  case (late_start order results rs)
  have "\<forall>i\<in>set order. i < length results \<and> length (results ! i) = 18" using late_start by auto
  from kernel_init_ready [OF late_start(1) _ this] late_start(2,3)
  show ?case by (auto simp: late_inv_def kernel_slots_set ready_slots_def)
next
  case (late_next st Stage si st')
  then show ?case using late_step_inv by blast
qed

text \<open>
  In every reachable state the flag of a seed tells the truth: with flag 0 the first four tables of
  the seed's result are its own, with flags 1 to 4 the first 12, 14, 16 or all 18, whatever the order of
  the late kernels' inputs, however often a seed occurs among them, and whatever an earlier iteration
  left in the buffer.
\<close>

theorem late_flags_tell_truth:
  assumes "late_reach l seeds st" "i < length seeds" "slot < [4, 12, 14, 16, 18] ! unat (ls_flags st ! i)"
  shows "seed_octave l (seeds ! i) slot = Some (ls_results st ! i ! slot)"
  using late_reach_inv [OF assms(1)] assms(2,3) by (auto simp: late_inv_def octaves_ready_def ready_slots_def)

lemma late_flags_tell_truth_witness:
  "let noise = \<lparr>in_p = replicate 256 0, in_xo = 0, in_yo = 0, in_zo = 0\<rparr>
   in case kernel_init False kernel_slots [7, 8] [1, 0] (replicate 3 (replicate 18 noise)) of
        None \<Rightarrow> True
      | Some rs \<Rightarrow> seed_octave False 8 3 = Some (rs ! 1 ! 3)"
proof (cases "kernel_init False kernel_slots [7, 8] [1, 0]
    (replicate 3 (replicate 18 \<lparr>in_p = replicate 256 0, in_xo = 0, in_yo = 0, in_zo = 0\<rparr>))")
  case (Some rs)
  have "late_reach False [7, 8] \<lparr>ls_results = rs, ls_flags = replicate 3 0\<rparr>"
    using late_start [OF Some] by (simp add: insert_commute atLeastLessThanSuc)
  from late_flags_tell_truth [OF this, of 1 3] show ?thesis using Some by (simp add: Let_def)
qed simp

end
