(* ===== verification/GpuPipeline.thy ===== *)
theory GpuPipeline
  imports GpuInit "HOL-Library.Monad_Syntax"
begin

text \<open>
  One iteration of \<open>GpuThread::run\<close> (\<open>src/src/gpu.cu\<close>): the stages from the seed prefilter to the last
  sampling filter, with the device buffers they run between and the late initialisations in between,
  and the conversion of the survivors into the entries of the output queue. The order in which a stage's
  results arrive in its buffer is a parameter (\<open>sched\<close>). An iteration in which a stage produces more
  than its buffer holds is \<open>None\<close>: the code then continues on cells outside the buffer. The theorem
  says that an iteration that ends pushes exactly the positions that a chain of pure functions of the
  seed selects.
\<close>

section \<open>Definitions\<close>

record GpuOutput =
  go_seed :: u64
  go_x :: int
  go_z :: int

text \<open>The lengths of the buffers, which the host copies after an iteration.\<close>

record BufferLens =
  results_len_filter_seeds :: u32
  results_len_filter_gradvecs_1 :: u32
  results_len_origin :: u32
  results_len_filter_2_0a :: u32
  results_len_filter_2_0b :: u32
  results_len_filter_gradvecs_2 :: u32
  results_len_filter_2 :: "nat \<Rightarrow> u32"

definition zero_lens :: BufferLens where
  "zero_lens = \<lparr>results_len_filter_seeds = 0, results_len_filter_gradvecs_1 = 0, results_len_origin = 0, results_len_filter_2_0a = 0,
     results_len_filter_2_0b = 0, results_len_filter_gradvecs_2 = 0, results_len_filter_2 = (\<lambda>_. 0)\<rparr>"

definition sizeof_SeedPos :: nat where "sizeof_SeedPos = 12"

definition buffer_seeds :: DeviceBuffer where "buffer_seeds = \<lparr>db_size = 8 * 2 ^ 16\<rparr>"
definition buffer_1 :: DeviceBuffer where "buffer_1 = \<lparr>db_size = 2 ^ 31\<rparr>"
definition buffer_2 :: DeviceBuffer where "buffer_2 = \<lparr>db_size = 2 ^ 29\<rparr>"

definition filter_2a :: Template where
  "filter_2a = \<lparr>NoiseThreshold = - 10500, t_octaves = 12, pos_range = 8 * 1024, samples = 256, min_count = 24,
     flipped_sparse_samples = False, move_center = True, only_a = False\<rparr>"

definition filter_2b :: Template where
  "filter_2b = \<lparr>NoiseThreshold = - 10500, t_octaves = 14, pos_range = 8 * 1024, samples = 1024, min_count = 110,
     flipped_sparse_samples = False, move_center = True, only_a = False\<rparr>"

definition filter_2c :: Template where
  "filter_2c = \<lparr>NoiseThreshold = - 10500, t_octaves = 16, pos_range = 10 * 1024, samples = 4096, min_count = 340,
     flipped_sparse_samples = False, move_center = False, only_a = False\<rparr>"

definition filter_2d :: Template where
  "filter_2d = \<lparr>NoiseThreshold = - 10500, t_octaves = 18, pos_range = 10 * 1024, samples = 16384, min_count = 1540,
     flipped_sparse_samples = False, move_center = False, only_a = False\<rparr>"

text \<open>The parameters of a build and of a run: the two compile-time flags, the trained weights, the hardware's choices.\<close>

record GpuConfig =
  large :: bool
  unbounded :: bool
  weights_0A :: host_kernel
  weights_0B :: host_kernel
  junk :: "u8 list"
  sched_seeds :: "u64 list \<Rightarrow> u64 list"
  sched :: "nat \<Rightarrow> SeedPos list \<Rightarrow> SeedPos list"

text \<open>A stage's buffer afterwards; \<open>None\<close> when the results do not fit.\<close>

definition fits :: "DeviceBuffer \<Rightarrow> nat \<Rightarrow> 'a list \<Rightarrow> 'a list option" where
  "fits buffer sizeof_T xs = (if length xs \<le> db_size buffer div sizeof_T then Some xs else None)"

definition gpu_stage :: "GpuConfig \<Rightarrow> nat \<Rightarrow> DeviceBuffer \<Rightarrow> ('i \<Rightarrow> SeedPos list) \<Rightarrow> 'i list \<Rightarrow> SeedPos list option" where
  "gpu_stage cfg k buffer f inputs = fits buffer sizeof_SeedPos (sched cfg k (concat (map f inputs)))"

definition option_list :: "'a option \<Rightarrow> 'a list" where
  "option_list v = (case v of None \<Rightarrow> [] | Some x \<Rightarrow> [x])"

text \<open>The stages as functions of the seed's tables.\<close>

definition stage_gradvecs_1 :: "GpuConfig \<Rightarrow> Result \<Rightarrow> u32 \<Rightarrow> SeedPos list" where
  "stage_gradvecs_1 cfg r si =
     concat (map (gradvecs1_thread (large cfg) (init_conv_kernels (weights_0A cfg)) (r ! slot_a 0) (junk cfg) (junk cfg) si) [0..<256])"

definition stage_2_0a :: "GpuConfig \<Rightarrow> Result \<Rightarrow> SeedPos \<Rightarrow> SeedPos list" where
  "stage_2_0a cfg r p = option_list (filter2_0A (large cfg) init_grad_dot_table (r ! slot_a 0) (r ! slot_a 1) p)"

definition stage_gradvecs_2 :: "GpuConfig \<Rightarrow> Result \<Rightarrow> SeedPos \<Rightarrow> SeedPos list" where
  "stage_gradvecs_2 cfg r p =
     concat (map (gradvecs2_thread (unbounded cfg) (large cfg) (init_conv_kernels (weights_0B cfg)) (r ! slot_b 0) p) [0..<128])"

definition stage_2_0b :: "GpuConfig \<Rightarrow> Result \<Rightarrow> SeedPos \<Rightarrow> SeedPos list" where
  "stage_2_0b cfg r p = option_list (filter2_0B (large cfg) init_grad_dot_table (r ! slot_b 0) (r ! slot_b 1) p)"

definition stage_filter_2 :: "GpuConfig \<Rightarrow> Template \<Rightarrow> Result \<Rightarrow> SeedPos \<Rightarrow> SeedPos list" where
  "stage_filter_2 cfg T r p =
     option_list (filter2_kernel (large cfg) T (chosen_continentalness_config (large cfg)) init_grad_dot_table r p)"

definition result_of :: "Result list \<Rightarrow> SeedPos \<Rightarrow> Result" where
  "result_of results p = results ! unat (seed_index p)"

text \<open>What an iteration adds to the output queue, the tables it leaves and the lengths it leaves.\<close>

definition gpu_iteration :: "GpuConfig \<Rightarrow> u64 \<Rightarrow> Result list \<Rightarrow> (GpuOutput list \<times> Result list \<times> BufferLens) option" where
  "gpu_iteration cfg start_seed results = do {
     seeds \<leftarrow> fits buffer_seeds 8 (sched_seeds cfg
                (List.map_filter (filter_seeds (large cfg)) (map (\<lambda>i. start_seed + of_nat i) [0..<2 ^ 28])));
     rs \<leftarrow> kernel_init (large cfg) kernel_slots seeds [0..<length seeds] results;
     g1 \<leftarrow> gpu_stage cfg 0 buffer_2 (\<lambda>i. stage_gradvecs_1 cfg (rs ! i) (of_nat i)) [0..<length seeds];
     a0 \<leftarrow> gpu_stage cfg 1 buffer_1 (\<lambda>p. stage_2_0a cfg (result_of rs p) p) g1;
     g2 \<leftarrow> gpu_stage cfg 2 buffer_2 (\<lambda>p. stage_gradvecs_2 cfg (result_of rs p) p) a0;
     b0 \<leftarrow> gpu_stage cfg 3 buffer_2 (\<lambda>p. stage_2_0b cfg (result_of rs p) p) g2;
     st1 \<leftarrow> late_kernel (large cfg) seeds 1 b0 \<lparr>ls_results = rs, ls_flags = replicate (length results) 0\<rparr>;
     fa \<leftarrow> gpu_stage cfg 4 buffer_1 (\<lambda>p. stage_filter_2 cfg filter_2a (result_of (ls_results st1) p) p) b0;
     st2 \<leftarrow> late_kernel (large cfg) seeds 2 fa st1;
     fb \<leftarrow> gpu_stage cfg 5 buffer_2 (\<lambda>p. stage_filter_2 cfg filter_2b (result_of (ls_results st2) p) p) fa;
     st3 \<leftarrow> late_kernel (large cfg) seeds 3 fb st2;
     fc \<leftarrow> gpu_stage cfg 6 buffer_1 (\<lambda>p. stage_filter_2 cfg filter_2c (result_of (ls_results st3) p) p) fb;
     st4 \<leftarrow> late_kernel (large cfg) seeds 4 fc st3;
     fd \<leftarrow> gpu_stage cfg 7 buffer_2 (\<lambda>p. stage_filter_2 cfg filter_2d (result_of (ls_results st4) p) p) fc;
     Some (map (\<lambda>p. \<lparr>go_seed = seeds ! unat (seed_index p), go_x = pos_x p * 4, go_z = pos_z p * 4\<rparr>) fd, ls_results st4,
       zero_lens\<lparr>results_len_filter_seeds := of_nat (length seeds), results_len_filter_gradvecs_1 := of_nat (length g1),
         results_len_filter_2_0a := of_nat (length a0), results_len_filter_gradvecs_2 := of_nat (length g2),
         results_len_filter_2_0b := of_nat (length b0),
         results_len_filter_2 := (\<lambda>_. 0)(0 := of_nat (length fa), 1 := of_nat (length fb), 2 := of_nat (length fc), 3 := of_nat (length fd))\<rparr>)
   }"

text \<open>The origin mode: all tables at once, one filter.\<close>

definition gpu_iteration_origin :: "GpuConfig \<Rightarrow> u64 \<Rightarrow> Result list \<Rightarrow> (GpuOutput list \<times> Result list \<times> BufferLens) option" where
  "gpu_iteration_origin cfg start_seed results = do {
     seeds \<leftarrow> fits buffer_seeds 8 (sched_seeds cfg
                (List.map_filter (filter_seeds (large cfg)) (map (\<lambda>i. start_seed + of_nat i) [0..<2 ^ 28])));
     rs \<leftarrow> kernel_init (large cfg) kernel_full_slots seeds [0..<length seeds] results;
     outs \<leftarrow> gpu_stage cfg 0 buffer_2
       (\<lambda>i. option_list (origin_check (chosen_continentalness_config (large cfg)) init_grad_dot_table (rs ! i) (of_nat i))) [0..<length seeds];
     Some (map (\<lambda>p. \<lparr>go_seed = seeds ! unat (seed_index p), go_x = pos_x p * 4, go_z = pos_z p * 4\<rparr>) outs, rs,
       zero_lens\<lparr>results_len_filter_seeds := of_nat (length seeds), results_len_origin := of_nat (length outs)\<rparr>)
   }"

section \<open>What the samplers read\<close>

lemma sample_all_cong:
  assumes "\<And>i. i < n \<Longrightarrow> octs ! i = octs' ! i"
  shows "sample_all n config octs table x y z = sample_all n config octs' table x y z"
    and "sample_only_a n config octs table x y z = sample_only_a n config octs' table x y z"
    and "sample_first12 n config octs table x y z = sample_first12 n config octs' table x y z"
    and "sample_rest12 n config octs table x y z = sample_rest12 n config octs' table x y z"
proof -
  have t: "(if k \<le> n then f (octs ! i) else 0) = (if k \<le> n then f (octs' ! i) else (0 :: rat))" if "i < k" for k i f
    using assms [of i] that by simp
  show "sample_all n config octs table x y z = sample_all n config octs' table x y z"
    by (simp only: sample_all_def Let_def if_add t rel_simps)
  show "sample_only_a n config octs table x y z = sample_only_a n config octs' table x y z"
    by (simp only: sample_only_a_def Let_def if_add t rel_simps)
  show "sample_first12 n config octs table x y z = sample_first12 n config octs' table x y z"
    by (simp only: sample_first12_def Let_def if_add t rel_simps)
  show "sample_rest12 n config octs table x y z = sample_rest12 n config octs' table x y z"
    by (simp only: sample_rest12_def Let_def if_add t rel_simps)
qed

lemma filter2_kernel_cong:
  assumes "\<And>i. i < t_octaves T \<Longrightarrow> octs ! i = octs' ! i"
  shows "filter2_kernel l T config table octs p = filter2_kernel l T config table octs' p"
proof -
  note c = sample_all_cong [of "t_octaves T" octs octs', OF assms]
  have "filter2_round l T config table octs = filter2_round l T config table octs'"
    by (rule ext) (simp only: filter2_round_def c)
  then show ?thesis by (simp only: filter2_kernel_def)
qed

section \<open>The stages keep the seed\<close>

lemma seed_index_gv1_loop:
  "p \<in> set (gv1_loop c0 c1 xy0 xy1 si cs z nz nxs x a b c d) \<Longrightarrow> seed_index p = si"
  by (induction nxs arbitrary: x a b c d) (auto simp: Let_def)

lemma stage_gradvecs_1_seed: "p \<in> set (stage_gradvecs_1 cfg r si) \<Longrightarrow> seed_index p = si"
  by (auto simp: stage_gradvecs_1_def gradvecs1_thread_def Let_def dest: seed_index_gv1_loop)

lemma stage_gradvecs_2_seed: "q \<in> set (stage_gradvecs_2 cfg r p) \<Longrightarrow> seed_index q = seed_index p"
  by (auto simp: stage_gradvecs_2_def gradvecs2_thread_def Let_def)

lemma filter2_cached_seed: "filter2_cached l T c0 c1 table o0 o1 p = Some q \<Longrightarrow> seed_index q = seed_index p"
  by (auto simp: filter2_cached_def Let_def split: if_splits)

lemma stage_2_0_seed:
  "q \<in> set (stage_2_0a cfg r p) \<Longrightarrow> seed_index q = seed_index p"
  "q \<in> set (stage_2_0b cfg r p) \<Longrightarrow> seed_index q = seed_index p"
  by (auto simp: stage_2_0a_def stage_2_0b_def option_list_def filter2_0A_def filter2_0B_def Let_def
      dest: filter2_cached_seed [OF sym] split: option.splits)

lemma filter2_kernel_seed: "filter2_kernel l T config table octs p = Some q \<Longrightarrow> seed_index q = seed_index p"
  by (auto simp: filter2_kernel_def Let_def split_def split: if_splits)

lemma stage_filter_2_seed: "q \<in> set (stage_filter_2 cfg T r p) \<Longrightarrow> seed_index q = seed_index p"
  by (auto simp: stage_filter_2_def option_list_def dest: filter2_kernel_seed [OF sym] split: option.splits)

section \<open>Late kernels over a list of inputs\<close>

lemma late_step_flags:
  assumes "late_inv l seeds st" "1 \<le> Stage" "Stage \<le> 4" "unat si < length seeds" "Stage - 1 \<le> unat (ls_flags st ! unat si)"
    and "late_step l seeds Stage si st = Some st'"
  shows "Stage \<le> unat (ls_flags st' ! unat si)" "unat (ls_flags st ! i) \<le> unat (ls_flags st' ! i)"
proof -
  have S: "unat (of_nat Stage :: u32) = Stage" "unat (of_nat Stage - 1 :: u32) = Stage - 1"
    using assms(2,3) by (simp_all add: unat_of_nat unat_sub_if_size)
  have len: "unat si < length (ls_flags st)" using assms(1,4) by (simp add: late_inv_def)
  have "Stage \<le> unat (ls_flags st' ! unat si) \<and> unat (ls_flags st ! i) \<le> unat (ls_flags st' ! i)"
  proof (cases "ls_flags st ! unat si \<noteq> of_nat Stage - 1")
    case True
    then have "unat (ls_flags st ! unat si) \<noteq> Stage - 1" using S(2) by (metis word_unat_eq_iff)
    moreover have "st' = st" using True assms(6) by (simp add: late_step_def)
    ultimately show ?thesis using assms(2,5) by auto
  next
    case False
    then have "ls_flags st' = (ls_flags st)[unat si := of_nat Stage]" using assms(6) by (auto simp: late_step_def)
    then show ?thesis using len S False by (auto simp: nth_list_update)
  qed
  then show "Stage \<le> unat (ls_flags st' ! unat si)" "unat (ls_flags st ! i) \<le> unat (ls_flags st' ! i)" by simp_all
qed

lemma late_kernel_ready:
  assumes "late_kernel l seeds Stage inputs st = Some st'" "late_inv l seeds st" "1 \<le> Stage" "Stage \<le> 4"
    and "\<forall>p\<in>set inputs. unat (seed_index p) < length seeds \<and> Stage - 1 \<le> unat (ls_flags st ! unat (seed_index p))"
  shows "late_inv l seeds st' \<and> (\<forall>p\<in>set inputs. Stage \<le> unat (ls_flags st' ! unat (seed_index p))) \<and>
         (\<forall>i. unat (ls_flags st ! i) \<le> unat (ls_flags st' ! i))"
  using assms
proof (induction inputs arbitrary: st)
  case (Cons p inputs)
  from Cons.prems(1) obtain st1 where st1: "late_step l seeds Stage (seed_index p) st = Some st1" "late_kernel l seeds Stage inputs st1 = Some st'"
    by (auto simp: bind_eq_Some_conv)
  have p: "unat (seed_index p) < length seeds" "Stage - 1 \<le> unat (ls_flags st ! unat (seed_index p))" using Cons.prems(5) by auto
  note inv = late_step_inv [OF Cons.prems(2,3,4) p(1) st1(1)]
  note fl = late_step_flags [OF Cons.prems(2,3,4) p st1(1)]
  have "\<forall>q\<in>set inputs. unat (seed_index q) < length seeds \<and> Stage - 1 \<le> unat (ls_flags st1 ! unat (seed_index q))"
    using Cons.prems(5) fl(2) by (meson le_trans list.set_intros(2))
  from Cons.IH [OF st1(2) inv Cons.prems(3,4) this] show ?case using fl by (auto intro: le_trans)
qed simp

section \<open>One stage\<close>

definition sched_ok :: "GpuConfig \<Rightarrow> bool" where
  "sched_ok cfg \<longleftrightarrow> (\<forall>xs. mset (sched_seeds cfg xs) = mset xs) \<and> (\<forall>k xs. mset (sched cfg k xs) = mset xs)"

definition tables :: "bool \<Rightarrow> u64 \<Rightarrow> Result" where
  "tables l seed = map (\<lambda>s. the (seed_octave l seed s)) [0..<18]"

lemma tables_ready: "octaves_ready l seed {0..<k} r \<Longrightarrow> k \<le> 18 \<Longrightarrow> s < k \<Longrightarrow> r ! s = tables l seed ! s"
  by (simp add: octaves_ready_def tables_def)

text \<open>\<open>by_seed seeds xs C\<close>: the buffer content \<open>xs\<close> is, up to order, what \<open>C\<close> gives for each seed.\<close>

definition by_seed :: "nat \<Rightarrow> SeedPos list \<Rightarrow> (nat \<Rightarrow> SeedPos list) \<Rightarrow> bool" where
  "by_seed n xs C \<longleftrightarrow> mset xs = mset (concat (map C [0..<n])) \<and> (\<forall>i<n. \<forall>p\<in>set (C i). unat (seed_index p) = i)"

lemma mset_concat_map_cong:
  assumes "mset xs = mset ys" "\<And>x. x \<in> set ys \<Longrightarrow> f x = g x"
  shows "mset (concat (map f xs)) = mset (concat (map g ys))"
proof -
  have e: "mset (concat (map h zs)) = sum_mset (image_mset (\<lambda>x. mset (h x)) (mset zs))" for h :: "'a \<Rightarrow> 'b list" and zs
    by (induction zs) simp_all
  show ?thesis unfolding e assms(1) using assms(2) by (intro arg_cong [where f = sum_mset] image_mset_cong) simp
qed

lemma concat_map_concat: "concat (map h (concat (map C is))) = concat (map (\<lambda>i. concat (map h (C i))) is)"
  by (induction "is") simp_all

lemma by_seed_index: "by_seed n xs C \<Longrightarrow> p \<in> set xs \<Longrightarrow> unat (seed_index p) < n \<and> p \<in> set (C (unat (seed_index p)))"
proof -
  assume b: "by_seed n xs C" and p: "p \<in> set xs"
  then have "set xs = set (concat (map C [0..<n]))" by (intro mset_eq_setD) (simp add: by_seed_def)
  then obtain i where "i < n" "p \<in> set (C i)" using p by auto
  moreover have "unat (seed_index p) = i" using b calculation by (simp add: by_seed_def)
  ultimately show ?thesis by simp
qed

definition keeps_seed :: "(Result \<Rightarrow> SeedPos \<Rightarrow> SeedPos list) \<Rightarrow> bool" where
  "keeps_seed S \<longleftrightarrow> (\<forall>r p. \<forall>q\<in>set (S r p). seed_index q = seed_index p)"

lemma concat_by_seed:
  assumes "by_seed n xs C" "\<forall>p\<in>set xs. f p = S (tables l (seeds ! unat (seed_index p))) p"
  shows "mset (concat (map f xs)) = mset (concat (map (\<lambda>i. concat (map (S (tables l (seeds ! i))) (C i))) [0..<n]))"
proof -
  have x: "mset xs = mset (concat (map C [0..<n]))" and idx: "\<forall>i<n. \<forall>p\<in>set (C i). unat (seed_index p) = i"
    using assms(1) by (simp_all add: by_seed_def)
  have "mset (concat (map f xs)) = mset (concat (map (\<lambda>p. S (tables l (seeds ! unat (seed_index p))) p) (concat (map C [0..<n]))))"
    by (rule mset_concat_map_cong [OF x]) (use assms(2) mset_eq_setD [OF x] in auto)
  also have "concat (map (\<lambda>p. S (tables l (seeds ! unat (seed_index p))) p) (concat (map C [0..<n])))
      = concat (map (\<lambda>i. concat (map (S (tables l (seeds ! i))) (C i))) [0..<n])"
    unfolding concat_map_concat using idx by (intro arg_cong [where f = concat] map_cong refl) auto
  finally show ?thesis .
qed

section \<open>The seed's index does not matter\<close>

text \<open>The stages carry the index of a seed along and do nothing else with it.\<close>

definition at_index :: "u32 \<Rightarrow> SeedPos \<Rightarrow> SeedPos" where
  "at_index si p = p\<lparr>seed_index := si\<rparr>"

lemma at_index_simps [simp]:
  "seed_index (at_index si p) = si" "pos_x (at_index si p) = pos_x p" "pos_z (at_index si p) = pos_z p"
  "at_index si \<lparr>seed_index = i, pos_x = x, pos_z = z\<rparr> = \<lparr>seed_index = si, pos_x = x, pos_z = z\<rparr>"
  by (simp_all add: at_index_def)

lemma map_option_list: "option_list (map_option f v) = map f (option_list v)"
  by (cases v) (simp_all add: option_list_def)

lemma gv1_loop_at:
  "gv1_loop c0 c1 xy0 xy1 si cs z nz nxs x a b c d = map (at_index si) (gv1_loop c0 c1 xy0 xy1 0 cs z nz nxs x a b c d)"
  by (induction nxs arbitrary: x a b c d) (simp_all add: Let_def)

lemma stage_gradvecs_1_at: "stage_gradvecs_1 cfg r si = map (at_index si) (stage_gradvecs_1 cfg r 0)"
  unfolding stage_gradvecs_1_def gradvecs1_thread_def Let_def map_concat map_map comp_def gv1_loop_at [symmetric] by (rule refl)

lemma gradvecs2_thread_at: "gradvecs2_thread u l K oct (at_index si p) t = map (at_index si) (gradvecs2_thread u l K oct p t)"
  by (simp add: gradvecs2_thread_def Let_def map_concat comp_def)

lemma stage_gradvecs_2_at: "stage_gradvecs_2 cfg r (at_index si p) = map (at_index si) (stage_gradvecs_2 cfg r p)"
  unfolding stage_gradvecs_2_def gradvecs2_thread_at map_concat map_map comp_def by (rule refl)

lemma filter2_cached_at: "filter2_cached l T c0 c1 table o0 o1 (at_index si p) = map_option (at_index si) (filter2_cached l T c0 c1 table o0 o1 p)"
  by (simp add: filter2_cached_def lane_z_def lane_xs_def Let_def)

lemma sample_pos_at: "sample_pos l T (at_index si p) = sample_pos l T p"
  by (intro ext) (simp add: sample_pos_def)

lemma filter2_kernel_at: "filter2_kernel l T config table octs (at_index si p) = map_option (at_index si) (filter2_kernel l T config table octs p)"
  by (simp only: filter2_kernel_def sample_pos_at at_index_simps Let_def split_def if_distrib [of "map_option (at_index si)"] option.map)

lemma stage_filters_at:
  "stage_2_0a cfg r (at_index si p) = map (at_index si) (stage_2_0a cfg r p)"
  "stage_2_0b cfg r (at_index si p) = map (at_index si) (stage_2_0b cfg r p)"
  "stage_filter_2 cfg T r (at_index si p) = map (at_index si) (stage_filter_2 cfg T r p)"
  by (simp_all add: stage_2_0a_def stage_2_0b_def stage_filter_2_def filter2_0A_def filter2_0B_def Let_def
      filter2_cached_at filter2_kernel_at map_option_list)

section \<open>What the iteration computes\<close>

text \<open>The stages by their number, the positions a seed has left after each, and how many all seeds together have.\<close>

definition stage_at :: "GpuConfig \<Rightarrow> Result \<Rightarrow> nat \<Rightarrow> SeedPos \<Rightarrow> SeedPos list" where
  "stage_at cfg r k =
     [\<lambda>_. [], stage_2_0a cfg r, stage_gradvecs_2 cfg r, stage_2_0b cfg r, stage_filter_2 cfg filter_2a r, stage_filter_2 cfg filter_2b r,
      stage_filter_2 cfg filter_2c r, stage_filter_2 cfg filter_2d r] ! k"

primrec stage_chain :: "GpuConfig \<Rightarrow> u64 \<Rightarrow> u32 \<Rightarrow> nat \<Rightarrow> SeedPos list" where
  "stage_chain cfg seed si 0 = stage_gradvecs_1 cfg (tables (large cfg) seed) si"
| "stage_chain cfg seed si (Suc k) = concat (map (stage_at cfg (tables (large cfg) seed) (Suc k)) (stage_chain cfg seed si k))"

definition gpu_output :: "u64 \<Rightarrow> SeedPos \<Rightarrow> GpuOutput" where
  "gpu_output seed p = \<lparr>go_seed = seed, go_x = pos_x p * 4, go_z = pos_z p * 4\<rparr>"

definition seed_outputs :: "GpuConfig \<Rightarrow> u64 \<Rightarrow> GpuOutput list" where
  "seed_outputs cfg seed = map (gpu_output seed) (stage_chain cfg seed 0 7)"

definition passing_seeds :: "bool \<Rightarrow> u64 \<Rightarrow> u64 list" where
  "passing_seeds l start_seed = List.map_filter (filter_seeds l) (map (\<lambda>i. start_seed + of_nat i) [0..<2 ^ 28])"

definition stage_count :: "GpuConfig \<Rightarrow> u64 list \<Rightarrow> nat \<Rightarrow> nat" where
  "stage_count cfg seeds k = sum_list (map (\<lambda>seed. length (stage_chain cfg seed 0 k)) seeds)"

definition stage_buffer :: "nat \<Rightarrow> DeviceBuffer" where
  "stage_buffer k = [buffer_2, buffer_1, buffer_2, buffer_2, buffer_1, buffer_2, buffer_1, buffer_2] ! k"

definition buffers_hold :: "GpuConfig \<Rightarrow> u64 list \<Rightarrow> bool" where
  "buffers_hold cfg seeds \<longleftrightarrow>
     length seeds \<le> 2 ^ 16 \<and> list_all (\<lambda>k. stage_count cfg seeds k \<le> db_size (stage_buffer k) div sizeof_SeedPos) [0..<8]"

definition stage_lens :: "GpuConfig \<Rightarrow> u64 list \<Rightarrow> BufferLens" where
  "stage_lens cfg seeds = (let n = (\<lambda>k. of_nat (stage_count cfg seeds k)) in
     zero_lens\<lparr>results_len_filter_seeds := of_nat (length seeds), results_len_filter_gradvecs_1 := n 0, results_len_filter_2_0a := n 1,
       results_len_filter_gradvecs_2 := n 2, results_len_filter_2_0b := n 3,
       results_len_filter_2 := (\<lambda>_. 0)(0 := n 4, 1 := n 5, 2 := n 6, 3 := n 7)\<rparr>)"

definition noises_return :: "bool \<Rightarrow> u64 list \<Rightarrow> bool" where
  "noises_return l seeds \<longleftrightarrow> list_all (\<lambda>seed. list_all (\<lambda>s. seed_octave l seed s \<noteq> None) [0..<18]) seeds"

lemma stage_at_cases:
  assumes "Suc k < 8"
  obtains "stage_at cfg r (Suc k) = stage_2_0a cfg r" "k = 0" | "stage_at cfg r (Suc k) = stage_gradvecs_2 cfg r" "k = 1"
    | "stage_at cfg r (Suc k) = stage_2_0b cfg r" "k = 2" | T where "stage_at cfg r (Suc k) = stage_filter_2 cfg T r"
proof -
  have "k = 0 \<or> k = 1 \<or> k = 2 \<or> k = 3 \<or> k = 4 \<or> k = 5 \<or> k = 6" using assms by linarith
  then show ?thesis using that by (elim disjE) (simp_all add: stage_at_def)
qed

lemma stage_chain_at: "k < 8 \<Longrightarrow> stage_chain cfg seed si k = map (at_index si) (stage_chain cfg seed 0 k)"
proof (induction k)
  case 0
  show ?case by (simp only: stage_chain.simps(1) stage_gradvecs_1_at [of cfg _ si])
next
  case (Suc k)
  let ?r = "tables (large cfg) seed"
  have "stage_at cfg ?r (Suc k) (at_index si p) = map (at_index si) (stage_at cfg ?r (Suc k) p)" for p
    by (rule stage_at_cases [OF Suc.prems, of cfg ?r]) (simp_all add: stage_filters_at stage_gradvecs_2_at)
  then show ?case using Suc by (simp add: map_concat comp_def)
qed

lemma stage_chain_length: "k < 8 \<Longrightarrow> length (stage_chain cfg seed si k) = length (stage_chain cfg seed 0 k)"
  by (subst stage_chain_at) simp_all

lemma stage_chain_index: "k < 8 \<Longrightarrow> p \<in> set (stage_chain cfg seed si k) \<Longrightarrow> seed_index p = si"
  by (subst (asm) stage_chain_at) auto

lemma seed_outputs_at: "map (gpu_output seed) (stage_chain cfg seed si 7) = seed_outputs cfg seed"
  by (subst stage_chain_at) (simp_all add: seed_outputs_def gpu_output_def)

lemma stage_count_mset: "mset seeds = mset seeds' \<Longrightarrow> stage_count cfg seeds k = stage_count cfg seeds' k"
  unfolding stage_count_def sum_mset_sum_list [symmetric] mset_map by simp

section \<open>The tables the stages read\<close>

lemma stage_filter_2_tables:
  assumes "octaves_ready l seed {0..<k} r" "t_octaves T \<le> k" "k \<le> 18"
  shows "stage_filter_2 cfg T r p = stage_filter_2 cfg T (tables l seed) p"
proof -
  have "filter2_kernel (large cfg) T (chosen_continentalness_config (large cfg)) init_grad_dot_table r p =
        filter2_kernel (large cfg) T (chosen_continentalness_config (large cfg)) init_grad_dot_table (tables l seed) p"
    by (rule filter2_kernel_cong) (use tables_ready [OF assms(1,3)] assms(2) in auto)
  then show ?thesis by (simp only: stage_filter_2_def)
qed

lemma stage_01_tables:
  assumes "octaves_ready l seed {0..<4} r"
  shows "stage_gradvecs_1 cfg r si = stage_gradvecs_1 cfg (tables l seed) si"
    and "stage_2_0a cfg r p = stage_2_0a cfg (tables l seed) p"
    and "stage_gradvecs_2 cfg r p = stage_gradvecs_2 cfg (tables l seed) p"
    and "stage_2_0b cfg r p = stage_2_0b cfg (tables l seed) p"
proof -
  have "r ! slot_a 0 = tables l seed ! slot_a 0" "r ! slot_a 1 = tables l seed ! slot_a 1"
    "r ! slot_b 0 = tables l seed ! slot_b 0" "r ! slot_b 1 = tables l seed ! slot_b 1"
    using tables_ready [OF assms] by (simp_all add: slot_a_def slot_b_def)
  then show "stage_gradvecs_1 cfg r si = stage_gradvecs_1 cfg (tables l seed) si"
    "stage_2_0a cfg r p = stage_2_0a cfg (tables l seed) p"
    "stage_gradvecs_2 cfg r p = stage_gradvecs_2 cfg (tables l seed) p"
    "stage_2_0b cfg r p = stage_2_0b cfg (tables l seed) p"
    by (simp_all only: stage_gradvecs_1_def stage_2_0a_def stage_gradvecs_2_def stage_2_0b_def)
qed

lemma ready_slots_mono:
  assumes "j \<le> k" "k \<le> 4"
  shows "ready_slots j \<le> ready_slots k"
proof -
  have k: "k = 0 \<or> k = 1 \<or> k = 2 \<or> k = 3 \<or> k = 4" using assms(2) by (rule stage_cases)
  have "j \<le> 4" using assms by linarith
  then have "j = 0 \<or> j = 1 \<or> j = 2 \<or> j = 3 \<or> j = 4" by (rule stage_cases)
  then show ?thesis using k assms(1) by (elim disjE) (simp_all add: ready_slots_def)
qed

section \<open>Steps that may fail\<close>

text \<open>\<open>settles fails m P\<close>: \<open>m\<close> has a result with property \<open>P\<close>, or it has none and \<open>fails\<close> is the case.\<close>

definition settles :: "bool \<Rightarrow> 'a option \<Rightarrow> ('a \<Rightarrow> bool) \<Rightarrow> bool" where
  "settles fails m P \<longleftrightarrow> (case m of None \<Rightarrow> fails | Some v \<Rightarrow> P v)"

lemma settlesI: "(m = None \<Longrightarrow> fails) \<Longrightarrow> (\<And>v. m = Some v \<Longrightarrow> P v) \<Longrightarrow> settles fails m P"
  by (cases m) (simp_all add: settles_def)

lemma settles_bind: "settles fails m P \<Longrightarrow> (\<And>v. P v \<Longrightarrow> settles fails (f v) Q) \<Longrightarrow> settles fails (Option.bind m f) Q"
  by (cases m) (simp_all add: settles_def)

lemma settles_weaken: "settles fails m P \<Longrightarrow> (\<And>v. P v \<Longrightarrow> Q v) \<Longrightarrow> settles fails m Q"
  by (cases m) (simp_all add: settles_def)

lemma init_octaves_length: "init_octaves l seed slots r = Some r' \<Longrightarrow> length r' = length r"
  by (induction slots arbitrary: r) (auto simp: bind_eq_Some_conv)

lemma init_octaves_returns: "\<forall>s\<in>set slots. seed_octave l seed s \<noteq> None \<Longrightarrow> init_octaves l seed slots r \<noteq> None"
  by (induction slots arbitrary: r) auto

lemma noises_returnD: "noises_return l seeds \<Longrightarrow> i < length seeds \<Longrightarrow> set slots \<subseteq> {0..<18} \<Longrightarrow> init_octaves l (seeds ! i) slots r \<noteq> None"
  by (rule init_octaves_returns) (auto simp: noises_return_def list_all_iff)

lemma noises_return_mset: "mset seeds = mset seeds' \<Longrightarrow> noises_return l seeds = noises_return l seeds'"
  using mset_eq_setD [of seeds seeds'] by (simp add: noises_return_def list_all_iff)

lemma map_update_same: "f y = f (xs ! k) \<Longrightarrow> map f (xs[k := y]) = map f xs"
  by (metis list_update_id map_update)

lemma kernel_init_returns:
  "noises_return l seeds \<Longrightarrow> set slots \<subseteq> {0..<18} \<Longrightarrow> \<forall>i\<in>set is. i < length seeds \<Longrightarrow> kernel_init l slots seeds is results \<noteq> None"
proof (induction "is" arbitrary: results)
  case (Cons i "is")
  then show ?case using noises_returnD [of l seeds i slots "results ! i"] by auto
qed simp

lemma kernel_init_settles:
  assumes "set slots \<subseteq> {0..<18}" "\<forall>i\<in>set is. i < length seeds" "\<not> noises_return l seeds \<Longrightarrow> fails"
  shows "settles fails (kernel_init l slots seeds is results)
    (\<lambda>rs. kernel_init l slots seeds is results = Some rs \<and> map length rs = map length results)"
proof (rule settlesI)
  show "kernel_init l slots seeds is results = None \<Longrightarrow> fails" using kernel_init_returns assms by blast
next
  show "kernel_init l slots seeds is results = Some rs \<Longrightarrow>
      kernel_init l slots seeds is results = Some rs \<and> map length rs = map length results" for rs
  proof
    show "kernel_init l slots seeds is results = Some rs \<Longrightarrow> map length rs = map length results"
    proof (induction "is" arbitrary: results)
      case (Cons i "is")
      then obtain r where r: "init_octaves l (seeds ! i) slots (results ! i) = Some r" "kernel_init l slots seeds is (results[i := r]) = Some rs"
        by (auto simp: bind_eq_Some_conv)
      have "map length (results[i := r]) = map length results"
        by (rule map_update_same [OF init_octaves_length [OF r(1)]])
      then show ?case using Cons.IH [OF r(2)] by simp
    qed simp
  qed
qed

lemma late_step_shape: "late_step l seeds j si st = Some st' \<Longrightarrow> map length (ls_results st') = map length (ls_results st)"
proof -
  assume a: "late_step l seeds j si st = Some st'"
  show ?thesis
  proof (cases "ls_flags st ! unat si \<noteq> of_nat j - 1")
    case False
    then obtain r where r: "init_octaves l (seeds ! unat si) (late_slots j) (ls_results st ! unat si) = Some r"
      "ls_results st' = (ls_results st)[unat si := r]" using a by (auto simp: late_step_def)
    show ?thesis unfolding r(2) by (rule map_update_same [OF init_octaves_length [OF r(1)]])
  qed (use a in \<open>simp add: late_step_def\<close>)
qed

lemma late_kernel_shape: "late_kernel l seeds j xs st = Some st' \<Longrightarrow> map length (ls_results st') = map length (ls_results st)"
  by (induction xs arbitrary: st) (auto simp: bind_eq_Some_conv dest: late_step_shape)

lemma late_kernel_returns:
  assumes "noises_return l seeds" "\<forall>p\<in>set xs. unat (seed_index p) < length seeds" "1 \<le> j" "j \<le> 4"
  shows "late_kernel l seeds j xs st \<noteq> None"
  using assms(2)
proof (induction xs arbitrary: st)
  case (Cons p xs)
  have "set (late_slots j) \<subseteq> {0..<18}" using late_slots_set [OF assms(3,4)] ready_slots_values(1) [OF assms(4)] by auto
  then have "late_step l seeds j (seed_index p) st \<noteq> None"
    using noises_returnD [OF assms(1), of "unat (seed_index p)"] Cons.prems by (auto simp: late_step_def)
  then show ?case using Cons by auto
qed simp

section \<open>The stages one by one\<close>

definition in_stage :: "GpuConfig \<Rightarrow> u64 list \<Rightarrow> nat \<Rightarrow> SeedPos list \<Rightarrow> bool" where
  "in_stage cfg seeds k xs \<longleftrightarrow>
     by_seed (length seeds) xs (\<lambda>i. stage_chain cfg (seeds ! i) (of_nat i) k) \<and>
     stage_count cfg seeds k \<le> db_size (stage_buffer k) div sizeof_SeedPos"

definition tables_fit :: "bool \<Rightarrow> u64 list \<Rightarrow> Result list \<Rightarrow> nat \<Rightarrow> LateState \<Rightarrow> SeedPos list \<Rightarrow> bool" where
  "tables_fit l seeds results j st xs \<longleftrightarrow>
     late_inv l seeds st \<and> map length (ls_results st) = map length results \<and> (\<forall>p\<in>set xs. j \<le> unat (ls_flags st ! unat (seed_index p)))"

lemma chains_length:
  "k < 8 \<Longrightarrow> length (concat (map (\<lambda>i. stage_chain cfg (seeds ! i) (of_nat i) k) [0..<length seeds])) = stage_count cfg seeds k"
proof -
  assume k: "k < 8"
  have "map (\<lambda>i. length (stage_chain cfg (seeds ! i) (of_nat i) k)) [0..<length seeds] =
      map (\<lambda>seed. length (stage_chain cfg seed 0 k)) (map ((!) seeds) [0..<length seeds])"
    by (simp add: stage_chain_length [OF k, of cfg _ "of_nat _"])
  then show ?thesis unfolding stage_count_def map_nth by (simp add: length_concat comp_def)
qed

lemma in_stage_length: "in_stage cfg seeds k xs \<Longrightarrow> k < 8 \<Longrightarrow> length xs = stage_count cfg seeds k"
  unfolding in_stage_def by_seed_def using chains_length [of k cfg seeds] by (metis mset_eq_length)

lemma gpu_stage_settles:
  assumes "sched_ok cfg" "k < 8" "length seeds \<le> 2 ^ 16"
    and chain: "mset (concat (map f xs)) = mset (concat (map (\<lambda>i. stage_chain cfg (seeds ! i) (of_nat i) k) [0..<length seeds]))"
    and fail: "\<not> stage_count cfg seeds k \<le> db_size (stage_buffer k) div sizeof_SeedPos \<Longrightarrow> fails"
  shows "settles fails (gpu_stage cfg k (stage_buffer k) f xs) (\<lambda>ys. in_stage cfg seeds k ys \<and> set ys = set (concat (map f xs)))"
proof -
  let ?ys = "sched cfg k (concat (map f xs))"
  have m: "mset ?ys = mset (concat (map f xs))" using assms(1) unfolding sched_ok_def by blast
  have "length ?ys = stage_count cfg seeds k" unfolding chains_length [OF assms(2), symmetric] by (rule mset_eq_length) (simp only: m chain)
  moreover have "unat (seed_index p) = i" if "i < length seeds" "p \<in> set (stage_chain cfg (seeds ! i) (of_nat i) k)" for i p
    using stage_chain_index [OF assms(2) that(2)] that(1) assms(3) by (simp add: unat_of_nat)
  ultimately show ?thesis using fail m mset_eq_setD [OF m]
    by (auto simp: gpu_stage_def fits_def settles_def in_stage_def by_seed_def chain)
qed

lemma next_stage_settles:
  assumes "sched_ok cfg" "Suc k < 8" "length seeds \<le> 2 ^ 16" "in_stage cfg seeds k xs"
    and f: "\<forall>p\<in>set xs. f p = stage_at cfg (tables (large cfg) (seeds ! unat (seed_index p))) (Suc k) p"
    and fail: "\<not> stage_count cfg seeds (Suc k) \<le> db_size (stage_buffer (Suc k)) div sizeof_SeedPos \<Longrightarrow> fails"
  shows "settles fails (gpu_stage cfg (Suc k) (stage_buffer (Suc k)) f xs)
    (\<lambda>ys. in_stage cfg seeds (Suc k) ys \<and> (\<forall>q\<in>set ys. \<exists>p\<in>set xs. seed_index q = seed_index p))"
proof -
  let ?S = "\<lambda>r. stage_at cfg r (Suc k)"
  have keeps: "keeps_seed ?S" unfolding keeps_seed_def
  proof (intro allI ballI)
    fix r p q
    assume q: "q \<in> set (stage_at cfg r (Suc k) p)"
    show "seed_index q = seed_index p"
      by (rule stage_at_cases [OF assms(2), of cfg r])
        (use q in \<open>simp_all add: stage_2_0_seed stage_gradvecs_2_seed stage_filter_2_seed\<close>)
  qed
  have b: "by_seed (length seeds) xs (\<lambda>i. stage_chain cfg (seeds ! i) (of_nat i) k)" using assms(4) by (simp add: in_stage_def)
  have chain: "mset (concat (map f xs)) = mset (concat (map (\<lambda>i. stage_chain cfg (seeds ! i) (of_nat i) (Suc k)) [0..<length seeds]))"
    using concat_by_seed [where S = "\<lambda>r. stage_at cfg r (Suc k)", OF b f] by simp
  have "\<exists>p\<in>set xs. seed_index q = seed_index p" if "q \<in> set (concat (map f xs))" for q
    using that f keeps unfolding keeps_seed_def by fastforce
  then show ?thesis using gpu_stage_settles [OF assms(1,2,3) chain fail] by (auto simp: settles_def split: option.splits)
qed

lemma stage_buffer_numbers:
  "stage_buffer 0 = buffer_2"
  "stage_buffer (Suc 0) = buffer_1"
  "stage_buffer (Suc 1) = buffer_2"
  "stage_buffer (Suc 2) = buffer_2"
  "stage_buffer (Suc 3) = buffer_1"
  "stage_buffer (Suc 4) = buffer_2"
  "stage_buffer (Suc 5) = buffer_1"
  "stage_buffer (Suc 6) = buffer_2"
  by (simp_all add: stage_buffer_def)

lemma stage_at_numbers:
  "stage_at cfg r (Suc 3) = stage_filter_2 cfg filter_2a r" "stage_at cfg r (Suc 4) = stage_filter_2 cfg filter_2b r"
  "stage_at cfg r (Suc 5) = stage_filter_2 cfg filter_2c r" "stage_at cfg r (Suc 6) = stage_filter_2 cfg filter_2d r"
  "stage_at cfg r (Suc 0) = stage_2_0a cfg r" "stage_at cfg r (Suc 1) = stage_gradvecs_2 cfg r" "stage_at cfg r (Suc 2) = stage_2_0b cfg r"
  by (simp_all add: stage_at_def)

lemma filter_2_octaves:
  "t_octaves filter_2a \<le> ready_slots 1" "t_octaves filter_2b \<le> ready_slots 2" "t_octaves filter_2c \<le> ready_slots 3" "t_octaves filter_2d \<le> ready_slots 4"
  by (simp_all add: filter_2a_def filter_2b_def filter_2c_def filter_2d_def ready_slots_def)

text \<open>The first kernel, with all flags cleared.\<close>

definition fresh_tables :: "bool \<Rightarrow> u64 list \<Rightarrow> Result list \<Rightarrow> Result list \<Rightarrow> bool" where
  "fresh_tables l seeds results rs \<longleftrightarrow>
     tables_fit l seeds results 0 \<lparr>ls_results = rs, ls_flags = replicate (length results) 0\<rparr> [] \<and>
     (\<forall>i<length seeds. octaves_ready l (seeds ! i) {0..<4} (rs ! i))"

lemma first_kernel_settles:
  assumes "length seeds \<le> 2 ^ 16" "2 ^ 16 \<le> length results" "\<forall>r\<in>set results. length r = 18" "\<not> noises_return l seeds \<Longrightarrow> fails"
  shows "settles fails (kernel_init l kernel_slots seeds [0..<length seeds] results) (fresh_tables l seeds results)"
proof -
  let ?st = "\<lambda>rs. \<lparr>ls_results = rs, ls_flags = replicate (length results) 0\<rparr>"
  have "settles fails (kernel_init l kernel_slots seeds [0..<length seeds] results)
    (\<lambda>rs. kernel_init l kernel_slots seeds [0..<length seeds] results = Some rs \<and> map length rs = map length results)"
    by (rule kernel_init_settles) (use assms(4) in \<open>auto simp: kernel_slots_set\<close>)
  moreover have "late_inv l seeds (?st rs)" if "kernel_init l kernel_slots seeds [0..<length seeds] results = Some rs" for rs
    by (rule late_reach_inv, rule late_start [OF that]) (use assms in auto)
  moreover have "octaves_ready l (seeds ! i) {0..<4} (rs ! i)" if "late_inv l seeds (?st rs)" "i < length seeds" for rs i
    using that assms(1,2) by (simp add: late_inv_def ready_slots_def)
  ultimately show ?thesis by (simp add: settles_def tables_fit_def fresh_tables_def split: option.splits)
qed

lemma first_stage_settles:
  assumes "sched_ok cfg" "length seeds \<le> 2 ^ 16" "\<forall>i<length seeds. octaves_ready (large cfg) (seeds ! i) {0..<4} (rs ! i)"
    and fail: "\<not> stage_count cfg seeds 0 \<le> db_size (stage_buffer 0) div sizeof_SeedPos \<Longrightarrow> fails"
  shows "settles fails (gpu_stage cfg 0 buffer_2 (\<lambda>i. stage_gradvecs_1 cfg (rs ! i) (of_nat i)) [0..<length seeds]) (in_stage cfg seeds 0)"
proof -
  have "map (\<lambda>i. stage_gradvecs_1 cfg (rs ! i) (of_nat i)) [0..<length seeds] = map (\<lambda>i. stage_chain cfg (seeds ! i) (of_nat i) 0) [0..<length seeds]"
    using assms(3) by (intro map_cong refl) (auto simp: stage_01_tables(1))
  then have "mset (concat (map (\<lambda>i. stage_gradvecs_1 cfg (rs ! i) (of_nat i)) [0..<length seeds])) =
      mset (concat (map (\<lambda>i. stage_chain cfg (seeds ! i) (of_nat i) 0) [0..<length seeds]))" by (rule arg_cong)
  from gpu_stage_settles [OF assms(1) _ assms(2) this fail] show ?thesis
    unfolding stage_buffer_numbers(1) by (rule settles_weaken) simp_all
qed

lemma early_stage_settles:
  assumes "sched_ok cfg" "k < 3" "length seeds \<le> 2 ^ 16" "in_stage cfg seeds k xs"
    and ready: "\<forall>i<length seeds. octaves_ready (large cfg) (seeds ! i) {0..<4} (rs ! i)"
    and f: "f = (\<lambda>p. stage_at cfg (result_of rs p) (Suc k) p)"
    and fail: "\<not> stage_count cfg seeds (Suc k) \<le> db_size (stage_buffer (Suc k)) div sizeof_SeedPos \<Longrightarrow> fails"
  shows "settles fails (gpu_stage cfg (Suc k) (stage_buffer (Suc k)) f xs) (in_stage cfg seeds (Suc k))"
proof -
  have "f p = stage_at cfg (tables (large cfg) (seeds ! unat (seed_index p))) (Suc k) p" if "p \<in> set xs" for p
  proof -
    have "unat (seed_index p) < length seeds" using assms(4) by_seed_index [OF _ that] by (auto simp: in_stage_def)
    then have "octaves_ready (large cfg) (seeds ! unat (seed_index p)) {0..<4} (result_of rs p)" using ready by (simp add: result_of_def)
    note t = stage_01_tables [OF this]
    have "k = 0 \<or> k = 1 \<or> k = 2" using assms(2) by linarith
    then show ?thesis using t by (elim disjE) (simp_all add: f stage_at_def)
  qed
  then show ?thesis using next_stage_settles [OF assms(1) _ assms(3,4) _ fail, of f] assms(2) by (auto simp: settles_def split: option.splits)
qed

lemma late_kernel_settles:
  assumes "in_stage cfg seeds k xs" "tables_fit (large cfg) seeds results (j - 1) st xs" "1 \<le> j" "j \<le> 4"
    and fail: "\<not> noises_return (large cfg) seeds \<Longrightarrow> fails"
  shows "settles fails (late_kernel (large cfg) seeds j xs st) (\<lambda>st'. tables_fit (large cfg) seeds results j st' xs)"
proof (rule settlesI)
  have idx: "\<forall>p\<in>set xs. unat (seed_index p) < length seeds" using assms(1) by_seed_index by (fastforce simp: in_stage_def)
  then show "late_kernel (large cfg) seeds j xs st = None \<Longrightarrow> fails" using late_kernel_returns [OF _ idx assms(3,4)] fail by blast
  fix st'
  assume a: "late_kernel (large cfg) seeds j xs st = Some st'"
  have pre: "late_inv (large cfg) seeds st" "\<forall>p\<in>set xs. unat (seed_index p) < length seeds \<and> j - 1 \<le> unat (ls_flags st ! unat (seed_index p))"
    using assms(2) idx by (auto simp: tables_fit_def)
  show "tables_fit (large cfg) seeds results j st' xs"
    using late_kernel_ready [OF a pre(1) assms(3,4) pre(2)] late_kernel_shape [OF a] assms(2) by (auto simp: tables_fit_def)
qed

lemma late_stage_settles:
  assumes "sched_ok cfg" "Suc k < 8" "length seeds \<le> 2 ^ 16" "in_stage cfg seeds k xs" "tables_fit (large cfg) seeds results j st xs"
    and T: "\<And>r. stage_at cfg r (Suc k) = stage_filter_2 cfg T r" "t_octaves T \<le> ready_slots j" "j \<le> 4"
    and fail: "\<not> stage_count cfg seeds (Suc k) \<le> db_size (stage_buffer (Suc k)) div sizeof_SeedPos \<Longrightarrow> fails"
  shows "settles fails (gpu_stage cfg (Suc k) (stage_buffer (Suc k)) (\<lambda>p. stage_filter_2 cfg T (result_of (ls_results st) p) p) xs)
    (\<lambda>ys. in_stage cfg seeds (Suc k) ys \<and> tables_fit (large cfg) seeds results j st ys)"
proof -
  have "stage_filter_2 cfg T (result_of (ls_results st) p) p = stage_at cfg (tables (large cfg) (seeds ! unat (seed_index p))) (Suc k) p"
    if "p \<in> set xs" for p
    unfolding T(1)
  proof (rule stage_filter_2_tables)
    let ?i = "unat (seed_index p)"
    have i: "?i < length seeds" using assms(4) by_seed_index [OF _ that] by (auto simp: in_stage_def)
    have fl: "unat (ls_flags st ! ?i) \<le> 4" "octaves_ready (large cfg) (seeds ! ?i) {0..<ready_slots (unat (ls_flags st ! ?i))} (ls_results st ! ?i)"
      using assms(5) i by (auto simp: late_inv_def tables_fit_def)
    moreover have "ready_slots j \<le> ready_slots (unat (ls_flags st ! ?i))"
      using assms(5) that fl(1) by (intro ready_slots_mono) (simp_all add: tables_fit_def)
    ultimately show "octaves_ready (large cfg) (seeds ! ?i) {0..<ready_slots j} (result_of (ls_results st) p)"
      by (auto simp: octaves_ready_def result_of_def)
    show "t_octaves T \<le> ready_slots j" "ready_slots j \<le> 18" using T(2,3) ready_slots_values(1) by simp_all
  qed
  then have "settles fails (gpu_stage cfg (Suc k) (stage_buffer (Suc k)) (\<lambda>p. stage_filter_2 cfg T (result_of (ls_results st) p) p) xs)
    (\<lambda>ys. in_stage cfg seeds (Suc k) ys \<and> (\<forall>q\<in>set ys. \<exists>p\<in>set xs. seed_index q = seed_index p))"
    by (intro next_stage_settles [OF assms(1,2,3,4) _ fail] ballI)
  then show ?thesis using assms(5) by (fastforce simp: settles_def tables_fit_def split: option.splits)
qed

section \<open>The iteration\<close>

lemma fits_seeds_settles:
  assumes "sched_ok cfg" "length (passing_seeds l start_seed) \<le> 2 ^ 16 \<or> fails"
  shows "settles fails (fits buffer_seeds 8 (sched_seeds cfg (List.map_filter (filter_seeds l) (map (\<lambda>i. start_seed + of_nat i) [0..<2 ^ 28]))))
    (\<lambda>seeds. mset seeds = mset (passing_seeds l start_seed) \<and> length seeds \<le> 2 ^ 16)"
proof -
  let ?s = "sched_seeds cfg (passing_seeds l start_seed)"
  have m: "mset ?s = mset (passing_seeds l start_seed)" using assms(1) unfolding sched_ok_def by blast
  then have "length ?s = length (passing_seeds l start_seed)" by (rule mset_eq_length)
  then show ?thesis unfolding passing_seeds_def [symmetric] using assms(2) m
    by (auto simp: settles_def fits_def buffer_seeds_def)
qed

lemma gpu_outputs_mset:
  assumes "in_stage cfg seeds 7 fd"
  shows "mset (map (\<lambda>p. \<lparr>go_seed = seeds ! unat (seed_index p), go_x = pos_x p * 4, go_z = pos_z p * 4\<rparr>) fd) =
         mset (concat (map (seed_outputs cfg) seeds))"
proof -
  let ?n = "length seeds" and ?C = "\<lambda>i. stage_chain cfg (seeds ! i) (of_nat i) 7"
  let ?out = "\<lambda>p. \<lparr>go_seed = seeds ! unat (seed_index p), go_x = pos_x p * 4, go_z = pos_z p * 4\<rparr>"
  have b: "by_seed ?n fd ?C" using assms by (simp add: in_stage_def)
  have "mset (map ?out fd) = mset (concat (map (\<lambda>i. map ?out (?C i)) [0..<?n]))"
    using b by (simp only: mset_map by_seed_def mset_map [symmetric] map_concat map_map comp_def)
  also have "map (\<lambda>i. map ?out (?C i)) [0..<?n] = map (\<lambda>i. seed_outputs cfg (seeds ! i)) [0..<?n]"
  proof (intro map_cong refl)
    fix i assume "i \<in> set [0..<?n]"
    then have "map ?out (?C i) = map (gpu_output (seeds ! i)) (?C i)" using b by (intro map_cong refl) (auto simp: by_seed_def gpu_output_def)
    then show "map ?out (?C i) = seed_outputs cfg (seeds ! i)" unfolding seed_outputs_at .
  qed
  also have "\<dots> = map (seed_outputs cfg) (map ((!) seeds) [0..<?n])" by simp
  finally show ?thesis unfolding map_nth .
qed

lemma concat_map_mset: "mset xs = mset ys \<Longrightarrow> mset (concat (map f xs)) = mset (concat (map f ys))"
  by (rule mset_concat_map_cong) simp_all

lemma stage_lens_mset: "mset seeds = mset seeds' \<Longrightarrow> stage_lens cfg seeds = stage_lens cfg seeds'"
  using stage_count_mset [of seeds seeds' cfg] mset_eq_length [of seeds seeds'] by (simp add: stage_lens_def)

text \<open>Both outcomes of an iteration: it gives what the seeds determine, or a buffer overflows or an initialisation does not return.\<close>

definition iteration_spec :: "GpuConfig \<Rightarrow> u64 \<Rightarrow> Result list \<Rightarrow> GpuOutput list \<times> Result list \<times> BufferLens \<Rightarrow> bool" where
  "iteration_spec cfg start_seed results = (\<lambda>(outs, results', lens).
     mset outs = mset (concat (map (seed_outputs cfg) (passing_seeds (large cfg) start_seed))) \<and>
     lens = stage_lens cfg (passing_seeds (large cfg) start_seed) \<and> map length results' = map length results \<and>
     buffers_hold cfg (passing_seeds (large cfg) start_seed))"

lemma iteration_result:
  assumes "mset seeds = mset (passing_seeds (large cfg) start_seed)" "length seeds \<le> 2 ^ 16"
    and S: "in_stage cfg seeds 0 g1" "in_stage cfg seeds 1 a0" "in_stage cfg seeds 2 g2" "in_stage cfg seeds 3 b0"
      "in_stage cfg seeds 4 fa" "in_stage cfg seeds 5 fb" "in_stage cfg seeds 6 fc" "in_stage cfg seeds 7 fd"
    and "tables_fit (large cfg) seeds results 4 st fd"
  shows "iteration_spec cfg start_seed results
    (map (\<lambda>p. \<lparr>go_seed = seeds ! unat (seed_index p), go_x = pos_x p * 4, go_z = pos_z p * 4\<rparr>) fd, ls_results st,
     zero_lens\<lparr>results_len_filter_seeds := of_nat (length seeds), results_len_filter_gradvecs_1 := of_nat (length g1),
       results_len_filter_2_0a := of_nat (length a0), results_len_filter_gradvecs_2 := of_nat (length g2),
       results_len_filter_2_0b := of_nat (length b0),
       results_len_filter_2 := (\<lambda>_. 0)(0 := of_nat (length fa), 1 := of_nat (length fb), 2 := of_nat (length fc), 3 := of_nat (length fd))\<rparr>)"
  unfolding iteration_spec_def prod.case
proof (intro conjI)
  show "mset (map (\<lambda>p. \<lparr>go_seed = seeds ! unat (seed_index p), go_x = pos_x p * 4, go_z = pos_z p * 4\<rparr>) fd) =
      mset (concat (map (seed_outputs cfg) (passing_seeds (large cfg) start_seed)))"
    unfolding gpu_outputs_mset [OF S(8)] by (rule concat_map_mset [OF assms(1)])
  note len = S [THEN in_stage_length, simplified]
  show "zero_lens\<lparr>results_len_filter_seeds := of_nat (length seeds), results_len_filter_gradvecs_1 := of_nat (length g1),
       results_len_filter_2_0a := of_nat (length a0), results_len_filter_gradvecs_2 := of_nat (length g2),
       results_len_filter_2_0b := of_nat (length b0),
       results_len_filter_2 := (\<lambda>_. 0)(0 := of_nat (length fa), 1 := of_nat (length fb), 2 := of_nat (length fc), 3 := of_nat (length fd))\<rparr> =
     stage_lens cfg (passing_seeds (large cfg) start_seed)"
    unfolding stage_lens_mset [OF assms(1), symmetric] by (simp add: stage_lens_def len)
  have "[0..<8] = [0, 1, 2, 3, 4, 5, 6, 7 :: nat]" by (simp add: upt_rec)
  moreover have "length (passing_seeds (large cfg) start_seed) = length seeds" by (rule mset_eq_length [OF assms(1) [symmetric]])
  ultimately show "buffers_hold cfg (passing_seeds (large cfg) start_seed)"
    using S assms(2) by (simp add: buffers_hold_def in_stage_def stage_count_mset [OF assms(1), symmetric])
  show "map length (ls_results st) = map length results" using assms(11) by (simp add: tables_fit_def)
qed

lemma gpu_iteration_settles:
  assumes cfg: "sched_ok cfg" and results: "2 ^ 16 \<le> length results" "\<forall>r\<in>set results. length r = 18"
    and fails: "fails \<longleftrightarrow> \<not> buffers_hold cfg (passing_seeds (large cfg) start_seed) \<or> \<not> noises_return (large cfg) (passing_seeds (large cfg) start_seed)"
  shows "settles fails (gpu_iteration cfg start_seed results) (iteration_spec cfg start_seed results)"
proof -
  let ?l = "large cfg" and ?passing = "passing_seeds (large cfg) start_seed"
  let ?I = "\<lambda>seeds. mset seeds = mset ?passing \<and> length seeds \<le> 2 ^ 16"
  let ?S = "in_stage cfg" and ?T = "tables_fit ?l"
  have count: "\<not> stage_count cfg seeds k \<le> db_size (stage_buffer k) div sizeof_SeedPos \<Longrightarrow> fails" if "?I seeds" "k < 8" for seeds k
    using fails that stage_count_mset [of seeds ?passing cfg k] by (auto simp: buffers_hold_def list_all_iff)
  have noise: "\<not> noises_return ?l seeds \<Longrightarrow> fails" if "?I seeds" for seeds
    using fails noises_return_mset [of seeds ?passing ?l] that by simp
  have seeds: "settles fails (fits buffer_seeds 8 (sched_seeds cfg (List.map_filter (filter_seeds ?l) (map (\<lambda>i. start_seed + of_nat i) [0..<2 ^ 28])))) ?I"
    by (rule fits_seeds_settles [OF cfg]) (use fails in \<open>auto simp: buffers_hold_def\<close>)
  let ?st = "\<lambda>rs. \<lparr>ls_results = rs, ls_flags = replicate (length results) 0\<rparr>"
  let ?R = "\<lambda>seeds. fresh_tables ?l seeds results"
  have init: "settles fails (kernel_init ?l kernel_slots seeds [0..<length seeds] results) (?R seeds)" if "?I seeds" for seeds
    by (rule first_kernel_settles [OF _ results]) (use that noise in auto)
  have g1: "settles fails (gpu_stage cfg 0 buffer_2 (\<lambda>i. stage_gradvecs_1 cfg (rs ! i) (of_nat i)) [0..<length seeds]) (?S seeds 0)"
    if "?I seeds" "?R seeds rs" for seeds rs
    by (rule first_stage_settles [OF cfg]) (use that count [of seeds 0] in \<open>auto simp: fresh_tables_def\<close>)
  have early: "settles fails (gpu_stage cfg (Suc k) (stage_buffer (Suc k)) (\<lambda>p. stage_at cfg (result_of rs p) (Suc k) p) xs) (?S seeds (Suc k))"
    if "k < 3" "?I seeds" "?R seeds rs" "?S seeds k xs" for seeds rs xs k
    by (rule early_stage_settles [OF cfg]) (use that count [of seeds "Suc k"] in \<open>auto simp: fresh_tables_def\<close>)
  have late: "settles fails (late_kernel ?l seeds j xs st) (\<lambda>st'. ?T seeds results j st' xs)"
    if "1 \<le> j" "j \<le> 4" "?I seeds" "?S seeds k xs" "?T seeds results (j - 1) st xs" for seeds k xs j st
    by (rule late_kernel_settles [OF that(4,5,1,2) noise [OF that(3)]])
  have late1: "settles fails (late_kernel ?l seeds 1 xs (?st rs)) (\<lambda>st'. ?T seeds results 1 st' xs)"
    if "?I seeds" "?R seeds rs" "?S seeds k xs" for seeds rs xs k
    by (rule late) (use that in \<open>auto simp: tables_fit_def fresh_tables_def\<close>)
  have filt: "settles fails (gpu_stage cfg (Suc k) (stage_buffer (Suc k)) (\<lambda>p. stage_filter_2 cfg T (result_of (ls_results st) p) p) xs)
      (\<lambda>ys. ?S seeds (Suc k) ys \<and> ?T seeds results j st ys)"
    if "k < 7" "\<And>r. stage_at cfg r (Suc k) = stage_filter_2 cfg T r" "t_octaves T \<le> ready_slots j" "j \<le> 4"
      "?I seeds" "?S seeds k xs" "?T seeds results j st xs" for seeds k xs st T j
    by (rule late_stage_settles [OF cfg]) (use that count [of seeds "Suc k"] in auto)
  note N = stage_buffer_numbers and A = stage_at_numbers and o = filter_2_octaves
  have lt: "(0 :: nat) < 3" "(1 :: nat) < 3" "(2 :: nat) < 3" "(3 :: nat) < 7" "(4 :: nat) < 7" "(5 :: nat) < 7" "(6 :: nat) < 7"
    "(1 :: nat) \<le> 4" "(2 :: nat) \<le> 4" "(3 :: nat) \<le> 4" "(4 :: nat) \<le> 4" "(1 :: nat) \<le> 2" "(1 :: nat) \<le> 3" "(1 :: nat) \<le> 4" by simp_all
  have num: "Suc 0 = 1" "Suc 1 = 2" "Suc 2 = 3" "Suc 3 = 4" "Suc 4 = 5" "Suc 5 = 6" "Suc 6 = 7" "(2 :: nat) - 1 = 1" "(3 :: nat) - 1 = 2" "(4 :: nat) - 1 = 3"
    by simp_all
  note E = early [OF lt(1), unfolded N A, unfolded num] early [OF lt(2), unfolded N A, unfolded num] early [OF lt(3), unfolded N A, unfolded num]
  note L = late1 late [OF lt(12) lt(9), unfolded num] late [OF lt(13) lt(10), unfolded num] late [OF lt(14) lt(11), unfolded num]
  note F = filt [OF lt(4) A(1) o(1) lt(8), unfolded N, unfolded num] filt [OF lt(5) A(2) o(2) lt(9), unfolded N, unfolded num]
    filt [OF lt(6) A(3) o(3) lt(10), unfolded N, unfolded num] filt [OF lt(7) A(4) o(4) lt(11), unfolded N, unfolded num]
  note B = settles_bind
  show ?thesis
    unfolding gpu_iteration_def
    apply (rule B [OF seeds], rule B, rule init, assumption, rule B, rule g1, assumption, assumption)
    apply (rule B, rule E(1), assumption+, rule B, rule E(2), assumption+, rule B, rule E(3), assumption+)
    apply (rule B, rule L(1), assumption+, rule B, rule F(1), assumption+, elim conjE)
    apply (rule B, rule L(2), (assumption | rule conjI)+, rule B, rule F(2), (assumption | rule conjI)+, elim conjE)
    apply (rule B, rule L(3), (assumption | rule conjI)+, rule B, rule F(3), (assumption | rule conjI)+, elim conjE)
    apply (rule B, rule L(4), (assumption | rule conjI)+, rule B, rule F(4), (assumption | rule conjI)+, elim conjE)
    unfolding settles_def option.case
    by (rule iteration_result, assumption+)
qed

text \<open>The origin mode: the origin for every seed that passes both checks.\<close>

definition origin_hit :: "GpuConfig \<Rightarrow> u64 \<Rightarrow> bool" where
  "origin_hit cfg seed \<longleftrightarrow>
     origin_check (chosen_continentalness_config (large cfg)) init_grad_dot_table (tables (large cfg) seed) 0 \<noteq> None"

definition origin_outputs :: "GpuConfig \<Rightarrow> u64 \<Rightarrow> GpuOutput list" where
  "origin_outputs cfg start_seed =
     map (\<lambda>seed. \<lparr>go_seed = seed, go_x = 0, go_z = 0\<rparr>) (filter (origin_hit cfg) (passing_seeds (large cfg) start_seed))"

definition origin_spec :: "GpuConfig \<Rightarrow> u64 \<Rightarrow> Result list \<Rightarrow> GpuOutput list \<times> Result list \<times> BufferLens \<Rightarrow> bool" where
  "origin_spec cfg start_seed results = (\<lambda>(outs, results', lens).
     mset outs = mset (origin_outputs cfg start_seed) \<and>
     lens = zero_lens\<lparr>results_len_filter_seeds := of_nat (length (passing_seeds (large cfg) start_seed)),
                      results_len_origin := of_nat (length (origin_outputs cfg start_seed))\<rparr> \<and>
     map length results' = map length results \<and> length (passing_seeds (large cfg) start_seed) \<le> 2 ^ 16)"

lemma origin_check_hit:
  assumes "octaves_ready (large cfg) seed {0..<18} r"
  shows "origin_check (chosen_continentalness_config (large cfg)) init_grad_dot_table r si =
     (if origin_hit cfg seed then Some \<lparr>seed_index = si, pos_x = 0, pos_z = 0\<rparr> else None)"
proof -
  have "origin_check c init_grad_dot_table r si = origin_check c init_grad_dot_table (tables (large cfg) seed) si" for c
    unfolding origin_check_def using sample_all_cong(1) [of 18 r "tables (large cfg) seed"] tables_ready [OF assms] by simp
  then show ?thesis by (simp add: origin_hit_def origin_check_def Let_def)
qed

lemma concat_map_filter: "concat (map (\<lambda>i. map g (filter P [h i])) is) = map g (filter P (map h is))"
  by (induction "is") simp_all

lemma gpu_iteration_origin_settles:
  assumes cfg: "sched_ok cfg" and results: "2 ^ 16 \<le> length results" "\<forall>r\<in>set results. length r = 18"
    and fails: "fails \<longleftrightarrow> \<not> length (passing_seeds (large cfg) start_seed) \<le> 2 ^ 16 \<or> \<not> noises_return (large cfg) (passing_seeds (large cfg) start_seed)"
  shows "settles fails (gpu_iteration_origin cfg start_seed results) (origin_spec cfg start_seed results)"
proof -
  let ?l = "large cfg" and ?c = "chosen_continentalness_config (large cfg)" and ?passing = "passing_seeds (large cfg) start_seed"
  let ?I = "\<lambda>seeds. mset seeds = mset ?passing \<and> length seeds \<le> 2 ^ 16"
  let ?check = "\<lambda>rs i. option_list (origin_check ?c init_grad_dot_table (rs ! i) (of_nat i))"
  let ?out = "\<lambda>seeds p. \<lparr>go_seed = seeds ! unat (seed_index p), go_x = pos_x p * 4, go_z = pos_z p * 4\<rparr>"
  let ?outs = "\<lambda>seeds. map (\<lambda>seed. \<lparr>go_seed = seed, go_x = 0, go_z = 0\<rparr>) (filter (origin_hit cfg) seeds)"
  have seeds: "settles fails (fits buffer_seeds 8 (sched_seeds cfg (List.map_filter (filter_seeds ?l) (map (\<lambda>i. start_seed + of_nat i) [0..<2 ^ 28])))) ?I"
    by (rule fits_seeds_settles [OF cfg]) (use fails in auto)
  let ?R = "\<lambda>seeds rs. map length rs = map length results \<and> (\<forall>i<length seeds. octaves_ready ?l (seeds ! i) {0..<18} (rs ! i))"
  have init: "settles fails (kernel_init ?l kernel_full_slots seeds [0..<length seeds] results) (?R seeds)" if I: "?I seeds" for seeds
  proof -
    have *: "settles fails (kernel_init ?l kernel_full_slots seeds [0..<length seeds] results)
      (\<lambda>rs. kernel_init ?l kernel_full_slots seeds [0..<length seeds] results = Some rs \<and> map length rs = map length results)"
      by (rule kernel_init_settles) (use fails noises_return_mset [of seeds ?passing ?l] I in \<open>auto simp: kernel_full_slots_set\<close>)
    have "\<forall>i\<in>set [0..<length seeds]. i < length results \<and> length (results ! i) = 18" using I results by auto
    note ready = kernel_init_ready [OF _ _ this, of ?l kernel_full_slots seeds]
    show ?thesis by (rule settles_weaken [OF *]) (use ready in \<open>auto simp: kernel_full_slots_set\<close>)
  qed
  have checks: "map (?out seeds) (concat (map (?check rs) [0..<length seeds])) = ?outs seeds" if "?I seeds" "?R seeds rs" for seeds rs
  proof -
    have "map (?out seeds) (?check rs i) = map (\<lambda>seed. \<lparr>go_seed = seed, go_x = 0, go_z = 0\<rparr>) (filter (origin_hit cfg) [seeds ! i])"
      if "i < length seeds" for i
    proof -
      have "unat (of_nat i :: u32) = i" using that \<open>?I seeds\<close> by (simp add: unat_of_nat)
      moreover have "octaves_ready ?l (seeds ! i) {0..<18} (rs ! i)" using that \<open>?R seeds rs\<close> by blast
      ultimately show ?thesis by (simp add: origin_check_hit option_list_def)
    qed
    then have "map (?out seeds) (concat (map (?check rs) [0..<length seeds])) =
        concat (map (\<lambda>i. map (\<lambda>seed. \<lparr>go_seed = seed, go_x = 0, go_z = 0\<rparr>) (filter (origin_hit cfg) [seeds ! i])) [0..<length seeds])"
      unfolding map_concat map_map comp_def by (intro arg_cong [where f = concat] map_cong refl) simp
    also have "\<dots> = ?outs (map ((!) seeds) [0..<length seeds])" by (rule concat_map_filter)
    finally show ?thesis unfolding map_nth .
  qed
  have stage: "settles fails (gpu_stage cfg 0 buffer_2 (?check rs) [0..<length seeds]) (\<lambda>ps. mset (map (?out seeds) ps) = mset (?outs seeds))"
    if I: "?I seeds" and R: "?R seeds rs" for seeds rs
  proof -
    let ?ps = "sched cfg 0 (concat (map (?check rs) [0..<length seeds]))"
    have "mset ?ps = mset (concat (map (?check rs) [0..<length seeds]))" using cfg unfolding sched_ok_def by blast
    then have m: "mset (map (?out seeds) ?ps) = mset (?outs seeds)" unfolding checks [OF that, symmetric] mset_map by simp
    have "length ?ps = length (?outs seeds)" using mset_eq_length [OF m] by simp
    also have "\<dots> \<le> length seeds" by simp
    finally have "length ?ps \<le> db_size buffer_2 div sizeof_SeedPos" using I by (simp add: buffer_2_def sizeof_SeedPos_def)
    then show ?thesis using m by (simp add: gpu_stage_def fits_def settles_def)
  qed
  have result: "origin_spec cfg start_seed results (map (?out seeds) ps, rs,
      zero_lens\<lparr>results_len_filter_seeds := of_nat (length seeds), results_len_origin := of_nat (length ps)\<rparr>)"
    if "?I seeds" "?R seeds rs" "mset (map (?out seeds) ps) = mset (?outs seeds)" for seeds rs ps
  proof -
    have "mset (?outs seeds) = mset (origin_outputs cfg start_seed)" using that(1) by (simp add: origin_outputs_def)
    then have m: "mset (map (?out seeds) ps) = mset (origin_outputs cfg start_seed)" using that(3) by simp
    moreover have "length ps = length (origin_outputs cfg start_seed)" using mset_eq_length [OF m] by simp
    ultimately show ?thesis using that(1,2) mset_eq_length [of seeds ?passing] by (simp add: origin_spec_def)
  qed
  note B = settles_bind
  show ?thesis unfolding gpu_iteration_origin_def
    apply (rule B [OF seeds], rule B, rule init, assumption, rule B, rule stage, assumption+)
    unfolding settles_def option.case
    by (rule result)
qed

section \<open>Properties\<close>



text \<open>
  In origin mode an iteration pushes, for the seeds of its range that pass the prefilter, the origin itself
  exactly when the seed's own tables satisfy the origin filter. It ends with a result whenever the buffer holds the
  seeds and their noise tables come out.
\<close>

theorem gpu_iteration_origin_exact:
  assumes "sched_ok cfg" "2 ^ 16 \<le> length results" "\<forall>r\<in>set results. length r = 18"
  shows "let passing = passing_seeds (large cfg) start_seed
         in (length passing \<le> 2 ^ 16 \<and> noises_return (large cfg) passing \<longrightarrow> gpu_iteration_origin cfg start_seed results \<noteq> None) \<and>
            (case gpu_iteration_origin cfg start_seed results of
               None \<Rightarrow> True
             | Some (outs, results', lens) \<Rightarrow>
                 mset outs = mset (map (\<lambda>seed. \<lparr>go_seed = seed, go_x = 0, go_z = 0\<rparr>) (filter (origin_hit cfg) passing)) \<and> length passing \<le> 2 ^ 16)"
  using gpu_iteration_origin_settles [OF assms refl, of start_seed]
  by (auto simp: settles_def origin_spec_def origin_outputs_def Let_def split: option.splits)

lemma gpu_iteration_origin_exact_witness:
  "let cfg = \<lparr>large = True, unbounded = False, weights_0A = (\<lambda>_ _ _ _. 1), weights_0B = (\<lambda>_ _ _ _. 1), junk = replicate 10 0,
              sched_seeds = rev, sched = (\<lambda>k. rev)\<rparr>;
       noise = \<lparr>in_p = replicate 256 0, in_xo = 0, in_yo = 0, in_zo = 0\<rparr>
   in case gpu_iteration_origin cfg 99 (replicate (2 ^ 16) (replicate 18 noise)) of
        None \<Rightarrow> True
      | Some (outs, _, _) \<Rightarrow>
          mset outs = mset (map (\<lambda>seed. \<lparr>go_seed = seed, go_x = 0, go_z = 0\<rparr>) (filter (origin_hit cfg) (passing_seeds True 99)))"
proof -
  let ?cfg = "\<lparr>large = True, unbounded = False, weights_0A = (\<lambda>_ _ _ _. 1), weights_0B = (\<lambda>_ _ _ _. 1), junk = replicate 10 0,
              sched_seeds = rev, sched = (\<lambda>k. rev)\<rparr>"
  have ok: "sched_ok ?cfg" by (simp add: sched_ok_def)
  have len: "2 ^ 16 \<le> length (replicate (2 ^ 16) x)" for x :: 'x by (simp only: length_replicate order_refl)
  have l18: "\<forall>r\<in>set (replicate (2 ^ 16) (replicate 18 x)). length r = 18" for x :: 'x by (metis in_set_replicate length_replicate)
  have l: "large ?cfg = True" by simp
  show ?thesis unfolding Let_def
    using gpu_iteration_origin_exact [OF ok len l18, of 99] unfolding Let_def l by (fastforce split: option.splits prod.splits)
qed

end
