(* ===== verification/GpuReport.thy ===== *)
theory GpuReport
  imports GpuPipeline
begin

text \<open>
  What a GPU thread measures and reports (\<open>src/src/gpu.cu\<close>): the stage statistics over the lengths the
  host copies back, the scaling of the printed rates, and the aggregator that collects one snapshot per
  GPU thread and prints a combined report. The aggregator is a step relation over the threads; the
  invariant gives that every report has exactly one snapshot of every thread, and that a thread that
  stops submitting stops all reports.
\<close>

section \<open>Definitions: stage statistics\<close>

text \<open>The pointers to lengths are selectors on the host's copy.\<close>

record StageStats =
  ss_name :: string
  inputs_len :: "(BufferLens \<Rightarrow> u32) option"
  outputs_len :: "BufferLens \<Rightarrow> u32"
  inputs_multiplier :: u64
  max_outputs_len :: u32
  total_time :: rat
  total_inputs :: u64
  total_outputs :: u64

definition new_stage :: "string \<Rightarrow> (BufferLens \<Rightarrow> u32) option \<Rightarrow> (BufferLens \<Rightarrow> u32) \<Rightarrow> u64 \<Rightarrow> u32 \<Rightarrow> StageStats" where
  "new_stage name ins outs per_input max_len =
     \<lparr>ss_name = name, inputs_len = ins, outputs_len = outs, inputs_multiplier = per_input, max_outputs_len = max_len,
      total_time = 0, total_inputs = 0, total_outputs = 0\<rparr>"

text \<open>\<open>update\<close> also says whether the overflow message is printed.\<close>

definition StageStats_update :: "rat \<Rightarrow> BufferLens \<Rightarrow> StageStats \<Rightarrow> StageStats \<times> bool" where
  "StageStats_update elapsed_ms lens s =
     (let s' = s\<lparr>total_time := total_time s + elapsed_ms * (1 / 1000),
                 total_inputs := total_inputs s + (case inputs_len s of None \<Rightarrow> 1 | Some len \<Rightarrow> ucast (len lens)),
                 total_outputs := total_outputs s + ucast (outputs_len s lens)\<rparr>
      in (s', outputs_len s lens > max_outputs_len s))"

definition StageStats_reset :: "StageStats \<Rightarrow> StageStats" where
  "StageStats_reset s = s\<lparr>total_time := 0, total_inputs := 0, total_outputs := 0\<rparr>"

definition max_len_of :: "DeviceBuffer \<Rightarrow> nat \<Rightarrow> u32" where
  "max_len_of buffer sizeof_T = ob_max_len (OutputBuffer_of buffer sizeof_T ([] :: nat list))"

definition filter_2_buffer :: "nat \<Rightarrow> DeviceBuffer" where
  "filter_2_buffer i = (if i mod 2 = 0 then buffer_1 else buffer_2)"

definition filter_2_len :: "nat \<Rightarrow> BufferLens \<Rightarrow> u32" where
  "filter_2_len i lens = results_len_filter_2 lens i"

definition stage_filter_seeds :: StageStats where
  "stage_filter_seeds = new_stage ''filter_seeds'' None results_len_filter_seeds (2 ^ 28) (max_len_of buffer_seeds 8)"

definition stage_init_seeds :: StageStats where
  "stage_init_seeds = new_stage ''init_seeds'' (Some results_len_filter_seeds) results_len_filter_seeds 1 (2 ^ 16)"

definition filter_2_stages :: "StageStats list" where
  "filter_2_stages = concat (map (\<lambda>i.
     let inputs = (if i = 0 then results_len_filter_2_0b else filter_2_len (i - 1));
         stage = new_stage (''filter_2'' @ [(''abcd'' ! i)]) (Some inputs) (filter_2_len i) 1 (max_len_of (filter_2_buffer i) sizeof_SeedPos)
     in if i < 3
        then [stage, new_stage (''init_seeds_late_'' @ [(''2345'' ! i)]) (Some (filter_2_len i)) (filter_2_len i) 1
                (max_len_of (filter_2_buffer i) sizeof_SeedPos)]
        else [stage]) [0..<4])"

definition stage_stats :: "bool \<Rightarrow> u64 \<Rightarrow> StageStats list" where
  "stage_stats origin threads_per_seed =
     [stage_filter_seeds, stage_init_seeds] @
     (if origin
      then [new_stage ''filter_origin'' (Some results_len_filter_seeds) results_len_origin 1 (max_len_of buffer_2 sizeof_SeedPos)]
      else [new_stage ''filter_gradvecs_1'' (Some results_len_filter_seeds) results_len_filter_gradvecs_1 (256 * 256) (max_len_of buffer_2 sizeof_SeedPos),
            new_stage ''filter_2_01a'' (Some results_len_filter_gradvecs_1) results_len_filter_2_0a 1 (max_len_of buffer_1 sizeof_SeedPos),
            new_stage ''filter_gradvecs_2'' (Some results_len_filter_2_0a) results_len_filter_gradvecs_2 threads_per_seed (max_len_of buffer_2 sizeof_SeedPos),
            new_stage ''filter_2_01b'' (Some results_len_filter_gradvecs_2) results_len_filter_2_0b 1 (max_len_of buffer_2 sizeof_SeedPos),
            new_stage ''init_seeds_late_1'' (Some results_len_filter_2_0b) results_len_filter_2_0b 1 (max_len_of buffer_2 sizeof_SeedPos)]
           @ filter_2_stages)"

text \<open>The clamping of the lengths right after they are copied to the host.\<close>

definition clamp_lens :: "bool \<Rightarrow> BufferLens \<Rightarrow> BufferLens" where
  "clamp_lens origin lens =
     lens\<lparr>results_len_filter_seeds := min (results_len_filter_seeds lens) (max_len_of buffer_seeds 8),
          results_len_filter_gradvecs_1 := min (results_len_filter_gradvecs_1 lens) (max_len_of buffer_2 sizeof_SeedPos),
          results_len_origin := min (results_len_origin lens) (max_len_of buffer_2 sizeof_SeedPos),
          results_len_filter_2_0a := min (results_len_filter_2_0a lens) (max_len_of buffer_1 sizeof_SeedPos),
          results_len_filter_gradvecs_2 := min (results_len_filter_gradvecs_2 lens) (max_len_of buffer_2 sizeof_SeedPos),
          results_len_filter_2_0b := min (results_len_filter_2_0b lens) (max_len_of buffer_2 sizeof_SeedPos),
          results_len_filter_2 := (\<lambda>k. if \<not> origin \<and> k < 4 then min (results_len_filter_2 lens k) (max_len_of (filter_2_buffer k) sizeof_SeedPos)
                                       else results_len_filter_2 lens k)\<rparr>"

definition update_all :: "(nat \<Rightarrow> rat) \<Rightarrow> bool \<Rightarrow> BufferLens \<Rightarrow> StageStats list \<Rightarrow> (StageStats \<times> bool) list" where
  "update_all elapsed origin lens stages =
     map (\<lambda>i. StageStats_update (elapsed i) (clamp_lens origin lens) (stages ! i)) [0..<length stages]"

definition scale_si :: "rat \<Rightarrow> rat \<times> char" where
  "scale_si val =
     (case find (\<lambda>u. val \<ge> fst u) [(10 ^ 12, CHR ''T''), (10 ^ 9, CHR ''G''), (10 ^ 6, CHR ''M''), (10 ^ 3, CHR ''k'')] of
        Some (unit_scale, unit) \<Rightarrow> (val / unit_scale, unit)
      | None \<Rightarrow> (val, CHR '' ''))"

section \<open>Definitions: the report aggregator\<close>

record StageStatsSnapshot =
  sn_name :: string
  sn_multiplier :: u64
  sn_time :: rat
  sn_inputs :: u64
  sn_outputs :: u64

record GpuReportSnapshot =
  rs_device :: nat
  rs_start_seed :: u64
  rs_host_time :: rat
  rs_stages :: "StageStatsSnapshot list"
  rs_inputs :: u64
  rs_outputs :: u64

text \<open>The figures of one stage's line of the combined report.\<close>

record StageLine =
  sl_name :: string
  sl_avg_time :: rat
  sl_inputs :: u64
  sl_outputs :: u64

definition max_host_time :: "GpuReportSnapshot list \<Rightarrow> rat" where
  "max_host_time sorted_snaps = fold (\<lambda>snap m. max m (rs_host_time snap)) sorted_snaps 0"

definition stage_line :: "GpuReportSnapshot list \<Rightarrow> nat \<Rightarrow> StageLine" where
  "stage_line sorted_snaps stage_idx =
     (let combined_time = fold (\<lambda>snap t. t + sn_time (rs_stages snap ! stage_idx)) sorted_snaps 0;
          combined_inputs = fold (\<lambda>snap n. n + sn_inputs (rs_stages snap ! stage_idx)) sorted_snaps 0;
          combined_outputs = fold (\<lambda>snap n. n + sn_outputs (rs_stages snap ! stage_idx)) sorted_snaps 0;
          per_input = sn_multiplier (rs_stages (hd sorted_snaps) ! stage_idx)
      in \<lparr>sl_name = sn_name (rs_stages (hd sorted_snaps) ! stage_idx),
          sl_avg_time = combined_time / of_nat (length sorted_snaps),
          sl_inputs = combined_inputs * per_input,
          sl_outputs = combined_outputs\<rparr>)"

definition print_combined :: "GpuReportSnapshot list \<Rightarrow> (rat \<times> StageLine list \<times> u64 \<times> u64 \<times> GpuReportSnapshot list) option" where
  "print_combined snapshots =
     (let sorted_snaps = sort_key rs_device snapshots
      in if sorted_snaps = [] then None
         else Some (max_host_time sorted_snaps,
                    map (stage_line sorted_snaps) [0..<length (rs_stages (hd sorted_snaps))],
                    fold (\<lambda>snap n. n + rs_inputs snap) sorted_snaps 0,
                    fold (\<lambda>snap n. n + rs_outputs snap) sorted_snaps 0,
                    sorted_snaps))"

text \<open>
  \<open>submit\<close>: a thread adds its snapshot; unless it is the last of the round it waits until the generation
  has changed, otherwise it prints (with the lock released), clears the snapshots and starts the next
  generation. The mutex makes each of the four parts atomic.
\<close>

datatype Submitter = Running | Waiting nat | Printing | Printed

record Aggregator =
  snapshots :: "(nat \<times> GpuReportSnapshot) list"
  generation :: nat
  submitters :: "nat \<Rightarrow> Submitter"
  reports :: "(nat \<times> GpuReportSnapshot) list list"

definition aggregator_start :: Aggregator where
  "aggregator_start = \<lparr>snapshots = [], generation = 0, submitters = (\<lambda>_. Running), reports = []\<rparr>"

inductive agg_step :: "nat \<Rightarrow> nat \<Rightarrow> Aggregator \<Rightarrow> Aggregator \<Rightarrow> bool" for expected_count t where
  submit_wait: "agg_step expected_count t a
      (a\<lparr>snapshots := snapshots a @ [(t, snap)], submitters := (submitters a)(t := Waiting (generation a))\<rparr>)"
    if "submitters a t = Running" "t < expected_count" "length (snapshots a) + 1 < expected_count"
| submit_last: "agg_step expected_count t a
      (a\<lparr>snapshots := snapshots a @ [(t, snap)], submitters := (submitters a)(t := Printing)\<rparr>)"
    if "submitters a t = Running" "t < expected_count" "\<not> length (snapshots a) + 1 < expected_count"
| print_report: "agg_step expected_count t a (a\<lparr>reports := reports a @ [snapshots a], submitters := (submitters a)(t := Printed)\<rparr>)"
    if "submitters a t = Printing" "t < expected_count"
| next_generation: "agg_step expected_count t a
      (a\<lparr>snapshots := [], generation := generation a + 1, submitters := (submitters a)(t := Running)\<rparr>)"
    if "submitters a t = Printed" "t < expected_count"
| wake_up: "agg_step expected_count t a (a\<lparr>submitters := (submitters a)(t := Running)\<rparr>)"
    if "submitters a t = Waiting g" "g \<noteq> generation a" "t < expected_count"

inductive agg_reach :: "nat \<Rightarrow> Aggregator \<Rightarrow> bool" for expected_count where
  agg_start: "agg_reach expected_count aggregator_start"
| agg_next: "agg_reach expected_count a'" if "agg_reach expected_count a" "agg_step expected_count t a a'"

text \<open>Steps of the threads other than \<open>stopped\<close>.\<close>

inductive agg_without :: "nat \<Rightarrow> nat \<Rightarrow> Aggregator \<Rightarrow> Aggregator \<Rightarrow> bool" for expected_count stopped where
  without_start: "agg_without expected_count stopped a a"
| without_next: "agg_without expected_count stopped a a''"
    if "agg_without expected_count stopped a a'" "agg_step expected_count t a' a''" "t \<noteq> stopped"

section \<open>Stage statistics\<close>

lemma filter_2_indices: "[0..<4] = [0, 1, 2, 3 :: nat]" by (simp add: upt_rec)

text \<open>
  The overflow message of \<open>StageStats::update\<close> is never printed, however many results the stages
  produced: the lengths it looks at have been clamped to the very limit it compares them with.
\<close>

theorem overflow_never_reported:
  "list_all (\<lambda>r. \<not> snd r) (update_all elapsed origin lens (stage_stats origin threads_per_seed))"
proof -
  have seeds: "max_len_of buffer_seeds 8 = 2 ^ 16"
    by (simp add: max_len_of_def OutputBuffer_of_def buffer_seeds_def)
  have "\<not> outputs_len s (clamp_lens origin lens) > max_outputs_len s" if "s \<in> set (stage_stats origin threads_per_seed)" for s
    using that unfolding stage_stats_def filter_2_stages_def filter_2_indices
    by (cases origin) (auto simp: stage_filter_seeds_def stage_init_seeds_def new_stage_def clamp_lens_def filter_2_len_def Let_def seeds not_less min.coboundedI2)
  then show ?thesis by (simp add: list_all_iff update_all_def StageStats_update_def Let_def)
qed

text \<open>
  A rate from 1 to \<open>10^15\<close> is printed with one to three digits before the point, and the number
  printed times its unit is the rate.
\<close>

theorem scale_si_normalises:
  assumes "1 \<le> val" "val < 10 ^ 15"
  shows "1 \<le> fst (scale_si val) \<and> fst (scale_si val) < 1000 \<and>
         fst (scale_si val) * (case snd (scale_si val) of CHR ''T'' \<Rightarrow> 10 ^ 12 | CHR ''G'' \<Rightarrow> 10 ^ 9 | CHR ''M'' \<Rightarrow> 10 ^ 6 | CHR ''k'' \<Rightarrow> 10 ^ 3 | _ \<Rightarrow> 1) = val"
  using assms by (auto simp: scale_si_def field_simps)

lemma scale_si_normalises_witness: "1 \<le> fst (scale_si 2680000000) \<and> fst (scale_si 2680000000) < 1000"
  using scale_si_normalises [of 2680000000] by simp

section \<open>Combined reports\<close>

text \<open>
  The combined report does not depend on the order in which the threads of different devices
  submitted.
\<close>

theorem print_combined_order_independent:
  assumes "mset snaps = mset snaps'" "distinct (map rs_device snaps)"
  shows "print_combined snaps = print_combined snaps'"
proof -
  let ?s = "sort_key rs_device snaps" and ?s' = "sort_key rs_device snaps'"
  have inj: "inj_on rs_device (set snaps)" using assms(2) by (simp add: distinct_map)
  have "mset (map rs_device ?s) = mset (map rs_device snaps)" "mset (map rs_device ?s') = mset (map rs_device snaps)"
    using assms(1) by simp_all
  then have d: "distinct (map rs_device ?s)" "distinct (map rs_device ?s')"
    using assms(2) mset_eq_imp_distinct_iff by blast+
  have "?s = ?s'"
  proof (rule map_sorted_distinct_set_unique)
    show "inj_on rs_device (set ?s \<union> set ?s')" using inj mset_eq_setD [OF assms(1)] by simp
    show "set ?s = set ?s'" using mset_eq_setD [OF assms(1)] by simp
  qed (use d in simp_all)
  then show ?thesis by (simp only: print_combined_def)
qed

lemma print_combined_order_independent_witness:
  "print_combined [\<lparr>rs_device = 1, rs_start_seed = 0, rs_host_time = 2, rs_stages = [], rs_inputs = 5, rs_outputs = 1\<rparr>,
                   \<lparr>rs_device = 0, rs_start_seed = 0, rs_host_time = 3, rs_stages = [], rs_inputs = 6, rs_outputs = 2\<rparr>] =
   print_combined [\<lparr>rs_device = 0, rs_start_seed = 0, rs_host_time = 3, rs_stages = [], rs_inputs = 6, rs_outputs = 2\<rparr>,
                   \<lparr>rs_device = 1, rs_start_seed = 0, rs_host_time = 2, rs_stages = [], rs_inputs = 5, rs_outputs = 1\<rparr>]"
  by (rule print_combined_order_independent) (simp_all add: add_mset_commute)

section \<open>The aggregator\<close>

definition in_round :: "nat \<Rightarrow> Aggregator \<Rightarrow> nat \<Rightarrow> bool" where
  "in_round n a t \<longleftrightarrow> t < n \<and> (submitters a t = Waiting (generation a) \<or> submitters a t = Printing \<or> submitters a t = Printed)"

definition agg_inv :: "nat \<Rightarrow> Aggregator \<Rightarrow> bool" where
  "agg_inv n a \<longleftrightarrow>
     distinct (map fst (snapshots a)) \<and> set (map fst (snapshots a)) = {t. in_round n a t} \<and>
     (\<forall>t g. submitters a t = Waiting g \<longrightarrow> g \<le> generation a) \<and>
     (\<forall>t u. submitters a t \<in> {Printing, Printed} \<longrightarrow> submitters a u \<in> {Printing, Printed} \<longrightarrow> t = u) \<and>
     (\<forall>t. submitters a t \<in> {Printing, Printed} \<longrightarrow> t < n \<and> length (snapshots a) = n) \<and>
     ((\<forall>t. submitters a t \<notin> {Printing, Printed}) \<longrightarrow> length (snapshots a) < n) \<and>
     (\<forall>r\<in>set (reports a). distinct (map fst r) \<and> set (map fst r) = {0..<n})"

lemma full_round:
  assumes "distinct (map fst s)" "set (map fst s) \<subseteq> {0..<n}" "length s = n"
  shows "set (map fst s) = {0..<n}"
proof (rule card_subset_eq)
  show "card (set (map fst s)) = card {0..<n}" using assms(1,3) distinct_card [of "map fst s"] by simp
qed (use assms in auto)

lemma agg_inv_step:
  assumes "agg_inv n a" "agg_step n t a a'"
  shows "agg_inv n a'"
  using assms(2)
proof (cases rule: agg_step.cases)
  case (submit_wait snap)
  have new: "t \<notin> set (map fst (snapshots a))" using assms(1) submit_wait(2) by (auto simp: agg_inv_def in_round_def)
  have "submitters a u \<notin> {Printing, Printed}" for u
    using assms(1) submit_wait(4) unfolding agg_inv_def by (metis add.commute less_add_one not_less_iff_gr_or_eq add_lessD1)
  moreover have "{u. in_round n a' u} = insert t {u. in_round n a u}"
    using submit_wait by (auto simp: in_round_def)
  ultimately show ?thesis using assms(1) new submit_wait by (auto simp: agg_inv_def)
next
  case (submit_last snap)
  have new: "t \<notin> set (map fst (snapshots a))" using assms(1) submit_last(2) by (auto simp: agg_inv_def in_round_def)
  have sub: "set (map fst (snapshots a)) \<subseteq> {0..<n}" using assms(1) by (auto simp: agg_inv_def in_round_def)
  have "card (set (map fst (snapshots a))) = length (snapshots a)"
    using assms(1) distinct_card [of "map fst (snapshots a)"] by (simp add: agg_inv_def)
  moreover have "card (insert t (set (map fst (snapshots a)))) \<le> card {0..<n}"
    using sub submit_last(3) by (intro card_mono) auto
  ultimately have lt: "length (snapshots a) < n" using new by simp
  then have noprint: "submitters a u \<notin> {Printing, Printed}" for u
    using assms(1) unfolding agg_inv_def by (metis less_irrefl)
  moreover have "{u. in_round n a' u} = insert t {u. in_round n a u}"
    using submit_last by (auto simp: in_round_def)
  ultimately show ?thesis using assms(1) new submit_last lt by (auto simp: agg_inv_def)
next
  case print_report
  have sub: "set (map fst (snapshots a)) \<subseteq> {0..<n}" using assms(1) by (auto simp: agg_inv_def in_round_def)
  have len: "length (snapshots a) = n" using assms(1) print_report(2) by (auto simp: agg_inv_def)
  have d: "distinct (map fst (snapshots a))" using assms(1) by (simp add: agg_inv_def)
  have full: "set (map fst (snapshots a)) = {0..<n}" by (rule full_round [OF d sub len])
  have "{u. in_round n a' u} = {u. in_round n a u}" using print_report by (auto simp: in_round_def)
  then show ?thesis using assms(1) print_report full d by (auto simp: agg_inv_def split: if_splits)
next
  case next_generation
  have one: "submitters a u \<notin> {Printing, Printed}" if "u \<noteq> t" for u
    using assms(1) next_generation(2) that unfolding agg_inv_def by blast
  have le: "g \<le> generation a" if "submitters a u = Waiting g" for u g using assms(1) that by (auto simp: agg_inv_def)
  have "{u. in_round n a' u} = {}"
  proof -
    have "\<not> in_round n a' u" for u
      using one [of u] le [of u "generation a + 1"] next_generation by (cases "u = t") (auto simp: in_round_def)
    then show ?thesis by simp
  qed
  moreover have "\<forall>u. submitters a' u \<notin> {Printing, Printed}" using one next_generation(1) by simp
  moreover have "\<forall>u g. submitters a' u = Waiting g \<longrightarrow> g \<le> generation a'"
    using le next_generation(1) by (auto intro: le_SucI)
  moreover have "snapshots a' = []" "reports a' = reports a" "0 < n" using next_generation(1,3) by simp_all
  ultimately show ?thesis using assms(1) unfolding agg_inv_def by simp
next
  case (wake_up g)
  have "{u. in_round n a' u} = {u. in_round n a u}" using wake_up by (auto simp: in_round_def)
  moreover have "\<And>u. submitters a' u \<in> {Printing, Printed} \<longleftrightarrow> submitters a u \<in> {Printing, Printed}"
    using wake_up(1,2) by simp
  moreover have "\<forall>u h. submitters a' u = Waiting h \<longrightarrow> h \<le> generation a'"
    using assms(1) wake_up(1) by (simp add: agg_inv_def)
  moreover have "snapshots a' = snapshots a" "reports a' = reports a" using wake_up(1) by simp_all
  ultimately show ?thesis using assms(1) unfolding agg_inv_def by (simp only: simp_thms) blast
qed

lemma agg_reach_inv:
  assumes "agg_reach n a" "0 < n"
  shows "agg_inv n a"
  using assms(1)
proof induction
  case agg_start
  show ?case using assms(2) by (simp add: agg_inv_def aggregator_start_def in_round_def)
next
  case (agg_next a t a')
  show ?case by (rule agg_inv_step [OF agg_next.IH agg_next.hyps(2)])
qed

text \<open>
  Every combined report contains exactly one snapshot of every GPU thread, and the threads never
  block each other while all keep submitting: some thread is running, or one that prints or may wake up
  has a step.
\<close>

theorem reports_are_complete:
  assumes "agg_reach n a" "0 < n"
  shows "list_all (\<lambda>r. mset (map fst r) = mset [0..<n]) (reports a) \<and>
         ((\<exists>t<n. submitters a t = Running) \<or> (\<exists>t<n. \<exists>a'. agg_step n t a a'))"
proof
  note inv = agg_reach_inv [OF assms]
  have "mset (map fst r) = mset [0..<n]" if "r \<in> set (reports a)" for r
  proof -
    have "distinct (map fst r)" "set (map fst r) = {0..<n}" using inv that by (auto simp: agg_inv_def)
    then show ?thesis using set_eq_iff_mset_eq_distinct [of "map fst r" "[0..<n]"] by simp
  qed
  then show "list_all (\<lambda>r. mset (map fst r) = mset [0..<n]) (reports a)" by (simp add: list_all_iff)
  show "(\<exists>t<n. submitters a t = Running) \<or> (\<exists>t<n. \<exists>a'. agg_step n t a a')"
  proof (cases "\<exists>t<n. submitters a t \<noteq> Waiting (generation a)")
    case True
    then obtain t where t: "t < n" "submitters a t \<noteq> Waiting (generation a)" by blast
    show ?thesis
    proof (cases "submitters a t")
      case (Waiting g) then show ?thesis using t agg_step.wake_up [of a t g n] by blast
    next
      case Printing then show ?thesis using t agg_step.print_report [of a t n] by blast
    next
      case Printed then show ?thesis using t agg_step.next_generation [of a t n] by blast
    qed (use t in blast)
  next
    case False
    have "{t. in_round n a t} = {0..<n}" using False by (auto simp: in_round_def)
    then have "length (snapshots a) = n"
      using inv distinct_card [of "map fst (snapshots a)"] by (simp add: agg_inv_def)
    then obtain t where t: "submitters a t \<in> {Printing, Printed}" using inv unfolding agg_inv_def by blast
    then have "t < n" using inv unfolding agg_inv_def by blast
    then show ?thesis using False t by auto
  qed
qed

lemma two_gpus_reach:
  fixes s s' :: GpuReportSnapshot
  shows "agg_reach 2 \<lparr>snapshots = [(0, s), (1, s')], generation = 0, submitters = (\<lambda>_. Running)(0 := Waiting 0, 1 := Printed),
                reports = [[(0, s), (1, s')]]\<rparr>"
proof -
  have 1: "agg_reach 2 \<lparr>snapshots = [(0, s)], generation = 0, submitters = (\<lambda>_. Running)(0 := Waiting 0), reports = []\<rparr>"
    using agg_next [OF agg_start submit_wait [of aggregator_start 0 2 s]] by (simp add: aggregator_start_def)
  have 2: "agg_reach 2 \<lparr>snapshots = [(0, s), (1, s')], generation = 0, submitters = (\<lambda>_. Running)(0 := Waiting 0, 1 := Printing), reports = []\<rparr>"
    using agg_next [OF 1 submit_last [of _ 1 2 s']] by simp
  show ?thesis using agg_next [OF 2 print_report [of _ 1 2]] by simp
qed

lemma reports_are_complete_witness:
  "list_all (\<lambda>r. mset (map fst r) = mset [0..<2 :: nat])
     [[(0, \<lparr>rs_device = 0, rs_start_seed = 0, rs_host_time = 1, rs_stages = [], rs_inputs = 0, rs_outputs = 0\<rparr>),
       (1, \<lparr>rs_device = 1, rs_start_seed = 0, rs_host_time = 1, rs_stages = [], rs_inputs = 0, rs_outputs = 0\<rparr>)]]"
  using conjunct1 [OF reports_are_complete [OF two_gpus_reach
    [of "\<lparr>rs_device = 0, rs_start_seed = 0, rs_host_time = 1, rs_stages = [], rs_inputs = 0, rs_outputs = 0\<rparr>"
        "\<lparr>rs_device = 1, rs_start_seed = 0, rs_host_time = 1, rs_stages = [], rs_inputs = 0, rs_outputs = 0\<rparr>"]]]
  by simp

lemma nobody_prints_without:
  assumes "agg_inv n a" "t < n" "submitters a t = Running"
  shows "submitters a u \<noteq> Printing"
proof
  assume p: "submitters a u = Printing"
  then have "length (snapshots a) = n" "distinct (map fst (snapshots a))" "set (map fst (snapshots a)) \<subseteq> {0..<n}"
    using assms(1) by (auto simp: agg_inv_def in_round_def)
  then have "set (map fst (snapshots a)) = {0..<n}" by (intro full_round)
  then have "in_round n a t" using assms(1,2) unfolding agg_inv_def by auto
  then show False using assms(3) by (simp add: in_round_def)
qed

lemma agg_step_other:
  assumes "agg_step n u a a'" "t \<noteq> u" "submitters a u \<noteq> Printing"
  shows "submitters a' t = submitters a t \<and> reports a' = reports a"
  using assms by (cases rule: agg_step.cases) auto

lemma agg_without_keeps:
  assumes "agg_without n t a a'" "agg_inv n a" "t < n" "submitters a t = Running"
  shows "agg_inv n a' \<and> submitters a' t = Running \<and> reports a' = reports a"
  using assms
proof (induction rule: agg_without.induct)
  case (without_next a b u c)
  have b: "agg_inv n b" "submitters b t = Running" "reports b = reports a" using without_next by auto
  have "agg_inv n c" by (rule agg_inv_step [OF b(1) without_next.hyps(2)])
  moreover have "submitters c t = submitters b t \<and> reports c = reports b"
    by (rule agg_step_other [OF without_next.hyps(2) without_next.hyps(3) [symmetric] nobody_prints_without [OF b(1) assms(3) b(2)]])
  ultimately show ?case using b by simp
qed simp

text \<open>
  When one GPU thread stops submitting, no report is printed any more, whatever the others do: they
  all end up waiting for it.
\<close>

theorem stopped_thread_stops_reports:
  assumes "agg_reach n a" "t < n" "submitters a t = Running" "agg_without n t a a'"
  shows "reports a' = reports a \<and> \<not> (\<exists>u<n. submitters a' u = Printing)"
proof -
  have n: "0 < n" using assms(2) by simp
  have keep: "agg_inv n a' \<and> submitters a' t = Running \<and> reports a' = reports a"
    by (rule agg_without_keeps [OF assms(4) agg_reach_inv [OF assms(1) n] assms(2,3)])
  then show ?thesis using nobody_prints_without [OF _ assms(2)] by blast
qed

lemma stopped_thread_stops_reports_witness:
  "reports \<lparr>snapshots = [(0, \<lparr>rs_device = 0, rs_start_seed = 0, rs_host_time = 1, rs_stages = [], rs_inputs = 0, rs_outputs = 0\<rparr>)],
            generation = 0, submitters = (\<lambda>_. Running)(0 := Waiting 0), reports = []\<rparr> = []"
proof -
  let ?s = "\<lparr>rs_device = 0, rs_start_seed = 0, rs_host_time = 1, rs_stages = [], rs_inputs = 0, rs_outputs = 0\<rparr>"
  have "agg_without 2 1 aggregator_start \<lparr>snapshots = [(0, ?s)], generation = 0, submitters = (\<lambda>_. Running)(0 := Waiting 0), reports = []\<rparr>"
    using without_next [OF without_start submit_wait [of aggregator_start 0 2 ?s], of 1] by (simp add: aggregator_start_def)
  from stopped_thread_stops_reports [OF agg_start _ _ this] show ?thesis by (simp add: aggregator_start_def)
qed

end
