(* ===== verification/Flood.thy ===== *)
theory Flood
  imports Prelude
begin

text \<open>
  The flood fills of \<open>src/src/cpu.cpp\<close>: the largest connected region of marked cells in a rectangular
  grid, its centroid and whether it touches the edge (\<open>flood\<close> and step 3 of \<open>measure_1to1\<close>, and the
  second half of \<open>fast_find_center\<close>). The specification is by reachability along the four neighbours;
  the loops keep an explicit stack and mark a cell when it is pushed. The theorem says that the search
  over all cells finds a largest component, whatever the grid.
\<close>

section \<open>Definitions\<close>

text \<open>Cell \<open>(i, j)\<close> of a grid of width \<open>w\<close> is the entry \<open>j * w + i\<close> of the array.\<close>

definition cell_at :: "int \<Rightarrow> int list \<Rightarrow> int \<times> int \<Rightarrow> int" where
  "cell_at w pass = (\<lambda>(i, j). if nat (j * w + i) < length pass then pass ! nat (j * w + i) else 0)"

definition set_cell :: "int \<Rightarrow> int \<times> int \<Rightarrow> int \<Rightarrow> int list \<Rightarrow> int list" where
  "set_cell w = (\<lambda>(i, j) v pass. pass[nat (j * w + i) := v])"

definition in_grid :: "int \<Rightarrow> int \<Rightarrow> int \<times> int \<Rightarrow> bool" where
  "in_grid w h = (\<lambda>(i, j). 0 \<le> i \<and> i < w \<and> 0 \<le> j \<and> j < h)"

record FloodState =
  fs_pass :: "int list"
  fs_stack :: "(int \<times> int) list"
  fs_sum_x :: int
  fs_sum_z :: int
  fs_count :: int
  fs_edge :: bool

definition neighbours :: "int \<times> int \<Rightarrow> (int \<times> int) list" where
  "neighbours e = map (\<lambda>(di, dj). (fst e + di, snd e + dj)) [(0, -1), (0, 1), (-1, 0), (1, 0)]"

text \<open>The body of the loop over the four neighbours.\<close>

definition flood_neighbour :: "int \<Rightarrow> int \<Rightarrow> int \<times> int \<Rightarrow> FloodState \<Rightarrow> FloodState" where
  "flood_neighbour w h n st =
     (if \<not> in_grid w h n then st\<lparr>fs_edge := True\<rparr>
      else if cell_at w (fs_pass st) n = 1
      then st\<lparr>fs_pass := set_cell w n (- 1) (fs_pass st), fs_stack := n # fs_stack st\<rparr>
      else st)"

definition flood_pop :: "int \<Rightarrow> int \<Rightarrow> int \<Rightarrow> int \<Rightarrow> int \<times> int \<Rightarrow> (int \<times> int) list \<Rightarrow> FloodState \<Rightarrow> FloodState" where
  "flood_pop w h ox oz e stack st =
     fold (flood_neighbour w h) (neighbours e)
       (st\<lparr>fs_stack := stack, fs_sum_x := fs_sum_x st + (ox + fst e), fs_sum_z := fs_sum_z st + (oz + snd e),
           fs_count := fs_count st + 1\<rparr>)"

definition flood_work :: "FloodState \<Rightarrow> nat" where
  "flood_work st = length (filter (\<lambda>v. v = 1) (fs_pass st)) + length (fs_stack st)"

lemma ones_update:
  assumes "k < length xs" "xs ! k = (1 :: int)" "v \<noteq> 1"
  shows "length (filter (\<lambda>v. v = 1) (xs[k := v])) + 1 = length (filter (\<lambda>v. v = 1) xs)"
  using assms by (induction xs arbitrary: k) (auto split: nat.splits simp: nth_Cons)

lemma flood_work_neighbour: "flood_work (flood_neighbour w h n st) = flood_work st"
  using ones_update [of "nat (snd n * w + fst n)" "fs_pass st" "- 1"]
  by (auto simp: flood_neighbour_def flood_work_def cell_at_def set_cell_def split_def split: if_splits)

lemma flood_work_fold: "flood_work (fold (flood_neighbour w h) ns st) = flood_work st"
  by (induction ns arbitrary: st) (simp_all add: flood_work_neighbour)

function flood_loop :: "int \<Rightarrow> int \<Rightarrow> int \<Rightarrow> int \<Rightarrow> FloodState \<Rightarrow> FloodState" where
  "flood_loop w h ox oz st =
     (case fs_stack st of [] \<Rightarrow> st | e # stack \<Rightarrow> flood_loop w h ox oz (flood_pop w h ox oz e stack st))"
  by pat_completeness auto
termination
  by (relation "measure (\<lambda>(w, h, ox, oz, st). flood_work st)")
    (auto simp: flood_pop_def flood_work_fold, simp add: flood_work_def)

declare flood_loop.simps [simp del]

definition flood :: "int \<Rightarrow> int \<Rightarrow> int \<Rightarrow> int \<Rightarrow> int \<times> int \<Rightarrow> int list \<Rightarrow> FloodState" where
  "flood w h ox oz start pass =
     flood_loop w h ox oz
       \<lparr>fs_pass = set_cell w start (- 1) pass, fs_stack = [start], fs_sum_x = 0, fs_sum_z = 0, fs_count = 0, fs_edge = False\<rparr>"

text \<open>The scan over all cells, in row-major order, keeping the first largest region.\<close>

record Best =
  bs_pass :: "int list"
  bs_count :: int
  bs_sum_x :: int
  bs_sum_z :: int
  bs_edge :: bool

definition row_major :: "int \<Rightarrow> int \<Rightarrow> (int \<times> int) list" where
  "row_major w h = concat (map (\<lambda>j. map (\<lambda>i. (i, j)) [0..w - 1]) [0..h - 1])"

definition scan_cell :: "int \<Rightarrow> int \<Rightarrow> int \<Rightarrow> int \<Rightarrow> int \<times> int \<Rightarrow> Best \<Rightarrow> Best" where
  "scan_cell w h ox oz s b =
     (if cell_at w (bs_pass b) s \<noteq> 1 then b
      else let st = flood w h ox oz s (bs_pass b)
           in if bs_count b < fs_count st
              then \<lparr>bs_pass = fs_pass st, bs_count = fs_count st, bs_sum_x = fs_sum_x st, bs_sum_z = fs_sum_z st, bs_edge = fs_edge st\<rparr>
              else b\<lparr>bs_pass := fs_pass st\<rparr>)"

definition largest_region :: "int \<Rightarrow> int \<Rightarrow> int \<Rightarrow> int \<Rightarrow> int list \<Rightarrow> Best" where
  "largest_region w h ox oz pass =
     fold (scan_cell w h ox oz) (row_major w h) \<lparr>bs_pass = pass, bs_count = 0, bs_sum_x = 0, bs_sum_z = 0, bs_edge = False\<rparr>"

section \<open>Specification\<close>

definition adjacent :: "int \<times> int \<Rightarrow> int \<times> int \<Rightarrow> bool" where
  "adjacent p q \<longleftrightarrow> \<bar>fst p - fst q\<bar> + \<bar>snd p - snd q\<bar> = 1"

definition component :: "(int \<times> int) set \<Rightarrow> int \<times> int \<Rightarrow> (int \<times> int) set" where
  "component S p = {q. (p, q) \<in> {(a, b). a \<in> S \<and> b \<in> S \<and> adjacent a b}\<^sup>*}"

definition ones :: "int \<Rightarrow> int \<Rightarrow> int list \<Rightarrow> (int \<times> int) set" where
  "ones w h pass = {p. in_grid w h p \<and> cell_at w pass p = 1}"

definition touches_edge :: "int \<Rightarrow> int \<Rightarrow> (int \<times> int) set \<Rightarrow> bool" where
  "touches_edge w h C \<longleftrightarrow> (\<exists>(i, j)\<in>C. i = 0 \<or> i = w - 1 \<or> j = 0 \<or> j = h - 1)"

section \<open>Components\<close>

lemma adjacent_sym: "adjacent p q \<Longrightarrow> adjacent q p"
  by (simp add: adjacent_def abs_minus_commute)

lemma neighbours_adjacent: "set (neighbours p) = {q. adjacent p q}"
proof -
  have "q \<in> set (neighbours p) \<longleftrightarrow> adjacent p q" for q
    by (cases p; cases q) (auto simp: neighbours_def adjacent_def)
  then show ?thesis by blast
qed

lemma component_self: "p \<in> component S p"
  by (simp add: component_def)

lemma component_subset: "p \<in> S \<Longrightarrow> component S p \<subseteq> S"
proof
  fix q assume "p \<in> S" "q \<in> component S p"
  then have "(p, q) \<in> {(a, b). a \<in> S \<and> b \<in> S \<and> adjacent a b}\<^sup>*" by (simp add: component_def)
  then show "q \<in> S" using \<open>p \<in> S\<close> by (induction rule: rtrancl_induct) auto
qed

lemma component_step:
  assumes "q \<in> component S p" "q \<in> S" "r \<in> S" "adjacent q r"
  shows "r \<in> component S p"
  using assms unfolding component_def by (auto intro: rtrancl_into_rtrancl)

text \<open>A set that contains the start, stays inside and is closed under neighbours is the component.\<close>

lemma component_eqI:
  assumes "p \<in> V" "V \<subseteq> component S p" "p \<in> S"
    and "\<And>q r. q \<in> V \<Longrightarrow> adjacent q r \<Longrightarrow> r \<in> S \<Longrightarrow> r \<in> V"
  shows "V = component S p"
proof
  show "component S p \<subseteq> V"
  proof
    fix q assume "q \<in> component S p"
    then have "(p, q) \<in> {(a, b). a \<in> S \<and> b \<in> S \<and> adjacent a b}\<^sup>*" by (simp add: component_def)
    then show "q \<in> V" using assms by (induction rule: rtrancl_induct) auto
  qed
qed (use assms in blast)

lemma component_sym:
  assumes "q \<in> component S p"
  shows "p \<in> component S q"
proof -
  have "sym {(a, b). a \<in> S \<and> b \<in> S \<and> adjacent a b}" by (auto intro!: symI adjacent_sym)
  then have "sym ({(a, b). a \<in> S \<and> b \<in> S \<and> adjacent a b}\<^sup>*)" by (rule sym_rtrancl)
  then show ?thesis using assms unfolding component_def by (auto dest: symD)
qed

lemma component_trans: "q \<in> component S p \<Longrightarrow> r \<in> component S q \<Longrightarrow> r \<in> component S p"
  unfolding component_def by (auto intro: rtrancl_trans)

lemma component_eq: "q \<in> component S p \<Longrightarrow> component S q = component S p"
  using component_trans component_sym by blast

text \<open>Removing whole components leaves the others as they were.\<close>

lemma component_remove:
  assumes "p \<in> S - D" "\<And>q r. q \<in> D \<Longrightarrow> r \<in> component S q \<Longrightarrow> r \<in> D" "D \<subseteq> S"
  shows "component (S - D) p = component S p"
proof (rule component_eqI)
  show "p \<in> component (S - D) p" by (rule component_self)
  show "p \<in> S" using assms(1) by blast
  show "component (S - D) p \<subseteq> component S p"
    unfolding component_def by (auto elim!: rtrancl_mono [THEN subsetD, rotated])
next
  fix q r assume qr: "q \<in> component (S - D) p" "adjacent q r" "r \<in> S"
  then have q: "q \<in> S - D" using component_subset [OF assms(1)] by blast
  have "r \<notin> D"
  proof
    assume "r \<in> D"
    moreover have "q \<in> component S r"
      by (rule component_step [OF component_self qr(3)]) (use q qr adjacent_sym in auto)
    ultimately show False using assms(2) q by blast
  qed
  then show "r \<in> component (S - D) p" using component_step [OF qr(1) q _ qr(2)] qr(3) by blast
qed

section \<open>The array\<close>

lemma cell_index_inject:
  fixes i j i' j' w :: int
  assumes "0 \<le> i" "i < w" "0 \<le> j" "0 \<le> i'" "i' < w" "0 \<le> j'" "nat (j * w + i) = nat (j' * w + i')"
  shows "i = i' \<and> j = j'"
proof -
  have "0 \<le> j * w + i" "0 \<le> j' * w + i'" using assms by simp_all
  then have e: "j * w + i = j' * w + i'" using assms(7) by simp
  have "(j * w + i) div w = j" "(j' * w + i') div w = j'" using assms by simp_all
  then show ?thesis using e by simp
qed

lemma cell_index_less:
  fixes i j w h :: int
  assumes "in_grid w h (i, j)"
  shows "nat (j * w + i) < nat (w * h)"
proof -
  have "j * w + i < j * w + w" using assms by (simp add: in_grid_def)
  also have "\<dots> = (j + 1) * w" by (simp add: algebra_simps)
  also have "\<dots> \<le> h * w" using assms by (intro mult_right_mono) (simp_all add: in_grid_def)
  finally have "j * w + i < w * h" by (simp add: mult.commute)
  moreover have "0 \<le> j * w + i" using assms by (simp add: in_grid_def)
  ultimately show ?thesis by (simp add: nat_less_eq_zless)
qed

lemma length_set_cell [simp]: "length (set_cell w p v pass) = length pass"
  by (simp add: set_cell_def split_def)

lemma cell_at_set_cell:
  assumes "in_grid w h p" "in_grid w h q" "length pass = nat (w * h)"
  shows "cell_at w (set_cell w p v pass) q = (if p = q then v else cell_at w pass q)"
proof (cases "p = q")
  case True
  then show ?thesis using cell_index_less [of w h "fst p" "snd p"] assms
    by (simp add: cell_at_def set_cell_def split_def)
next
  case False
  then have "nat (snd p * w + fst p) \<noteq> nat (snd q * w + fst q)"
    using cell_index_inject [of "fst p" w "snd p" "fst q" "snd q"] assms(1,2)
    by (auto simp: in_grid_def split_def prod_eq_iff)
  then show ?thesis using False by (simp add: cell_at_def set_cell_def split_def)
qed

lemma cell_one_in_ones: "p \<in> ones w h pass \<longleftrightarrow> in_grid w h p \<and> cell_at w pass p = 1"
  by (simp add: ones_def)

lemma finite_grid: "finite {p. in_grid w h p}"
proof -
  have "{p. in_grid w h p} \<subseteq> {0..<w} \<times> {0..<h}" by (auto simp: in_grid_def)
  then show ?thesis by (rule finite_subset) simp
qed

lemma finite_ones: "finite (ones w h pass)"
  by (rule finite_subset [OF _ finite_grid [of w h]]) (auto simp: ones_def)

text \<open>\<open>pass'\<close> is \<open>pass\<close> with the cells of \<open>V\<close> cleared.\<close>

definition cleared :: "int \<Rightarrow> int \<Rightarrow> (int \<times> int) set \<Rightarrow> int list \<Rightarrow> int list \<Rightarrow> bool" where
  "cleared w h V pass pass' \<longleftrightarrow>
     length pass' = nat (w * h) \<and>
     (\<forall>p. in_grid w h p \<longrightarrow> cell_at w pass' p = (if p \<in> V then - 1 else cell_at w pass p))"

lemma clearedD: "cleared w h V pass pass' \<Longrightarrow> in_grid w h p \<Longrightarrow> cell_at w pass' p = (if p \<in> V then - 1 else cell_at w pass p)"
  unfolding cleared_def by blast

lemma cleared_empty: "length pass = nat (w * h) \<Longrightarrow> cleared w h {} pass pass"
  by (simp add: cleared_def)

lemma cleared_insert:
  assumes "cleared w h V pass pass'" "in_grid w h n"
  shows "cleared w h (insert n V) pass (set_cell w n (- 1) pass')"
  unfolding cleared_def
proof (intro conjI allI impI)
  show "length (set_cell w n (- 1) pass') = nat (w * h)" using assms(1) by (simp add: cleared_def)
next
  fix p assume p: "in_grid w h p"
  have "cell_at w (set_cell w n (- 1) pass') p = (if n = p then - 1 else cell_at w pass' p)"
    by (rule cell_at_set_cell [OF assms(2) p]) (use assms(1) in \<open>simp add: cleared_def\<close>)
  then show "cell_at w (set_cell w n (- 1) pass') p = (if p \<in> insert n V then - 1 else cell_at w pass p)"
    using clearedD [OF assms(1) p] by auto
qed

lemma cleared_trans:
  assumes "cleared w h V pass pass'" "cleared w h U pass' pass''"
  shows "cleared w h (V \<union> U) pass pass''"
  using clearedD [OF assms(1)] clearedD [OF assms(2)] assms(2) by (simp add: cleared_def)

lemma ones_cleared:
  assumes "cleared w h V pass pass'"
  shows "ones w h pass' = ones w h pass - V"
proof -
  have "n \<in> ones w h pass' \<longleftrightarrow> n \<in> ones w h pass - V" for n
    using clearedD [OF assms, of n] by (cases "n \<in> V") (auto simp: cell_one_in_ones)
  then show ?thesis by blast
qed

section \<open>One flood\<close>

text \<open>
  The invariant: \<open>V\<close> is what has been pushed so far, \<open>set (fs_stack st)\<close> the part of it still to do.
  Exactly the cells of \<open>V\<close> have been cleared.
\<close>

definition flood_inv :: "int \<Rightarrow> int \<Rightarrow> int \<Rightarrow> int \<Rightarrow> int \<times> int \<Rightarrow> int list \<Rightarrow> (int \<times> int) set \<Rightarrow> (int \<times> int) set \<Rightarrow> FloodState \<Rightarrow> bool" where
  "flood_inv w h ox oz start pass V D st \<longleftrightarrow>
     cleared w h V pass (fs_pass st) \<and> finite V \<and> start \<in> V \<and> V \<subseteq> component (ones w h pass) start \<and>
     distinct (fs_stack st) \<and> set (fs_stack st) \<union> D = V \<and> set (fs_stack st) \<inter> D = {} \<and>
     fs_sum_x st = (\<Sum>(i, j)\<in>D. ox + i) \<and> fs_sum_z st = (\<Sum>(i, j)\<in>D. oz + j) \<and> fs_count st = int (card D)"

text \<open>While the neighbours of the popped cell \<open>e\<close> run: those of \<open>ns\<close> are still to come.\<close>

lemma flood_neighbour_inv:
  assumes "flood_inv w h ox oz start pass V D st" "start \<in> ones w h pass"
    and "e \<in> component (ones w h pass) start" "adjacent e n"
  shows "\<exists>V'. flood_inv w h ox oz start pass V' D (flood_neighbour w h n st) \<and> V \<subseteq> V' \<and>
           (n \<in> ones w h pass \<longrightarrow> n \<in> V') \<and>
           fs_edge (flood_neighbour w h n st) = (fs_edge st \<or> \<not> in_grid w h n)"
proof -
  have cl: "cleared w h V pass (fs_pass st)" using assms(1) by (simp add: flood_inv_def)
  have ones: "in_grid w h n \<and> cell_at w (fs_pass st) n = 1 \<longleftrightarrow> n \<in> ones w h pass - V"
    using ones_cleared [OF cl] cell_one_in_ones by metis
  show ?thesis
  proof (cases "n \<in> ones w h pass - V")
    case True
    have e: "e \<in> ones w h pass" using component_subset [OF assms(2)] assms(3) by blast
    have c: "n \<in> component (ones w h pass) start" by (rule component_step [OF assms(3) e _ assms(4)]) (use True in blast)
    have "cleared w h (insert n V) pass (set_cell w n (- 1) (fs_pass st))"
      by (rule cleared_insert [OF cl]) (use True ones in blast)
    moreover have "distinct (n # fs_stack st)" "set (n # fs_stack st) \<union> D = insert n V" "set (n # fs_stack st) \<inter> D = {}"
      using assms(1) True by (auto simp: flood_inv_def)
    ultimately have "flood_inv w h ox oz start pass (insert n V) D (flood_neighbour w h n st)"
      using assms(1) True ones c by (simp add: flood_inv_def flood_neighbour_def)
    then show ?thesis using True ones by (intro exI [of _ "insert n V"]) (auto simp: flood_neighbour_def)
  next
    case False
    have "flood_inv w h ox oz start pass V D (flood_neighbour w h n st)"
      using assms(1) False ones by (auto simp: flood_inv_def flood_neighbour_def)
    then show ?thesis using False ones by (intro exI [of _ V]) (auto simp: flood_neighbour_def)
  qed
qed

lemma flood_neighbours_inv:
  assumes "flood_inv w h ox oz start pass V D st" "start \<in> ones w h pass"
    and "e \<in> component (ones w h pass) start" "\<And>n. n \<in> set ns \<Longrightarrow> adjacent e n"
  shows "\<exists>V'. flood_inv w h ox oz start pass V' D (fold (flood_neighbour w h) ns st) \<and> V \<subseteq> V' \<and>
           (\<forall>n\<in>set ns. n \<in> ones w h pass \<longrightarrow> n \<in> V') \<and>
           fs_edge (fold (flood_neighbour w h) ns st) = (fs_edge st \<or> (\<exists>n\<in>set ns. \<not> in_grid w h n))"
  using assms(1,4)
proof (induction ns arbitrary: V st)
  case Nil
  then show ?case by auto
next
  case (Cons n ns)
  obtain V1 where 1: "flood_inv w h ox oz start pass V1 D (flood_neighbour w h n st)" "V \<subseteq> V1"
      "n \<in> ones w h pass \<longrightarrow> n \<in> V1" "fs_edge (flood_neighbour w h n st) = (fs_edge st \<or> \<not> in_grid w h n)"
    using flood_neighbour_inv [OF Cons.prems(1) assms(2,3) Cons.prems(2) [OF list.set_intros(1)]] by blast
  obtain V2 where "flood_inv w h ox oz start pass V2 D (fold (flood_neighbour w h) ns (flood_neighbour w h n st))" "V1 \<subseteq> V2"
      "\<forall>n\<in>set ns. n \<in> ones w h pass \<longrightarrow> n \<in> V2"
      "fs_edge (fold (flood_neighbour w h) ns (flood_neighbour w h n st)) = (fs_edge (flood_neighbour w h n st) \<or> (\<exists>n\<in>set ns. \<not> in_grid w h n))"
    using Cons.IH [OF 1(1) Cons.prems(2) [OF list.set_intros(2)]] by blast
  then show ?case using 1 by (intro exI [of _ V2]) auto
qed

definition leaves_grid :: "int \<Rightarrow> int \<Rightarrow> int \<times> int \<Rightarrow> bool" where
  "leaves_grid w h p \<longleftrightarrow> (\<exists>q. adjacent p q \<and> \<not> in_grid w h q)"

lemma leaves_grid_iff:
  assumes "in_grid w h (i, j)"
  shows "leaves_grid w h (i, j) \<longleftrightarrow> i = 0 \<or> i = w - 1 \<or> j = 0 \<or> j = h - 1"
proof -
  have "leaves_grid w h (i, j) \<longleftrightarrow> (\<exists>q\<in>set (neighbours (i, j)). \<not> in_grid w h q)"
    unfolding leaves_grid_def neighbours_adjacent by blast
  then show ?thesis using assms by (auto simp: neighbours_def in_grid_def)
qed

lemma flood_pop_inv:
  assumes "flood_inv w h ox oz start pass V D st" "start \<in> ones w h pass" "fs_stack st = e # stack"
  shows "\<exists>V'. flood_inv w h ox oz start pass V' (insert e D) (flood_pop w h ox oz e stack st) \<and> e \<notin> D \<and>
           (\<forall>n. adjacent e n \<longrightarrow> n \<in> ones w h pass \<longrightarrow> n \<in> V') \<and> V \<subseteq> V' \<and>
           fs_edge (flood_pop w h ox oz e stack st) = (fs_edge st \<or> leaves_grid w h e)"
proof -
  let ?st = "st\<lparr>fs_stack := stack, fs_sum_x := fs_sum_x st + (ox + fst e), fs_sum_z := fs_sum_z st + (oz + snd e),
      fs_count := fs_count st + 1\<rparr>"
  have i: "finite V" "distinct (e # stack)" "set (e # stack) \<union> D = V" "set (e # stack) \<inter> D = {}"
    using assms(1) unfolding flood_inv_def assms(3) by blast+
  then have fin: "finite D" and e: "e \<in> V" "e \<notin> D"
    by (metis finite_Un, auto)
  have "distinct stack" "set stack \<union> insert e D = V" "set stack \<inter> insert e D = {}" using i by auto
  then have inv: "flood_inv w h ox oz start pass V (insert e D) ?st"
    using assms(1) e(2) fin by (simp add: flood_inv_def split_def)
  have "e \<in> component (ones w h pass) start" using assms(1) e by (auto simp: flood_inv_def)
  from flood_neighbours_inv [OF inv assms(2) this, of "neighbours e"]
  obtain V' where "flood_inv w h ox oz start pass V' (insert e D) (fold (flood_neighbour w h) (neighbours e) ?st)" "V \<subseteq> V'"
      "\<forall>n\<in>set (neighbours e). n \<in> ones w h pass \<longrightarrow> n \<in> V'"
      "fs_edge (fold (flood_neighbour w h) (neighbours e) ?st) = (fs_edge st \<or> (\<exists>n\<in>set (neighbours e). \<not> in_grid w h n))"
    by (auto simp: neighbours_adjacent)
  then show ?thesis using e unfolding flood_pop_def neighbours_adjacent leaves_grid_def by auto
qed

text \<open>The result: what \<open>C\<close> is to a finished flood.\<close>

definition flooded :: "int \<Rightarrow> int \<Rightarrow> int \<Rightarrow> int \<Rightarrow> (int \<times> int) set \<Rightarrow> int list \<Rightarrow> FloodState \<Rightarrow> bool" where
  "flooded w h ox oz C pass st \<longleftrightarrow>
     cleared w h C pass (fs_pass st) \<and> fs_sum_x st = (\<Sum>(i, j)\<in>C. ox + i) \<and> fs_sum_z st = (\<Sum>(i, j)\<in>C. oz + j) \<and>
     fs_count st = int (card C) \<and> fs_edge st = touches_edge w h C"

lemma flood_loop_flooded:
  assumes "flood_inv w h ox oz start pass V D st" "start \<in> ones w h pass"
    and "\<forall>q\<in>D. \<forall>n. adjacent q n \<longrightarrow> n \<in> ones w h pass \<longrightarrow> n \<in> V"
    and "fs_edge st = (\<exists>q\<in>D. leaves_grid w h q)"
  shows "flooded w h ox oz (component (ones w h pass) start) pass (flood_loop w h ox oz st)"
  using assms
proof (induction w h ox oz st arbitrary: V D rule: flood_loop.induct)
  case (1 w h ox oz st)
  show ?case
  proof (cases "fs_stack st")
    case Nil
    then have VD: "V = D" using 1(2) by (auto simp: flood_inv_def)
    have C: "V = component (ones w h pass) start"
      by (rule component_eqI) (use 1(2-4) VD in \<open>auto simp: flood_inv_def\<close>)
    have "in_grid w h q" if "q \<in> V" for q
      using that component_subset [OF 1(3)] unfolding C by (auto simp: ones_def)
    then have "fs_edge st = touches_edge w h V"
      using 1(5) VD leaves_grid_iff unfolding touches_edge_def by fastforce
    then show ?thesis
      using 1(2) Nil VD unfolding C [symmetric] by (simp add: flooded_def flood_inv_def flood_loop.simps [of w h ox oz st])
  next
    case (Cons e stack)
    obtain V' where V': "flood_inv w h ox oz start pass V' (insert e D) (flood_pop w h ox oz e stack st)" "e \<notin> D" "V \<subseteq> V'"
        "\<forall>n. adjacent e n \<longrightarrow> n \<in> ones w h pass \<longrightarrow> n \<in> V'"
        "fs_edge (flood_pop w h ox oz e stack st) = (fs_edge st \<or> leaves_grid w h e)"
      using flood_pop_inv [OF 1(2,3) Cons] by blast
    have "flooded w h ox oz (component (ones w h pass) start) pass (flood_loop w h ox oz (flood_pop w h ox oz e stack st))"
    proof (rule 1(1) [OF Cons V'(1) 1(3)])
      show "\<forall>q\<in>insert e D. \<forall>n. adjacent q n \<longrightarrow> n \<in> ones w h pass \<longrightarrow> n \<in> V'" using 1(4) V'(3,4) by blast
      show "fs_edge (flood_pop w h ox oz e stack st) = (\<exists>q\<in>insert e D. leaves_grid w h q)" using 1(5) V'(5) by blast
    qed
    then show ?thesis using Cons by (simp add: flood_loop.simps [of w h ox oz st])
  qed
qed

lemma flood_flooded:
  assumes "length pass = nat (w * h)" "start \<in> ones w h pass"
  shows "flooded w h ox oz (component (ones w h pass) start) pass (flood w h ox oz start pass)"
  unfolding flood_def
proof (rule flood_loop_flooded [where V = "{start}" and D = "{}"])
  have "in_grid w h start" using assms(2) by (simp add: ones_def)
  then show "flood_inv w h ox oz start pass {start} {}
      \<lparr>fs_pass = set_cell w start (- 1) pass, fs_stack = [start], fs_sum_x = 0, fs_sum_z = 0, fs_count = 0, fs_edge = False\<rparr>"
    using cleared_insert [OF cleared_empty [OF assms(1)]] by (simp add: flood_inv_def component_self)
qed (use assms(2) in simp_all)

section \<open>The scan\<close>

definition components :: "(int \<times> int) set \<Rightarrow> (int \<times> int) set set" where
  "components S = component S ` S"

text \<open>After the cells \<open>seen\<close>: the components that contain one of them have been cleared and counted.\<close>

definition is_best :: "int \<Rightarrow> int \<Rightarrow> int \<Rightarrow> int \<Rightarrow> (int \<times> int) set set \<Rightarrow> Best \<Rightarrow> bool" where
  "is_best w h ox oz Cs b \<longleftrightarrow>
     (\<forall>C\<in>Cs. int (card C) \<le> bs_count b) \<and>
     (if bs_count b = 0 then Cs = {} \<and> \<not> bs_edge b
      else \<exists>C\<in>Cs. bs_count b = int (card C) \<and> bs_sum_x b = (\<Sum>(i, j)\<in>C. ox + i) \<and> bs_sum_z b = (\<Sum>(i, j)\<in>C. oz + j) \<and>
             bs_edge b = touches_edge w h C)"

definition scan_inv :: "int \<Rightarrow> int \<Rightarrow> int \<Rightarrow> int \<Rightarrow> int list \<Rightarrow> (int \<times> int) set \<Rightarrow> Best \<Rightarrow> bool" where
  "scan_inv w h ox oz pass seen b \<longleftrightarrow>
     cleared w h (\<Union> (component (ones w h pass) ` (seen \<inter> ones w h pass))) pass (bs_pass b) \<and> 0 \<le> bs_count b \<and>
     is_best w h ox oz (component (ones w h pass) ` (seen \<inter> ones w h pass)) b"

lemma card_component_pos: "s \<in> ones w h pass \<Longrightarrow> 0 < card (component (ones w h pass) s)"
  using component_subset [of s "ones w h pass"] finite_ones [of w h pass] component_self [of s "ones w h pass"]
  by (metis card_gt_0_iff empty_iff finite_subset)

lemma is_best_insert:
  assumes "is_best w h ox oz Cs b" "0 \<le> bs_count b" "0 < card C" "flooded w h ox oz C pass st"
  shows "is_best w h ox oz (insert C Cs)
    (if bs_count b < fs_count st
     then \<lparr>bs_pass = fs_pass st, bs_count = fs_count st, bs_sum_x = fs_sum_x st, bs_sum_z = fs_sum_z st, bs_edge = fs_edge st\<rparr>
     else b\<lparr>bs_pass := fs_pass st\<rparr>)"
proof (cases "bs_count b < fs_count st")
  case True
  then show ?thesis using assms by (auto simp: is_best_def flooded_def split: if_splits)
next
  case False
  then have "bs_count b \<noteq> 0" using assms(2-4) by (simp add: flooded_def)
  then show ?thesis using assms False unfolding is_best_def flooded_def by simp
qed

lemma scan_cell_inv:
  assumes inv: "scan_inv w h ox oz pass seen b" and s: "in_grid w h s"
  shows "scan_inv w h ox oz pass (insert s seen) (scan_cell w h ox oz s b)"
proof -
  let ?S = "ones w h pass" and ?D = "\<Union>(component (ones w h pass) ` (seen \<inter> ones w h pass))"
  let ?st = "flood w h ox oz s (bs_pass b)"
  have cl: "cleared w h ?D pass (bs_pass b)" using inv by (simp add: scan_inv_def)
  have T: "ones w h (bs_pass b) = ?S - ?D" by (rule ones_cleared [OF cl])
  show ?thesis
  proof (cases "s \<in> ?S - ?D")
    case False
    have "component ?S ` (insert s seen \<inter> ?S) = component ?S ` (seen \<inter> ?S)"
    proof (cases "s \<in> ?S")
      case True
      then obtain t where "t \<in> seen \<inter> ?S" "s \<in> component ?S t" using False by blast
      then have "component ?S s \<in> component ?S ` (seen \<inter> ?S)" using component_eq by blast
      then show ?thesis using True by auto
    qed simp
    moreover have "cell_at w (bs_pass b) s \<noteq> 1" using False s T by (auto simp: cell_one_in_ones)
    ultimately show ?thesis using inv by (simp add: scan_inv_def scan_cell_def)
  next
    case True
    have comp: "component (?S - ?D) s = component ?S s"
    proof (rule component_remove [OF True])
      show "r \<in> ?D" if "q \<in> ?D" "r \<in> component ?S q" for q r using that component_trans by blast
      show "?D \<subseteq> ?S" using component_subset [of _ ?S] by blast
    qed
    have "length (bs_pass b) = nat (w * h)" using cl by (simp add: cleared_def)
    from flood_flooded [OF this, of s ox oz] have fl: "flooded w h ox oz (component ?S s) (bs_pass b) ?st"
      using True unfolding T comp by blast
    have sS: "s \<in> ?S" using True by blast
    have new: "component ?S ` (insert s seen \<inter> ?S) = insert (component ?S s) (component ?S ` (seen \<inter> ?S))"
      using sS by auto
    have "cleared w h (?D \<union> component ?S s) pass (fs_pass ?st)"
      by (rule cleared_trans [OF cl]) (use fl in \<open>simp add: flooded_def\<close>)
    then have cl': "cleared w h (\<Union> (insert (component ?S s) (component ?S ` (seen \<inter> ?S)))) pass (fs_pass ?st)"
      by (simp add: Un_commute)
    have one: "cell_at w (bs_pass b) s = 1" using True T by (auto simp: cell_one_in_ones)
    have best: "is_best w h ox oz (insert (component ?S s) (component ?S ` (seen \<inter> ?S))) (scan_cell w h ox oz s b)"
      using is_best_insert [OF _ _ card_component_pos [OF sS] fl] inv one by (simp add: scan_inv_def scan_cell_def Let_def)
    have "bs_pass (scan_cell w h ox oz s b) = fs_pass ?st" "0 \<le> bs_count (scan_cell w h ox oz s b)"
      using one inv by (simp_all add: scan_cell_def Let_def scan_inv_def)
    then show ?thesis using cl' best unfolding scan_inv_def new by simp
  qed
qed

lemma scan_cells_inv:
  assumes "scan_inv w h ox oz pass seen b" "\<And>s. s \<in> set ss \<Longrightarrow> in_grid w h s"
  shows "scan_inv w h ox oz pass (seen \<union> set ss) (fold (scan_cell w h ox oz) ss b)"
  using assms
proof (induction ss arbitrary: seen b)
  case (Cons s ss)
  have "scan_inv w h ox oz pass (insert s seen) (scan_cell w h ox oz s b)"
    by (rule scan_cell_inv [OF Cons.prems(1)]) (use Cons.prems(2) in simp)
  from Cons.IH [OF this] Cons.prems(2) show ?case by simp
qed simp

lemma set_row_major: "set (row_major w h) = {p. in_grid w h p}"
  by (auto simp: row_major_def in_grid_def)

lemma largest_region_best:
  assumes "length pass = nat (w * h)"
  shows "is_best w h ox oz (components (ones w h pass)) (largest_region w h ox oz pass)"
proof -
  have "scan_inv w h ox oz pass {} \<lparr>bs_pass = pass, bs_count = 0, bs_sum_x = 0, bs_sum_z = 0, bs_edge = False\<rparr>"
    using cleared_empty [OF assms] by (simp add: scan_inv_def is_best_def)
  from scan_cells_inv [OF this, of "row_major w h"]
  have "scan_inv w h ox oz pass {p. in_grid w h p} (largest_region w h ox oz pass)"
    by (simp add: largest_region_def set_row_major)
  moreover have "{p. in_grid w h p} \<inter> ones w h pass = ones w h pass" by (auto simp: ones_def)
  ultimately show ?thesis by (simp add: scan_inv_def components_def)
qed

lemma largest_region_max:
  assumes "length pass = nat (w * h)"
  shows "bs_count (largest_region w h ox oz pass) = int (Max (insert 0 (card ` components (ones w h pass)))) \<and>
         (if ones w h pass = {} then \<not> bs_edge (largest_region w h ox oz pass)
          else \<exists>C\<in>components (ones w h pass).
                 bs_count (largest_region w h ox oz pass) = int (card C) \<and>
                 bs_sum_x (largest_region w h ox oz pass) = (\<Sum>(i, j)\<in>C. ox + i) \<and>
                 bs_sum_z (largest_region w h ox oz pass) = (\<Sum>(i, j)\<in>C. oz + j) \<and>
                 bs_edge (largest_region w h ox oz pass) = touches_edge w h C)"
proof -
  let ?b = "largest_region w h ox oz pass" and ?Cs = "components (ones w h pass)"
  have best: "is_best w h ox oz ?Cs ?b" by (rule largest_region_best [OF assms])
  have fin: "finite ?Cs" by (simp add: components_def finite_ones)
  have empty: "?Cs = {} \<longleftrightarrow> ones w h pass = {}" by (simp add: components_def)
  have pos: "0 < card C" if "C \<in> ?Cs" for C using that card_component_pos by (auto simp: components_def)
  have max: "bs_count ?b = int (Max (insert 0 (card ` ?Cs)))"
  proof (cases "bs_count ?b = 0")
    case True
    then show ?thesis using best by (simp add: is_best_def)
  next
    case False
    then obtain C where C: "C \<in> ?Cs" "bs_count ?b = int (card C)" using best by (auto simp: is_best_def)
    have "Max (insert 0 (card ` ?Cs)) = card C"
      by (rule Max_eqI) (use C best fin in \<open>auto simp: is_best_def\<close>)
    then show ?thesis using C by simp
  qed
  show ?thesis
  proof (cases "bs_count ?b = 0")
    case True
    then have "?Cs = {}" using best pos by (simp add: is_best_def)
    then show ?thesis using max best True empty by (simp add: is_best_def)
  next
    case False
    then have "ones w h pass \<noteq> {}" using best empty by (auto simp: is_best_def)
    then show ?thesis using max best False by (simp add: is_best_def)
  qed
qed



end
