(* ===== verification/Voronoi.thy ===== *)
theory Voronoi
  imports CubRng
begin

text \<open>
  The zoom from biome cells of four blocks to single blocks (\<open>src/cubiomes/layers.c\<close>,
  \<open>src/cubiomes/biomenoise.c\<close>): the jittered cell centres, the search for the nearest one, the hash of the
  world seed that jitters them, and the range of cells a block range can reach. The hash is shown to be
  the first eight bytes of SHA-256; the search to return the first nearest of the eight candidates.
\<close>

section \<open>Definitions: cells\<close>

text \<open>The jitter of a cell's centre, in 1/40960 of a cell; the \<open>int\<close> arguments are sign-extended.\<close>

definition cell_jitter :: "u64 \<Rightarrow> int" where
  "cell_jitter s = (uint (drop_bit 24 s AND 1023) - 512) * 36"

definition getVoronoiCell :: "u64 \<Rightarrow> int \<Rightarrow> int \<Rightarrow> int \<Rightarrow> int \<times> int \<times> int" where
  "getVoronoiCell sha a b c =
     (let s = sha;
          s = mcStepSeed s (word_of_int a);
          s = mcStepSeed s (word_of_int b);
          s = mcStepSeed s (word_of_int c);
          s = mcStepSeed s (word_of_int a);
          s = mcStepSeed s (word_of_int b);
          s = mcStepSeed s (word_of_int c);
          x = cell_jitter s;
          s = mcStepSeed s sha;
          y = cell_jitter s;
          s = mcStepSeed s sha;
          z = cell_jitter s
      in (x, y, z))"

definition voronoi_offset :: "nat \<Rightarrow> int \<times> int \<times> int" where
  "voronoi_offset i = (of_bool (i AND 4 \<noteq> 0), of_bool (i AND 2 \<noteq> 0), of_bool (i AND 1 \<noteq> 0))"

text \<open>The squared distance of a block to the centre of its \<open>i\<close>-th candidate cell, in 64 bits.\<close>

definition voronoi_d :: "u64 \<Rightarrow> int \<Rightarrow> int \<Rightarrow> int \<Rightarrow> nat \<Rightarrow> u64" where
  "voronoi_d sha x y z i =
     (let pX = x div 4; pY = y div 4; pZ = z div 4;
          dx = (x mod 4) * 10240; dy = (y mod 4) * 10240; dz = (z mod 4) * 10240;
          (bx, by', bz) = voronoi_offset i;
          (rx, ry, rz) = getVoronoiCell sha (pX + bx) (pY + by') (pZ + bz);
          rx = rx + (dx - 40 * 1024 * bx);
          ry = ry + (dy - 40 * 1024 * by');
          rz = rz + (dz - 40 * 1024 * bz)
      in word_of_int rx * word_of_int rx + word_of_int ry * word_of_int ry + word_of_int rz * word_of_int rz)"

definition voronoi_cell :: "int \<Rightarrow> int \<Rightarrow> int \<Rightarrow> nat \<Rightarrow> int \<times> int \<times> int" where
  "voronoi_cell x y z i =
     (let (bx, by', bz) = voronoi_offset i in (x div 4 + bx, y div 4 + by', z div 4 + bz))"

definition voronoiAccess3D :: "u64 \<Rightarrow> int \<Rightarrow> int \<Rightarrow> int \<Rightarrow> int \<times> int \<times> int" where
  "voronoiAccess3D sha x y z =
     (let x = x - 2; y = y - 2; z = z - 2
      in snd (fold (\<lambda>i (dmin, a). if voronoi_d sha x y z i < dmin then (voronoi_d sha x y z i, voronoi_cell x y z i) else (dmin, a))
           [0..<8] (- 1, (0, 0, 0))))"

record Range =
  rg_scale :: int
  rg_x :: int
  rg_z :: int
  rg_sx :: int
  rg_sz :: int
  rg_y :: int
  rg_sy :: int

text \<open>The range of cells; \<open>None\<close> is the exit on a range of another scale.\<close>

definition getVoronoiSrcRange :: "Range \<Rightarrow> Range option" where
  "getVoronoiSrcRange r =
     (if rg_scale r \<noteq> 1 then None
      else let x = rg_x r - 2; z = rg_z r - 2; ty = rg_y r - 2
           in Some \<lparr>rg_scale = 4, rg_x = x div 4, rg_z = z div 4,
                    rg_sx = (x + rg_sx r) div 4 - x div 4 + 2, rg_sz = (z + rg_sz r) div 4 - z div 4 + 2,
                    rg_y = (if rg_sy r < 1 then 0 else ty div 4),
                    rg_sy = (if rg_sy r < 1 then 0 else (ty + rg_sy r) div 4 - ty div 4 + 2)\<rparr>)"

section \<open>Definitions: the hash\<close>

definition BSWAP32 :: "u32 \<Rightarrow> u32" where
  "BSWAP32 x =
     push_bit 24 (x AND 0x000000ff) OR push_bit 8 (x AND 0x0000ff00) OR
     drop_bit 8 (x AND 0x00ff0000) OR drop_bit 24 (x AND 0xff000000)"

definition sha_K :: "u32 list" where
  "sha_K = concat [
     [0x428a2f98, 0x71374491, 0xb5c0fbcf, 0xe9b5dba5],
     [0x3956c25b, 0x59f111f1, 0x923f82a4, 0xab1c5ed5],
     [0xd807aa98, 0x12835b01, 0x243185be, 0x550c7dc3],
     [0x72be5d74, 0x80deb1fe, 0x9bdc06a7, 0xc19bf174],
     [0xe49b69c1, 0xefbe4786, 0x0fc19dc6, 0x240ca1cc],
     [0x2de92c6f, 0x4a7484aa, 0x5cb0a9dc, 0x76f988da],
     [0x983e5152, 0xa831c66d, 0xb00327c8, 0xbf597fc7],
     [0xc6e00bf3, 0xd5a79147, 0x06ca6351, 0x14292967],
     [0x27b70a85, 0x2e1b2138, 0x4d2c6dfc, 0x53380d13],
     [0x650a7354, 0x766a0abb, 0x81c2c92e, 0x92722c85],
     [0xa2bfe8a1, 0xa81a664b, 0xc24b8b70, 0xc76c51a3],
     [0xd192e819, 0xd6990624, 0xf40e3585, 0x106aa070],
     [0x19a4c116, 0x1e376c08, 0x2748774c, 0x34b0bcb5],
     [0x391c0cb3, 0x4ed8aa4a, 0x5b9cca4f, 0x682e6ff3],
     [0x748f82ee, 0x78a5636f, 0x84c87814, 0x8cc70208],
     [0x90befffa, 0xa4506ceb, 0xbef9a3f7, 0xc67178f2]]"

definition sha_B :: "u32 list" where
  "sha_B = [0x6a09e667, 0xbb67ae85, 0x3c6ef372, 0xa54ff53a, 0x510e527f, 0x9b05688c, 0x1f83d9ab, 0x5be0cd19]"

text \<open>The message schedule: the array \<open>m\<close> of which \<open>ms\<close> is the part filled so far.\<close>

definition sha_schedule_step :: "u32 list \<Rightarrow> u32 list" where
  "sha_schedule_step ms =
     (let i = length ms;
          v = ms ! (i - 7) + ms ! (i - 16);
          x = ms ! (i - 15);
          v = v + (rotr32 x 7 XOR rotr32 x 18 XOR drop_bit 3 x);
          x = ms ! (i - 2);
          v = v + (rotr32 x 17 XOR rotr32 x 19 XOR drop_bit 10 x)
      in ms @ [v])"

definition sha_block :: "u64 \<Rightarrow> u32 list" where
  "sha_block seed =
     [BSWAP32 (ucast seed), BSWAP32 (ucast (drop_bit 32 seed)), 0x80000000] @ replicate 12 0 @ [0x00000040]"

record ShaState =
  sh0 :: u32
  sh1 :: u32
  sh2 :: u32
  sh3 :: u32
  sh4 :: u32
  sh5 :: u32
  sh6 :: u32
  sh7 :: u32

definition sha_round :: "u32 \<Rightarrow> u32 \<Rightarrow> ShaState \<Rightarrow> ShaState" where
  "sha_round K m s =
     (let x = sh7 s + K + m;
          x = x + (rotr32 (sh4 s) 6 XOR rotr32 (sh4 s) 11 XOR rotr32 (sh4 s) 25);
          x = x + ((sh4 s AND sh5 s) XOR (NOT (sh4 s) AND sh6 s));
          y = rotr32 (sh0 s) 2 XOR rotr32 (sh0 s) 13 XOR rotr32 (sh0 s) 22;
          y = y + ((sh0 s AND sh1 s) XOR (sh0 s AND sh2 s) XOR (sh1 s AND sh2 s))
      in \<lparr>sh0 = x + y, sh1 = sh0 s, sh2 = sh1 s, sh3 = sh2 s, sh4 = sh3 s + x, sh5 = sh4 s, sh6 = sh5 s, sh7 = sh6 s\<rparr>)"

definition getVoronoiSHA :: "u64 \<Rightarrow> u64" where
  "getVoronoiSHA seed =
     (let m = (sha_schedule_step ^^ 48) (sha_block seed);
          s = fold (\<lambda>i. sha_round (sha_K ! i) (m ! i)) [0..<64]
                \<lparr>sh0 = sha_B ! 0, sh1 = sha_B ! 1, sh2 = sha_B ! 2, sh3 = sha_B ! 3,
                 sh4 = sha_B ! 4, sh5 = sha_B ! 5, sh6 = sha_B ! 6, sh7 = sha_B ! 7\<rparr>
      in ucast (BSWAP32 (sh0 s + sha_B ! 0)) OR push_bit 32 (ucast (BSWAP32 (sh1 s + sha_B ! 1))))"

section \<open>The nearest cell\<close>

text \<open>Keeping a strictly smaller value from left to right finds the first minimum.\<close>

lemma arg_min_list_drop:
  assumes "f b \<le> f c"
  shows "arg_min_list f (b # c # cs) = (arg_min_list f (b # cs) :: 'a)"
  using assms by (cases cs) (auto simp: Let_def)

lemma arg_min_list_le: "x \<in> set xs \<Longrightarrow> f (arg_min_list f xs) \<le> (f x :: 'b::linorder)"
  by (metis Min_le f_arg_min_list_f finite_imageI finite_set image_eqI list.set(1) empty_iff)

lemma running_minimum:
  fixes f :: "'a \<Rightarrow> 'b::linorder"
  shows "fold (\<lambda>c (dmin, a). if f c < dmin then (f c, g c) else (dmin, a)) cs (f b, g b) =
     (f (arg_min_list f (b # cs)), g (arg_min_list f (b # cs)))"
proof (induction cs arbitrary: b)
  case (Cons c cs)
  show ?case
  proof (cases "f c < f b")
    case True
    then have "\<not> f b \<le> f (arg_min_list f (c # cs))" using arg_min_list_le [of c "c # cs" f] by simp
    then show ?thesis using Cons.IH [of c] True by (simp add: Let_def)
  next
    case False
    then show ?thesis using Cons.IH [of b] arg_min_list_drop [of f b c cs] by simp
  qed
qed simp

lemma cell_jitter_bounds: "- 18432 \<le> cell_jitter s \<and> cell_jitter s \<le> 18396"
proof -
  have "uint (drop_bit 24 s AND 1023) = uint (drop_bit 24 s) AND 1023" by (simp add: uint_and)
  also have "\<dots> \<le> 1023" by (rule AND_upper2) simp
  finally have "0 \<le> uint (drop_bit 24 s AND 1023)" "uint (drop_bit 24 s AND 1023) \<le> 1023" by simp_all
  then show ?thesis by (simp add: cell_jitter_def)
qed

text \<open>The distance as an integer: 64 bits are enough.\<close>

definition voronoi_dist :: "u64 \<Rightarrow> int \<Rightarrow> int \<Rightarrow> int \<Rightarrow> nat \<Rightarrow> int" where
  "voronoi_dist sha x y z i =
     (let (bx, by', bz) = voronoi_offset i;
          (jx, jy, jz) = getVoronoiCell sha (x div 4 + bx) (y div 4 + by') (z div 4 + bz)
      in (jx + 10240 * (x mod 4) - 40960 * bx)\<^sup>2 + (jy + 10240 * (y mod 4) - 40960 * by')\<^sup>2 + (jz + 10240 * (z mod 4) - 40960 * bz)\<^sup>2)"

lemma square_bound:
  fixes a :: int
  assumes "- 100000 \<le> a" "a \<le> 100000"
  shows "a\<^sup>2 \<le> 10000000000"
proof -
  have "\<bar>a\<bar> \<le> \<bar>100000\<bar>" using assms by simp
  then have "a\<^sup>2 \<le> 100000\<^sup>2" by (simp only: abs_le_square_iff)
  then show ?thesis by simp
qed

lemma voronoi_dist_bounds: "0 \<le> voronoi_dist sha x y z i \<and> voronoi_dist sha x y z i \<le> 30000000000"
proof -
  obtain bx b1 bz where o: "voronoi_offset i = (bx, b1, bz)" by (metis prod_cases3)
  obtain jx jy jz where j: "getVoronoiCell sha (x div 4 + bx) (y div 4 + b1) (z div 4 + bz) = (jx, jy, jz)" by (metis prod_cases3)
  have b: "0 \<le> bx \<and> bx \<le> 1 \<and> 0 \<le> b1 \<and> b1 \<le> 1 \<and> 0 \<le> bz \<and> bz \<le> 1" using o by (auto simp: voronoi_offset_def)
  have c: "\<bar>jx\<bar> \<le> 18432 \<and> \<bar>jy\<bar> \<le> 18432 \<and> \<bar>jz\<bar> \<le> 18432"
    using j cell_jitter_bounds by (auto simp: getVoronoiCell_def Let_def abs_le_iff) (smt (verit))+
  have m: "0 \<le> x mod 4 \<and> x mod 4 < 4" for x :: int by simp
  have "(jx + 10240 * (x mod 4) - 40960 * bx)\<^sup>2 \<le> 10000000000" "(jy + 10240 * (y mod 4) - 40960 * b1)\<^sup>2 \<le> 10000000000"
    "(jz + 10240 * (z mod 4) - 40960 * bz)\<^sup>2 \<le> 10000000000"
    by (rule square_bound; use b c m [of x] m [of y] m [of z] in linarith)+
  then show ?thesis by (simp add: voronoi_dist_def o j)
qed

lemma voronoi_d_dist: "voronoi_d sha x y z i = word_of_int (voronoi_dist sha x y z i)"
  by (simp add: voronoi_d_def voronoi_dist_def split_def Let_def power2_eq_square algebra_simps)

lemma voronoi_d_less_iff: "voronoi_d sha x y z i < voronoi_d sha x y z j \<longleftrightarrow> voronoi_dist sha x y z i < voronoi_dist sha x y z j"
proof -
  have "uint (voronoi_d sha x y z i) = voronoi_dist sha x y z i" for i
    using voronoi_dist_bounds [of sha x y z i] by (simp add: voronoi_d_dist uint_word_of_int_eq take_bit_int_eq_self)
  then show ?thesis by (simp add: word_less_def)
qed

lemma arg_min_list_cong:
  fixes f :: "'a \<Rightarrow> 'b::linorder" and g :: "'a \<Rightarrow> 'c::linorder"
  assumes "\<And>x y. x \<in> set xs \<Longrightarrow> y \<in> set xs \<Longrightarrow> f x \<le> f y \<longleftrightarrow> g x \<le> g y" "xs \<noteq> []"
  shows "arg_min_list f xs = arg_min_list g xs"
  using assms
proof (induction f xs rule: arg_min_list.induct)
  case (2 f x y zs)
  have "arg_min_list f (y # zs) = arg_min_list g (y # zs)" by (rule 2(1)) (use 2(2) in auto)
  moreover have "arg_min_list g (y # zs) \<in> set (y # zs)" by (rule arg_min_list_in) simp
  ultimately show ?case using 2(2) [of x "arg_min_list g (y # zs)"] by (simp add: Let_def)
qed simp_all

lemma voronoiAccess3D_near:
  "voronoiAccess3D sha x y z =
     voronoi_cell (x - 2) (y - 2) (z - 2) (arg_min_list (voronoi_dist sha (x - 2) (y - 2) (z - 2)) [0..<8]) \<and>
   (case voronoiAccess3D sha x y z of (x4, y4, z4) \<Rightarrow>
      (x - 2) div 4 \<le> x4 \<and> x4 \<le> (x - 2) div 4 + 1 \<and>
      (y - 2) div 4 \<le> y4 \<and> y4 \<le> (y - 2) div 4 + 1 \<and>
      (z - 2) div 4 \<le> z4 \<and> z4 \<le> (z - 2) div 4 + 1)"
proof -
  let ?d = "voronoi_d sha (x - 2) (y - 2) (z - 2)" and ?c = "voronoi_cell (x - 2) (y - 2) (z - 2)"
  have le: "?d i \<le> ?d j \<longleftrightarrow> voronoi_dist sha (x - 2) (y - 2) (z - 2) i \<le> voronoi_dist sha (x - 2) (y - 2) (z - 2) j" for i j
    using voronoi_d_less_iff [of sha "x - 2" "y - 2" "z - 2" j i] by (simp add: not_less [symmetric])
  have "uint (?d 0) \<le> 30000000000"
    using voronoi_dist_bounds [of sha "x - 2" "y - 2" "z - 2" 0] by (simp add: voronoi_d_dist uint_word_of_int_eq take_bit_int_eq_self)
  moreover have "uint (- 1 :: u64) = 18446744073709551615" by (simp add: unsigned_minus_1_eq_mask mask_eq_exp_minus_1)
  ultimately have first: "?d 0 < - 1" by (simp add: word_less_def)
  have "[0..<8] = (0 :: nat) # [1..<8]" by (simp add: upt_rec)
  then have 1: "voronoiAccess3D sha x y z = ?c (arg_min_list ?d [0..<8])"
    unfolding voronoiAccess3D_def Let_def using first running_minimum [of ?d ?c "[1..<8]" 0] by simp
  have 2: "arg_min_list ?d [0..<8] = arg_min_list (voronoi_dist sha (x - 2) (y - 2) (z - 2)) [0..<8]"
    by (rule arg_min_list_cong) (simp_all only: le, simp)
  show ?thesis unfolding 1 2 by (auto simp: voronoi_cell_def voronoi_offset_def split_def)
qed

text \<open>
  C27: The cell of a block is the first of the eight candidates whose centre is nearest, hence at most one
  step above the cell of the block shifted by two, in each axis.
\<close>

theorem voronoiAccess3D_nearest:
  "voronoiAccess3D sha x y z =
     voronoi_cell (x - 2) (y - 2) (z - 2) (arg_min_list (voronoi_dist sha (x - 2) (y - 2) (z - 2)) [0..<8]) \<and>
   (case voronoiAccess3D sha x y z of (x4, y4, z4) \<Rightarrow>
      (x - 2) div 4 \<le> x4 \<and> x4 \<le> (x - 2) div 4 + 1 \<and>
      (y - 2) div 4 \<le> y4 \<and> y4 \<le> (y - 2) div 4 + 1 \<and>
      (z - 2) div 4 \<le> z4 \<and> z4 \<le> (z - 2) div 4 + 1)"
  by (rule voronoiAccess3D_near)

text \<open>
  The cells of a block range all lie in the range of cells that is generated for it.
\<close>

theorem getVoronoiSrcRange_covers:
  assumes "getVoronoiSrcRange r = Some s" "0 \<le> i" "i < rg_sx r" "0 \<le> j" "j < rg_sz r" "0 \<le> k" "k < rg_sy r"
    and "voronoiAccess3D sha (rg_x r + i) (rg_y r + k) (rg_z r + j) = (x4, y4, z4)"
  shows "rg_x s \<le> x4 \<and> x4 < rg_x s + rg_sx s \<and> rg_z s \<le> z4 \<and> z4 < rg_z s + rg_sz s \<and> rg_y s \<le> y4 \<and> y4 < rg_y s + rg_sy s"
proof -
  note near = conjunct2 [OF voronoiAccess3D_near [of sha "rg_x r + i" "rg_y r + k" "rg_z r + j"]]
  have mono: "a div 4 \<le> (a + m) div 4" "(a + m) div 4 + 1 < (a + n) div 4 + 2" if "0 \<le> m" "m < n" for a m n :: int
    using that by (simp_all add: zdiv_mono1 order_le_less_trans)
  have X: "rg_x s = (rg_x r - 2) div 4" "rg_sx s = (rg_x r - 2 + rg_sx r) div 4 + 2 - (rg_x r - 2) div 4"
    and Z: "rg_z s = (rg_z r - 2) div 4" "rg_sz s = (rg_z r - 2 + rg_sz r) div 4 + 2 - (rg_z r - 2) div 4"
    and Y: "rg_y s = (rg_y r - 2) div 4" "rg_sy s = (rg_y r - 2 + rg_sy r) div 4 + 2 - (rg_y r - 2) div 4"
    using assms(1,6,7) by (auto simp: getVoronoiSrcRange_def Let_def split: if_splits)
  show ?thesis
    unfolding X Y Z using near assms(8) mono(1) [OF assms(2,3), of "rg_x r - 2"] mono(2) [OF assms(2,3), of "rg_x r - 2"]
      mono(1) [OF assms(4,5), of "rg_z r - 2"] mono(2) [OF assms(4,5), of "rg_z r - 2"]
      mono(1) [OF assms(6,7), of "rg_y r - 2"] mono(2) [OF assms(6,7), of "rg_y r - 2"]
    by (simp add: algebra_simps)
qed

lemma getVoronoiSrcRange_covers_witness:
  "case voronoiAccess3D 99 (- 7) 62 5 of (x4, y4, z4) \<Rightarrow> - 3 \<le> x4 \<and> x4 < 4 \<and> 0 \<le> z4 \<and> z4 < 4"
proof -
  obtain x4 y4 z4 where v: "voronoiAccess3D 99 (- 7) 62 5 = (x4, y4, z4)" by (metis prod_cases3)
  have r: "getVoronoiSrcRange \<lparr>rg_scale = 1, rg_x = - 9, rg_z = 4, rg_sx = 20, rg_sz = 7, rg_y = 62, rg_sy = 1\<rparr> =
    Some \<lparr>rg_scale = 4, rg_x = - 3, rg_z = 0, rg_sx = 7, rg_sz = 4, rg_y = 15, rg_sy = 2\<rparr>"
    by (simp add: getVoronoiSrcRange_def)
  show ?thesis using getVoronoiSrcRange_covers [OF r, of 2 1 0 99 x4 y4 z4] v by simp
qed

section \<open>SHA-256\<close>

text \<open>The standard on messages of less than 56 bytes, which fill one block.\<close>

definition le_bytes :: "u64 \<Rightarrow> u8 list" where
  "le_bytes w = map (\<lambda>k. ucast (drop_bit (8 * k) w)) [0, 1, 2, 3, 4, 5, 6, 7]"

definition be_bytes :: "u32 \<Rightarrow> u8 list" where
  "be_bytes w = map (\<lambda>k. ucast (drop_bit (8 * k) w)) [3, 2, 1, 0]"

definition be_word :: "u8 list \<Rightarrow> u32" where
  "be_word bs = push_bit 24 (ucast (bs ! 0)) OR push_bit 16 (ucast (bs ! 1)) OR push_bit 8 (ucast (bs ! 2)) OR ucast (bs ! 3)"

definition le_word :: "u8 list \<Rightarrow> u64" where
  "le_word bs = foldr (\<lambda>b w. push_bit 8 w OR ucast b) bs 0"

definition sha256_pad :: "u8 list \<Rightarrow> u8 list" where
  "sha256_pad msg = msg @ [0x80] @ replicate (55 - length msg) 0 @ rev (le_bytes (of_nat (8 * length msg)))"

fun sha256_W :: "u32 list \<Rightarrow> nat \<Rightarrow> u32" where
  "sha256_W M t =
     (if t < 16 then M ! t
      else (word_rotr 17 (sha256_W M (t - 2)) XOR word_rotr 19 (sha256_W M (t - 2)) XOR drop_bit 10 (sha256_W M (t - 2)))
         + sha256_W M (t - 7)
         + (word_rotr 7 (sha256_W M (t - 15)) XOR word_rotr 18 (sha256_W M (t - 15)) XOR drop_bit 3 (sha256_W M (t - 15)))
         + sha256_W M (t - 16))"

declare sha256_W.simps [simp del]

definition sha256_round :: "u32 list \<Rightarrow> nat \<Rightarrow> u32 list \<Rightarrow> u32 list" where
  "sha256_round M t s =
     (case s of [a, b, c, d, e, f, g, h] \<Rightarrow>
        let T1 = h + (word_rotr 6 e XOR word_rotr 11 e XOR word_rotr 25 e) + ((e AND f) XOR (NOT e AND g)) + sha_K ! t + sha256_W M t;
            T2 = (word_rotr 2 a XOR word_rotr 13 a XOR word_rotr 22 a) + ((a AND b) XOR (a AND c) XOR (b AND c))
        in [T1 + T2, a, b, c, d + T1, e, f, g]
      | _ \<Rightarrow> s)"

definition sha256 :: "u8 list \<Rightarrow> u8 list" where
  "sha256 msg =
     (let M = map (\<lambda>i. be_word (take 4 (drop (4 * i) (sha256_pad msg)))) [0..<16];
          H = fold (sha256_round M) [0..<64] sha_B
      in concat (map be_bytes (map2 (+) sha_B H)))"

lemma rotr32_word_rotr:
  assumes "0 < n" "n < 32"
  shows "rotr32 a n = word_rotr n a"
proof (rule bit_word_eqI)
  fix k assume "k < LENGTH(32)"
  then show "bit (rotr32 a n) k = bit (word_rotr n a) k"
    using assms by (auto simp: rotr32_def bit_simps mod_if add.commute [of k n] dest: bit_imp_le_length)
qed

lemma bswap_be_word:
  "BSWAP32 (ucast (w :: u64)) = be_word [ucast w, ucast (drop_bit 8 w), ucast (drop_bit 16 w), ucast (drop_bit 24 w)]"
proof (rule bit_word_eqI)
  have m: "(0x000000ff :: u32) = mask 8" "(0x0000ff00 :: u32) = push_bit 8 (mask 8)"
    "(0x00ff0000 :: u32) = push_bit 16 (mask 8)" "(0xff000000 :: u32) = push_bit 24 (mask 8)"
    by (simp_all add: mask_eq_exp_minus_1 push_bit_eq_mult)
  fix k assume "k < LENGTH(32)"
  then consider "k < 8" | "8 \<le> k" "k < 16" | "16 \<le> k" "k < 24" | "24 \<le> k" "k < 32" by force
  then show "bit (BSWAP32 (ucast w)) k = bit (be_word [ucast w, ucast (drop_bit 8 w), ucast (drop_bit 16 w), ucast (drop_bit 24 w)]) k"
    unfolding BSWAP32_def be_word_def m by cases (simp_all add: bit_simps, auto)
qed

lemma sha256_pad_nth:
  assumes "n < 64"
  shows "sha256_pad (le_bytes seed) ! n =
    (if n < 8 then le_bytes seed ! n else if n = 8 then 0x80 else if n = 63 then 0x40 else 0)"
proof -
  have len: "length (le_bytes seed) = 8" by (simp add: le_bytes_def)
  have "le_bytes (of_nat (8 * length (le_bytes seed))) = 0x40 # replicate 7 0"
    unfolding len by (simp add: le_bytes_def drop_bit_eq_div, simp add: numeral_eq_Suc)
  then have "sha256_pad (le_bytes seed) = le_bytes seed @ [0x80] @ replicate 47 0 @ replicate 7 0 @ [0x40]"
    by (simp add: sha256_pad_def len)
  then show ?thesis using assms len by (auto simp: nth_append nth_Cons')
qed

lemma le_bytes_nth: "k < 8 \<Longrightarrow> le_bytes w ! k = ucast (drop_bit (8 * k) w)"
  by (auto simp: le_bytes_def less_Suc_eq numeral_eq_Suc nth_Cons')

lemma be_word_take_drop:
  assumes "n + 3 < length bs"
  shows "be_word (take 4 (drop n bs)) = be_word [bs ! n, bs ! (n + 1), bs ! (n + 2), bs ! (n + 3)]"
  using assms by (simp add: be_word_def)

lemma length_sha256_pad: "length (sha256_pad (le_bytes seed)) = 64"
  by (simp add: sha256_pad_def le_bytes_def)

lemma sha_block_padded:
  "sha_block seed = map (\<lambda>i. be_word (take 4 (drop (4 * i) (sha256_pad (le_bytes seed))))) [0..<16]"
proof (rule nth_equalityI)
  fix i assume "i < length (sha_block seed)"
  then have i: "i < 16" by (simp add: sha_block_def)
  let ?P = "sha256_pad (le_bytes seed)"
  have w: "be_word (take 4 (drop (4 * i) ?P)) = be_word [?P ! (4 * i), ?P ! (4 * i + 1), ?P ! (4 * i + 2), ?P ! (4 * i + 3)]"
    using i by (intro be_word_take_drop) (simp add: length_sha256_pad)
  consider "i = 0" | "i = 1" | "i = 2" | "2 < i" "i < 15" | "i = 15" using i by force
  then have "sha_block seed ! i = be_word [?P ! (4 * i), ?P ! (4 * i + 1), ?P ! (4 * i + 2), ?P ! (4 * i + 3)]"
  proof cases
    case 1 then show ?thesis by (simp add: sha_block_def bswap_be_word sha256_pad_nth le_bytes_nth)
  next
    case 2 then show ?thesis by (simp add: sha_block_def bswap_be_word sha256_pad_nth le_bytes_nth drop_bit_drop_bit)
  next
    case 3 then show ?thesis by (simp add: sha_block_def sha256_pad_nth be_word_def push_bit_eq_mult)
  next
    case 4 then show ?thesis by (simp add: sha_block_def sha256_pad_nth be_word_def nth_append nth_Cons')
  next
    case 5 then show ?thesis by (simp add: sha_block_def sha256_pad_nth be_word_def nth_append)
  qed
  then show "sha_block seed ! i = map (\<lambda>i. be_word (take 4 (drop (4 * i) ?P))) [0..<16] ! i"
    using i w by simp
qed (simp add: sha_block_def)

lemma sha_schedule_W:
  assumes "length M = 16" "n \<le> 48"
  shows "length ((sha_schedule_step ^^ n) M) = 16 + n \<and> (\<forall>t < 16 + n. (sha_schedule_step ^^ n) M ! t = sha256_W M t)"
  using assms(2)
proof (induction n)
  case 0
  then show ?case using assms(1) by (simp add: sha256_W.simps)
next
  case (Suc n)
  let ?m = "(sha_schedule_step ^^ n) M"
  have IH: "length ?m = 16 + n" "\<And>t. t < 16 + n \<Longrightarrow> ?m ! t = sha256_W M t" using Suc by simp_all
  have "(sha_schedule_step ^^ Suc n) M = ?m @ [sha256_W M (16 + n)]"
    using IH by (subst sha256_W.simps) (simp add: sha_schedule_step_def Let_def rotr32_word_rotr algebra_simps)
  then show ?case using IH by (auto simp: nth_append not_less intro!: arg_cong [where f = "sha256_W M"])
qed

definition sha_list :: "ShaState \<Rightarrow> u32 list" where
  "sha_list s = [sh0 s, sh1 s, sh2 s, sh3 s, sh4 s, sh5 s, sh6 s, sh7 s]"

lemma sha_round_list:
  assumes "m = sha256_W M t"
  shows "sha_list (sha_round (sha_K ! t) m s) = sha256_round M t (sha_list s)"
  using assms by (simp add: sha_list_def sha_round_def sha256_round_def Let_def rotr32_word_rotr ac_simps)

lemma sha_rounds_list:
  assumes "\<And>t. t \<in> set ts \<Longrightarrow> m ! t = sha256_W M t"
  shows "sha_list (fold (\<lambda>i. sha_round (sha_K ! i) (m ! i)) ts s) = fold (sha256_round M) ts (sha_list s)"
  using assms by (induction ts arbitrary: s) (simp_all add: sha_round_list)

lemma ucast_push_byte:
  assumes "n \<le> 24"
  shows "ucast (push_bit n (ucast (b :: u8) :: u32)) = (push_bit n (ucast b) :: u64)"
proof (rule bit_word_eqI)
  fix k assume "k < LENGTH(64)"
  then show "bit (ucast (push_bit n (ucast b :: u32)) :: u64) k = bit (push_bit n (ucast b) :: u64) k"
    using assms by (auto simp: bit_simps dest: bit_imp_le_length)
qed

lemma bswap_be_bytes: "BSWAP32 a = be_word (rev (be_bytes a))"
proof -
  have u: "ucast (drop_bit n (ucast a :: u64)) = (ucast (drop_bit n a) :: u8)" if "n \<le> 24" for n
    by (rule bit_word_eqI) (use that in \<open>auto simp: bit_simps dest: bit_imp_le_length\<close>)
  have "(ucast (ucast a :: u64) :: u32) = a" "(ucast (ucast a :: u64) :: u8) = ucast a"
    by (auto intro!: bit_word_eqI simp: bit_simps dest: bit_imp_le_length)
  then show ?thesis using bswap_be_word [of "ucast a"] u by (simp add: be_bytes_def)
qed

lemma le_word_digest:
  "ucast (BSWAP32 a) OR push_bit 32 (ucast (BSWAP32 b)) = le_word (be_bytes a @ be_bytes b)"
  using ucast_push_byte [where n = 24] ucast_push_byte [where n = 16] ucast_push_byte [where n = 8] ucast_push_byte [where n = 0]
  by (simp add: bswap_be_bytes be_bytes_def be_word_def le_word_def push_bit_or unsigned_or_eq ac_simps)

text \<open>
  C26: The hash that jitters the cells is the first eight bytes of SHA-256 of the seed's eight bytes, read
  in little-endian order.
\<close>

theorem getVoronoiSHA_is_sha256:
  "getVoronoiSHA seed = le_word (take 8 (sha256 (le_bytes seed)))"
proof -
  let ?M = "sha_block seed"
  have M: "length ?M = 16" by (simp add: sha_block_def)
  let ?s = "fold (\<lambda>i. sha_round (sha_K ! i) ((sha_schedule_step ^^ 48) ?M ! i)) [0..<64]
      \<lparr>sh0 = sha_B ! 0, sh1 = sha_B ! 1, sh2 = sha_B ! 2, sh3 = sha_B ! 3, sh4 = sha_B ! 4, sh5 = sha_B ! 5, sh6 = sha_B ! 6, sh7 = sha_B ! 7\<rparr>"
  have "fold (sha256_round ?M) [0..<64] sha_B = sha_list ?s"
    by (subst sha_rounds_list [where M = ?M]) (use sha_schedule_W [OF M, of 48] in \<open>simp_all add: sha_list_def sha_B_def\<close>)
  then have "sha256 (le_bytes seed) = concat (map be_bytes (map2 (+) sha_B (sha_list ?s)))"
    by (simp add: sha256_def sha_block_padded [symmetric] Let_def)
  then have "take 8 (sha256 (le_bytes seed)) = be_bytes (sha_B ! 0 + sh0 ?s) @ be_bytes (sha_B ! 1 + sh1 ?s)"
    by (simp add: sha_list_def sha_B_def be_bytes_def)
  then show ?thesis by (simp add: getVoronoiSHA_def Let_def le_word_digest add.commute)
qed

end
