(* ===== verification/CpuMeasure.thy ===== *)
theory CpuMeasure
  imports Flood Voronoi
begin

text \<open>
  The exact measurement of an island, \<open>measure_1to1\<close> of \<open>src/src/cpu.cpp\<close>: a grid of biome cells sampled
  by several threads, a dilated mask that says where a block can be mushroom at all, the zoom of the
  remaining blocks, and the flood fill. The biome sampler and the hash that jitters the cells are
  parameters. The theorems say that the rows are split among the threads without gap or overlap, that
  mush and grid bounds never lose a block, and that the result is the largest connected region of
  mushroom blocks in the square.
\<close>

section \<open>Definitions\<close>

text \<open>The row ranges \<open>[r0, r1)\<close> of the threads that are started.\<close>

definition thread_rows :: "int \<Rightarrow> int \<Rightarrow> (int \<times> int) list" where
  "thread_rows nthreads height =
     (let rows_per = (height + nthreads - 1) sdiv nthreads
      in takeWhile (\<lambda>(r0, r1). r0 < r1)
           (map (\<lambda>t. (t * rows_per, min (t * rows_per + rows_per) height)) [0..nthreads - 1]))"

definition at_least_one :: "int \<Rightarrow> int" where
  "at_least_one nthreads = (if nthreads < 1 then 1 else nthreads)"

definition rows_cells :: "int \<Rightarrow> int \<times> int \<Rightarrow> (int \<times> int) list" where
  "rows_cells w = (\<lambda>(r0, r1). concat (map (\<lambda>j. map (\<lambda>i. (i, j)) [0..w - 1]) [r0..r1 - 1]))"

definition thread_cells :: "int \<Rightarrow> int \<Rightarrow> int \<Rightarrow> (int \<times> int) list" where
  "thread_cells nthreads w h = concat (map (rows_cells w) (thread_rows (at_least_one nthreads) h))"

text \<open>Every cell of \<open>order\<close> is written once.\<close>

definition fill_cells :: "int \<Rightarrow> (int \<times> int \<Rightarrow> int) \<Rightarrow> (int \<times> int) list \<Rightarrow> int list \<Rightarrow> int list" where
  "fill_cells w f order grid = fold (\<lambda>p. set_cell w p (f p)) order grid"

definition new_grid :: "int \<Rightarrow> int \<Rightarrow> int list" where
  "new_grid w h = replicate (nat (w * h)) 0"

text \<open>The mask: the cells that are mushroom at one of the two heights, and their neighbours.\<close>

definition mark_around :: "int \<Rightarrow> int \<times> int \<Rightarrow> int list \<Rightarrow> int list" where
  "mark_around w = (\<lambda>(i, j) mush.
     fold (\<lambda>dj mush. if j + dj < 0 \<or> w \<le> j + dj then mush
       else fold (\<lambda>di mush. if i + di < 0 \<or> w \<le> i + di then mush
         else set_cell w (i + di, j + dj) 1 mush) [- 1, 0, 1] mush) [- 1, 0, 1] mush)"

definition mush_mask :: "int \<Rightarrow> int list \<Rightarrow> int list \<Rightarrow> int list" where
  "mush_mask gw4 biome4a biome4b =
     fold (\<lambda>p mush. if cell_at gw4 biome4a p = 0 \<and> cell_at gw4 biome4b p = 0 then mush else mark_around gw4 p mush)
       (row_major gw4 gw4) (new_grid gw4 gw4)"

record World =
  wd_sha :: u64
  biome_2y :: "int \<Rightarrow> int \<Rightarrow> int \<times> int"

definition grid4 :: "World \<Rightarrow> int \<Rightarrow> int \<Rightarrow> int \<Rightarrow> int \<Rightarrow> (int \<times> int \<Rightarrow> int) \<Rightarrow> int list" where
  "grid4 world nthreads gw4 ox4 oz4 pick =
     fill_cells gw4 (\<lambda>(i, j). of_bool (pick (biome_2y world (ox4 + i) (oz4 + j)) = 14)) (thread_cells nthreads gw4 gw4) (new_grid gw4 gw4)"

definition block_pass :: "World \<Rightarrow> int \<Rightarrow> int \<Rightarrow> int \<Rightarrow> int \<Rightarrow> int \<Rightarrow> int list \<Rightarrow> int list \<Rightarrow> int list \<Rightarrow> int \<times> int \<Rightarrow> int" where
  "block_pass world gw4 ox oz ox4 oz4 biome4a biome4b mush = (\<lambda>(i, j).
     let gi = (ox + i - 2) div 4 - ox4;
         gj = (oz + j - 2) div 4 - oz4
     in if gi < 0 \<or> gw4 \<le> gi \<or> gj < 0 \<or> gw4 \<le> gj \<or> cell_at gw4 mush (gi, gj) = 0 then 0
        else let (x4, y4, z4) = voronoiAccess3D (wd_sha world) (ox + i) 62 (oz + j);
                 gx = x4 - ox4; gz = z4 - oz4
             in if gx < 0 \<or> gw4 \<le> gx \<or> gz < 0 \<or> gw4 \<le> gz then 0
                else if y4 \<le> 15 then cell_at gw4 biome4a (gx, gz) else cell_at gw4 biome4b (gx, gz))"

text \<open>Steps 1 and 2: the grid of blocks.\<close>

definition measure_pass :: "World \<Rightarrow> int \<Rightarrow> int \<Rightarrow> int \<Rightarrow> int \<Rightarrow> int list" where
  "measure_pass world nthreads cx cz radius =
     (let gw = 2 * radius;
          ox = cx - radius; oz = cz - radius;
          gw4 = gw sdiv 4 + 4;
          ox4 = (ox - 8) sdiv 4; oz4 = (oz - 8) sdiv 4;
          biome4a = grid4 world nthreads gw4 ox4 oz4 fst;
          biome4b = grid4 world nthreads gw4 ox4 oz4 snd;
          mush = mush_mask gw4 biome4a biome4b
      in fill_cells gw (block_pass world gw4 ox oz ox4 oz4 biome4a biome4b mush) (thread_cells nthreads gw gw) (new_grid gw gw))"

record Measured =
  ms_area :: int
  ms_x :: int
  ms_z :: int
  ms_edge :: bool

text \<open>Step 3. Where nothing is found, the caller's position is left as it was.\<close>

definition measure_1to1 :: "World \<Rightarrow> int \<Rightarrow> int \<Rightarrow> int \<Rightarrow> int \<Rightarrow> bool \<Rightarrow> int \<times> int \<Rightarrow> Measured" where
  "measure_1to1 world nthreads cx cz radius from_center out =
     (let gw = 2 * radius;
          ox = cx - radius; oz = cz - radius;
          pass = measure_pass world nthreads cx cz radius
      in if from_center
         then let s = (cx - ox, cz - oz)
              in if in_grid gw gw s \<and> cell_at gw pass s = 1
                 then let st = flood gw gw ox oz s pass
                      in \<lparr>ms_area = fs_count st, ms_x = fs_sum_x st sdiv fs_count st, ms_z = fs_sum_z st sdiv fs_count st, ms_edge = fs_edge st\<rparr>
                 else \<lparr>ms_area = 0, ms_x = fst out, ms_z = snd out, ms_edge = False\<rparr>
         else let b = largest_region gw gw ox oz pass
              in \<lparr>ms_area = bs_count b,
                  ms_x = (if 0 < bs_count b then bs_sum_x b sdiv bs_count b else fst out),
                  ms_z = (if 0 < bs_count b then bs_sum_z b sdiv bs_count b else snd out),
                  ms_edge = bs_edge b\<rparr>)"

section \<open>Specification\<close>

text \<open>A block is mushroom if the cell the zoom assigns to it is.\<close>

definition mushroom_block :: "World \<Rightarrow> int \<Rightarrow> int \<Rightarrow> bool" where
  "mushroom_block world x z =
     (let (x4, y4, z4) = voronoiAccess3D (wd_sha world) x 62 z
      in (if y4 \<le> 15 then fst (biome_2y world x4 z4) else snd (biome_2y world x4 z4)) = 14)"

text \<open>The mushroom blocks of the square around a centre, in coordinates of the square.\<close>

definition mushroom_blocks :: "World \<Rightarrow> int \<Rightarrow> int \<Rightarrow> int \<Rightarrow> (int \<times> int) set" where
  "mushroom_blocks world cx cz radius =
     {(i, j). in_grid (2 * radius) (2 * radius) (i, j) \<and> mushroom_block world (cx - radius + i) (cz - radius + j)}"

section \<open>The split among the threads\<close>

lemma sdiv_nonneg: "0 \<le> (a :: int) \<Longrightarrow> 0 < b \<Longrightarrow> a sdiv b = a div b"
  by (simp add: signed_divide_int_def sgn_if)

lemma upto_append: "a \<le> b \<Longrightarrow> b \<le> c \<Longrightarrow> [a..b - 1] @ [b..c - 1] = [a..c - 1 :: int]"
  using upto_split2 [of a "b - 1" "c - 1"] by (cases "a = b") simp_all

text \<open>Chunks of \<open>q\<close> from \<open>a\<close> to \<open>height\<close>, cut off where they begin past the end.\<close>

lemma chunks_cover:
  assumes "0 < q" "0 \<le> k" "height \<le> (k + int n) * q" "k * q \<le> height"
  shows "concat (map (\<lambda>(r0, r1). [r0..r1 - 1]) (takeWhile (\<lambda>(r0, r1). r0 < r1)
      (map (\<lambda>t. (t * q, min (t * q + q) height)) [k..k + int n - 1]))) = [k * q..height - 1]"
  using assms
proof (induction n arbitrary: k)
  case 0
  then show ?case by simp
next
  case (Suc n)
  have up: "[k..k + int (Suc n) - 1] = k # [k + 1..(k + 1) + int n - 1]" by (simp add: upto_rec1 algebra_simps)
  show ?case
  proof (cases "k * q + q \<le> height")
    case True
    have "(k + 1) * q = k * q + q" by (simp add: algebra_simps)
    then have "concat (map (\<lambda>(r0, r1). [r0..r1 - 1]) (takeWhile (\<lambda>(r0, r1). r0 < r1)
      (map (\<lambda>t. (t * q, min (t * q + q) height)) [k + 1..(k + 1) + int n - 1]))) = [k * q + q..height - 1]"
      using Suc.IH [of "k + 1"] Suc.prems True by (simp add: algebra_simps)
    then show ?thesis unfolding up using True Suc.prems(1) upto_append [of "k * q" "k * q + q" height] by simp
  next
    case False
    have none: "takeWhile (\<lambda>(r0, r1). r0 < r1) (map (\<lambda>t. (t * q, min (t * q + q) height)) [k + 1..(k + 1) + int n - 1]) = []"
    proof (cases n)
      case (Suc m)
      have "[k + 1..(k + 1) + int n - 1] = (k + 1) # [k + 2..(k + 1) + int n - 1]" using Suc by (simp add: upto_rec1 add.commute)
      then show ?thesis using False by (simp add: algebra_simps)
    qed simp
    then show ?thesis unfolding up using False Suc.prems by (cases "k * q < height") simp_all
  qed
qed

declare split_paired_All [simp del] split_paired_Ex [simp del]

lemma thread_rows_cover:
  assumes "1 \<le> n" "0 \<le> h"
  shows "concat (map (\<lambda>(r0, r1). [r0..r1 - 1]) (thread_rows n h)) = [0..h - 1]"
proof (cases "h = 0")
  case True
  have "[0..n - 1] = 0 # [1..n - 1]" using assms(1) by (simp add: upto_rec1)
  then show ?thesis using True assms(1) by (simp add: thread_rows_def Let_def sdiv_nonneg)
next
  case False
  let ?q = "(h + n - 1) div n"
  have q: "(h + n - 1) sdiv n = ?q" using assms by (intro sdiv_nonneg) simp_all
  have "h + n - 1 < (?q + 1) * n"
  proof -
    have "(h + n - 1) mod n < n" using assms(1) by simp
    moreover have "(h + n - 1) div n * n + (h + n - 1) mod n = h + n - 1" by (rule div_mult_mod_eq)
    ultimately show ?thesis unfolding distrib_right by linarith
  qed
  then have le: "h \<le> (0 + int (nat n)) * ?q" using assms(1) by (simp add: algebra_simps)
  have "1 * n div n \<le> ?q" using assms False by (intro zdiv_mono1) simp_all
  then have "0 < ?q" using assms(1) by simp
  from chunks_cover [OF this order.refl le] show ?thesis
    using assms q by (simp add: thread_rows_def Let_def)
qed

text \<open>
  However many threads the machine has, the rows they work on are all rows of the grid, each once.
\<close>

theorem threads_split_rows:
  assumes "0 \<le> height"
  shows "concat (map (\<lambda>(r0, r1). [r0..r1 - 1]) (thread_rows (at_least_one nthreads) height)) = [0..height - 1]"
  by (rule thread_rows_cover) (simp_all add: assms at_least_one_def)

lemma threads_split_rows_witness:
  "concat (map (\<lambda>(r0, r1). [r0..r1 - 1]) (thread_rows (at_least_one 4) 10)) = [0..9]"
  using threads_split_rows [of 10 4] by simp

lemma thread_cells_all:
  assumes "0 \<le> h"
  shows "thread_cells n w h = row_major w h"
proof -
  have "concat (map (rows_cells w) rs) =
      concat (map (\<lambda>j. map (\<lambda>i. (i, j)) [0..w - 1]) (concat (map (\<lambda>(r0, r1). [r0..r1 - 1]) rs)))" for rs
    by (induction rs) (auto simp: rows_cells_def)
  then show ?thesis
    using thread_rows_cover [of "at_least_one n" h] assms
    by (simp add: thread_cells_def row_major_def at_least_one_def)
qed

section \<open>The grids\<close>

lemma fill_cells_at:
  assumes "length grid = nat (w * h)" "\<And>p. p \<in> set order \<Longrightarrow> in_grid w h p"
  shows "length (fill_cells w f order grid) = nat (w * h) \<and>
         (\<forall>p. in_grid w h p \<longrightarrow> cell_at w (fill_cells w f order grid) p = (if p \<in> set order then f p else cell_at w grid p))"
  using assms
proof (induction order arbitrary: grid)
  case Nil
  then show ?case by (simp add: fill_cells_def)
next
  case (Cons q order)
  have len: "length (set_cell w q (f q) grid) = nat (w * h)" using Cons.prems(1) by simp
  have IH: "length (fill_cells w f order (set_cell w q (f q) grid)) = nat (w * h)"
    "in_grid w h p \<Longrightarrow> cell_at w (fill_cells w f order (set_cell w q (f q) grid)) p =
       (if p \<in> set order then f p else cell_at w (set_cell w q (f q) grid) p)" for p
    using Cons.IH [OF len] Cons.prems(2) by (meson list.set_intros(2))+
  have "fill_cells w f (q # order) grid = fill_cells w f order (set_cell w q (f q) grid)" by (simp add: fill_cells_def)
  moreover have "cell_at w (set_cell w q (f q) grid) p = (if q = p then f q else cell_at w grid p)" if "in_grid w h p" for p
    by (rule cell_at_set_cell [OF _ that Cons.prems(1)]) (use Cons.prems(2) in simp)
  ultimately show ?case using IH by (intro conjI allI impI) auto
qed

lemma length_new_grid: "length (new_grid w h) = nat (w * h)"
  by (simp add: new_grid_def)

lemma fill_all:
  assumes "0 \<le> h"
  shows "length (fill_cells w f (thread_cells n w h) (new_grid w h)) = nat (w * h)"
    and "in_grid w h p \<Longrightarrow> cell_at w (fill_cells w f (thread_cells n w h) (new_grid w h)) p = f p"
  using fill_cells_at [OF length_new_grid, of "thread_cells n w h" w h f] assms
  by (simp_all add: thread_cells_all set_row_major)

lemma grid4_at:
  assumes "0 \<le> gw4" "in_grid gw4 gw4 (i, j)"
  shows "cell_at gw4 (grid4 world n gw4 ox4 oz4 pick) (i, j) = of_bool (pick (biome_2y world (ox4 + i) (oz4 + j)) = 14)"
  using fill_all(2) [OF assms] by (simp add: grid4_def)

section \<open>The mask\<close>

definition near :: "int \<times> int \<Rightarrow> int \<times> int \<Rightarrow> bool" where
  "near p q \<longleftrightarrow> \<bar>fst p - fst q\<bar> \<le> 1 \<and> \<bar>snd p - snd q\<bar> \<le> 1"

text \<open>What \<open>f\<close> marks: the cells of \<open>A\<close>, all else is as before.\<close>

definition marks :: "int \<Rightarrow> (int \<times> int) set \<Rightarrow> int list \<Rightarrow> int list \<Rightarrow> bool" where
  "marks w A xs ys \<longleftrightarrow> length ys = nat (w * w) \<and> (\<forall>q. in_grid w w q \<longrightarrow> cell_at w ys q = (if q \<in> A then 1 else cell_at w xs q))"

lemma marks_refl: "length xs = nat (w * w) \<Longrightarrow> marks w {} xs xs"
  by (simp add: marks_def)

lemma marks_trans: "marks w A xs ys \<Longrightarrow> marks w B ys zs \<Longrightarrow> marks w (A \<union> B) xs zs"
  by (simp add: marks_def)

lemma marks_length: "marks w A xs ys \<Longrightarrow> length ys = nat (w * w)"
  by (simp add: marks_def)

lemma marks_set_cell:
  assumes "length xs = nat (w * w)" "in_grid w w p"
  shows "marks w {p} xs (set_cell w p 1 xs)"
  using assms cell_at_set_cell [OF assms(2) _ assms(1), of _ 1] unfolding marks_def by simp

lemma marks_fold:
  assumes "\<And>x ys. x \<in> set ds \<Longrightarrow> length ys = nat (w * w) \<Longrightarrow> marks w (A x) ys (f x ys)" "length xs = nat (w * w)"
  shows "marks w (\<Union>x\<in>set ds. A x) xs (fold f ds xs)"
  using assms
proof (induction ds arbitrary: xs)
  case Nil
  then show ?case using marks_refl by simp
next
  case (Cons d ds)
  have 1: "marks w (A d) xs (f d xs)" using Cons.prems by simp
  have "marks w (\<Union>x\<in>set ds. A x) (f d xs) (fold f ds (f d xs))"
    by (rule Cons.IH) (use Cons.prems(1) marks_length [OF 1] in auto)
  from marks_trans [OF 1 this] show ?case by simp
qed

lemma mark_around_marks:
  assumes "length xs = nat (w * w)" "in_grid w w p"
  shows "marks w {q. in_grid w w q \<and> near p q} xs (mark_around w p xs)"
proof -
  obtain i j where p: "p = (i, j)" by (cases p)
  let ?A = "\<lambda>dj di. {q. in_grid w w q \<and> q = (i + di, j + dj)}"
  let ?in = "\<lambda>dj di ys. if i + di < 0 \<or> w \<le> i + di then ys else set_cell w (i + di, j + dj) 1 ys"
  let ?out = "\<lambda>dj ys. if j + dj < 0 \<or> w \<le> j + dj then ys else fold (?in dj) [- 1, 0, 1] ys"
  have cell: "marks w (?A dj di) ys (?in dj di ys)" if "length ys = nat (w * w)" "\<not> (j + dj < 0 \<or> w \<le> j + dj)" for dj di ys
  proof (cases "i + di < 0 \<or> w \<le> i + di")
    case True
    then have e: "?A dj di = {}" by (auto simp: in_grid_def)
    show ?thesis unfolding e using True marks_refl [OF that(1)] by simp
  next
    case False
    then have "in_grid w w (i + di, j + dj)" "?A dj di = {(i + di, j + dj)}" using that(2) by (auto simp: in_grid_def)
    then show ?thesis using False marks_set_cell [OF that(1)] by simp
  qed
  have row: "marks w (\<Union>di\<in>set [- 1, 0, 1]. ?A dj di) ys (?out dj ys)" if "length ys = nat (w * w)" for dj ys
  proof (cases "j + dj < 0 \<or> w \<le> j + dj")
    case True
    then have e: "(\<Union>di\<in>set [- 1, 0, 1]. ?A dj di) = {}" by (auto simp: in_grid_def)
    show ?thesis unfolding e using True marks_refl [OF that] by simp
  next
    case False
    have "marks w (\<Union>di\<in>set [- 1, 0, 1]. ?A dj di) ys (fold (?in dj) [- 1, 0, 1] ys)"
      by (rule marks_fold [OF _ that]) (use cell False in blast)
    then show ?thesis using False by simp
  qed
  have "marks w (\<Union>dj\<in>set [- 1, 0, 1]. \<Union>di\<in>set [- 1, 0, 1]. ?A dj di) xs (fold ?out [- 1, 0, 1] xs)"
    by (rule marks_fold [OF _ assms(1)]) (use row in blast)
  moreover have "(\<Union>dj\<in>set [- 1, 0, 1]. \<Union>di\<in>set [- 1, 0, 1]. ?A dj di) = {q. in_grid w w q \<and> near p q}"
  proof -
    have d: "\<bar>a\<bar> \<le> 1 \<longleftrightarrow> a \<in> set [- 1, 0, 1]" for a :: int by auto
    have "near p q \<longleftrightarrow> snd q - j \<in> set [- 1, 0, 1] \<and> fst q - i \<in> set [- 1, 0, 1]" for q
      unfolding d [symmetric] by (auto simp: near_def p abs_minus_commute)
    moreover have "q = (i + di, j + dj) \<longleftrightarrow> snd q - j = dj \<and> fst q - i = di" for q di dj by (cases q) auto
    moreover have "(\<Union>dj\<in>D. \<Union>di\<in>D. {q. G q \<and> snd q - j = dj \<and> fst q - i = di}) = {q. G q \<and> snd q - j \<in> D \<and> fst q - i \<in> D}"
      for G and D :: "int set" by blast
    ultimately show ?thesis by (simp only:)
  qed
  ultimately show ?thesis by (simp add: mark_around_def p)
qed

lemma mush_mask_at:
  assumes "in_grid w w q"
  shows "cell_at w (mush_mask w as bs) q \<noteq> 0 \<longleftrightarrow>
    (\<exists>p. in_grid w w p \<and> near p q \<and> (cell_at w as p \<noteq> 0 \<or> cell_at w bs p \<noteq> 0))"
proof -
  let ?M = "\<lambda>p. {q. in_grid w w q \<and> near p q \<and> (cell_at w as p \<noteq> 0 \<or> cell_at w bs p \<noteq> 0)}"
  let ?f = "\<lambda>p ys. if cell_at w as p = 0 \<and> cell_at w bs p = 0 then ys else mark_around w p ys"
  have step: "marks w (?M p) ys (?f p ys)" if "p \<in> set (row_major w w)" "length ys = nat (w * w)" for p ys
  proof (cases "cell_at w as p = 0 \<and> cell_at w bs p = 0")
    case True
    then show ?thesis using marks_refl [OF that(2)] by simp
  next
    case False
    then have e: "?M p = {q. in_grid w w q \<and> near p q}" by blast
    show ?thesis unfolding e if_not_P [OF False] by (rule mark_around_marks [OF that(2)]) (use that(1) set_row_major in blast)
  qed
  have "marks w (\<Union>p\<in>set (row_major w w). ?M p) (new_grid w w) (mush_mask w as bs)"
    unfolding mush_mask_def by (rule marks_fold [OF step length_new_grid])
  moreover have "cell_at w (new_grid w w) q = 0" by (simp add: cell_at_def new_grid_def split_def)
  ultimately show ?thesis using assms by (auto simp: marks_def set_row_major)
qed

section \<open>The blocks\<close>

lemma sdiv4_bounds: "a div 4 \<le> a sdiv 4" "a sdiv 4 \<le> (a + 4) div (4 :: int)"
  by (auto simp: signed_divide_int_def sgn_if)

text \<open>The grid of cells reaches one cell past the shifted cell of every block, in each direction.\<close>

lemma cell_grid_wide_enough:
  fixes o' i radius n :: int
  assumes "0 \<le> i" "i < 2 * radius" "(o' + i - 2) div 4 \<le> n" "n \<le> (o' + i - 2) div 4 + 1"
  shows "0 \<le> n - (o' - 8) sdiv 4 \<and> n - (o' - 8) sdiv 4 < (2 * radius) sdiv 4 + 4"
proof
  have "(o' - 8) sdiv 4 \<le> (o' - 4) div 4" using sdiv4_bounds(2) [of "o' - 8"] by simp
  also have "\<dots> \<le> (o' + i - 2) div 4" using assms(1) by (intro zdiv_mono1) simp_all
  finally show "0 \<le> n - (o' - 8) sdiv 4" using assms(3) by simp
  have "(2 * radius) sdiv 4 = (2 * radius) div 4" using assms(1,2) by (intro sdiv_nonneg) simp_all
  moreover have "(o' + i - 2) div 4 \<le> (o' + 2 * radius - 3) div 4" using assms(2) by (intro zdiv_mono1) simp_all
  moreover have "(o' + 2 * radius - 3) div 4 \<le> o' div 4 + (2 * radius) div 4" by presburger
  moreover have "o' div 4 - 2 \<le> (o' - 8) sdiv 4" using sdiv4_bounds(1) [of "o' - 8"] by simp
  ultimately show "n - (o' - 8) sdiv 4 < (2 * radius) sdiv 4 + 4" using assms(4) by linarith
qed

lemma block_pass_exact:
  assumes "in_grid (2 * radius) (2 * radius) (i, j)"
    and "gw4 = (2 * radius) sdiv 4 + 4" "ox = cx - radius" "oz = cz - radius" "ox4 = (ox - 8) sdiv 4" "oz4 = (oz - 8) sdiv 4"
    and "as = grid4 world n gw4 ox4 oz4 fst" "bs = grid4 world n gw4 ox4 oz4 snd"
  shows "block_pass world gw4 ox oz ox4 oz4 as bs (mush_mask gw4 as bs) (i, j) = of_bool (mushroom_block world (ox + i) (oz + j))"
proof -
  have ij: "0 \<le> i" "i < 2 * radius" "0 \<le> j" "j < 2 * radius" using assms(1) by (simp_all add: in_grid_def)
  obtain x4 y4 z4 where v: "voronoiAccess3D (wd_sha world) (ox + i) 62 (oz + j) = (x4, y4, z4)" by (metis prod_cases3)
  define nx nz where "nx = (ox + i - 2) div 4" and "nz = (oz + j - 2) div 4"
  have near4: "nx \<le> x4" "x4 \<le> nx + 1" "nz \<le> z4" "z4 \<le> nz + 1"
    using conjunct2 [OF voronoiAccess3D_near [of "wd_sha world" "ox + i" 62 "oz + j"]] v by (simp_all add: nx_def nz_def)
  have g4: "0 \<le> gw4" using ij assms(2) by (simp add: sdiv_nonneg)
  have gx: "0 \<le> m - ox4 \<and> m - ox4 < gw4" if "nx \<le> m" "m \<le> nx + 1" for m
    using cell_grid_wide_enough [OF ij(1,2), of ox m] that unfolding nx_def assms(2,5) by simp
  have gz: "0 \<le> m - oz4 \<and> m - oz4 < gw4" if "nz \<le> m" "m \<le> nz + 1" for m
    using cell_grid_wide_enough [OF ij(3,4), of oz m] that unfolding nz_def assms(2,6) by simp
  have naive: "in_grid gw4 gw4 (nx - ox4, nz - oz4)" and cell: "in_grid gw4 gw4 (x4 - ox4, z4 - oz4)"
    using gx [of nx] gz [of nz] gx [OF near4(1,2)] gz [OF near4(3,4)] by (simp_all add: in_grid_def)
  have a: "cell_at gw4 as (x4 - ox4, z4 - oz4) = of_bool (fst (biome_2y world x4 z4) = 14)"
    and b: "cell_at gw4 bs (x4 - ox4, z4 - oz4) = of_bool (snd (biome_2y world x4 z4) = 14)"
    using grid4_at [OF g4 cell] by (simp_all add: assms(7,8))
  have "near (x4 - ox4, z4 - oz4) (nx - ox4, nz - oz4)" using near4 by (simp add: near_def)
  then have zero: "cell_at gw4 as (x4 - ox4, z4 - oz4) = 0 \<and> cell_at gw4 bs (x4 - ox4, z4 - oz4) = 0"
    if "cell_at gw4 (mush_mask gw4 as bs) (nx - ox4, nz - oz4) = 0"
    using mush_mask_at [OF naive, of as bs] that cell by blast
  show ?thesis
    using naive cell a b zero
    by (auto simp: block_pass_def mushroom_block_def v Let_def in_grid_def not_le nx_def [symmetric] nz_def [symmetric])
qed

lemma measure_pass_exact:
  assumes "0 \<le> radius"
  shows "length (measure_pass world n cx cz radius) = nat (2 * radius * (2 * radius)) \<and>
    ones (2 * radius) (2 * radius) (measure_pass world n cx cz radius) = mushroom_blocks world cx cz radius"
proof -
  let ?w = "2 * radius" and ?P = "measure_pass world n cx cz radius"
  have at: "cell_at ?w ?P p = of_bool (mushroom_block world (cx - radius + fst p) (cz - radius + snd p))" if "in_grid ?w ?w p" for p
    using fill_all(2) [of ?w ?w p] that assms block_pass_exact [of radius "fst p" "snd p"]
    by (simp add: measure_pass_def Let_def)
  have "p \<in> ones ?w ?w ?P \<longleftrightarrow> p \<in> mushroom_blocks world cx cz radius" for p
    using at [of p] by (cases p) (auto simp: ones_def mushroom_blocks_def)
  moreover have "length ?P = nat (?w * ?w)" using fill_all(1) [of ?w] assms by (simp add: measure_pass_def Let_def)
  ultimately show ?thesis by blast
qed

text \<open>
  Neither the mask of step 2 nor the bounds of the cell grid lose a block: exactly the mushroom blocks
  of the square are passed on to the flood fill.
\<close>

theorem measure_pass_is_mushroom:
  assumes "0 \<le> i" "i < 2 * radius" "0 \<le> j" "j < 2 * radius"
  shows "cell_at (2 * radius) (measure_pass world n cx cz radius) (i, j) = of_bool (mushroom_block world (cx - radius + i) (cz - radius + j))"
proof -
  have "in_grid (2 * radius) (2 * radius) (i, j)" using assms by (simp add: in_grid_def)
  then show ?thesis
    using fill_all(2) [of "2 * radius" "2 * radius" "(i, j)"] assms block_pass_exact [of radius i j] by (simp add: measure_pass_def Let_def)
qed

lemma measure_pass_is_mushroom_witness:
  "cell_at 20 (measure_pass \<lparr>wd_sha = 5, biome_2y = (\<lambda>x z. if even x then (14, 0) else (14, 14))\<rparr> 8 (- 3) 4 10) (7, 19) =
   of_bool (mushroom_block \<lparr>wd_sha = 5, biome_2y = (\<lambda>x z. if even x then (14, 0) else (14, 14))\<rparr> (- 6) 13)"
  using measure_pass_is_mushroom [of 7 10 19] by simp

lemma measure_1to1_largest:
  assumes "0 \<le> radius"
  shows "ms_area (measure_1to1 world n cx cz radius False out) =
           int (Max (insert 0 (card ` components (mushroom_blocks world cx cz radius)))) \<and>
         (if mushroom_blocks world cx cz radius = {}
          then measure_1to1 world n cx cz radius False out = \<lparr>ms_area = 0, ms_x = fst out, ms_z = snd out, ms_edge = False\<rparr>
          else \<exists>C\<in>components (mushroom_blocks world cx cz radius).
                 measure_1to1 world n cx cz radius False out =
                   \<lparr>ms_area = int (card C), ms_x = (\<Sum>(i, j)\<in>C. cx - radius + i) sdiv int (card C),
                    ms_z = (\<Sum>(i, j)\<in>C. cz - radius + j) sdiv int (card C), ms_edge = touches_edge (2 * radius) (2 * radius) C\<rparr>)"
proof -
  let ?w = "2 * radius" and ?S = "mushroom_blocks world cx cz radius"
  note P = measure_pass_exact [OF assms, of world n cx cz]
  note best = largest_region_max [OF conjunct1 [OF P], of "cx - radius" "cz - radius", unfolded conjunct2 [OF P]]
  show ?thesis
  proof (cases "?S = {}")
    case True
    then show ?thesis using best by (simp add: measure_1to1_def Let_def components_def)
  next
    case False
    then obtain C where C: "C \<in> components ?S" and b:
        "bs_count (largest_region ?w ?w (cx - radius) (cz - radius) (measure_pass world n cx cz radius)) = int (card C)"
        "bs_sum_x (largest_region ?w ?w (cx - radius) (cz - radius) (measure_pass world n cx cz radius)) = (\<Sum>(i, j)\<in>C. cx - radius + i)"
        "bs_sum_z (largest_region ?w ?w (cx - radius) (cz - radius) (measure_pass world n cx cz radius)) = (\<Sum>(i, j)\<in>C. cz - radius + j)"
        "bs_edge (largest_region ?w ?w (cx - radius) (cz - radius) (measure_pass world n cx cz radius)) = touches_edge ?w ?w C"
      using conjunct2 [OF best, unfolded if_not_P [OF False]] by blast
    have "0 < card C" using C card_component_pos unfolding conjunct2 [OF P, symmetric] by (auto simp: components_def)
    then show ?thesis using best False C b by (auto simp: measure_1to1_def Let_def)
  qed
qed

text \<open>
  C6: The measured area is the size of the largest connected region of mushroom blocks in the square, the
  edge flag tells whether that region touches the edge, and the position is its rounded centroid.
\<close>

theorem measure_1to1_largest_island:
  assumes "0 \<le> radius"
  shows "ms_area (measure_1to1 world n cx cz radius False out) =
           int (Max (insert 0 (card ` components (mushroom_blocks world cx cz radius)))) \<and>
         (if mushroom_blocks world cx cz radius = {}
          then measure_1to1 world n cx cz radius False out = \<lparr>ms_area = 0, ms_x = fst out, ms_z = snd out, ms_edge = False\<rparr>
          else \<exists>C\<in>components (mushroom_blocks world cx cz radius).
                 measure_1to1 world n cx cz radius False out =
                   \<lparr>ms_area = int (card C), ms_x = (\<Sum>(i, j)\<in>C. cx - radius + i) sdiv int (card C),
                    ms_z = (\<Sum>(i, j)\<in>C. cz - radius + j) sdiv int (card C), ms_edge = touches_edge (2 * radius) (2 * radius) C\<rparr>)"
  by (rule measure_1to1_largest [OF assms])

lemma measure_1to1_largest_island_witness:
  "ms_area (measure_1to1 \<lparr>wd_sha = 5, biome_2y = (\<lambda>x z. (14, 14))\<rparr> 8 100 (- 40) 512 False (0, 0)) =
     int (Max (insert 0 (card ` components (mushroom_blocks \<lparr>wd_sha = 5, biome_2y = (\<lambda>x z. (14, 14))\<rparr> 100 (- 40) 512))))"
  using measure_1to1_largest_island [of 512] by simp

lemma measure_1to1_centre:
  assumes "0 < radius"
  shows "measure_1to1 world n cx cz radius True out =
     (if mushroom_block world cx cz
      then let C = component (mushroom_blocks world cx cz radius) (radius, radius)
           in \<lparr>ms_area = int (card C), ms_x = (\<Sum>(i, j)\<in>C. cx - radius + i) sdiv int (card C),
               ms_z = (\<Sum>(i, j)\<in>C. cz - radius + j) sdiv int (card C), ms_edge = touches_edge (2 * radius) (2 * radius) C\<rparr>
      else \<lparr>ms_area = 0, ms_x = fst out, ms_z = snd out, ms_edge = False\<rparr>)"
proof -
  let ?w = "2 * radius" and ?P = "measure_pass world n cx cz radius"
  have P: "length ?P = nat (?w * ?w)" "ones ?w ?w ?P = mushroom_blocks world cx cz radius"
    using measure_pass_exact [of radius world n cx cz] assms by simp_all
  have c: "in_grid ?w ?w (radius, radius)" using assms by (simp add: in_grid_def)
  have mem: "(radius, radius) \<in> mushroom_blocks world cx cz radius \<longleftrightarrow> mushroom_block world cx cz"
    using c by (simp add: mushroom_blocks_def)
  have one: "cell_at ?w ?P (radius, radius) = 1 \<longleftrightarrow> mushroom_block world cx cz"
    using c mem unfolding P(2) [symmetric] by (simp add: ones_def)
  show ?thesis
  proof (cases "mushroom_block world cx cz")
    case True
    then have "flooded ?w ?w (cx - radius) (cz - radius) (component (mushroom_blocks world cx cz radius) (radius, radius)) ?P
        (flood ?w ?w (cx - radius) (cz - radius) (radius, radius) ?P)"
      using flood_flooded [OF P(1)] mem unfolding P(2) by blast
    then show ?thesis using True one c by (simp add: measure_1to1_def Let_def flooded_def)
  qed (use one c in \<open>simp add: measure_1to1_def Let_def\<close>)
qed

text \<open>
  In origin mode the measured area is that of the region of the square's centre, and zero if the
  centre is not mushroom.
\<close>

theorem measure_1to1_centre_island:
  assumes "0 < radius"
  shows "measure_1to1 world n cx cz radius True out =
     (if mushroom_block world cx cz
      then let C = component (mushroom_blocks world cx cz radius) (radius, radius)
           in \<lparr>ms_area = int (card C), ms_x = (\<Sum>(i, j)\<in>C. cx - radius + i) sdiv int (card C),
               ms_z = (\<Sum>(i, j)\<in>C. cz - radius + j) sdiv int (card C), ms_edge = touches_edge (2 * radius) (2 * radius) C\<rparr>
      else \<lparr>ms_area = 0, ms_x = fst out, ms_z = snd out, ms_edge = False\<rparr>)"
  by (rule measure_1to1_centre [OF assms])

lemma measure_1to1_centre_island_witness:
  "ms_edge (measure_1to1 \<lparr>wd_sha = 5, biome_2y = (\<lambda>x z. (0, 0))\<rparr> 8 0 0 2048 True (0, 0)) = False"
  using measure_1to1_centre_island [of 2048 "\<lparr>wd_sha = 5, biome_2y = (\<lambda>x z. (0, 0))\<rparr>" 8 0 0 "(0, 0)"]
  by (simp add: mushroom_block_def split_def)

end
