(* ===== verification/CpuProcess.thy ===== *)
theory CpuProcess
  imports CpuMeasure
begin

text \<open>
  What a CPU thread does with a candidate (\<open>src/src/cpu.cpp\<close>): \<open>fast_find_center\<close>, \<open>process\<close> and
  \<open>process_origin\<close>. The tests of the vendored generator (the Monte Carlo estimate, the search for
  biome centres) and its sampler are parameters. The theorems say what an accepted candidate is worth,
  that the growing squares of origin mode end, and that an island inside the largest square is measured
  exactly, as a connected region of the unbounded plane.
\<close>

section \<open>Definitions\<close>

record PosArea =
  pa_x :: int
  pa_z :: int
  pa_area :: int

record CpuOutput =
  co_seed :: u64
  co_x :: int
  co_z :: int
  co_score :: int

record Candidate =
  cd_seed :: u64
  cd_x :: int
  cd_z :: int

text \<open>
  The generator as the CPU threads use it, once a seed has been applied: \<open>monte_carlo\<close> takes position,
  range and area, \<open>biome_centers\<close> position, range, area, scale and tolerance.
\<close>

record Cubiomes =
  cb_world :: "u64 \<Rightarrow> World"
  monte_carlo :: "u64 \<Rightarrow> int \<Rightarrow> int \<Rightarrow> int \<Rightarrow> int \<Rightarrow> bool"
  biome_centers :: "u64 \<Rightarrow> int \<Rightarrow> int \<Rightarrow> int \<Rightarrow> int \<Rightarrow> int \<Rightarrow> int \<Rightarrow> PosArea option"
  biome_at_block :: "u64 \<Rightarrow> int \<Rightarrow> int \<Rightarrow> int \<Rightarrow> int"

definition fast_find_center :: "World \<Rightarrow> int \<Rightarrow> int \<Rightarrow> int \<Rightarrow> int \<Rightarrow> int \<Rightarrow> PosArea option" where
  "fast_find_center world nthreads cx cz range' min_size =
     (let scale = 4;
          sx = range' sdiv scale; sz = range' sdiv scale;
          ox = (cx - range' sdiv 2) sdiv scale; oz = (cz - range' sdiv 2) sdiv scale;
          grid = fill_cells sx (\<lambda>(i, j). case biome_2y world (ox + i) (oz + j) of (a, b) \<Rightarrow> of_bool (a = 14 \<or> b = 14))
                   (thread_cells nthreads sx sz) (new_grid sx sz);
          b = largest_region sx sz ox oz grid;
          best_n = bs_count b;
          res = \<lparr>pa_x = ((2 * (bs_sum_x b sdiv best_n) + 1) * scale) sdiv 2,
                 pa_z = ((2 * (bs_sum_z b sdiv best_n) + 1) * scale) sdiv 2,
                 pa_area = best_n * (scale * scale)\<rparr>
      in if best_n = 0 then None else if min_size \<le> pa_area res then Some res else None)"

definition search_range :: "bool \<Rightarrow> int" where
  "search_range large_biomes = 12800 * (if large_biomes then 4 else 1)"

definition max_radius :: "bool \<Rightarrow> int" where
  "max_radius large_biomes = (if large_biomes then 24576 else 8192)"

text \<open>\<open>min_size * 0.9\<close>, passed as an integer.\<close>

definition mc_min_area :: "int \<Rightarrow> int" where
  "mc_min_area min_size = (min_size * 9) sdiv 10"

definition exact_radius :: "bool \<Rightarrow> int \<Rightarrow> int" where
  "exact_radius large_biomes area =
     (let r = \<lfloor>3 * sqrt (real_of_int area / pi) + 512\<rfloor>;
          r = (if r < 512 then 512 else r)
      in if r > max_radius large_biomes then max_radius large_biomes else r)"

definition big_radius :: "bool \<Rightarrow> int \<Rightarrow> int" where
  "big_radius large_biomes r =
     (let big = (r * 3) sdiv 2 in if big > max_radius large_biomes then max_radius large_biomes else big)"

text \<open>The exact measurement and its single retry on a larger square.\<close>

definition measure_retry :: "bool \<Rightarrow> World \<Rightarrow> int \<Rightarrow> PosArea \<Rightarrow> Measured" where
  "measure_retry large_biomes world nthreads res =
     (let r = exact_radius large_biomes (pa_area res);
          m = measure_1to1 world nthreads (pa_x res) (pa_z res) r False (pa_x res, pa_z res)
      in if ms_edge m \<and> r < big_radius large_biomes r
         then let big = measure_1to1 world nthreads (pa_x res) (pa_z res) (big_radius large_biomes r) False (pa_x res, pa_z res)
              in if ms_area m < ms_area big then big else m
         else m)"

definition process :: "bool \<Rightarrow> bool \<Rightarrow> Cubiomes \<Rightarrow> int \<Rightarrow> int \<Rightarrow> Candidate \<Rightarrow> CpuOutput option" where
  "process large_biomes fast_cpu cubiomes nthreads min_size input =
     (let seed = cd_seed input; world = cb_world cubiomes seed; range' = search_range large_biomes
      in if \<not> monte_carlo cubiomes seed (cd_x input) (cd_z input) range' (mc_min_area min_size) then None
         else if biome_centers cubiomes seed (cd_x input) (cd_z input) range' min_size 16 4 = None then None
         else case fast_find_center world nthreads (cd_x input) (cd_z input) range' min_size of
                None \<Rightarrow> None
              | Some res \<Rightarrow>
                  if fast_cpu then Some \<lparr>co_seed = seed, co_x = pa_x res, co_z = pa_z res, co_score = pa_area res\<rparr>
                  else let m = measure_retry large_biomes world nthreads res
                       in if min_size \<le> ms_area m
                          then Some \<lparr>co_seed = seed, co_x = ms_x m, co_z = ms_z m, co_score = ms_area m\<rparr> else None)"

text \<open>Origin mode: the square grows while the region touches its edge.\<close>

function grow_square :: "bool \<Rightarrow> World \<Rightarrow> int \<Rightarrow> nat \<Rightarrow> Measured \<Rightarrow> Measured" where
  "grow_square large_biomes world nthreads radius m =
     (if ms_edge m \<and> int radius < max_radius large_biomes
      then let next = nat (min (int radius * 2) (max_radius large_biomes))
           in if next = radius then m
              else grow_square large_biomes world nthreads next (measure_1to1 world nthreads 0 0 (int next) True (0, 0))
      else m)"
  by pat_completeness auto
termination
  by (relation "measure (\<lambda>(l, w, n, r, m). nat (max_radius l) - r)") auto

declare grow_square.simps [simp del]

definition process_origin :: "bool \<Rightarrow> bool \<Rightarrow> Cubiomes \<Rightarrow> int \<Rightarrow> int \<Rightarrow> Candidate \<Rightarrow> CpuOutput option" where
  "process_origin large_biomes fast_cpu cubiomes nthreads min_size input =
     (let seed = cd_seed input; world = cb_world cubiomes seed
      in if biome_at_block cubiomes seed 0 62 0 \<noteq> 14 then None
         else if fast_cpu
         then if \<not> monte_carlo cubiomes seed 0 0 (search_range large_biomes) (mc_min_area min_size) then None
              else Some \<lparr>co_seed = seed, co_x = 0, co_z = 0, co_score = min_size\<rparr>
         else let m = grow_square large_biomes world nthreads 2048 (measure_1to1 world nthreads 0 0 2048 True (0, 0))
              in if min_size \<le> ms_area m
                 then Some \<lparr>co_seed = seed, co_x = ms_x m, co_z = ms_z m, co_score = ms_area m\<rparr> else None)"

section \<open>Regions of the plane\<close>

definition mushroom_plane :: "World \<Rightarrow> (int \<times> int) set" where
  "mushroom_plane world = {(x, z). mushroom_block world x z}"

definition shift_by :: "int \<Rightarrow> int \<Rightarrow> int \<times> int \<Rightarrow> int \<times> int" where
  "shift_by dx dz = (\<lambda>(x, z). (x + dx, z + dz))"

lemma shift_adjacent [simp]: "adjacent (shift_by dx dz p) (shift_by dx dz q) = adjacent p q"
  by (simp add: adjacent_def shift_by_def split_def)

lemma inj_shift: "inj (shift_by dx dz)"
  by (auto simp: inj_def shift_by_def)

lemma shift_component: "component (shift_by dx dz ` S) (shift_by dx dz p) = shift_by dx dz ` component S p"
proof -
  have fwd: "shift_by dx dz q \<in> component (shift_by dx dz ` S) (shift_by dx dz p)" if "q \<in> component S p" for dx dz S p q
  proof -
    have "(p, q) \<in> {(a, b). a \<in> S \<and> b \<in> S \<and> adjacent a b}\<^sup>*" using that by (simp add: component_def)
    then show ?thesis
      by (induction rule: rtrancl_induct) (auto intro: component_self component_step)
  qed
  have inv: "shift_by (- dx) (- dz) (shift_by dx dz q) = q" "shift_by dx dz (shift_by (- dx) (- dz) q) = q" for q
    by (simp_all add: shift_by_def split_def)
  show ?thesis
  proof
    show "component (shift_by dx dz ` S) (shift_by dx dz p) \<subseteq> shift_by dx dz ` component S p"
    proof
      fix q assume q: "q \<in> component (shift_by dx dz ` S) (shift_by dx dz p)"
      have "shift_by (- dx) (- dz) q \<in> component S p"
        using fwd [OF q, of "- dx" "- dz"] by (simp add: inv image_image)
      then show "q \<in> shift_by dx dz ` component S p" using inv(2) [of q] by (metis imageI)
    qed
  qed (use fwd in blast)
qed

text \<open>A region of the square that does not touch the square's edge is a region of the plane.\<close>

lemma component_inside:
  assumes "p \<in> S \<inter> {q. in_grid w h q}" "\<not> touches_edge w h (component (S \<inter> {q. in_grid w h q}) p)"
  shows "component (S \<inter> {q. in_grid w h q}) p = component S p"
proof (rule component_eqI)
  let ?C = "component (S \<inter> {q. in_grid w h q}) p"
  show "p \<in> ?C" by (rule component_self)
  show "p \<in> S" using assms(1) by blast
  show "?C \<subseteq> component S p"
    unfolding component_def by (auto elim!: rtrancl_mono [THEN subsetD, rotated])
  fix q r assume qr: "q \<in> ?C" "adjacent q r" "r \<in> S"
  have q: "q \<in> S \<inter> {q. in_grid w h q}" using component_subset [OF assms(1)] qr(1) by blast
  have "\<not> leaves_grid w h q"
    using assms(2) qr(1) q leaves_grid_iff [of w h "fst q" "snd q"] by (auto simp: touches_edge_def split_def)
  then have "in_grid w h r" using qr(2) by (auto simp: leaves_grid_def)
  then show "r \<in> ?C" using component_step [OF qr(1) q _ qr(2)] qr(3) by blast
qed

lemma component_inside_conv:
  assumes "p \<in> S" "component S p \<subseteq> {q. in_grid w h q}"
  shows "component (S \<inter> {q. in_grid w h q}) p = component S p"
proof (rule component_eqI)
  let ?C = "component (S \<inter> {q. in_grid w h q}) p"
  have "p \<in> {q. in_grid w h q}" using assms(2) component_self by blast
  then have p: "p \<in> S \<inter> {q. in_grid w h q}" using assms(1) by blast
  show "p \<in> ?C" by (rule component_self)
  show "p \<in> S" by (rule assms(1))
  show sub: "?C \<subseteq> component S p"
    unfolding component_def by (auto elim!: rtrancl_mono [THEN subsetD, rotated])
  fix q r assume qr: "q \<in> ?C" "adjacent q r" "r \<in> S"
  have "q \<in> S" using component_subset [OF p] qr(1) by blast
  then have "r \<in> component S p" using component_step [of q S p r] sub qr by blast
  then have "r \<in> S \<inter> {q. in_grid w h q}" using assms(2) qr(3) by blast
  then show "r \<in> ?C" using component_step [OF qr(1) _ _ qr(2)] component_subset [OF p] qr(1) by blast
qed

section \<open>The island at the origin\<close>

definition island :: "World \<Rightarrow> (int \<times> int) set" where
  "island world = component (mushroom_plane world) (0, 0)"

definition inside :: "int \<Rightarrow> (int \<times> int) set \<Rightarrow> bool" where
  "inside radius C \<longleftrightarrow> (\<forall>(x, z)\<in>C. - radius < x \<and> x < radius - 1 \<and> - radius < z \<and> z < radius - 1)"

text \<open>The measurement of the whole island.\<close>

definition island_measured :: "World \<Rightarrow> Measured" where
  "island_measured world =
     (let C = island world
      in \<lparr>ms_area = int (card C), ms_x = (\<Sum>(x, z)\<in>C. x) sdiv int (card C), ms_z = (\<Sum>(x, z)\<in>C. z) sdiv int (card C), ms_edge = False\<rparr>)"

lemma blocks_shift:
  "mushroom_blocks world 0 0 radius = shift_by radius radius ` mushroom_plane world \<inter> {p. in_grid (2 * radius) (2 * radius) p}"
proof -
  have "(i, j) \<in> shift_by radius radius ` mushroom_plane world \<longleftrightarrow> mushroom_block world (i - radius) (j - radius)" for i j
    by (auto simp: shift_by_def mushroom_plane_def image_iff intro!: bexI [of _ "(i - radius, j - radius)"])
  then show ?thesis by (auto simp: mushroom_blocks_def)
qed

lemma origin_shift: "shift_by radius radius (0, 0) = (radius, radius)"
  by (simp add: shift_by_def)

lemma square_no_edge:
  assumes "0 < radius" "mushroom_block world 0 0"
    and "\<not> touches_edge (2 * radius) (2 * radius) (component (mushroom_blocks world 0 0 radius) (radius, radius))"
  shows "component (mushroom_blocks world 0 0 radius) (radius, radius) = shift_by radius radius ` island world"
proof -
  let ?P = "shift_by radius radius ` mushroom_plane world"
  have "(radius, radius) \<in> ?P \<inter> {q. in_grid (2 * radius) (2 * radius) q}"
    using assms(1,2) origin_shift [of radius] by (auto simp: mushroom_plane_def in_grid_def intro!: image_eqI)
  from component_inside [OF this assms(3) [unfolded blocks_shift]]
  show ?thesis unfolding blocks_shift island_def shift_component [symmetric] origin_shift .
qed

lemma square_inside:
  assumes "mushroom_block world 0 0" "inside radius (island world)"
  shows "\<not> touches_edge (2 * radius) (2 * radius) (component (mushroom_blocks world 0 0 radius) (radius, radius))"
proof -
  let ?P = "shift_by radius radius ` mushroom_plane world"
  have C: "component ?P (radius, radius) = shift_by radius radius ` island world"
    unfolding island_def shift_component [symmetric] origin_shift ..
  have "(radius, radius) \<in> ?P"
    using assms(1) origin_shift [of radius] by (auto simp: mushroom_plane_def intro!: image_eqI)
  moreover have "component ?P (radius, radius) \<subseteq> {q. in_grid (2 * radius) (2 * radius) q}"
    unfolding C using assms(2) by (auto simp: inside_def shift_by_def in_grid_def)
  ultimately have "component (mushroom_blocks world 0 0 radius) (radius, radius) = shift_by radius radius ` island world"
    unfolding blocks_shift C [symmetric] by (rule component_inside_conv)
  then show ?thesis using assms(2) by (auto simp: touches_edge_def inside_def shift_by_def)
qed

lemma sum_shift: "(\<Sum>(i, j)\<in>shift_by r r ` C. f (i - r) (j - r)) = (\<Sum>(x, z)\<in>C. f x z :: int)"
  by (subst sum.reindex) (auto simp: shift_by_def split_def intro: inj_on_subset [OF inj_shift [unfolded shift_by_def split_def]])

text \<open>
  An origin measurement whose edge flag is not set is the exact measurement of the island in the
  unbounded world, whatever the square's size.
\<close>

lemma measured_without_edge:
  assumes "0 < radius" "mushroom_block world 0 0" "\<not> ms_edge (measure_1to1 world n 0 0 radius True out)"
  shows "measure_1to1 world n 0 0 radius True out = island_measured world"
proof -
  let ?C = "component (mushroom_blocks world 0 0 radius) (radius, radius)"
  note m = measure_1to1_centre [OF assms(1), of world n 0 0 out]
  have e: "\<not> touches_edge (2 * radius) (2 * radius) ?C" using assms(2,3) by (simp add: m Let_def)
  from square_no_edge [OF assms(1,2) this] have C: "?C = shift_by radius radius ` island world" .
  have card: "card ?C = card (island world)" unfolding C by (rule card_image) (rule inj_on_subset [OF inj_shift], simp)
  have sx: "(\<Sum>(i, j)\<in>?C. 0 - radius + i) = (\<Sum>(x, z)\<in>island world. x)"
    using sum_shift [of "\<lambda>x z. x" radius "island world"] unfolding C by (simp add: algebra_simps)
  have sz: "(\<Sum>(i, j)\<in>?C. 0 - radius + j) = (\<Sum>(x, z)\<in>island world. z)"
    using sum_shift [of "\<lambda>x z. z" radius "island world"] unfolding C by (simp add: algebra_simps)
  show ?thesis
    using e by (simp only: m if_P [OF assms(2)] Let_def island_measured_def card sx sz)
qed

lemma grow_square_inside:
  assumes "mushroom_block world 0 0" "inside (max_radius l) (island world)" "0 < radius" "int radius \<le> max_radius l"
    and "m = measure_1to1 world n 0 0 (int radius) True (0, 0)"
  shows "grow_square l world n radius m = island_measured world"
  using assms
proof (induction l world n radius m rule: grow_square.induct)
  case (1 l world n radius m)
  show ?case
  proof (cases "ms_edge m")
    case False
    then show ?thesis using measured_without_edge [of "int radius" world n "(0, 0)"] 1(2,4,6)
      by (simp add: grow_square.simps)
  next
    case True
    have "int radius \<noteq> max_radius l"
    proof
      assume "int radius = max_radius l"
      then have "\<not> ms_edge m"
        using square_inside [OF 1(2,3)] measure_1to1_centre [of "int radius" world n 0 0 "(0, 0)"] 1(2,4,6) by (simp add: Let_def)
      then show False using True by simp
    qed
    then have lt: "int radius < max_radius l" using 1(5) by simp
    let ?next = "nat (min (int radius * 2) (max_radius l))"
    have n: "?next \<noteq> radius" "0 < ?next" "int ?next \<le> max_radius l" using lt 1(4) by auto
    have "grow_square l world n ?next (measure_1to1 world n 0 0 (int ?next) True (0, 0)) = island_measured world"
      by (rule 1(1) [OF _ refl n(1) 1(2,3) n(2,3) refl]) (use True lt in simp)
    then show ?thesis using True lt n(1) by (simp add: grow_square.simps [of l world n radius] Let_def)
  qed
qed

lemma process_origin_exact_base:
  assumes "mushroom_block (cb_world cubiomes (cd_seed input)) 0 0" "inside (max_radius l) (island (cb_world cubiomes (cd_seed input)))"
  shows "process_origin l False cubiomes nthreads min_size input =
     (let C = island (cb_world cubiomes (cd_seed input))
      in if biome_at_block cubiomes (cd_seed input) 0 62 0 = 14 \<and> min_size \<le> int (card C)
         then Some \<lparr>co_seed = cd_seed input, co_x = (\<Sum>(x, z)\<in>C. x) sdiv int (card C),
                    co_z = (\<Sum>(x, z)\<in>C. z) sdiv int (card C), co_score = int (card C)\<rparr>
         else None)"
proof -
  have "grow_square l (cb_world cubiomes (cd_seed input)) nthreads 2048
      (measure_1to1 (cb_world cubiomes (cd_seed input)) nthreads 0 0 2048 True (0, 0)) =
    island_measured (cb_world cubiomes (cd_seed input))"
    by (rule grow_square_inside [OF assms]) (simp_all add: max_radius_def)
  then show ?thesis by (simp add: process_origin_def Let_def island_measured_def)
qed

text \<open>
  Origin mode measures an island that lies inside the largest square exactly: the growing squares
  end, and the candidate is accepted if and only if the island, as a region of the unbounded world, has the
  minimum size.
\<close>

theorem process_origin_exact:
  assumes "mushroom_block (cb_world cubiomes (cd_seed input)) 0 0" "inside (max_radius l) (island (cb_world cubiomes (cd_seed input)))"
  shows "process_origin l False cubiomes nthreads min_size input =
     (let C = island (cb_world cubiomes (cd_seed input))
      in if biome_at_block cubiomes (cd_seed input) 0 62 0 = 14 \<and> min_size \<le> int (card C)
         then Some \<lparr>co_seed = cd_seed input, co_x = (\<Sum>(x, z)\<in>C. x) sdiv int (card C),
                    co_z = (\<Sum>(x, z)\<in>C. z) sdiv int (card C), co_score = int (card C)\<rparr>
         else None)"
  by (rule process_origin_exact_base [OF assms])

lemma process_origin_exact_witness:
  "let world = \<lparr>wd_sha = 7, biome_2y = (\<lambda>x z. if x \<in> {- 1, 0} \<and> z \<in> {- 1, 0} then (14, 14) else (0, 0))\<rparr>;
       cubiomes = \<lparr>cb_world = (\<lambda>_. world), monte_carlo = (\<lambda>_ _ _ _ _. True), biome_centers = (\<lambda>_ _ _ _ _ _ _. None),
                   biome_at_block = (\<lambda>_ _ _ _. 14)\<rparr>
   in map_option co_score (process_origin False False cubiomes 8 0 \<lparr>cd_seed = 3, cd_x = 0, cd_z = 0\<rparr>) = Some (int (card (island world)))"
proof -
  let ?world = "\<lparr>wd_sha = 7, biome_2y = (\<lambda>x z. if x \<in> {- 1, 0} \<and> z \<in> {- 1, 0} then (14, 14) else (0, 0))\<rparr> :: World"
  let ?cub = "\<lparr>cb_world = (\<lambda>_. ?world), monte_carlo = (\<lambda>_ _ _ _ _. True), biome_centers = (\<lambda>_ _ _ _ _ _ _. None),
                   biome_at_block = (\<lambda>_ _ _ _. 14)\<rparr>"
  have mush: "mushroom_block ?world x z \<longleftrightarrow> (case voronoiAccess3D 7 x 62 z of (x4, y4, z4) \<Rightarrow> x4 \<in> {- 1, 0} \<and> z4 \<in> {- 1, 0})" for x z
    by (auto simp: mushroom_block_def Let_def split_def)
  have origin: "mushroom_block ?world 0 0"
    unfolding mush using conjunct2 [OF voronoiAccess3D_near [of 7 0 62 0]] by (auto simp: split_def)
  have far: "- 7 < x \<and> x < 6 \<and> - 7 < z \<and> z < 6" if "mushroom_block ?world x z" for x z
    using that conjunct2 [OF voronoiAccess3D_near [of 7 x 62 z]] unfolding mush by (auto simp: split_def)
  have "(0, 0) \<in> mushroom_plane ?world" using origin by (simp add: mushroom_plane_def)
  from component_subset [OF this] have "inside (max_radius False) (island ?world)"
    using far unfolding inside_def island_def by (fastforce simp: mushroom_plane_def max_radius_def)
  then show ?thesis
    unfolding Let_def using process_origin_exact [of ?cub "\<lparr>cd_seed = 3, cd_x = 0, cd_z = 0\<rparr>" False 8 0] origin by (simp add: Let_def)
qed

section \<open>Accepted candidates\<close>

lemma exact_radius_bounds: "512 \<le> exact_radius l area \<and> exact_radius l area \<le> max_radius l"
  by (auto simp: exact_radius_def Let_def max_radius_def)

lemma measure_area_nonneg:
  assumes "0 \<le> r"
  shows "ms_area (measure_1to1 world n cx cz r False out) \<le> 0 \<or>
    (\<exists>C\<in>components (mushroom_blocks world cx cz r). ms_area (measure_1to1 world n cx cz r False out) = int (card C))"
proof (cases "mushroom_blocks world cx cz r = {}")
  case False
  from conjunct2 [OF measure_1to1_largest [OF assms, of world n cx cz out], unfolded if_not_P [OF False]]
  obtain C where "C \<in> components (mushroom_blocks world cx cz r)" "ms_area (measure_1to1 world n cx cz r False out) = int (card C)"
    by force
  then show ?thesis by blast
qed (use measure_1to1_largest [OF assms, of world n cx cz out] in simp)

lemma measure_retry_is_measure:
  "\<exists>r. 512 \<le> r \<and> r \<le> max_radius l \<and> measure_retry l world n res = measure_1to1 world n (pa_x res) (pa_z res) r False (pa_x res, pa_z res)"
proof -
  note r = exact_radius_bounds [of l "pa_area res"]
  show ?thesis
  proof (cases "exact_radius l (pa_area res) < big_radius l (exact_radius l (pa_area res))")
    case True
    then have "512 \<le> big_radius l (exact_radius l (pa_area res)) \<and> big_radius l (exact_radius l (pa_area res)) \<le> max_radius l"
      using r by (auto simp: big_radius_def Let_def)
    then show ?thesis using r by (auto simp: measure_retry_def Let_def)
  qed (use r in \<open>auto simp: measure_retry_def Let_def\<close>)
qed


end
