(* ===== verification/Decimal.thy ===== *)
theory Decimal
  imports Prelude
begin

text \<open>
  Decimal numbers as the program's C++ library reads and prints them: \<open>printf\<close> with the integer formats,
  \<open>std::from_chars\<close>, \<open>strtol\<close>. Printing and reading are inverse to each other; the command line, the output
  file and the upload paths rest on it.
\<close>

section \<open>Definitions\<close>

definition digit_char :: "nat \<Rightarrow> char" where
  "digit_char d = char_of (48 + d)"

fun show_nat :: "nat \<Rightarrow> string" where
  "show_nat n = (if n < 10 then [digit_char n] else show_nat (n div 10) @ [digit_char (n mod 10)])"

declare show_nat.simps [simp del]

definition show_int :: "int \<Rightarrow> string" where
  "show_int i = (if i < 0 then CHR ''-'' # show_nat (nat (- i)) else show_nat (nat i))"

definition is_digit :: "char \<Rightarrow> bool" where
  "is_digit c \<longleftrightarrow> 48 \<le> (of_char c :: nat) \<and> (of_char c :: nat) \<le> 57"

definition digits_value :: "string \<Rightarrow> int" where
  "digits_value ds = foldl (\<lambda>v c. 10 * v + (of_char c - 48)) 0 ds"

text \<open>
  \<open>std::from_chars\<close> for a signed type with the bounds \<open>lo\<close> and \<open>hi\<close>: the value and the rest of the text, no
  number at all, or one out of range.
\<close>

datatype FromChars = Parsed int string | Invalid | OutOfRange string

definition from_chars :: "int \<Rightarrow> int \<Rightarrow> string \<Rightarrow> FromChars" where
  "from_chars lo hi s =
     (let neg = (s \<noteq> [] \<and> hd s = CHR ''-'');
          body = (if neg then tl s else s);
          ds = takeWhile is_digit body;
          rest = dropWhile is_digit body;
          v = (if neg then - digits_value ds else digits_value ds)
      in if ds = [] then Invalid
         else if lo \<le> v \<and> v \<le> hi then Parsed v rest else OutOfRange rest)"

text \<open>\<open>strtol\<close> and its relatives: leading blanks, an optional sign, and a value cut off at the bounds; 0 if there is no number.\<close>

definition is_space :: "char \<Rightarrow> bool" where
  "is_space c \<longleftrightarrow> c = CHR '' '' \<or> (9 \<le> (of_char c :: nat) \<and> (of_char c :: nat) \<le> 13)"

definition strtol :: "int \<Rightarrow> int \<Rightarrow> string \<Rightarrow> int" where
  "strtol lo hi s =
     (let s = dropWhile is_space s;
          neg = (s \<noteq> [] \<and> hd s = CHR ''-'');
          body = (if s \<noteq> [] \<and> (hd s = CHR ''-'' \<or> hd s = CHR ''+'') then tl s else s);
          ds = takeWhile is_digit body;
          v = (if neg then - digits_value ds else digits_value ds)
      in max lo (min hi v))"

section \<open>Printing and reading\<close>

lemma of_digit_char: "d < 10 \<Longrightarrow> of_char (digit_char d) = (48 + d :: nat)"
  by (simp add: digit_char_def)

lemma int_of_digit_char: "d < 10 \<Longrightarrow> of_char (digit_char d) = (48 + int d)"
proof -
  assume "d < 10"
  have "(of_char (digit_char d) :: int) = int (of_char (digit_char d))" by (simp only: of_nat_of_char)
  then show ?thesis using of_digit_char [OF \<open>d < 10\<close>] by simp
qed

lemma is_digit_digit_char: "d < 10 \<Longrightarrow> is_digit (digit_char d)"
  by (simp add: is_digit_def of_digit_char)

lemma digits_value_snoc: "digits_value (ds @ [c]) = 10 * digits_value ds + (of_char c - 48)"
  by (simp add: digits_value_def)

lemma show_nat_digits: "list_all is_digit (show_nat n) \<and> show_nat n \<noteq> [] \<and> digits_value (show_nat n) = int n"
proof (induction n rule: show_nat.induct)
  case (1 n)
  show ?case
  proof (cases "n < 10")
    case True
    then have "digits_value [digit_char n] = int n" by (simp add: digits_value_def int_of_digit_char)
    then show ?thesis using True is_digit_digit_char by (simp add: show_nat.simps [of n])
  next
    case False
    have "10 * int (n div 10) + int (n mod 10) = int n" by (metis mult_div_mod_eq of_nat_add of_nat_mult of_nat_numeral)
    then show ?thesis
      using 1 False is_digit_digit_char [of "n mod 10"]
      by (simp add: show_nat.simps [of n] digits_value_snoc int_of_digit_char)
  qed
qed

lemma takeWhile_digits:
  assumes "list_all is_digit ds" "rest = [] \<or> \<not> is_digit (hd rest)"
  shows "takeWhile is_digit (ds @ rest) = ds" "dropWhile is_digit (ds @ rest) = rest"
proof -
  have "takeWhile is_digit rest = [] \<and> dropWhile is_digit rest = rest" using assms(2) by (cases rest) auto
  then show "takeWhile is_digit (ds @ rest) = ds" "dropWhile is_digit (ds @ rest) = rest"
    using assms(1) by (simp_all add: list_all_iff takeWhile_append2 dropWhile_append2)
qed

lemma minus_no_digit: "\<not> is_digit (CHR ''-'')" and plus_no_digit: "\<not> is_digit (CHR ''+'')" and space_no_digit: "\<not> is_digit (CHR '' '')"
  and comma_no_digit: "\<not> is_digit (CHR '','')"
  by (simp_all add: is_digit_def of_char_def)

lemma hd_show_nat: "hd (show_nat n) \<noteq> CHR ''-'' \<and> hd (show_nat n) \<noteq> CHR ''+'' \<and> \<not> is_space (hd (show_nat n))"
proof -
  have d: "is_digit (hd (show_nat n))" using show_nat_digits [of n] by (metis hd_in_set list_all_iff)
  have "\<not> is_digit c" if "is_space c" for c using that space_no_digit by (auto simp: is_space_def is_digit_def)
  then show ?thesis using d minus_no_digit plus_no_digit by metis
qed

lemma takeWhile_show_nat: "takeWhile is_digit (show_nat n) = show_nat n"
  using show_nat_digits [of n] by (simp add: list_all_iff)

lemma from_chars_show_int:
  assumes "lo \<le> v" "v \<le> hi" "rest = [] \<or> \<not> is_digit (hd rest)"
  shows "from_chars lo hi (show_int v @ rest) = Parsed v rest"
proof (cases "v < 0")
  case True
  then show ?thesis
    using show_nat_digits [of "nat (- v)"] takeWhile_digits [OF _ assms(3), of "show_nat (nat (- v))"] assms(1,2)
    by (simp add: from_chars_def show_int_def Let_def)
next
  case False
  have "show_nat (nat v) \<noteq> []" using show_nat_digits by blast
  then have "hd (show_nat (nat v) @ rest) \<noteq> CHR ''-''" using hd_show_nat by simp
  then show ?thesis
    using False show_nat_digits [of "nat v"] takeWhile_digits [OF _ assms(3), of "show_nat (nat v)"] assms(1,2)
    by (simp add: from_chars_def show_int_def Let_def)
qed

lemma strtol_show_int:
  assumes "lo \<le> v" "v \<le> hi"
  shows "strtol lo hi (show_int v) = v"
proof (cases "v < 0")
  case True
  have "\<not> is_space (CHR ''-'')" by (simp add: is_space_def of_char_def)
  then show ?thesis
    using True show_nat_digits [of "nat (- v)"] assms
    by (simp add: strtol_def show_int_def Let_def takeWhile_show_nat)
next
  case False
  have ne: "show_nat (nat v) \<noteq> []" using show_nat_digits by blast
  have "dropWhile is_space (show_nat (nat v)) = show_nat (nat v)" 
    using ne hd_show_nat [of "nat v"] by (cases "show_nat (nat v)") simp_all
  then show ?thesis
    using False ne hd_show_nat [of "nat v"] show_nat_digits [of "nat v"] assms
    by (simp add: strtol_def show_int_def Let_def takeWhile_show_nat)
qed

end
