(* ===== verification/HostArgs.thy ===== *)
theory HostArgs
  imports Decimal
begin

text \<open>
  The command line (\<open>Args\<close> and the first half of \<open>main_inner\<close> in \<open>src/src/main.cpp\<close>): the options with
  their checks in the order of the code, the checks on their combination, and the decisions taken from
  them. An argument vector is the list of its strings; a rejected one is the message printed. The
  theorems say what an accepted command line guarantees, that every sensible configuration has a command
  line, and what happens to an address without a port.
\<close>

section \<open>Definitions\<close>

record HostService =
  hs_host :: string
  hs_service :: string

definition find_last_of :: "char \<Rightarrow> string \<Rightarrow> nat option" where
  "find_last_of c s = (let is = filter (\<lambda>i. s ! i = c) [0..<length s] in if is = [] then None else Some (last is))"

definition split_address :: "string \<Rightarrow> HostService option" where
  "split_address address =
     (case find_last_of (CHR '':'') address of
        None \<Rightarrow> None
      | Some i \<Rightarrow> Some \<lparr>hs_host = take i address, hs_service = drop (i + 1) address\<rparr>)"

datatype Message =
    DuplicateOption string
  | MissingArgument string
  | InvalidArgument string string
  | InvalidAddress string
  | UnknownOption string
  | ThreadsAndClient
  | OutputAndClient
  | DeviceAllMixed
  | StartWithoutGpus
  | SizeWithoutCpu

record Args =
  devices :: "int list"
  threads :: "int option"
  client :: "HostService option"
  server :: "HostService option"
  output_file :: "string option"
  upload :: "HostService option"
  no_upload :: bool
  start_seed :: "int option"
  arg_min_size :: "int option"
  arg_fast_cpu :: bool
  arg_origin :: bool

definition no_args :: Args where
  "no_args = \<lparr>devices = [], threads = None, client = None, server = None, output_file = None, upload = None,
     no_upload = False, start_seed = None, arg_min_size = None, arg_fast_cpu = False, arg_origin = False\<rparr>"

text \<open>\<open>parse_argument_int\<close>; \<open>rest\<close> are the arguments from index \<open>i\<close> on.\<close>

definition parse_argument_int ::
    "int \<Rightarrow> int \<Rightarrow> (int \<Rightarrow> bool) \<Rightarrow> int option \<Rightarrow> string \<Rightarrow> string list \<Rightarrow> Message + int \<times> string list" where
  "parse_argument_int lo hi test out option rest =
     (if out \<noteq> None then Inl (DuplicateOption option)
      else case rest of
        [] \<Rightarrow> Inl (MissingArgument option)
      | arg_val # rest' \<Rightarrow>
          (case from_chars lo hi arg_val of
             Parsed val ptr \<Rightarrow> if ptr \<noteq> [] \<or> \<not> test val then Inl (InvalidArgument option arg_val) else Inr (val, rest')
           | _ \<Rightarrow> Inl (InvalidArgument option arg_val)))"

lemma from_chars_shorter:
  assumes "from_chars lo hi s = Parsed v rest"
  shows "length rest < length s"
proof -
  let ?body = "if s \<noteq> [] \<and> hd s = CHR ''-'' then tl s else s"
  have "rest = dropWhile is_digit ?body" "takeWhile is_digit ?body \<noteq> []"
    using assms by (auto simp: from_chars_def Let_def split: if_splits)
  moreover have "length (takeWhile is_digit ?body) + length (dropWhile is_digit ?body) = length ?body"
    by (metis length_append takeWhile_dropWhile_id)
  moreover have "length ?body \<le> length s" by simp
  ultimately show ?thesis by (metis add_gr_0 length_greater_0_conv less_add_same_cancel2 order_less_le_trans)
qed

text \<open>The list of a \<open>--device\<close> option.\<close>

function parse_devices :: "string \<Rightarrow> string \<Rightarrow> int list \<Rightarrow> Message + int list" where
  "parse_devices devices_str first ds =
     (if first = [] then Inr ds
      else case from_chars (- (2 ^ 31)) (2 ^ 31 - 1) first of
        Parsed device ptr \<Rightarrow>
          if device < 0 \<or> device \<in> set ds \<or> (ptr \<noteq> [] \<and> hd ptr \<noteq> CHR '','') then Inl (InvalidArgument ''--device'' devices_str)
          else parse_devices devices_str (tl ptr) (ds @ [device])
      | _ \<Rightarrow> Inl (InvalidArgument ''--device'' devices_str))"
  by pat_completeness auto
termination
  by (relation "measure (\<lambda>(_, first, _). length first)")
    (auto dest: from_chars_shorter)

declare parse_devices.simps [simp del]

text \<open>
  The arguments of an option that takes an address. \<open>--client\<close> and \<open>--server\<close> print a message for an address
  without a port and go on with an empty one; \<open>--upload\<close> stops.
\<close>

definition next_argument :: "bool \<Rightarrow> string \<Rightarrow> string list \<Rightarrow> Message + string \<times> string list" where
  "next_argument duplicate option rest =
     (if duplicate then Inl (DuplicateOption option)
      else case rest of [] \<Rightarrow> Inl (MissingArgument option) | arg_val # rest' \<Rightarrow> Inr (arg_val, rest'))"

definition warn_address :: "HostService option \<Rightarrow> string \<Rightarrow> Message list" where
  "warn_address address option = (if address = None then [InvalidAddress option] else [])"

text \<open>One pass of the loop: the option \<open>arg\<close>; the messages printed on the way are collected.\<close>

definition parse_option :: "string \<Rightarrow> string list \<Rightarrow> Message list \<times> Args \<Rightarrow> Message + (Message list \<times> Args) \<times> string list" where
  "parse_option arg rest st =
     (let (msgs, a) = st
      in if arg = ''--device'' then
           (case next_argument False arg rest of
              Inl m \<Rightarrow> Inl m
            | Inr (s, rest') \<Rightarrow>
                if s = ''all'' then Inr ((msgs, a\<lparr>devices := devices a @ [- 1]\<rparr>), rest')
                else (case parse_devices s s (devices a) of Inl m \<Rightarrow> Inl m | Inr ds \<Rightarrow> Inr ((msgs, a\<lparr>devices := ds\<rparr>), rest')))
         else if arg = ''--threads'' then
           (case parse_argument_int (- (2 ^ 31)) (2 ^ 31 - 1) (\<lambda>t. 1 \<le> t \<and> t \<le> 1024) (threads a) arg rest of
              Inl m \<Rightarrow> Inl m | Inr (v, rest') \<Rightarrow> Inr ((msgs, a\<lparr>threads := Some v\<rparr>), rest'))
         else if arg = ''--client'' then
           (case next_argument (client a \<noteq> None) arg rest of
              Inl m \<Rightarrow> Inl m
            | Inr (s, rest') \<Rightarrow> Inr ((msgs @ warn_address (split_address s) arg, a\<lparr>client := split_address s\<rparr>), rest'))
         else if arg = ''--server'' then
           (case next_argument (server a \<noteq> None) arg rest of
              Inl m \<Rightarrow> Inl m
            | Inr (s, rest') \<Rightarrow> Inr ((msgs @ warn_address (split_address s) arg, a\<lparr>server := split_address s\<rparr>), rest'))
         else if arg = ''--output'' then
           (case next_argument (output_file a \<noteq> None) arg rest of
              Inl m \<Rightarrow> Inl m | Inr (s, rest') \<Rightarrow> Inr ((msgs, a\<lparr>output_file := Some s\<rparr>), rest'))
         else if arg = ''--upload'' then
           (case next_argument (upload a \<noteq> None) arg rest of
              Inl m \<Rightarrow> Inl m
            | Inr (s, rest') \<Rightarrow>
                (case split_address s of
                   None \<Rightarrow> Inl (InvalidAddress arg)
                 | Some h \<Rightarrow> Inr ((msgs, a\<lparr>upload := Some h\<rparr>), rest')))
         else if arg = ''--no-upload'' then Inr ((msgs, a\<lparr>no_upload := True\<rparr>), rest)
         else if arg = ''--start'' then
           (case parse_argument_int (- (2 ^ 63)) (2 ^ 63 - 1) (\<lambda>_. True) (start_seed a) arg rest of
              Inl m \<Rightarrow> Inl m | Inr (v, rest') \<Rightarrow> Inr ((msgs, a\<lparr>start_seed := Some v\<rparr>), rest'))
         else if arg = ''--size'' then
           (case parse_argument_int (- (2 ^ 31)) (2 ^ 31 - 1) (\<lambda>m. 0 \<le> m) (arg_min_size a) arg rest of
              Inl m \<Rightarrow> Inl m | Inr (v, rest') \<Rightarrow> Inr ((msgs, a\<lparr>arg_min_size := Some v\<rparr>), rest'))
         else if arg = ''--fast-cpu'' then Inr ((msgs, a\<lparr>arg_fast_cpu := True\<rparr>), rest)
         else if arg = ''--origin'' then Inr ((msgs, a\<lparr>arg_origin := True\<rparr>), rest)
         else Inl (UnknownOption arg))"

lemma next_argument_shorter: "next_argument dup arg rest = Inr (s, rest') \<Longrightarrow> rest = s # rest'"
  by (auto simp: next_argument_def split: if_splits list.splits)

lemma parse_argument_int_shorter: "parse_argument_int lo hi P out arg rest = Inr (v, rest') \<Longrightarrow> \<exists>s. rest = s # rest'"
  by (auto simp: parse_argument_int_def split: if_splits list.splits FromChars.splits)

lemma parse_option_shorter: "parse_option arg rest st = Inr (st', rest') \<Longrightarrow> length rest' \<le> length rest"
  by (cases st)
    (auto simp: parse_option_def Let_def split: if_splits sum.splits prod.splits option.splits
      dest!: next_argument_shorter parse_argument_int_shorter)

function parse_loop :: "string list \<Rightarrow> Message list \<times> Args \<Rightarrow> Message + Message list \<times> Args" where
  "parse_loop [] st = Inr st"
| "parse_loop (arg # rest) st = (case parse_option arg rest st of Inl m \<Rightarrow> Inl m | Inr (st', rest') \<Rightarrow> parse_loop rest' st')"
  by pat_completeness auto
termination
  by (relation "measure (\<lambda>(args, _). length args)") (auto dest: parse_option_shorter simp: le_imp_less_Suc)

text \<open>The checks after the loop.\<close>

definition check_args :: "Args \<Rightarrow> Message + Args" where
  "check_args a =
     (if threads a \<noteq> None \<and> client a \<noteq> None then Inl ThreadsAndClient
      else if output_file a \<noteq> None \<and> client a \<noteq> None then Inl OutputAndClient
      else let a = (if devices a = [] \<and> server a = None then a\<lparr>devices := devices a @ [0]\<rparr> else a)
           in if - 1 \<in> set (devices a) \<and> length (devices a) \<noteq> 1 then Inl DeviceAllMixed
              else if start_seed a \<noteq> None \<and> devices a = [] then Inl StartWithoutGpus
              else if arg_min_size a \<noteq> None \<and> threads a = None \<and> client a \<noteq> None then Inl SizeWithoutCpu
              else Inr a)"

text \<open>\<open>argv\<close> without the program's name.\<close>

definition parse :: "string list \<Rightarrow> Message + Message list \<times> Args" where
  "parse argv =
     (case parse_loop argv ([], no_args) of
        Inl m \<Rightarrow> Inl m
      | Inr (msgs, a) \<Rightarrow> (case check_args a of Inl m \<Rightarrow> Inl m | Inr a' \<Rightarrow> Inr (msgs, a')))"

section \<open>Definitions: what is done with the options\<close>

record Build =
  no_gpu :: bool
  no_cpu :: bool
  no_net :: bool
  build_large :: bool

text \<open>
  The machine: the number of CUDA devices (\<open>None\<close> if it cannot be asked for), the files that can be
  opened, the upload servers that answer, and the random device.
\<close>

record Machine =
  device_count :: "int option"
  can_open :: "string \<Rightarrow> bool"
  server_alive :: "string \<Rightarrow> string \<Rightarrow> bool"
  random_start_seed :: u64

datatype SetupError =
    NoGpuSupport | NoCpuSupport | NoNetSupport | CannotOpen string | DeviceCountFailed | NoDevices | DeviceMissing int

record Setup =
  su_threads :: int
  su_min_size :: int
  su_output :: "string option"
  su_devices :: "int list"
  su_start_seed :: u64
  su_client :: "HostService option"
  su_server :: "HostService option"
  su_upload :: "HostService option"
  su_fast_cpu :: bool
  su_origin :: bool

definition value_or :: "'a option \<Rightarrow> 'a \<Rightarrow> 'a" where
  "value_or v d = (case v of None \<Rightarrow> d | Some x \<Rightarrow> x)"

definition resolve_devices :: "Machine \<Rightarrow> int list \<Rightarrow> SetupError + int list" where
  "resolve_devices machine ds =
     (if ds \<noteq> [] \<and> hd ds = - 1
      then case device_count machine of
             None \<Rightarrow> Inl DeviceCountFailed
           | Some n \<Rightarrow> if n \<le> 0 then Inl NoDevices else Inr [0..n - 1]
      else if ds \<noteq> []
      then case device_count machine of
             None \<Rightarrow> Inl DeviceCountFailed
           | Some n \<Rightarrow> (case find (\<lambda>d. n \<le> d) ds of Some d \<Rightarrow> Inl (DeviceMissing d) | None \<Rightarrow> Inr ds)
      else Inr [])"

definition choose_upload :: "Machine \<Rightarrow> Args \<Rightarrow> HostService option" where
  "choose_upload machine a =
     (if no_upload a then None
      else let h = value_or (upload a) \<lparr>hs_host = ''localhost'', hs_service = ''8000''\<rparr>
           in if server_alive machine (hs_host h) (hs_service h) then Some h else None)"

definition main_setup :: "Build \<Rightarrow> Machine \<Rightarrow> Args \<Rightarrow> SetupError + Setup" where
  "main_setup build machine a =
     (let nthreads = value_or (threads a) (if client a \<noteq> None then 0 else 1);
          min_size = value_or (arg_min_size a) (10000000 * (if build_large build then 16 else 1));
          path = value_or (output_file a) ''output.txt''
      in if no_gpu build \<and> devices a \<noteq> [] then Inl NoGpuSupport
         else if no_cpu build \<and> nthreads \<noteq> 0 then Inl NoCpuSupport
         else if no_net build \<and> (client a \<noteq> None \<or> server a \<noteq> None) then Inl NoNetSupport
         else if nthreads \<noteq> 0 \<and> \<not> can_open machine path then Inl (CannotOpen path)
         else case (if no_gpu build then Inr (devices a) else resolve_devices machine (devices a)) of
           Inl e \<Rightarrow> Inl e
         | Inr ds \<Rightarrow> Inr \<lparr>su_threads = nthreads, su_min_size = min_size, su_output = (if nthreads \<noteq> 0 then Some path else None),
                          su_devices = ds,
                          su_start_seed = (case start_seed a of None \<Rightarrow> random_start_seed machine | Some s \<Rightarrow> word_of_int s),
                          su_client = client a, su_server = server a, su_upload = choose_upload machine a,
                          su_fast_cpu = arg_fast_cpu a, su_origin = arg_origin a\<rparr>)"

section \<open>Accepted command lines\<close>

definition loop_ok :: "Args \<Rightarrow> bool" where
  "loop_ok a \<longleftrightarrow>
     distinct (filter (\<lambda>d. d \<noteq> - 1) (devices a)) \<and> list_all (\<lambda>d. - 1 \<le> d \<and> d < 2 ^ 31) (devices a) \<and>
     (\<forall>t. threads a = Some t \<longrightarrow> 1 \<le> t \<and> t \<le> 1024) \<and>
     (\<forall>m. arg_min_size a = Some m \<longrightarrow> 0 \<le> m \<and> m < 2 ^ 31) \<and>
     (\<forall>s. start_seed a = Some s \<longrightarrow> - (2 ^ 63) \<le> s \<and> s < 2 ^ 63)"

definition args_ok :: "Args \<Rightarrow> bool" where
  "args_ok a \<longleftrightarrow>
     loop_ok a \<and> (devices a = [- 1] \<or> (distinct (devices a) \<and> - 1 \<notin> set (devices a))) \<and>
     (devices a = [] \<longrightarrow> server a \<noteq> None \<and> start_seed a = None) \<and>
     (client a \<noteq> None \<longrightarrow> threads a = None \<and> output_file a = None \<and> arg_min_size a = None)"

lemma from_chars_range: "from_chars lo hi s = Parsed v rest \<Longrightarrow> lo \<le> v \<and> v \<le> hi"
  by (auto simp: from_chars_def Let_def split: if_splits)

lemma parse_argument_int_range:
  "parse_argument_int lo hi P out arg rest = Inr (v, rest') \<Longrightarrow> lo \<le> v \<and> v \<le> hi \<and> P v"
  by (auto simp: parse_argument_int_def split: if_splits list.splits FromChars.splits dest: from_chars_range)

lemma parse_devices_ok:
  assumes "parse_devices s first ds = Inr ds'" "distinct (filter (\<lambda>d. d \<noteq> - 1) ds)" "list_all (\<lambda>d. - 1 \<le> d \<and> d < 2 ^ 31) ds"
  shows "distinct (filter (\<lambda>d. d \<noteq> - 1) ds') \<and> list_all (\<lambda>d. - 1 \<le> d \<and> d < 2 ^ 31) ds'"
  using assms
proof (induction s first ds rule: parse_devices.induct)
  case (1 s first ds)
  show ?case
  proof (cases "first = []")
    case True
    then show ?thesis using 1(2-4) by (simp add: parse_devices.simps)
  next
    case False
    then obtain d ptr where p: "from_chars (- (2 ^ 31)) (2 ^ 31 - 1) first = Parsed d ptr"
        "\<not> (d < 0 \<or> d \<in> set ds \<or> (ptr \<noteq> [] \<and> hd ptr \<noteq> CHR '',''))" "parse_devices s (tl ptr) (ds @ [d]) = Inr ds'"
      using 1(2) by (auto simp: parse_devices.simps [of s first] split: FromChars.splits if_splits)
    show ?thesis
      by (rule 1(1) [OF False p(1,2,3)]) (use 1(3,4) p(2) from_chars_range [OF p(1)] in auto)
  qed
qed

lemma parse_option_ok:
  assumes "parse_option arg rest (msgs, a) = Inr ((msgs', a'), rest')" "loop_ok a"
  shows "loop_ok a'"
  using assms
  by (auto simp: parse_option_def Let_def loop_ok_def split: if_splits sum.splits prod.splits option.splits
      dest!: parse_argument_int_range parse_devices_ok dest: next_argument_shorter)

lemma parse_loop_ok:
  assumes "parse_loop args st = Inr (msgs', a')" "loop_ok (snd st)"
  shows "loop_ok a'"
  using assms
proof (induction args st rule: parse_loop.induct)
  case (2 arg rest st)
  then obtain st' rest' where s: "parse_option arg rest st = Inr (st', rest')" "parse_loop rest' st' = Inr (msgs', a')"
    by (auto split: sum.splits prod.splits)
  have "loop_ok (snd st')" using s(1) 2(3) parse_option_ok by (metis prod.collapse)
  then show ?case using 2(1) [OF s(1) refl s(2)] by blast
qed simp

lemma parse_ok:
  assumes "parse argv = Inr (msgs, a)"
  shows "args_ok a"
proof -
  obtain a0 where a0: "parse_loop argv ([], no_args) = Inr (msgs, a0)" "check_args a0 = Inr a"
    using assms by (auto simp: parse_def split: sum.splits prod.splits)
  have "loop_ok no_args" by (simp add: loop_ok_def no_args_def)
  then have ok: "loop_ok a0" using parse_loop_ok [OF a0(1)] by simp
  have one: "ds = [- 1]" if "- 1 \<in> set ds" "length ds = 1" for ds :: "int list"
    using that by (cases ds) auto
  have none: "distinct ds" if "- 1 \<notin> set ds" "distinct (filter (\<lambda>d. d \<noteq> - 1) ds)" for ds :: "int list"
    using that by (metis (mono_tags, lifting) filter_True)
  define a1 where "a1 = (if devices a0 = [] \<and> server a0 = None then a0\<lparr>devices := devices a0 @ [0]\<rparr> else a0)"
  have same: "threads a1 = threads a0" "client a1 = client a0" "output_file a1 = output_file a0" "start_seed a1 = start_seed a0"
    "arg_min_size a1 = arg_min_size a0" "server a1 = server a0"
    and dev: "devices a1 = [] \<Longrightarrow> server a1 \<noteq> None" by (auto simp: a1_def split: if_splits)
  have ok1: "loop_ok a1" using ok by (auto simp: a1_def loop_ok_def)
  then have d: "distinct (filter (\<lambda>d. d \<noteq> - 1) (devices a1))" by (simp add: loop_ok_def)
  have c: "\<not> (threads a0 \<noteq> None \<and> client a0 \<noteq> None)" "\<not> (output_file a0 \<noteq> None \<and> client a0 \<noteq> None)"
    "\<not> (- 1 \<in> set (devices a1) \<and> length (devices a1) \<noteq> 1)" "\<not> (start_seed a1 \<noteq> None \<and> devices a1 = [])"
    "\<not> (arg_min_size a1 \<noteq> None \<and> threads a1 = None \<and> client a1 \<noteq> None)" "a = a1"
    using a0(2) unfolding check_args_def a1_def [symmetric] Let_def by (simp_all split: if_splits)
  then show ?thesis using same dev ok1 one [of "devices a1"] none [OF _ d] unfolding args_ok_def by metis
qed

text \<open>
  C33: What an accepted command line guarantees: device numbers are distinct and not negative, or the one
  entry for all of them; thread count, size and seed are in their ranges; options that exclude each other do
  not occur together; and there are devices unless a server supplies the candidates.
\<close>

theorem parse_accepts_consistent:
  "case parse argv of
     Inl _ \<Rightarrow> True
   | Inr (msgs, a) \<Rightarrow>
       (if devices a = [- 1] then True else distinct (devices a) \<and> list_all (\<lambda>d. 0 \<le> d \<and> d < 2 ^ 31) (devices a)) \<and>
       (case threads a of None \<Rightarrow> True | Some t \<Rightarrow> 1 \<le> t \<and> t \<le> 1024 \<and> client a = None) \<and>
       (case arg_min_size a of None \<Rightarrow> True | Some m \<Rightarrow> 0 \<le> m \<and> m < 2 ^ 31 \<and> client a = None) \<and>
       (case start_seed a of None \<Rightarrow> True | Some s \<Rightarrow> - (2 ^ 63) \<le> s \<and> s < 2 ^ 63 \<and> devices a \<noteq> []) \<and>
       (case output_file a of None \<Rightarrow> True | Some _ \<Rightarrow> client a = None) \<and>
       (if devices a = [] then server a \<noteq> None else True)"
proof (cases "parse argv")
  case (Inr r)
  obtain msgs a where r: "r = (msgs, a)" by (cases r)
  have ok: "args_ok a" using parse_ok Inr r by blast
  have "0 \<le> d" if "- 1 \<le> d" "d \<noteq> - 1" for d :: int using that by simp
  then have "list_all (\<lambda>d. 0 \<le> d \<and> d < 2 ^ 31) (devices a)" if "devices a \<noteq> [- 1]"
    using ok that unfolding args_ok_def loop_ok_def list_all_iff by metis
  then show ?thesis using ok unfolding Inr r args_ok_def loop_ok_def by (auto split: option.splits)
qed simp

section \<open>Addresses\<close>

lemma last_index:
  assumes "c \<notin> set s"
  shows "filter (\<lambda>i. (h @ c # s) ! i = c) [0..<length (h @ c # s)] \<noteq> [] \<and>
         last (filter (\<lambda>i. (h @ c # s) ! i = c) [0..<length (h @ c # s)]) = length h"
proof -
  have "[0..<length (h @ c # s)] = [0..<length h] @ length h # [Suc (length h)..<length (h @ c # s)]"
    using upt_add_eq_append [of 0 "length h" "Suc (length s)"] by (simp add: upt_conv_Cons del: upt_Suc)
  moreover have "filter (\<lambda>i. (h @ c # s) ! i = c) [Suc (length h)..<length (h @ c # s)] = []"
  proof -
    have "(h @ c # s) ! i \<noteq> c" if "i \<in> set [Suc (length h)..<length (h @ c # s)]" for i
    proof -
      have "(h @ c # s) ! i = s ! (i - Suc (length h))" "i - Suc (length h) < length s" using that by (auto simp: nth_append nth_Cons')
      then show ?thesis using assms nth_mem [of "i - Suc (length h)" s] by metis
    qed
    then show ?thesis by (simp add: filter_empty_conv)
  qed
  ultimately show ?thesis by simp
qed

text \<open>
  An address is split at its last colon, so that a host with colons of its own survives; it is refused
  if and only if it has none.
\<close>

theorem split_address_last_colon:
  "split_address address =
     (if CHR '':'' \<in> set address
      then Some \<lparr>hs_host = rev (tl (dropWhile (\<lambda>c. c \<noteq> CHR '':'') (rev address))),
                 hs_service = rev (takeWhile (\<lambda>c. c \<noteq> CHR '':'') (rev address))\<rparr>
      else None)"
proof (cases "CHR '':'' \<in> set address")
  case True
  obtain h s where hs: "address = h @ CHR '':'' # s" "CHR '':'' \<notin> set s" using split_list_last [OF True] by blast
  then have r: "takeWhile (\<lambda>c. c \<noteq> CHR '':'') (rev address) = rev s" "dropWhile (\<lambda>c. c \<noteq> CHR '':'') (rev address) = CHR '':'' # rev h"
    by (simp_all add: takeWhile_tail dropWhile_append3)
       (metis (mono_tags, lifting) set_rev takeWhile_eq_all_conv takeWhile_tail, metis (mono_tags, lifting) dropWhile.simps(2) dropWhile_append2 set_rev)
  show ?thesis unfolding r using last_index [OF hs(2), of h] True unfolding hs(1) by (simp add: split_address_def find_last_of_def Let_def)
next
  case False
  then have "filter (\<lambda>i. address ! i = CHR '':'') [0..<length address] = []" by (auto simp: filter_empty_conv in_set_conv_nth)
  then show ?thesis using False by (simp add: split_address_def find_last_of_def)
qed

text \<open>
  A \<open>--client\<close> or \<open>--server\<close> address without a port is reported but not refused: the program goes on as if
  the option had not been given, and searches alone on device 0.
\<close>

theorem address_without_port_accepted:
  "CHR '':'' \<in> set address \<or>
   parse [''--client'', address] = Inr ([InvalidAddress ''--client''], no_args\<lparr>devices := [0]\<rparr>) \<and>
   parse [''--server'', address] = Inr ([InvalidAddress ''--server''], no_args\<lparr>devices := [0]\<rparr>) \<and>
   parse [''--upload'', address] = Inl (InvalidAddress ''--upload'')"
proof (cases "CHR '':'' \<in> set address")
  case False
  then have "filter (\<lambda>i. address ! i = CHR '':'') [0..<length address] = []" by (auto simp: filter_empty_conv in_set_conv_nth)
  then have "split_address address = None" by (simp add: split_address_def find_last_of_def)
  then show ?thesis
    by (simp add: parse_def parse_option_def next_argument_def warn_address_def check_args_def no_args_def)
qed simp

section \<open>The setup\<close>

text \<open>
  With an accepted command line, the devices used exist and are distinct, there are devices unless a server
  supplies the candidates, and CPU threads run, with an output file, unless they are sent to another host.
\<close>

theorem main_setup_consistent:
  "case parse argv of
     Inl _ \<Rightarrow> True
   | Inr (msgs, a) \<Rightarrow>
       (case main_setup build machine a of
          Inl _ \<Rightarrow> True
        | Inr su \<Rightarrow>
            0 \<le> su_threads su \<and> su_threads su \<le> 1024 \<and> (su_threads su = 0 \<longleftrightarrow> su_client su \<noteq> None) \<and>
            (su_output su = None \<longleftrightarrow> su_threads su = 0) \<and> 0 \<le> su_min_size su \<and> su_min_size su < 2 ^ 31 \<and>
            distinct (su_devices su) \<and>
            (if su_devices su = [] then su_server su \<noteq> None
             else \<exists>n. device_count machine = Some n \<and> list_all (\<lambda>d. 0 \<le> d \<and> d < n) (su_devices su)))"
proof (cases "parse argv")
  case (Inr r)
  obtain msgs a where r: "r = (msgs, a)" by (cases r)
  have ok: "args_ok a" using parse_ok Inr r by blast
  show ?thesis
  proof (cases "main_setup build machine a")
    case (Inr su)
    let ?t = "value_or (threads a) (if client a \<noteq> None then 0 else 1)"
    have t: "0 \<le> ?t" "?t \<le> 1024" "?t = 0 \<longleftrightarrow> client a \<noteq> None"
      using ok by (auto simp: value_or_def args_ok_def loop_ok_def split: option.splits)
    have su: "su_threads su = ?t" "su_client su = client a" "su_server su = server a" "su_output su = None \<longleftrightarrow> ?t = 0"
      "su_min_size su = value_or (arg_min_size a) (10000000 * (if build_large build then 16 else 1))"
      and ds: "if no_gpu build then su_devices su = [] \<and> devices a = [] else resolve_devices machine (devices a) = Inr (su_devices su)"
      using Inr by (auto simp: main_setup_def Let_def split: if_splits sum.splits)
    have m: "0 \<le> su_min_size su \<and> su_min_size su < 2 ^ 31"
      using ok unfolding su(5) by (auto simp: value_or_def args_ok_def loop_ok_def split: option.splits)
    have dev: "distinct (su_devices su) \<and> (if su_devices su = [] then server a \<noteq> None
        else \<exists>n. device_count machine = Some n \<and> list_all (\<lambda>d. 0 \<le> d \<and> d < n) (su_devices su))"
    proof (cases "no_gpu build \<or> devices a = []")
      case True
      then show ?thesis using ds ok by (auto simp: resolve_devices_def args_ok_def split: if_splits)
    next
      case False
      then have r: "resolve_devices machine (devices a) = Inr (su_devices su)" using ds by simp
      show ?thesis
      proof (cases "devices a = [- 1]")
        case True
        then obtain n where n: "device_count machine = Some n" "0 < n" "su_devices su = [0..n - 1]"
          using r by (auto simp: resolve_devices_def split: option.splits if_splits)
        then show ?thesis by (simp add: list_all_iff)
      next
        case not_all: False
        then have d: "distinct (devices a)" "list_all (\<lambda>d. 0 \<le> d) (devices a)" "hd (devices a) \<noteq> - 1"
        proof -
          have ns: "distinct (devices a) \<and> - 1 \<notin> set (devices a)" "list_all (\<lambda>d. - 1 \<le> d \<and> d < 2 ^ 31) (devices a)"
            using ok not_all by (auto simp: args_ok_def loop_ok_def)
          then show "distinct (devices a)" by blast
          have "0 \<le> d" if "d \<in> set (devices a)" for d
          proof -
            have "- 1 \<le> d" "d \<noteq> - 1" using that ns by (auto simp: list_all_iff)
            then show ?thesis by simp
          qed
          then show "list_all (\<lambda>d. 0 \<le> d) (devices a)" by (simp add: list_all_iff)
          show "hd (devices a) \<noteq> - 1" using ns False by (metis hd_in_set)
        qed
        then show ?thesis
          using r False by (auto simp: resolve_devices_def find_None_iff list_all_iff split: option.splits if_splits)
      qed
    qed
    then show ?thesis unfolding \<open>parse argv = Inr r\<close> r Inr sum.case prod.case su(1-3) using su(4) t m by simp
  qed (simp add: \<open>parse argv = Inr r\<close> r)
qed simp

section \<open>Every consistent configuration has a command line\<close>

fun show_devices :: "int list \<Rightarrow> string" where
  "show_devices [] = []"
| "show_devices [d] = show_int d"
| "show_devices (d # ds) = show_int d @ CHR '','' # show_devices ds"

definition show_address :: "HostService \<Rightarrow> string" where
  "show_address h = hs_host h @ CHR '':'' # hs_service h"

definition option_words :: "string \<Rightarrow> ('v \<Rightarrow> string) \<Rightarrow> 'v option \<Rightarrow> string list" where
  "option_words name f v = (case v of None \<Rightarrow> [] | Some x \<Rightarrow> [name, f x])"

definition flag_words :: "string \<Rightarrow> bool \<Rightarrow> string list" where
  "flag_words name b = (if b then [name] else [])"

definition device_words :: "int list \<Rightarrow> string list" where
  "device_words ds = (if ds = [] then [] else if ds = [- 1] then [''--device'', ''all''] else [''--device'', show_devices ds])"

definition command_line :: "Args \<Rightarrow> string list" where
  "command_line a =
     device_words (devices a) @ option_words ''--threads'' show_int (threads a) @
     option_words ''--client'' show_address (client a) @ option_words ''--server'' show_address (server a) @
     option_words ''--output'' id (output_file a) @ option_words ''--upload'' show_address (upload a) @
     flag_words ''--no-upload'' (no_upload a) @ option_words ''--start'' show_int (start_seed a) @
     option_words ''--size'' show_int (arg_min_size a) @ flag_words ''--fast-cpu'' (arg_fast_cpu a) @
     flag_words ''--origin'' (arg_origin a)"

lemma parse_argument_int_show:
  assumes "lo \<le> v" "v \<le> hi" "P v"
  shows "parse_argument_int lo hi P None name (show_int v # rest) = Inr (v, rest)"
  using from_chars_show_int [OF assms(1,2), of "[]"] assms(3) by (simp add: parse_argument_int_def)

lemma split_show_address:
  assumes "CHR '':'' \<notin> set (hs_service h)"
  shows "split_address (show_address h) = Some h"
  using last_index [OF assms, of "hs_host h"]
  by (simp add: split_address_def find_last_of_def show_address_def Let_def)

lemma show_devices_Cons: "ds \<noteq> [] \<Longrightarrow> show_devices (d # ds) = show_int d @ CHR '','' # show_devices ds"
  by (cases ds) simp_all

lemma show_int_nonempty: "show_int v \<noteq> []"
  using show_nat_digits by (simp add: show_int_def)

lemma parse_show_devices:
  assumes "distinct (acc @ ds)" "list_all (\<lambda>d. 0 \<le> d \<and> d < 2 ^ 31) ds"
  shows "parse_devices s (show_devices ds) acc = Inr (acc @ ds)"
  using assms
proof (induction ds arbitrary: acc)
  case Nil
  then show ?case by (simp add: parse_devices.simps)
next
  case (Cons d ds)
  have r: "- (2 ^ 31) \<le> d" "d \<le> 2 ^ 31 - 1" "0 \<le> d" "d \<notin> set acc" using Cons.prems by simp_all
  show ?case
  proof (cases "ds = []")
    case True
    then show ?thesis using from_chars_show_int [OF r(1,2), of "[]"] r(3,4) show_int_nonempty [of d]
      by (simp add: parse_devices.simps [of s "show_int d"] parse_devices.simps [of s "[]"])
  next
    case False
    have "from_chars (- (2 ^ 31)) (2 ^ 31 - 1) (show_devices (d # ds)) = Parsed d (CHR '','' # show_devices ds)"
      unfolding show_devices_Cons [OF False] by (rule from_chars_show_int [OF r(1,2)]) (simp add: comma_no_digit)
    moreover have "show_devices (d # ds) \<noteq> []" using show_int_nonempty by (simp add: show_devices_Cons [OF False])
    ultimately show ?thesis
      using Cons.IH [of "acc @ [d]"] Cons.prems r(3,4) by (simp add: parse_devices.simps [of s "show_devices (d # ds)"])
  qed
qed

lemma digit_char_not: "is_digit c \<Longrightarrow> c \<noteq> CHR ''a''"
  by (auto simp: is_digit_def of_char_def)

lemma show_devices_not_all: "ds \<noteq> [] \<Longrightarrow> show_devices ds \<noteq> ''all''"
proof
  assume a: "ds \<noteq> []" "show_devices ds = ''all''"
  have h: "hd (show_int d @ rest) \<noteq> CHR ''a''" for d rest
    using show_nat_digits [of "nat (- d)"] show_nat_digits [of "nat d"] digit_char_not
    by (auto simp: show_int_def list_all_iff dest: hd_in_set)
  obtain d es where "ds = d # es" using a(1) by (cases ds) auto
  then have "\<exists>rest. show_devices ds = show_int d @ rest" by (cases es) auto
  then show False using a(2) h [of d] by (metis list.sel(1))
qed

lemma args_same:
  "threads a = v1 \<Longrightarrow> a\<lparr>threads := v1\<rparr> = a" "start_seed a = v1 \<Longrightarrow> a\<lparr>start_seed := v1\<rparr> = a" "arg_min_size a = v1 \<Longrightarrow> a\<lparr>arg_min_size := v1\<rparr> = a"
  "client a = v2 \<Longrightarrow> a\<lparr>client := v2\<rparr> = a" "server a = v2 \<Longrightarrow> a\<lparr>server := v2\<rparr> = a" "upload a = v2 \<Longrightarrow> a\<lparr>upload := v2\<rparr> = a"
  "output_file a = v3 \<Longrightarrow> a\<lparr>output_file := v3\<rparr> = a" "devices a = ds \<Longrightarrow> a\<lparr>devices := ds\<rparr> = a"
  "no_upload a = b \<Longrightarrow> a\<lparr>no_upload := b\<rparr> = a" "arg_fast_cpu a = b \<Longrightarrow> a\<lparr>arg_fast_cpu := b\<rparr> = a" "arg_origin a = b \<Longrightarrow> a\<lparr>arg_origin := b\<rparr> = a"
  by (cases a; simp)+

lemma loop_step: "parse_option arg rest st = Inr (st', rest') \<Longrightarrow> parse_loop (arg # rest) st = parse_loop rest' st'"
  by simp

lemma words_loop:
  assumes "v = None \<Longrightarrow> a' = a" "\<And>x. v = Some x \<Longrightarrow> parse_option name (f x # rest) (m, a) = Inr ((m, a'), rest)"
  shows "parse_loop (option_words name f v @ rest) (m, a) = parse_loop rest (m, a')"
  using assms loop_step by (cases v) (auto simp: option_words_def)

lemma flag_loop:
  assumes "\<not> b \<Longrightarrow> a' = a" "b \<Longrightarrow> parse_option name rest (m, a) = Inr ((m, a'), rest)"
  shows "parse_loop (flag_words name b @ rest) (m, a) = parse_loop rest (m, a')"
  using assms loop_step by (cases b) (auto simp: flag_words_def)

declare args_same [arg_simps] parse_option_def [arg_simps] next_argument_def [arg_simps] parse_argument_int_show [arg_simps]
  split_show_address [arg_simps] warn_address_def [arg_simps]

lemma no_upload_words:
  "no_upload a = False \<Longrightarrow> parse_loop (flag_words ''--no-upload'' b @ rest) (m, a) = parse_loop rest (m, a\<lparr>no_upload := b\<rparr>)"
  by (rule flag_loop) (simp_all add: arg_simps)

lemma fast_cpu_words:
  "arg_fast_cpu a = False \<Longrightarrow> parse_loop (flag_words ''--fast-cpu'' b @ rest) (m, a) = parse_loop rest (m, a\<lparr>arg_fast_cpu := b\<rparr>)"
  by (rule flag_loop) (simp_all add: arg_simps)

lemma origin_words:
  "arg_origin a = False \<Longrightarrow> parse_loop (flag_words ''--origin'' b @ rest) (m, a) = parse_loop rest (m, a\<lparr>arg_origin := b\<rparr>)"
  by (rule flag_loop) (simp_all add: arg_simps)

lemma threads_words:
  assumes "threads a = None" "\<And>t. v = Some t \<Longrightarrow> 1 \<le> t \<and> t \<le> 1024"
  shows "parse_loop (option_words ''--threads'' show_int v @ rest) (m, a) = parse_loop rest (m, a\<lparr>threads := v\<rparr>)"
  by (rule words_loop) (use assms in \<open>simp_all add: arg_simps\<close>)

lemma start_words:
  assumes "start_seed a = None" "\<And>t. v = Some t \<Longrightarrow> - (2 ^ 63) \<le> t \<and> t < 2 ^ 63"
  shows "parse_loop (option_words ''--start'' show_int v @ rest) (m, a) = parse_loop rest (m, a\<lparr>start_seed := v\<rparr>)"
  by (rule words_loop) (use assms in \<open>simp_all add: arg_simps\<close>)

lemma size_words:
  assumes "arg_min_size a = None" "\<And>t. v = Some t \<Longrightarrow> 0 \<le> t \<and> t < 2 ^ 31"
  shows "parse_loop (option_words ''--size'' show_int v @ rest) (m, a) = parse_loop rest (m, a\<lparr>arg_min_size := v\<rparr>)"
  by (rule words_loop) (use assms in \<open>simp_all add: arg_simps\<close>)

lemma client_words:
  assumes "client a = None" "\<And>h. v = Some h \<Longrightarrow> CHR '':'' \<notin> set (hs_service h)"
  shows "parse_loop (option_words ''--client'' show_address v @ rest) (m, a) = parse_loop rest (m, a\<lparr>client := v\<rparr>)"
  by (rule words_loop) (use assms in \<open>simp_all add: arg_simps\<close>)

lemma server_words:
  assumes "server a = None" "\<And>h. v = Some h \<Longrightarrow> CHR '':'' \<notin> set (hs_service h)"
  shows "parse_loop (option_words ''--server'' show_address v @ rest) (m, a) = parse_loop rest (m, a\<lparr>server := v\<rparr>)"
  by (rule words_loop) (use assms in \<open>simp_all add: arg_simps\<close>)

lemma upload_words:
  assumes "upload a = None" "\<And>h. v = Some h \<Longrightarrow> CHR '':'' \<notin> set (hs_service h)"
  shows "parse_loop (option_words ''--upload'' show_address v @ rest) (m, a) = parse_loop rest (m, a\<lparr>upload := v\<rparr>)"
  by (rule words_loop) (use assms in \<open>simp_all add: arg_simps\<close>)

lemma output_words:
  assumes "output_file a = None"
  shows "parse_loop (option_words ''--output'' id v @ rest) (m, a) = parse_loop rest (m, a\<lparr>output_file := v\<rparr>)"
  by (rule words_loop) (use assms in \<open>simp_all add: arg_simps\<close>)

lemma device_words_loop:
  assumes "devices a = []" "ds = [- 1] \<or> (distinct ds \<and> list_all (\<lambda>d. 0 \<le> d \<and> d < 2 ^ 31) ds)"
  shows "parse_loop (device_words ds @ rest) (m, a) = parse_loop rest (m, a\<lparr>devices := ds\<rparr>)"
proof -
  consider "ds = []" | "ds = [- 1]" | "ds \<noteq> []" "ds \<noteq> [- 1]" by blast
  then show ?thesis
  proof cases
    case 1 then show ?thesis using assms(1) by (simp add: device_words_def args_same)
  next
    case 2
    have "parse_option ''--device'' (''all'' # rest) (m, a) = Inr ((m, a\<lparr>devices := ds\<rparr>), rest)"
      using assms(1) 2 by (simp add: arg_simps)
    then show ?thesis using 2 loop_step by (simp add: device_words_def)
  next
    case 3
    then have "parse_devices (show_devices ds) (show_devices ds) [] = Inr ds"
      using assms(2) parse_show_devices [of "[]" ds] by simp
    then have "parse_option ''--device'' (show_devices ds # rest) (m, a) = Inr ((m, a\<lparr>devices := ds\<rparr>), rest)"
      using assms(1) show_devices_not_all [OF 3(1)] by (simp add: arg_simps)
    then show ?thesis using 3 loop_step by (simp add: device_words_def)
  qed
qed

definition services_plain :: "Args \<Rightarrow> bool" where
  "services_plain a \<longleftrightarrow> list_all (\<lambda>h. case h of None \<Rightarrow> True | Some h \<Rightarrow> CHR '':'' \<notin> set (hs_service h)) [client a, server a, upload a]"

text \<open>
  C32: Every consistent configuration whose ports contain no colon is what some command line is read as,
  without a message.
\<close>

theorem command_line_roundtrip:
  assumes "args_ok a" "services_plain a"
  shows "parse (command_line a) = Inr ([], a)"
proof -
  have dev: "devices a = [- 1] \<or> (distinct (devices a) \<and> list_all (\<lambda>d. 0 \<le> d \<and> d < 2 ^ 31) (devices a))"
  proof (cases "devices a = [- 1]")
    case False
    have l: "distinct (devices a) \<and> - 1 \<notin> set (devices a)" using assms(1) False unfolding args_ok_def by blast
    have "list_all (\<lambda>d. - 1 \<le> d \<and> d < 2 ^ 31) (devices a)" using assms(1) unfolding args_ok_def loop_ok_def by blast
    moreover have "0 \<le> d" if "d \<in> set (devices a)" "- 1 \<le> d" for d
      using that l by (cases "d = - 1") auto
    ultimately show ?thesis using l unfolding list_all_iff by blast
  qed blast
  have ok: "loop_ok a" using assms(1) by (simp add: args_ok_def)
  have rng: "\<And>t. threads a = Some t \<Longrightarrow> 1 \<le> t \<and> t \<le> 1024" "\<And>t. start_seed a = Some t \<Longrightarrow> - (2 ^ 63) \<le> t \<and> t < 2 ^ 63"
    "\<And>t. arg_min_size a = Some t \<Longrightarrow> 0 \<le> t \<and> t < 2 ^ 31" using ok by (simp_all add: loop_ok_def)
  have srv: "\<And>h. client a = Some h \<Longrightarrow> CHR '':'' \<notin> set (hs_service h)" "\<And>h. server a = Some h \<Longrightarrow> CHR '':'' \<notin> set (hs_service h)"
    "\<And>h. upload a = Some h \<Longrightarrow> CHR '':'' \<notin> set (hs_service h)" using assms(2) by (simp_all add: services_plain_def)
  have "parse_loop (command_line a @ []) ([], no_args) = Inr ([], a)"
    unfolding command_line_def append_assoc
    apply (subst device_words_loop [OF _ dev], simp add: no_args_def)
    apply (subst threads_words [OF _ rng(1)], simp add: no_args_def, assumption)
    apply (subst client_words [OF _ srv(1)], simp add: no_args_def, assumption)
    apply (subst server_words [OF _ srv(2)], simp add: no_args_def, assumption)
    apply (subst output_words, simp add: no_args_def)
    apply (subst upload_words [OF _ srv(3)], simp add: no_args_def, assumption)
    apply (subst no_upload_words, simp add: no_args_def)
    apply (subst start_words [OF _ rng(2)], simp add: no_args_def, assumption)
    apply (subst size_words [OF _ rng(3)], simp add: no_args_def, assumption)
    apply (subst fast_cpu_words, simp add: no_args_def)
    apply (subst origin_words, simp add: no_args_def)
    apply (simp add: no_args_def)
    done
  moreover have "check_args a = Inr a"
  proof -
    have c: "\<not> (threads a \<noteq> None \<and> client a \<noteq> None)" "\<not> (output_file a \<noteq> None \<and> client a \<noteq> None)"
        "\<not> (devices a = [] \<and> server a = None)" "\<not> (start_seed a \<noteq> None \<and> devices a = [])"
        "\<not> (arg_min_size a \<noteq> None \<and> threads a = None \<and> client a \<noteq> None)"
      using assms(1) unfolding args_ok_def by metis+
    have "\<not> (- 1 \<in> set (devices a) \<and> length (devices a) \<noteq> 1)"
      using assms(1) unfolding args_ok_def by (metis length_Cons list.size(3) One_nat_def)
    then show ?thesis using c unfolding check_args_def Let_def by (simp only: if_not_P [OF c(1)] if_not_P [OF c(2)]
        if_not_P [OF c(3)] if_not_P [OF c(4)] if_not_P [OF c(5)] if_not_P if_False)
  qed
  ultimately show ?thesis by (simp add: parse_def)
qed

lemma command_line_roundtrip_witness:
  "parse (command_line (no_args\<lparr>devices := [2, 0], threads := Some 4, start_seed := Some (- 5), arg_origin := True\<rparr>)) =
   Inr ([], no_args\<lparr>devices := [2, 0], threads := Some 4, start_seed := Some (- 5), arg_origin := True\<rparr>)"
  by (rule command_line_roundtrip) (simp_all add: args_ok_def loop_ok_def services_plain_def no_args_def)

end
