(* ===== verification/HostSystem.thy ===== *)
theory HostSystem
  imports CpuProcess "HOL-Library.Multiset"
begin

text \<open>
  The host program as a system of threads (\<open>CpuThread::run\<close> in \<open>src/src/cpu.cpp\<close>, the loop of
  \<open>main_inner\<close> in \<open>src/src/main.cpp\<close>, \<open>UploaderThread\<close> in \<open>src/src/uploader.cpp\<close>): CPU threads take
  candidates from one shared queue and put their finds into another, the main thread writes every new
  find to the output file and hands it to the uploader, which repeats failed requests. Every event is a
  step of one thread between two operations on a mutex; the events may come in any order the mutexes
  allow. The theorems say that nothing is lost or written twice, that all work can always be brought to an
  end, and what a failing upload server holds up.
\<close>

section \<open>Definitions\<close>

record UploadItem =
  ui_seed :: u64
  ui_x :: int
  ui_z :: int
  ui_size :: int
  ui_mode :: string

datatype MainState = Main_sleeping | Main_draining | Main_enqueuing UploadItem

datatype UploaderState = Up_ready | Up_sending UploadItem | Up_retry_sleep

text \<open>
  The shared state. \<open>cpus\<close> holds what each CPU thread is working on. \<open>ho_pushed\<close>, \<open>ho_drained\<close> and \<open>ho_uploaded\<close>
  are histories: all candidates that ever came, all finds the main thread popped, all requests answered
  with success.
\<close>

record Host =
  gpu_queue :: "Candidate list"
  cpus :: "Candidate option list"
  cpu_queue :: "CpuOutput list"
  main_state :: MainState
  seen_outputs :: "(u64 \<times> int \<times> int) list"
  ho_written :: "CpuOutput list"
  up_queue :: "UploadItem list"
  up_state :: UploaderState
  ho_pushed :: "Candidate list"
  ho_drained :: "CpuOutput list"
  ho_uploaded :: "UploadItem list"

definition output_key :: "CpuOutput \<Rightarrow> u64 \<times> int \<times> int" where
  "output_key output = (co_seed output, co_x output, co_z output)"

definition upload_item :: "bool \<Rightarrow> CpuOutput \<Rightarrow> UploadItem" where
  "upload_item large_biomes output =
     \<lparr>ui_seed = co_seed output, ui_x = co_x output, ui_z = co_z output, ui_size = co_score output,
      ui_mode = (if large_biomes then ''lb'' else ''sb'')\<rparr>"

text \<open>
  \<open>Push\<close>: a GPU thread or a network connection delivers candidates. \<open>Take i\<close>, \<open>Finish i\<close>: CPU thread \<open>i\<close>.
  \<open>Lock\<close>, \<open>Drain\<close>, \<open>Enqueue\<close>, \<open>Unlock\<close>: the main thread, which keeps the mutex of the finds while it
  drains the queue. \<open>Up_take\<close>, \<open>Up_success\<close>, \<open>Up_failure\<close>, \<open>Up_wake\<close>: the uploader, which keeps its own
  mutex while it sleeps after a failure.
\<close>

datatype Event =
    Push "Candidate list" | Take nat | Finish nat
  | Lock | Drain | Enqueue | Unlock
  | Up_take | Up_success | Up_failure | Up_wake

definition cpu_take :: "nat \<Rightarrow> Host \<Rightarrow> Host option" where
  "cpu_take i s =
     (if i < length (cpus s) \<and> cpus s ! i = None
      then case gpu_queue s of [] \<Rightarrow> None
         | input # q \<Rightarrow> Some (s\<lparr>gpu_queue := q, cpus := (cpus s)[i := Some input]\<rparr>)
      else None)"

definition cpu_finish :: "(Candidate \<Rightarrow> CpuOutput option) \<Rightarrow> nat \<Rightarrow> Host \<Rightarrow> Host option" where
  "cpu_finish work i s =
     (if i < length (cpus s)
      then case cpus s ! i of None \<Rightarrow> None
         | Some input \<Rightarrow>
             (case work input of None \<Rightarrow> Some (s\<lparr>cpus := (cpus s)[i := None]\<rparr>)
              | Some output \<Rightarrow>
                  if main_state s = Main_sleeping
                  then Some (s\<lparr>cpus := (cpus s)[i := None], cpu_queue := cpu_queue s @ [output]\<rparr>) else None)
      else None)"

definition main_drain :: "bool \<Rightarrow> bool \<Rightarrow> Host \<Rightarrow> Host option" where
  "main_drain large_biomes has_uploader s =
     (if main_state s \<noteq> Main_draining then None
      else case cpu_queue s of [] \<Rightarrow> None
         | output # q \<Rightarrow>
             let s = s\<lparr>cpu_queue := q, ho_drained := ho_drained s @ [output]\<rparr>; key = output_key output
             in if key \<in> set (seen_outputs s) then Some s
                else Some (s\<lparr>seen_outputs := key # seen_outputs s, ho_written := ho_written s @ [output],
                             main_state := (if has_uploader then Main_enqueuing (upload_item large_biomes output) else Main_draining)\<rparr>))"

definition main_enqueue :: "Host \<Rightarrow> Host option" where
  "main_enqueue s =
     (case main_state s of
        Main_enqueuing item \<Rightarrow>
          if up_state s = Up_retry_sleep then None else Some (s\<lparr>up_queue := up_queue s @ [item], main_state := Main_draining\<rparr>)
      | _ \<Rightarrow> None)"

definition uploader_take :: "Host \<Rightarrow> Host option" where
  "uploader_take s =
     (case (up_state s, up_queue s) of
        (Up_ready, item # q) \<Rightarrow> Some (s\<lparr>up_queue := q, up_state := Up_sending item\<rparr>) | _ \<Rightarrow> None)"

definition uploader_answer :: "bool \<Rightarrow> Host \<Rightarrow> Host option" where
  "uploader_answer success s =
     (case up_state s of
        Up_sending item \<Rightarrow>
          if success then Some (s\<lparr>up_state := Up_ready, ho_uploaded := ho_uploaded s @ [item]\<rparr>)
          else Some (s\<lparr>up_queue := up_queue s @ [item], up_state := Up_retry_sleep\<rparr>)
      | _ \<Rightarrow> None)"

fun host_step :: "(Candidate \<Rightarrow> CpuOutput option) \<Rightarrow> bool \<Rightarrow> bool \<Rightarrow> Event \<Rightarrow> Host \<Rightarrow> Host option" where
  "host_step work large_biomes has_uploader (Push cs) s = Some (s\<lparr>gpu_queue := gpu_queue s @ cs, ho_pushed := ho_pushed s @ cs\<rparr>)"
| "host_step work large_biomes has_uploader (Take i) s = cpu_take i s"
| "host_step work large_biomes has_uploader (Finish i) s = cpu_finish work i s"
| "host_step work large_biomes has_uploader Lock s = (if main_state s = Main_sleeping then Some (s\<lparr>main_state := Main_draining\<rparr>) else None)"
| "host_step work large_biomes has_uploader Drain s = main_drain large_biomes has_uploader s"
| "host_step work large_biomes has_uploader Enqueue s = main_enqueue s"
| "host_step work large_biomes has_uploader Unlock s =
     (if main_state s = Main_draining \<and> cpu_queue s = [] then Some (s\<lparr>main_state := Main_sleeping\<rparr>) else None)"
| "host_step work large_biomes has_uploader Up_take s = uploader_take s"
| "host_step work large_biomes has_uploader Up_success s = uploader_answer True s"
| "host_step work large_biomes has_uploader Up_failure s = uploader_answer False s"
| "host_step work large_biomes has_uploader Up_wake s = (if up_state s = Up_retry_sleep then Some (s\<lparr>up_state := Up_ready\<rparr>) else None)"

definition host_start :: "nat \<Rightarrow> Host" where
  "host_start nthreads =
     \<lparr>gpu_queue = [], cpus = replicate nthreads None, cpu_queue = [], main_state = Main_sleeping, seen_outputs = [],
      ho_written = [], up_queue = [], up_state = Up_ready, ho_pushed = [], ho_drained = [], ho_uploaded = []\<rparr>"

fun host_run :: "(Candidate \<Rightarrow> CpuOutput option) \<Rightarrow> bool \<Rightarrow> bool \<Rightarrow> Event list \<Rightarrow> Host \<Rightarrow> Host option" where
  "host_run work large_biomes has_uploader [] s = Some s"
| "host_run work large_biomes has_uploader (e # es) s =
     (case host_step work large_biomes has_uploader e s of None \<Rightarrow> None | Some t \<Rightarrow> host_run work large_biomes has_uploader es t)"

inductive host_moves :: "(Candidate \<Rightarrow> CpuOutput option) \<Rightarrow> bool \<Rightarrow> bool \<Rightarrow> Host \<Rightarrow> Host \<Rightarrow> bool"
  for work large_biomes has_uploader where
  move: "host_step work large_biomes has_uploader e s = Some t \<Longrightarrow> host_moves work large_biomes has_uploader s t"

inductive_cases host_movesE: "host_moves work large_biomes has_uploader s t"

section \<open>Bookkeeping of a step relation\<close>

text \<open>
  What came in is what is kept and what went out: every step takes in some things, gives out some and
  keeps the rest.
\<close>

locale ledger =
  fixes step :: "'s \<Rightarrow> 's \<Rightarrow> bool"
    and start :: 's
    and came :: "'s \<Rightarrow> 'x multiset"
    and kept :: "'s \<Rightarrow> 'x multiset"
    and gone :: "'s \<Rightarrow> 'x multiset"
  assumes start_even: "came start = kept start + gone start"
    and step_even: "step s t \<Longrightarrow> \<exists>a b. came t = came s + a \<and> gone t = gone s + b \<and> kept t + b = kept s + a"
begin

lemma balance: "step\<^sup>*\<^sup>* start s \<Longrightarrow> came s = kept s + gone s"
proof (induction rule: rtranclp_induct)
  case (step s t)
  then show ?case using step_even [OF step(2)] by (metis (no_types, lifting) add.assoc add.commute)
qed (rule start_even)

lemma gone_came: "step\<^sup>*\<^sup>* start s \<Longrightarrow> gone s \<subseteq># came s"
  using balance by (metis mset_subset_eq_add_right)

lemma all_gone: "step\<^sup>*\<^sup>* start s \<Longrightarrow> kept s = {#} \<Longrightarrow> gone s = came s"
  using balance by simp

end

section \<open>Finds and uploads\<close>

definition outputs_of :: "('a \<Rightarrow> 'b option) \<Rightarrow> 'a list \<Rightarrow> 'b multiset" where
  "outputs_of f xs = mset (List.map_filter f xs)"

lemma outputs_of_simps [simp]:
  "outputs_of f [] = {#}"
  "outputs_of f (x # xs) = (case f x of None \<Rightarrow> {#} | Some y \<Rightarrow> {#y#}) + outputs_of f xs"
  "outputs_of f (xs @ ys) = outputs_of f xs + outputs_of f ys"
  by (simp_all add: outputs_of_def List.map_filter_def split: option.split)

lemma outputs_of_replicate: "f x = None \<Longrightarrow> outputs_of f (replicate n x) = {#}"
  by (induction n) auto

lemma outputs_of_idle: "list_all (\<lambda>c. c = None) cs \<Longrightarrow> outputs_of (\<lambda>c. Option.bind c work) cs = {#}"
  by (induction cs) auto

lemma outputs_of_update:
  assumes "i < length xs"
  shows "outputs_of f (xs[i := v]) + (case f (xs ! i) of None \<Rightarrow> {#} | Some y \<Rightarrow> {#y#}) =
         outputs_of f xs + (case f v of None \<Rightarrow> {#} | Some y \<Rightarrow> {#y#})"
  using assms
proof (induction xs arbitrary: i)
  case (Cons x xs)
  then show ?case by (cases i) (simp_all add: ac_simps)
qed simp

definition pending_finds :: "(Candidate \<Rightarrow> CpuOutput option) \<Rightarrow> Host \<Rightarrow> CpuOutput multiset" where
  "pending_finds work s =
     outputs_of work (gpu_queue s) + outputs_of (\<lambda>c. Option.bind c work) (cpus s) + mset (cpu_queue s)"

definition pending_uploads :: "Host \<Rightarrow> UploadItem multiset" where
  "pending_uploads s =
     mset (up_queue s) + (case up_state s of Up_sending item \<Rightarrow> {#item#} | _ \<Rightarrow> {#}) +
     (case main_state s of Main_enqueuing item \<Rightarrow> {#item#} | _ \<Rightarrow> {#})"

lemma host_step_cases [consumes 1, case_names Push Take Reject Deliver Lock Seen Fresh Enqueue Unlock Up_take Success Failure Wake]:
  assumes "host_step work l u e s = Some t"
  obtains cs where "e = Push cs" "t = s\<lparr>gpu_queue := gpu_queue s @ cs, ho_pushed := ho_pushed s @ cs\<rparr>"
    | i input q where "e = Take i" "i < length (cpus s)" "cpus s ! i = None" "gpu_queue s = input # q"
        "t = s\<lparr>gpu_queue := q, cpus := (cpus s)[i := Some input]\<rparr>"
    | i input where "e = Finish i" "i < length (cpus s)" "cpus s ! i = Some input" "work input = None"
        "t = s\<lparr>cpus := (cpus s)[i := None]\<rparr>"
    | i input out where "e = Finish i" "i < length (cpus s)" "cpus s ! i = Some input" "work input = Some out"
        "main_state s = Main_sleeping" "t = s\<lparr>cpus := (cpus s)[i := None], cpu_queue := cpu_queue s @ [out]\<rparr>"
    | "e = Lock" "main_state s = Main_sleeping" "t = s\<lparr>main_state := Main_draining\<rparr>"
    | out q where "e = Drain" "main_state s = Main_draining" "cpu_queue s = out # q" "output_key out \<in> set (seen_outputs s)"
        "t = s\<lparr>cpu_queue := q, ho_drained := ho_drained s @ [out]\<rparr>"
    | out q where "e = Drain" "main_state s = Main_draining" "cpu_queue s = out # q" "output_key out \<notin> set (seen_outputs s)"
        "t = s\<lparr>cpu_queue := q, ho_drained := ho_drained s @ [out], seen_outputs := output_key out # seen_outputs s,
               ho_written := ho_written s @ [out], main_state := (if u then Main_enqueuing (upload_item l out) else Main_draining)\<rparr>"
    | item where "e = Enqueue" "main_state s = Main_enqueuing item" "up_state s \<noteq> Up_retry_sleep"
        "t = s\<lparr>up_queue := up_queue s @ [item], main_state := Main_draining\<rparr>"
    | "e = Unlock" "main_state s = Main_draining" "cpu_queue s = []" "t = s\<lparr>main_state := Main_sleeping\<rparr>"
    | item q where "e = Up_take" "up_state s = Up_ready" "up_queue s = item # q"
        "t = s\<lparr>up_queue := q, up_state := Up_sending item\<rparr>"
    | item where "e = Up_success" "up_state s = Up_sending item"
        "t = s\<lparr>up_state := Up_ready, ho_uploaded := ho_uploaded s @ [item]\<rparr>"
    | item where "e = Up_failure" "up_state s = Up_sending item"
        "t = s\<lparr>up_queue := up_queue s @ [item], up_state := Up_retry_sleep\<rparr>"
    | "e = Up_wake" "up_state s = Up_retry_sleep" "t = s\<lparr>up_state := Up_ready\<rparr>"
proof (cases e)
  case (Take i)
  then show ?thesis using assms that(2) by (auto simp: cpu_take_def split: if_splits list.splits)
next
  case (Finish i)
  then show ?thesis using assms that(3,4) by (auto simp: cpu_finish_def split: if_splits option.splits)
next
  case Drain
  then show ?thesis using assms that(6,7) by (auto simp: main_drain_def Let_def split: if_splits list.splits)
next
  case Enqueue
  then show ?thesis using assms that(8) by (auto simp: main_enqueue_def split: MainState.splits if_splits)
next
  case Up_take
  then show ?thesis using assms that(10) by (auto simp: uploader_take_def split: UploaderState.splits list.splits)
next
  case Up_success
  then show ?thesis using assms that(11) by (auto simp: uploader_answer_def split: UploaderState.splits)
next
  case Up_failure
  then show ?thesis using assms that(12) by (auto simp: uploader_answer_def split: UploaderState.splits)
next
  case (Push cs)
  then show ?thesis using assms that(1) by simp
next
  case Lock
  then show ?thesis using assms that(5) by (simp split: if_splits)
next
  case Unlock
  then show ?thesis using assms that(9) by (simp split: if_splits)
next
  case Up_wake
  then show ?thesis using assms that(13) by (simp split: if_splits)
qed

declare pending_finds_def [ledger_simps] pending_uploads_def [ledger_simps]

lemma finds_even:
  assumes "host_step work l u e s = Some t"
  shows "\<exists>a b. outputs_of work (ho_pushed t) = outputs_of work (ho_pushed s) + a \<and> mset (ho_drained t) = mset (ho_drained s) + b \<and>
               pending_finds work t + b = pending_finds work s + a"
proof -
  have same: ?thesis if "ho_pushed t = ho_pushed s" "ho_drained t = ho_drained s" "pending_finds work t = pending_finds work s"
    using that by (intro exI [of _ "{#}"]) simp
  from assms show ?thesis
  proof (cases rule: host_step_cases)
    case (Push cs)
    then show ?thesis by (intro exI [of _ "outputs_of work cs"] exI [of _ "{#}"]) (simp add: ledger_simps)
  next
    case (Take i input q)
    then show ?thesis using outputs_of_update [OF Take(2), of "\<lambda>c. Option.bind c work" "Some input"]
      by (intro same) (simp_all add: ledger_simps ac_simps)
  next
    case (Reject i input)
    then show ?thesis using outputs_of_update [OF Reject(2), of "\<lambda>c. Option.bind c work" None]
      by (intro same) (simp_all add: ledger_simps)
  next
    case (Deliver i input out)
    then show ?thesis using outputs_of_update [OF Deliver(2), of "\<lambda>c. Option.bind c work" None]
      by (intro same) (simp_all add: ledger_simps)
  next
    case (Seen out q)
    then show ?thesis by (intro exI [of _ "{#}"] exI [of _ "{#out#}"]) (simp add: ledger_simps ac_simps)
  next
    case (Fresh out q)
    then show ?thesis by (intro exI [of _ "{#}"] exI [of _ "{#out#}"]) (simp add: ledger_simps ac_simps)
  qed (rule same; simp add: ledger_simps)+
qed

definition upload_items :: "bool \<Rightarrow> bool \<Rightarrow> Host \<Rightarrow> UploadItem multiset" where
  "upload_items large_biomes has_uploader s =
     (if has_uploader then mset (map (upload_item large_biomes) (ho_written s)) else {#})"

declare upload_items_def [ledger_simps]

lemma uploads_even:
  assumes "host_step work l u e s = Some t"
  shows "\<exists>a b. upload_items l u t = upload_items l u s + a \<and> mset (ho_uploaded t) = mset (ho_uploaded s) + b \<and>
               pending_uploads t + b = pending_uploads s + a"
proof -
  have same: ?thesis if "ho_written t = ho_written s" "ho_uploaded t = ho_uploaded s" "pending_uploads t = pending_uploads s"
    using that by (intro exI [of _ "{#}"]) (simp add: upload_items_def)
  from assms show ?thesis
  proof (cases rule: host_step_cases)
    case (Fresh out q)
    then show ?thesis
      by (intro exI [of _ "if u then {#upload_item l out#} else {#}"] exI [of _ "{#}"])
        (simp add: ledger_simps ac_simps)
  next
    case (Success item)
    then show ?thesis by (intro exI [of _ "{#}"] exI [of _ "{#item#}"]) (simp add: ledger_simps)
  qed (rule same; simp add: ledger_simps)+
qed

interpretation finds: ledger "host_moves work l u" "host_start n" "\<lambda>s. outputs_of work (ho_pushed s)"
    "pending_finds work" "\<lambda>s. mset (ho_drained s)" for work l u n
  by unfold_locales
    (auto simp: host_start_def ledger_simps outputs_of_replicate elim!: host_movesE dest!: finds_even)

interpretation uploads: ledger "host_moves work l u" "host_start n" "upload_items l u" pending_uploads
    "\<lambda>s. mset (ho_uploaded s)" for work l u n
  by unfold_locales
    (auto simp: host_start_def ledger_simps elim!: host_movesE dest!: uploads_even)

section \<open>The file\<close>

text \<open>The finds with repetitions of a position left out.\<close>

definition first_finds :: "CpuOutput list \<Rightarrow> CpuOutput list" where
  "first_finds outs = fold (\<lambda>out ws. if output_key out \<in> output_key ` set ws then ws else ws @ [out]) outs []"

lemma first_finds_snoc:
  "first_finds (outs @ [out]) =
     (if output_key out \<in> output_key ` set (first_finds outs) then first_finds outs else first_finds outs @ [out])"
  by (simp add: first_finds_def)

lemma first_finds_props:
  "distinct (map output_key (first_finds outs)) \<and> set (first_finds outs) \<subseteq> set outs \<and>
   output_key ` set (first_finds outs) = output_key ` set outs"
proof (induction outs rule: rev_induct)
  case (snoc out outs)
  then show ?case by (auto simp: first_finds_snoc)
qed (simp add: first_finds_def)

definition file_inv :: "nat \<Rightarrow> bool \<Rightarrow> Host \<Rightarrow> bool" where
  "file_inv n u s \<longleftrightarrow>
     ho_written s = first_finds (ho_drained s) \<and> set (seen_outputs s) = output_key ` set (ho_written s) \<and>
     length (cpus s) = n \<and> (u \<or> (\<forall>item. main_state s \<noteq> Main_enqueuing item))"

lemma file_inv_start: "file_inv n u (host_start n)"
  by (simp add: file_inv_def host_start_def first_finds_def)

lemma file_inv_step:
  assumes "host_step work l u e s = Some t" "file_inv n u s"
  shows "file_inv n u t"
  using assms by (cases rule: host_step_cases) (simp_all add: file_inv_def first_finds_snoc)

lemma file_inv_reachable: "(host_moves work l u)\<^sup>*\<^sup>* (host_start n) s \<Longrightarrow> file_inv n u s"
  by (induction rule: rtranclp_induct) (auto intro: file_inv_start file_inv_step elim!: host_movesE)

lemma run_moves:
  assumes "host_run work l u es s = Some t"
  shows "(host_moves work l u)\<^sup>*\<^sup>* s t"
  using assms
proof (induction es arbitrary: s)
  case (Cons e es)
  then obtain s' where "host_step work l u e s = Some s'" "host_run work l u es s' = Some t" by (auto split: option.splits)
  then show ?case using Cons.IH by (meson converse_rtranclp_into_rtranclp host_moves.intros)
qed simp


section \<open>Progress\<close>

definition working :: "Host \<Rightarrow> nat" where
  "working s = size (outputs_of id (cpus s))"

text \<open>The work that is left, an upper bound for the number of productive steps.\<close>

definition work_left :: "Host \<Rightarrow> nat" where
  "work_left s =
     20 * length (gpu_queue s) + 19 * working s + 15 * length (cpu_queue s) +
     (case main_state s of Main_enqueuing item \<Rightarrow> 6 | _ \<Rightarrow> 0) + 3 * length (up_queue s) +
     (case up_state s of Up_ready \<Rightarrow> 0 | Up_sending item \<Rightarrow> 2 | Up_retry_sleep \<Rightarrow> 1)"

definition adds_work :: "Event \<Rightarrow> bool" where
  "adds_work e = (case e of Push cs \<Rightarrow> True | Up_failure \<Rightarrow> True | _ \<Rightarrow> False)"

definition productive :: "Event \<Rightarrow> bool" where
  "productive e \<longleftrightarrow> e \<noteq> Lock \<and> e \<noteq> Unlock"

declare work_left_def [progress_simps] working_def [progress_simps] adds_work_def [progress_simps] productive_def [progress_simps]

lemma working_update:
  assumes "i < length cs"
  shows "size (outputs_of id (cs[i := v])) + (if cs ! i = None then 0 else 1) =
         size (outputs_of id cs) + (if v = None then 0 else 1)"
  using arg_cong [OF outputs_of_update [OF assms, of id v], of size] by (auto split: option.splits)

lemma step_cpus:
  assumes "host_step work l u e s = Some t"
  shows "length (cpus t) = length (cpus s)"
  using assms by (cases rule: host_step_cases) simp_all

lemma step_uses_work:
  assumes "host_step work l u e s = Some t" "\<not> adds_work e"
  shows "work_left t + of_bool (productive e) \<le> work_left s \<and> ho_pushed t = ho_pushed s"
  using assms(1)
proof (cases rule: host_step_cases)
  case (Take i input q)
  then show ?thesis using working_update [OF Take(2), of "Some input"] by (simp add: progress_simps)
next
  case (Reject i input)
  then show ?thesis using working_update [OF Reject(2), of None] by (simp add: progress_simps)
next
  case (Deliver i input out)
  then show ?thesis using working_update [OF Deliver(2), of None] by (simp add: progress_simps)
qed (use assms(2) in \<open>simp_all add: progress_simps\<close>)

lemma run_uses_work:
  assumes "host_run work l u es s = Some t" "list_all (\<lambda>e. \<not> adds_work e) es"
  shows "length (filter productive es) + work_left t \<le> work_left s"
  using assms
proof (induction es arbitrary: s)
  case (Cons e es)
  then obtain s' where s': "host_step work l u e s = Some s'" "host_run work l u es s' = Some t" by (auto split: option.splits)
  then show ?case using Cons.IH [OF s'(2)] Cons.prems(2) step_uses_work [OF s'(1)] by (auto split: if_splits)
qed simp

definition quiet :: "Host \<Rightarrow> bool" where
  "quiet s \<longleftrightarrow>
     gpu_queue s = [] \<and> list_all (\<lambda>c. c = None) (cpus s) \<and> cpu_queue s = [] \<and> main_state s = Main_sleeping \<and>
     up_queue s = [] \<and> up_state s = Up_ready"

definition main_phase :: "Host \<Rightarrow> nat" where
  "main_phase s =
     (case main_state s of Main_sleeping \<Rightarrow> if cpu_queue s = [] then 0 else 2 | Main_draining \<Rightarrow> 1 | Main_enqueuing item \<Rightarrow> 0)"

lemma useful_step:
  assumes "\<not> quiet s" "0 < length (cpus s)"
  shows "\<exists>e t. host_step work l u e s = Some t \<and> \<not> adds_work e \<and> (productive e \<or> (work_left t = work_left s \<and> main_phase t < main_phase s))"
proof (cases "main_state s")
  case (Main_enqueuing item)
  then show ?thesis
    by (cases "up_state s = Up_retry_sleep")
      (force intro: exI [of _ Up_wake] simp: progress_simps,
       force intro: exI [of _ Enqueue] simp: main_enqueue_def progress_simps)
next
  case Main_draining
  show ?thesis
  proof (cases "cpu_queue s")
    case Nil
    then show ?thesis using Main_draining
      by (intro exI [of _ Unlock]) (simp add: main_phase_def progress_simps)
  next
    case (Cons out q)
    then show ?thesis using Main_draining
      by (intro exI [of _ Drain]) (simp add: main_drain_def Let_def progress_simps)
  qed
next
  case Main_sleeping
  show ?thesis
  proof (cases "up_state s")
    case Up_retry_sleep
    then show ?thesis by (intro exI [of _ Up_wake]) (simp add: progress_simps)
  next
    case (Up_sending item)
    then show ?thesis by (intro exI [of _ Up_success]) (simp add: uploader_answer_def progress_simps)
  next
    case Up_ready
    show ?thesis
    proof (cases "up_queue s")
      case (Cons item q)
      then show ?thesis using Up_ready by (intro exI [of _ Up_take]) (simp add: uploader_take_def progress_simps)
    next
      case Nil
      show ?thesis
      proof (cases "list_all (\<lambda>c. c = None) (cpus s)")
        case False
        then obtain i where "i < length (cpus s)" "cpus s ! i \<noteq> None" by (auto simp: list_all_length)
        then show ?thesis using Main_sleeping
          by (intro exI [of _ "Finish i"]) (auto simp: cpu_finish_def progress_simps split: option.splits)
      next
        case idle: True
        show ?thesis
        proof (cases "gpu_queue s")
          case (Cons c q)
          then show ?thesis using idle assms(2)
            by (intro exI [of _ "Take 0"]) (simp add: cpu_take_def list_all_length progress_simps)
        next
          case no_input: Nil
          then have "cpu_queue s \<noteq> []" using assms(1) Main_sleeping Up_ready Nil idle by (simp add: quiet_def)
          then show ?thesis using Main_sleeping
            by (intro exI [of _ Lock]) (simp add: main_phase_def progress_simps)
        qed
      qed
    qed
  qed
qed

lemma can_become_quiet:
  assumes "0 < length (cpus s)"
  shows "\<exists>es t. host_run work l u es s = Some t \<and> list_all (\<lambda>e. \<not> adds_work e) es \<and> quiet t \<and> ho_pushed t = ho_pushed s"
  using assms
proof (induction "4 * work_left s + main_phase s" arbitrary: s rule: less_induct)
  case less
  show ?case
  proof (cases "quiet s")
    case True
    then show ?thesis by (intro exI [of _ "[]"]) simp
  next
    case False
    then obtain e s' where e: "host_step work l u e s = Some s'" "\<not> adds_work e"
        "productive e \<or> (work_left s' = work_left s \<and> main_phase s' < main_phase s)"
      using useful_step less.prems by blast
    have len: "0 < length (cpus s')" using step_cpus [OF e(1)] less.prems by simp
    have "main_phase s' \<le> 2" by (simp add: main_phase_def split: MainState.split)
    then have "4 * work_left s' + main_phase s' < 4 * work_left s + main_phase s"
      using e(3) step_uses_work [OF e(1,2)] by (cases "productive e") auto
    then obtain es t where t: "host_run work l u es s' = Some t" "list_all (\<lambda>e. \<not> adds_work e) es" "quiet t" "ho_pushed t = ho_pushed s'"
      using less.hyps len by blast
    then show ?thesis using e step_uses_work [OF e(1,2)] by (intro exI [of _ "e # es"]) simp
  qed
qed

text \<open>
  While no candidates arrive and no request fails, the threads can only take a bounded number of steps
  (the main thread's looking at an empty queue apart): at most twenty for each waiting candidate, nineteen
  for each that is being checked, fifteen for each find and three for each upload.
\<close>

theorem host_work_is_bounded:
  assumes "host_run work l u es s = Some t" "list_all (\<lambda>e. \<not> adds_work e) es"
  shows "length (filter productive es) + work_left t \<le> work_left s"
  by (rule run_uses_work [OF assms])

text \<open>A run with one thread, a repeated find and a failed request.\<close>

definition sample_work :: "Candidate \<Rightarrow> CpuOutput option" where
  "sample_work c = (if cd_x c < 0 then None else Some \<lparr>co_seed = cd_seed c, co_x = 100, co_z = cd_z c, co_score = 12000000\<rparr>)"

definition sample_events :: "Event list" where
  "sample_events =
     [Take 0, Finish 0, Take 0, Finish 0, Lock, Drain, Enqueue, Up_take, Drain, Unlock, Take 0, Finish 0]"

definition sample_push :: Event where
  "sample_push = Push [\<lparr>cd_seed = 7, cd_x = 0, cd_z = 64\<rparr>, \<lparr>cd_seed = 7, cd_x = 4, cd_z = 64\<rparr>, \<lparr>cd_seed = 8, cd_x = - 4, cd_z = 0\<rparr>]"

lemmas sample_simps =
  sample_events_def sample_push_def sample_work_def host_start_def cpu_take_def cpu_finish_def main_drain_def main_enqueue_def
  uploader_take_def uploader_answer_def output_key_def upload_item_def Let_def

lemma host_work_is_bounded_witness:
  "\<exists>s t. host_run sample_work False True [sample_push] (host_start 1) = Some s \<and>
         host_run sample_work False True sample_events s = Some t \<and> work_left s = 60 \<and>
         length (filter productive sample_events) + work_left t \<le> work_left s"
proof -
  obtain s where s: "host_run sample_work False True [sample_push] (host_start 1) = Some s" by (simp add: sample_simps)
  then have "\<exists>t. host_run sample_work False True sample_events s = Some t" by (auto simp: sample_simps)
  then obtain t where t: "host_run sample_work False True sample_events s = Some t" by blast
  have "work_left s = 60" using s by (auto simp: sample_simps progress_simps)
  then show ?thesis using s t host_work_is_bounded [OF t] by (simp add: sample_events_def adds_work_def)
qed


text \<open>
  From every state that can be reached, with at least one CPU thread, the threads can finish: without
  new candidates and with the server answering, there is an order of steps after which all queues are
  empty, every find among the candidates that came was popped, the file holds each position once, and every
  line was uploaded once.
\<close>

theorem host_can_finish:
  assumes "host_run work l u es (host_start n) = Some s" "0 < n"
  shows "\<exists>es' t. list_all (\<lambda>e. \<not> adds_work e) es' \<and> host_run work l u es' s = Some t \<and> quiet t \<and>
           mset (ho_drained t) = outputs_of work (ho_pushed s) \<and> ho_written t = first_finds (ho_drained t) \<and>
           mset (ho_uploaded t) = upload_items l u t"
proof -
  have r: "(host_moves work l u)\<^sup>*\<^sup>* (host_start n) s" by (rule run_moves [OF assms(1)])
  then have "0 < length (cpus s)" using file_inv_reachable assms(2) by (metis file_inv_def)
  then obtain es' t where t: "host_run work l u es' s = Some t" "list_all (\<lambda>e. \<not> adds_work e) es'" "quiet t" "ho_pushed t = ho_pushed s"
    using can_become_quiet by blast
  have rt: "(host_moves work l u)\<^sup>*\<^sup>* (host_start n) t" using r run_moves [OF t(1)] by (rule rtranclp_trans)
  have "outputs_of (\<lambda>c. Option.bind c work) (cpus t) = {#}" using t(3) by (intro outputs_of_idle) (simp add: quiet_def)
  then have "pending_finds work t = {#}" "pending_uploads t = {#}"
    using t(3) by (simp_all add: quiet_def ledger_simps)
  then show ?thesis
    using t finds.all_gone [OF rt] uploads.all_gone [OF rt] file_inv_reachable [OF rt] unfolding file_inv_def by metis
qed

lemma host_can_finish_witness:
  "\<exists>es' t. host_run sample_work False True (sample_push # es') (host_start 4) = Some t \<and> quiet t"
proof -
  obtain s where s: "host_run sample_work False True [sample_push] (host_start 4) = Some s" by (simp add: sample_simps)
  obtain es' t where "host_run sample_work False True es' s = Some t" "quiet t" using host_can_finish [OF s] by auto
  then show ?thesis using s by (intro exI [of _ es'] exI [of _ t]) (auto split: option.splits)
qed

text \<open>
  C40: While the uploader waits before it repeats a failed request it keeps its mutex. If the main thread has a
  find to hand over at that time, it waits too, with the mutex of the finds: until the uploader wakes up
  nothing is written, and a CPU thread that has found something cannot deliver it.
\<close>

theorem retry_sleep_holds_up_main:
  assumes "up_state s = Up_retry_sleep" "main_state s = Main_enqueuing item" "host_step work l u e s = Some t" "e \<noteq> Up_wake"
  shows "up_state t = Up_retry_sleep \<and> main_state t = main_state s \<and> ho_written t = ho_written s \<and> cpu_queue t = cpu_queue s \<and>
         (case e of Finish i \<Rightarrow> work (the (cpus s ! i)) = None | Push cs \<Rightarrow> True | Take i \<Rightarrow> True | _ \<Rightarrow> False)"
  using assms(3,1,2,4) by (cases rule: host_step_cases) auto

lemma retry_sleep_holds_up_main_witness:
  "\<exists>s. host_run sample_work False True
         [Push [\<lparr>cd_seed = 7, cd_x = 0, cd_z = 0\<rparr>, \<lparr>cd_seed = 8, cd_x = 0, cd_z = 0\<rparr>, \<lparr>cd_seed = 9, cd_x = 0, cd_z = 0\<rparr>],
          Take 0, Finish 0, Lock, Drain, Enqueue, Unlock, Up_take, Take 0, Take 1, Finish 0, Lock, Drain, Up_failure]
         (host_start 2) = Some s \<and>
       host_step sample_work False True (Finish 1) s = None \<and> host_step sample_work False True Enqueue s = None"
proof -
  let ?es = "[Push [\<lparr>cd_seed = 7, cd_x = 0, cd_z = 0\<rparr>, \<lparr>cd_seed = 8, cd_x = 0, cd_z = 0\<rparr>, \<lparr>cd_seed = 9, cd_x = 0, cd_z = 0\<rparr>],
          Take 0, Finish 0, Lock, Drain, Enqueue, Unlock, Up_take, Take 0, Take 1, Finish 0, Lock, Drain, Up_failure]"
  obtain s where s: "host_run sample_work False True ?es (host_start 2) = Some s" by (simp add: sample_simps numeral_2_eq_2)
  have st: "up_state s = Up_retry_sleep" "\<exists>item. main_state s = Main_enqueuing item" "sample_work (the (cpus s ! 1)) \<noteq> None"
    using s by (auto simp: sample_simps numeral_2_eq_2)
  then obtain item where m: "main_state s = Main_enqueuing item" by blast
  have "host_step sample_work False True (Finish 1) s = None"
    using retry_sleep_holds_up_main [OF st(1) m, of sample_work False True "Finish 1"] st(3)
    by (cases "host_step sample_work False True (Finish 1) s") auto
  moreover have "host_step sample_work False True Enqueue s = None"
    using retry_sleep_holds_up_main [OF st(1) m, of sample_work False True Enqueue]
    by (cases "host_step sample_work False True Enqueue s") auto
  ultimately show ?thesis using s by blast
qed

section \<open>What is written\<close>

text \<open>The check of a candidate: it keeps the seed, and what it reports has the asked size.\<close>

locale candidate_check =
  fixes check :: "int \<Rightarrow> Candidate \<Rightarrow> CpuOutput option"
  assumes check_seed: "check min_size c = Some out \<Longrightarrow> co_seed out = cd_seed c"
    and check_size: "check min_size c = Some out \<Longrightarrow> min_size \<le> co_score out"
begin

lemma written_ok:
  assumes "host_run (check min_size) l u es (host_start n) = Some s"
  shows "list_all (\<lambda>out. min_size \<le> co_score out \<and> co_seed out \<in> cd_seed ` set (ho_pushed s)) (ho_written s)"
proof -
  have r: "(host_moves (check min_size) l u)\<^sup>*\<^sup>* (host_start n) s" by (rule run_moves [OF assms])
  have "out \<in> set (ho_written s) \<Longrightarrow> out \<in># outputs_of (check min_size) (ho_pushed s)" for out
    using file_inv_reachable [OF r] first_finds_props [of "ho_drained s"] finds.gone_came [OF r]
    unfolding file_inv_def by (metis mset_subset_eqD set_mset_mset subsetD)
  moreover have "out \<in># outputs_of (check min_size) cs \<Longrightarrow> \<exists>c\<in>set cs. check min_size c = Some out" for out cs
    by (induction cs) (auto split: option.splits)
  ultimately show ?thesis unfolding list_all_iff using check_seed check_size by (metis image_eqI)
qed

end

interpretation spawn: candidate_check "process l fast_cpu cubiomes nthreads" for l fast_cpu cubiomes nthreads
  by unfold_locales (auto simp: process_def fast_find_center_def Let_def split: if_splits option.splits)

interpretation origin: candidate_check "process_origin l fast_cpu cubiomes nthreads" for l fast_cpu cubiomes nthreads
  by unfold_locales (auto simp: process_origin_def Let_def split: if_splits)

text \<open>What a CPU thread calls for a candidate.\<close>

definition cpu_work :: "bool \<Rightarrow> bool \<Rightarrow> bool \<Rightarrow> Cubiomes \<Rightarrow> int \<Rightarrow> int \<Rightarrow> Candidate \<Rightarrow> CpuOutput option" where
  "cpu_work origin large_biomes fast_cpu cubiomes nthreads min_size input =
     (if origin then process_origin large_biomes fast_cpu cubiomes nthreads min_size input
      else process large_biomes fast_cpu cubiomes nthreads min_size input)"

text \<open>
  In both modes, and with any number of threads in any order, every line of the file reports at least
  the asked size, for a seed that was among the candidates.
\<close>

theorem written_finds_are_large:
  assumes "host_run (cpu_work origin l fast_cpu cubiomes nthreads min_size) l u es (host_start n) = Some s"
  shows "list_all (\<lambda>out. min_size \<le> co_score out \<and> co_seed out \<in> cd_seed ` set (ho_pushed s)) (ho_written s)"
proof (cases origin)
  case True
  then have w: "cpu_work origin l fast_cpu cubiomes nthreads min_size = process_origin l fast_cpu cubiomes nthreads min_size"
    unfolding cpu_work_def by simp
  show ?thesis by (rule origin.written_ok [OF assms [unfolded w]])
next
  case False
  then have w: "cpu_work origin l fast_cpu cubiomes nthreads min_size = process l fast_cpu cubiomes nthreads min_size"
    unfolding cpu_work_def by simp
  show ?thesis by (rule spawn.written_ok [OF assms [unfolded w]])
qed

definition sample_cubiomes :: Cubiomes where
  "sample_cubiomes = \<lparr>cb_world = (\<lambda>seed. \<lparr>wd_sha = 0, biome_2y = (\<lambda>x z. (14, 14))\<rparr>), monte_carlo = (\<lambda>_ _ _ _ _. True),
     biome_centers = (\<lambda>_ _ _ _ _ _ _. None), biome_at_block = (\<lambda>_ _ _ _. 14)\<rparr>"

lemma written_finds_are_large_witness:
  "\<exists>s. host_run (cpu_work True False True sample_cubiomes 4 9000000) False False
         [Push [\<lparr>cd_seed = 7, cd_x = 0, cd_z = 0\<rparr>], Take 0, Finish 0, Lock, Drain, Unlock] (host_start 1) = Some s \<and>
       ho_written s \<noteq> [] \<and> list_all (\<lambda>out. 9000000 \<le> co_score out) (ho_written s)"
proof -
  obtain s where s: "host_run (cpu_work True False True sample_cubiomes 4 9000000) False False
         [Push [\<lparr>cd_seed = 7, cd_x = 0, cd_z = 0\<rparr>], Take 0, Finish 0, Lock, Drain, Unlock] (host_start 1) = Some s"
    by (simp add: sample_simps cpu_work_def process_origin_def sample_cubiomes_def)
  then have "ho_written s \<noteq> []" by (auto simp: sample_simps cpu_work_def process_origin_def sample_cubiomes_def)
  then show ?thesis using s written_finds_are_large [OF s] by (auto simp: list_all_iff)
qed

end
