(* ===== verification/NetStream.thy ===== *)
theory NetStream
  imports CpuProcess
begin

text \<open>
  The connection between a host with GPUs and a host with CPUs (\<open>ClientThread::run\<close> in
  \<open>src/src/client.cpp\<close>, \<open>tcp_connection\<close> in \<open>src/src/server.cpp\<close>): a handshake of sixteen bytes, then the
  memory of the \<open>GpuOutput\<close> entries, which TCP may deliver in pieces of any size. The server collects the
  pieces in an array of 1024 bytes. The transport itself is not modelled: a connection delivers the bytes
  that were written, in order, in reads that fit the room that was offered. The theorems say that the
  array always has room, and that the server's queue receives the client's entries, in order, however the
  stream is cut.
\<close>

section \<open>Definitions: bytes of an entry\<close>

text \<open>Numbers in the byte order of the machines the program runs on, least significant byte first.\<close>

fun le_split :: "nat \<Rightarrow> nat \<Rightarrow> u8 list" where
  "le_split 0 v = []"
| "le_split (Suc n) v = of_nat v # le_split n (v div 256)"

fun le_join :: "u8 list \<Rightarrow> nat" where
  "le_join [] = 0"
| "le_join (b # bs) = unat b + 256 * le_join bs"

definition sizeof_GpuOutput :: nat where
  "sizeof_GpuOutput = 16"

definition output_bytes :: "Candidate \<Rightarrow> u8 list" where
  "output_bytes c =
     le_split 8 (unat (cd_seed c)) @ le_split 4 (unat (word_of_int (cd_x c) :: u32)) @ le_split 4 (unat (word_of_int (cd_z c) :: u32))"

definition bytes_output :: "u8 list \<Rightarrow> Candidate" where
  "bytes_output bs =
     \<lparr>cd_seed = of_nat (le_join (take 8 bs)),
      cd_x = sint (of_nat (le_join (take 4 (drop 8 bs))) :: u32),
      cd_z = sint (of_nat (le_join (take 4 (drop 12 bs))) :: u32)\<rparr>"

definition net_handshake :: "bool \<Rightarrow> u8 list" where
  "net_handshake large_biomes =
     map (\<lambda>c. of_nat (of_char c)) (''OMISSION-GPU '' @ [if large_biomes then CHR ''L'' else CHR ''S'', CHR ''B'', CHR 0x0A])"

section \<open>Definitions: the server's side\<close>

record Connection =
  pending_data :: "u8 list"
  pending_data_len :: nat

definition room :: "Connection \<Rightarrow> nat" where
  "room c = length (pending_data c) - pending_data_len c"

text \<open>The bytes of a read are stored after the pending ones.\<close>

definition receive :: "u8 list \<Rightarrow> Connection \<Rightarrow> Connection" where
  "receive bs c =
     (let n = pending_data_len c
      in c\<lparr>pending_data := take n (pending_data c) @ bs @ drop (n + length bs) (pending_data c), pending_data_len := n + length bs\<rparr>)"

definition memmove_front :: "u8 list \<Rightarrow> nat \<Rightarrow> nat \<Rightarrow> u8 list" where
  "memmove_front arr from len = take len (drop from arr) @ drop len arr"

text \<open>\<open>handle_read\<close> without an error: the entries pushed, and the connection before the next read.\<close>

definition handle_read :: "Connection \<Rightarrow> Candidate list \<times> Connection" where
  "handle_read c =
     (if sizeof_GpuOutput \<le> pending_data_len c
      then let count = pending_data_len c div sizeof_GpuOutput;
               outputs = map (\<lambda>i. bytes_output (take sizeof_GpuOutput (drop (i * sizeof_GpuOutput) (pending_data c)))) [0..<count];
               rest = pending_data_len c - count * sizeof_GpuOutput
           in (outputs, c\<lparr>pending_data := memmove_front (pending_data c) (count * sizeof_GpuOutput) rest, pending_data_len := rest\<rparr>)
      else ([], c))"

text \<open>
  The reads of a connection, until the error that ends it; \<open>None\<close> if a read is larger than the room that
  was offered, which the transport never does.
\<close>

fun serve_reads :: "u8 list list \<Rightarrow> Connection \<Rightarrow> (Candidate list \<times> Connection) option" where
  "serve_reads [] c = Some ([], c)"
| "serve_reads (bs # reads) c =
     (if length bs \<le> room c
      then case serve_reads reads (snd (handle_read (receive bs c))) of
             None \<Rightarrow> None
           | Some (outputs, c') \<Rightarrow> Some (fst (handle_read (receive bs c)) @ outputs, c')
      else None)"

text \<open>
  The handshake is read into an array whose contents \<open>junk\<close> are not initialised; \<open>handle_handshake\<close> looks at
  the array also when the connection ended before it was filled.
\<close>

definition handshake_buffer :: "u8 list \<Rightarrow> u8 list \<Rightarrow> u8 list" where
  "handshake_buffer junk stream = take 16 stream @ drop (length stream) junk"

definition serve_connection :: "bool \<Rightarrow> u8 list \<Rightarrow> u8 list \<Rightarrow> u8 list \<Rightarrow> u8 list list \<Rightarrow> Candidate list option" where
  "serve_connection large_biomes junk junk_pending first reads =
     (if handshake_buffer junk first = net_handshake large_biomes
      then map_option fst (serve_reads reads \<lparr>pending_data = junk_pending, pending_data_len = 0\<rparr>)
      else Some [])"

section \<open>Definitions: the client's side\<close>

text \<open>One round of the loop: the whole queue is taken and written; an empty one writes nothing.\<close>

definition client_round :: "Candidate list \<Rightarrow> u8 list \<times> Candidate list" where
  "client_round queue = (concat (map output_bytes queue), [])"

text \<open>All bytes a client writes when it finds \<open>queues\<close> in its rounds.\<close>

definition client_stream :: "bool \<Rightarrow> Candidate list list \<Rightarrow> u8 list" where
  "client_stream large_biomes queues = net_handshake large_biomes @ concat (map (\<lambda>q. fst (client_round q)) queues)"

section \<open>Bytes\<close>

lemma length_le_split [simp]: "length (le_split n v) = n"
  by (induction n arbitrary: v) auto

lemma le_join_split: "v < 256 ^ n \<Longrightarrow> le_join (le_split n v) = v"
proof (induction n arbitrary: v)
  case (Suc n)
  then have "v div 256 < 256 ^ n" by (simp add: less_mult_imp_div_less mult.commute)
  then show ?case using Suc.IH by (simp add: unat_of_nat)
qed simp

lemma length_output_bytes [simp]: "length (output_bytes c) = sizeof_GpuOutput"
  by (simp add: output_bytes_def sizeof_GpuOutput_def)

definition in_int32 :: "Candidate \<Rightarrow> bool" where
  "in_int32 c \<longleftrightarrow> - (2 ^ 31) \<le> cd_x c \<and> cd_x c < 2 ^ 31 \<and> - (2 ^ 31) \<le> cd_z c \<and> cd_z c < 2 ^ 31"

lemma bytes_output_bytes:
  assumes "in_int32 c"
  shows "bytes_output (output_bytes c) = c"
proof -
  have s: "sint (word_of_int k :: u32) = k" if "- (2 ^ 31) \<le> k" "k < 2 ^ 31" for k
    using that by (simp add: int_word_sint)
  show ?thesis using assms u64_bound [of "cd_seed c"] u32_bound [of "word_of_int (cd_x c)"] u32_bound [of "word_of_int (cd_z c)"]
    by (simp add: bytes_output_def output_bytes_def le_join_split s in_int32_def)
qed

section \<open>Streams of records\<close>

text \<open>Entries of one size, written one after the other.\<close>

locale record_codec =
  fixes enc :: "'a \<Rightarrow> u8 list"
    and dec :: "u8 list \<Rightarrow> 'a"
    and size :: nat
    and valid :: "'a \<Rightarrow> bool"
  assumes size_pos: "0 < size"
    and enc_size: "length (enc x) = size"
    and dec_enc: "valid x \<Longrightarrow> dec (enc x) = x"
begin

lemma nth_record:
  assumes "i < length xs"
  shows "take size (drop (i * size) (concat (map enc xs) @ rest)) = enc (xs ! i)"
  using assms
proof (induction xs arbitrary: i)
  case (Cons x xs)
  then show ?case by (cases i) (simp_all add: enc_size)
qed simp

lemma length_records: "length (concat (map enc xs)) = length xs * size"
  by (induction xs) (simp_all add: enc_size)

lemma decode_records:
  assumes "list_all valid xs"
  shows "map (\<lambda>i. dec (take size (drop (i * size) (concat (map enc xs) @ rest)))) [0..<length xs] = xs"
proof (rule nth_equalityI)
  fix i assume "i < length (map (\<lambda>i. dec (take size (drop (i * size) (concat (map enc xs) @ rest)))) [0..<length xs])"
  then have i: "i < length xs" by simp
  have "map (\<lambda>i. dec (take size (drop (i * size) (concat (map enc xs) @ rest)))) [0..<length xs] ! i =
      dec (take size (drop (i * size) (concat (map enc xs) @ rest)))"
    using i by (simp del: take_append drop_append)
  also have "\<dots> = xs ! i" unfolding nth_record [OF i] using i assms by (simp add: dec_enc list_all_length)
  finally show "map (\<lambda>i. dec (take size (drop (i * size) (concat (map enc xs) @ rest)))) [0..<length xs] ! i = xs ! i" .
qed simp

end

interpretation net: record_codec output_bytes bytes_output sizeof_GpuOutput in_int32
  by unfold_locales (simp_all add: sizeof_GpuOutput_def output_bytes_def bytes_output_bytes [unfolded output_bytes_def])

section \<open>The server's array\<close>

definition pending :: "Connection \<Rightarrow> u8 list" where
  "pending c = take (pending_data_len c) (pending_data c)"

definition records :: "u8 list \<Rightarrow> Candidate list" where
  "records bs = map (\<lambda>i. bytes_output (take sizeof_GpuOutput (drop (i * sizeof_GpuOutput) bs))) [0..<length bs div sizeof_GpuOutput]"

definition connection_ok :: "Connection \<Rightarrow> bool" where
  "connection_ok c \<longleftrightarrow> length (pending_data c) = 1024 \<and> pending_data_len c < sizeof_GpuOutput"

lemma room_ok: "connection_ok c \<Longrightarrow> 1009 \<le> room c"
  by (auto simp: connection_ok_def room_def sizeof_GpuOutput_def)

lemma memmove_front_take:
  assumes "n + m \<le> length d"
  shows "length (memmove_front d n m) = length d \<and> take m (memmove_front d n m) = drop n (take (n + m) d)"
  using assms by (simp add: memmove_front_def drop_take)

lemma receive_pending:
  assumes "length (pending_data c) = 1024" "length bs \<le> room c" "pending_data_len c \<le> 1024"
  shows "pending (receive bs c) = pending c @ bs \<and> length (pending_data (receive bs c)) = 1024 \<and>
         pending_data_len (receive bs c) = length (pending c @ bs) \<and> length (pending c @ bs) \<le> 1024"
  using assms by (auto simp: receive_def pending_def room_def Let_def)

lemma handle_read_pending:
  assumes "length (pending_data c) = 1024" "pending_data_len c \<le> 1024"
  shows "fst (handle_read c) = records (pending c) \<and> connection_ok (snd (handle_read c)) \<and>
         pending (snd (handle_read c)) = drop (length (pending c) div sizeof_GpuOutput * sizeof_GpuOutput) (pending c)"
proof (cases "sizeof_GpuOutput \<le> pending_data_len c")
  case True
  let ?k = "pending_data_len c div sizeof_GpuOutput"
  have len: "length (pending c) = pending_data_len c" using assms by (simp add: pending_def)
  have le: "(i + 1) * sizeof_GpuOutput \<le> pending_data_len c" if "i < ?k" for i
    using that by (metis Suc_eq_plus1 Suc_leI div_times_less_eq_dividend mult_le_mono1 order_trans)
  have "take sizeof_GpuOutput (drop (i * sizeof_GpuOutput) (pending_data c)) = take sizeof_GpuOutput (drop (i * sizeof_GpuOutput) (pending c))"
    if "i < ?k" for i
    using le [OF that] assms unfolding pending_def by (simp add: drop_take min_def)
  then have 1: "fst (handle_read c) = records (pending c)" using True len by (simp add: handle_read_def records_def Let_def)
  obtain n m where nm: "?k * sizeof_GpuOutput = n" "pending_data_len c mod sizeof_GpuOutput = m" "pending_data_len c = n + m" "m < sizeof_GpuOutput"
    by (metis div_mult_mod_eq mod_less_divisor sizeof_GpuOutput_def zero_less_numeral)
  have "snd (handle_read c) = c\<lparr>pending_data := memmove_front (pending_data c) n m, pending_data_len := m\<rparr>"
    using True nm by (simp add: handle_read_def Let_def)
  then show ?thesis using 1 assms len memmove_front_take [of n m "pending_data c"] nm
    by (simp add: connection_ok_def pending_def)
next
  case False
  then show ?thesis using assms by (simp add: handle_read_def records_def connection_ok_def pending_def)
qed

lemma records_append:
  "records (a @ b) = records a @ records (drop (length a div sizeof_GpuOutput * sizeof_GpuOutput) a @ b)"
proof -
  let ?z = sizeof_GpuOutput
  let ?k = "length a div ?z"
  have z: "0 < ?z" by (simp add: sizeof_GpuOutput_def)
  have kl: "?k * ?z \<le> length a" by simp
  have cnt: "(length a + length b) div ?z = ?k + (length a - ?k * ?z + length b) div ?z"
  proof -
    have "length a + length b = (length a - q + length b) + q" if "q \<le> length a" for q using that by simp
    then have "length a + length b = (length a - ?k * ?z + length b) + ?k * ?z" using kl by blast
    then show ?thesis using z by (metis add.commute div_mult_self1 less_not_refl2)
  qed
  have lo: "take ?z (drop (i * ?z) (a @ b)) = take ?z (drop (i * ?z) a)" if "i < ?k" for i
  proof -
    have "(i + 1) * ?z \<le> length a"
      using that by (metis Suc_eq_plus1 Suc_leI div_times_less_eq_dividend mult_le_mono1 order_trans)
    then show ?thesis by simp
  qed
  have hi: "drop ((?k + j) * ?z) (a @ b) = drop (j * ?z) (drop (?k * ?z) a @ b)" for j
    using kl by (simp add: add_mult_distrib drop_drop [symmetric] add.commute del: drop_drop)
  have sp: "map f [0..<k + l] = map f [0..<k] @ map (\<lambda>j. f (k + j)) [0..<l]" for f :: "nat \<Rightarrow> Candidate" and k l
    by (intro nth_equalityI) (auto simp: nth_append)
  have "map (\<lambda>i. bytes_output (take ?z (drop (i * ?z) (a @ b)))) [0..<?k] = map (\<lambda>i. bytes_output (take ?z (drop (i * ?z) a))) [0..<?k]"
    by (intro map_cong refl) (simp only: set_upt atLeastLessThan_iff lo)
  then show ?thesis unfolding records_def length_append length_drop cnt sp hi by (rule arg_cong)
qed

lemma serve_reads_records:
  assumes "serve_reads reads c = Some (outs, c')" "connection_ok c"
  shows "outs = records (pending c @ concat reads) \<and> connection_ok c'"
  using assms
proof (induction reads arbitrary: c outs)
  case Nil
  then show ?case by (simp add: records_def connection_ok_def pending_def sizeof_GpuOutput_def)
next
  case (Cons bs reads)
  let ?r = "receive bs c"
  obtain outs' where o: "length bs \<le> room c" "serve_reads reads (snd (handle_read ?r)) = Some (outs', c')"
      "outs = fst (handle_read ?r) @ outs'"
    using Cons.prems(1) by (auto split: if_splits option.splits)
  have r: "pending ?r = pending c @ bs" "length (pending_data ?r) = 1024" "pending_data_len ?r \<le> 1024"
    using receive_pending [of c bs] Cons.prems(2) o(1) by (simp_all add: connection_ok_def sizeof_GpuOutput_def)
  show ?case using Cons.IH [OF o(2)] handle_read_pending [OF r(2,3)] o(3) records_append [of "pending c @ bs" "concat reads"]
    by (simp add: r(1))
qed

lemma serve_reads_total:
  assumes "connection_ok c" "list_all (\<lambda>bs. length bs \<le> 1009) reads"
  shows "\<exists>outs c'. serve_reads reads c = Some (outs, c')"
  using assms
proof (induction reads arbitrary: c)
  case (Cons bs reads)
  let ?r = "receive bs c"
  have b: "length bs \<le> room c" using Cons.prems room_ok [of c] by simp
  have r: "length (pending_data ?r) = 1024" "pending_data_len ?r \<le> 1024"
    using receive_pending [of c bs] Cons.prems(1) b by (simp_all add: connection_ok_def sizeof_GpuOutput_def)
  then show ?case using Cons b handle_read_pending [OF r] by (fastforce split: option.splits)
qed simp

lemma records_of_outputs:
  assumes "list_all in_int32 xs"
  shows "records (take k (concat (map output_bytes xs))) = take (k div sizeof_GpuOutput) xs"
proof -
  let ?z = sizeof_GpuOutput
  let ?s = "concat (map output_bytes xs)"
  show ?thesis
  proof (cases "k div ?z \<le> length xs")
    case True
    let ?n = "k div ?z"
    have "?s = concat (map output_bytes (take ?n xs)) @ concat (map output_bytes (drop ?n xs))"
      by (metis append_take_drop_id concat_append map_append)
    moreover have l: "length (concat (map output_bytes (take ?n xs))) = ?n * ?z"
      using True by (simp only: net.length_records length_take min.absorb2)
    moreover have "take k (A @ B) = A @ take (k - ?n * ?z) B" if "length A = ?n * ?z" for A B :: "u8 list"
    proof -
      have "length A \<le> k" unfolding that by (rule div_times_less_eq_dividend)
      then show ?thesis using that by simp
    qed
    ultimately obtain part where t: "take k ?s = concat (map output_bytes (take ?n xs)) @ part" by metis
    have "length (take k ?s) div ?z = ?n"
    proof (cases "k \<le> length ?s")
      case False
      then have "length ?s \<le> k" by simp
      then have "length xs * ?z \<le> k" by (simp only: net.length_records)
      then have "length xs \<le> ?n" by (simp add: sizeof_GpuOutput_def)
      then show ?thesis using True False by (simp add: net.length_records [unfolded sizeof_GpuOutput_def] sizeof_GpuOutput_def)
    qed simp
    moreover have "length (take ?n xs) = ?n" using True by simp
    moreover have "list_all in_int32 (take ?n xs)" using assms by (metis append_take_drop_id list_all_append)
    ultimately show ?thesis using net.decode_records [of "take ?n xs" part] unfolding records_def t by metis
  next
    case False
    then have "length xs * ?z \<le> k" by (simp add: sizeof_GpuOutput_def)
    then have "take k ?s = ?s" by (simp add: net.length_records)
    then show ?thesis using False net.decode_records [OF assms, of "[]"] net.length_records [of xs]
      by (simp add: records_def sizeof_GpuOutput_def)
  qed
qed

text \<open>What a connection queues of a client's stream after the handshake.\<close>

lemma net_handshake_16: "length (net_handshake l) = 16"
  by (simp add: net_handshake_def)

lemma client_stream_split: "client_stream l queues = net_handshake l @ concat (map output_bytes (concat queues))"
  by (induction queues) (simp_all add: client_stream_def client_round_def)

lemma served_entries:
  assumes "list_all (list_all in_int32) queues" "length junk_pending = 1024"
    and "serve_reads reads \<lparr>pending_data = junk_pending, pending_data_len = 0\<rparr> = Some (outs, c)"
    and "concat reads = drop 16 (take n (client_stream l queues))"
  shows "outs = take ((n - 16) div 16) (concat queues)"
proof -
  let ?c = "\<lparr>pending_data = junk_pending, pending_data_len = 0\<rparr>"
  have r: "concat reads = take (n - 16) (concat (map output_bytes (concat queues)))"
    using assms(4) net_handshake_16 [of l] by (cases "16 \<le> n") (simp_all add: client_stream_split)
  have v: "list_all in_int32 (concat queues)" using assms(1) by (auto simp: list_all_iff)
  have ok: "connection_ok ?c" "pending ?c = []" using assms(2) by (simp_all add: connection_ok_def sizeof_GpuOutput_def pending_def)
  show ?thesis using serve_reads_records [OF assms(3) ok(1)] ok(2) records_of_outputs [OF v, of "n - 16"] r by (simp add: sizeof_GpuOutput_def)
qed

lemma handshake_of_stream:
  assumes "length junk = 16" "16 \<le> n"
  shows "handshake_buffer junk (take 16 (take n (client_stream l queues))) = net_handshake l"
  using assms net_handshake_16 [of l] by (simp add: handshake_buffer_def client_stream_split min_def)

section \<open>Properties\<close>

text \<open>
  The server's queue receives exactly the complete entries of the bytes that arrived, however they were
  cut into reads; the array never fills up, so that every read is offered at least 1009 bytes.
\<close>

theorem server_ignores_cuts:
  assumes "length junk = 1024"
  shows "(list_all (\<lambda>bs. length bs \<le> 1009) reads \<longrightarrow> serve_reads reads \<lparr>pending_data = junk, pending_data_len = 0\<rparr> \<noteq> None) \<and>
         (case serve_reads reads \<lparr>pending_data = junk, pending_data_len = 0\<rparr> of
            None \<Rightarrow> True
          | Some (outs, c) \<Rightarrow> outs = records (concat reads) \<and> 1009 \<le> room c)"
proof -
  let ?c = "\<lparr>pending_data = junk, pending_data_len = 0\<rparr>"
  have ok: "connection_ok ?c" "pending ?c = []" using assms by (simp_all add: connection_ok_def sizeof_GpuOutput_def pending_def)
  have "serve_reads reads ?c = Some (outs, c) \<Longrightarrow> outs = records (concat reads) \<and> 1009 \<le> room c" for outs c
    using serve_reads_records [of reads ?c] ok room_ok by simp
  then show ?thesis using serve_reads_total [OF ok(1)] by (fastforce split: option.splits)
qed

lemma server_ignores_cuts_witness:
  "serve_reads [[1, 2, 3], replicate 40 7] \<lparr>pending_data = replicate 1024 0, pending_data_len = 0\<rparr> \<noteq> None"
  using server_ignores_cuts [of "replicate 1024 0" "[[1, 2, 3], replicate 40 7]"] by simp

text \<open>
  C8: When the first \<open>n\<close> bytes a client wrote have arrived, in reads of any sizes, the server of a program built
  for the same biome size has queued the client's entries as far as they are complete, in order.
\<close>

theorem client_entries_arrive:
  assumes "list_all (list_all in_int32) queues" "length junk = 16" "length junk_pending = 1024"
    and "first = take 16 (take n (client_stream l queues))" "concat reads = drop 16 (take n (client_stream l queues))"
    and "list_all (\<lambda>bs. length bs \<le> 1009) reads"
  shows "serve_connection l junk junk_pending first reads = Some (take ((n - 16) div 16) (concat queues))"
proof -
  have ok: "connection_ok \<lparr>pending_data = junk_pending, pending_data_len = 0\<rparr>" using assms(3) by (simp add: connection_ok_def sizeof_GpuOutput_def)
  obtain outs c where s: "serve_reads reads \<lparr>pending_data = junk_pending, pending_data_len = 0\<rparr> = Some (outs, c)"
    using serve_reads_total [OF ok assms(6)] by blast
  show ?thesis using s served_entries [OF assms(1,3) s assms(5)] handshake_of_stream [OF assms(2), of n l queues]
    unfolding assms(4) by (cases "16 \<le> n") (auto simp: serve_connection_def)
qed

lemma client_entries_arrive_witness:
  "serve_connection True (replicate 16 0) (replicate 1024 0) (net_handshake True)
     [take 5 (output_bytes \<lparr>cd_seed = 42, cd_x = - 1200, cd_z = 64\<rparr>), drop 5 (output_bytes \<lparr>cd_seed = 42, cd_x = - 1200, cd_z = 64\<rparr>)] =
   Some [\<lparr>cd_seed = 42, cd_x = - 1200, cd_z = 64\<rparr>]"
  by (subst client_entries_arrive [where queues = "[[\<lparr>cd_seed = 42, cd_x = - 1200, cd_z = 64\<rparr>]]" and n = 32 and l = True])
    (simp_all add: in_int32_def client_stream_def client_round_def net_handshake_def sizeof_GpuOutput_def)

text \<open>A client built for the other biome size is refused.\<close>

theorem other_biome_size_refused:
  "serve_connection (\<not> l) junk junk_pending (take 16 (client_stream l queues)) reads = Some []"
  by (simp add: serve_connection_def handshake_buffer_def client_stream_def net_handshake_def)

end
