(* ===== verification/UploadRequest.thy ===== *)
theory UploadRequest
  imports HostSystem Decimal "HOL-Library.Monad_Syntax"
begin

text \<open>
  The request of the uploader (\<open>http_post\<close> and the path in \<open>UploaderThread::run\<close>,
  \<open>src/src/uploader.cpp\<close>). The outcomes of the socket calls are parameters. The theorems say that a server can
  read every item back from its path, which never fills the buffer, and which answers count as success.
\<close>

section \<open>Definitions\<close>

text \<open>\<open>snprintf\<close> into a buffer of \<open>n\<close> bytes: what does not fit is cut off.\<close>

definition snprintf_text :: "nat \<Rightarrow> string \<Rightarrow> string" where
  "snprintf_text n text = take (n - 1) text"

definition path_text :: "UploadItem \<Rightarrow> string" where
  "path_text item =
     ''/api/seeds/single?seed='' @ show_int (uint (ui_seed item)) @ ''&x='' @ show_int (ui_x item) @ ''&z='' @ show_int (ui_z item) @
     ''&size='' @ show_int (ui_size item) @ ''&mode='' @ ui_mode item"

definition upload_path :: "UploadItem \<Rightarrow> string" where
  "upload_path item = snprintf_text 512 (path_text item)"

definition crlf :: string where
  "crlf = [CHR 0x0D, CHR 0x0A]"

definition http_request :: "string \<Rightarrow> string \<Rightarrow> string \<Rightarrow> string" where
  "http_request host port path =
     ''POST '' @ path @ '' HTTP/1.1'' @ crlf @ ''Host: '' @ host @ '':'' @ port @ crlf @
     ''Connection: close'' @ crlf @ ''Content-Length: 0'' @ crlf @ crlf"

text \<open>
  The outcomes of the calls: whether the name was resolved, a socket created and connected; the results of
  the single \<open>send\<close> and the single \<open>recv\<close> (at most 511 bytes; negative is an error, 0 the end).
\<close>

record Calls =
  wsa_ok :: bool
  resolved :: bool
  socket_ok :: bool
  connected :: bool
  sent :: int
  recv_result :: "string option"

datatype PostError = WsaFailed | ResolveFailed | SocketFailed | ConnectFailed | SendFailed | NoResponse | BadResponse string

definition ok_response :: "string \<Rightarrow> bool" where
  "ok_response buf \<longleftrightarrow> take 12 buf = ''HTTP/1.1 200'' \<or> take 12 buf = ''HTTP/1.0 200''"

definition http_post :: "Calls \<Rightarrow> PostError + unit" where
  "http_post calls =
     (if \<not> wsa_ok calls then Inl WsaFailed
      else if \<not> resolved calls then Inl ResolveFailed
      else if \<not> socket_ok calls then Inl SocketFailed
      else if \<not> connected calls then Inl ConnectFailed
      else if sent calls < 0 then Inl SendFailed
      else case recv_result calls of
             None \<Rightarrow> Inl NoResponse
           | Some buf \<Rightarrow> if buf = [] then Inl NoResponse else if \<not> ok_response buf then Inl (BadResponse (take 80 buf)) else Inr ())"

section \<open>Reading a path\<close>

definition strip :: "string \<Rightarrow> string \<Rightarrow> string option" where
  "strip p s = (if take (length p) s = p then Some (drop (length p) s) else None)"

definition read_number :: "int \<Rightarrow> int \<Rightarrow> string \<Rightarrow> (int \<times> string) option" where
  "read_number lo hi s = (case from_chars lo hi s of Parsed v rest \<Rightarrow> Some (v, rest) | _ \<Rightarrow> None)"

definition read_path :: "string \<Rightarrow> UploadItem option" where
  "read_path s = do {
     s \<leftarrow> strip ''/api/seeds/single?seed='' s;
     (seed, s) \<leftarrow> read_number 0 (2 ^ 64 - 1) s;
     s \<leftarrow> strip ''&x='' s;
     (x, s) \<leftarrow> read_number (- (2 ^ 31)) (2 ^ 31 - 1) s;
     s \<leftarrow> strip ''&z='' s;
     (z, s) \<leftarrow> read_number (- (2 ^ 31)) (2 ^ 31 - 1) s;
     s \<leftarrow> strip ''&size='' s;
     (size, s) \<leftarrow> read_number (- (2 ^ 31)) (2 ^ 31 - 1) s;
     mode \<leftarrow> strip ''&mode='' s;
     Some \<lparr>ui_seed = word_of_int seed, ui_x = x, ui_z = z, ui_size = size, ui_mode = mode\<rparr>
   }"

lemma strip_append: "strip p (p @ s) = Some s"
  by (simp add: strip_def)

lemma ampersand_no_digit: "\<not> is_digit (CHR ''&'')"
  by (simp add: is_digit_def of_char_def)

lemma read_number_show:
  "lo \<le> v \<Longrightarrow> v \<le> hi \<Longrightarrow> read_number lo hi (show_int v @ CHR ''&'' # s) = Some (v, CHR ''&'' # s)"
  by (simp add: read_number_def from_chars_show_int ampersand_no_digit)

definition item_ok :: "UploadItem \<Rightarrow> bool" where
  "item_ok item \<longleftrightarrow>
     list_all (\<lambda>v. - (2 ^ 31) \<le> v \<and> v \<le> 2 ^ 31 - 1) [ui_x item, ui_z item, ui_size item] \<and> ui_mode item \<in> {''lb'', ''sb''}"

lemma length_show_nat: "n < 10 ^ k \<Longrightarrow> 0 < k \<Longrightarrow> length (show_nat n) \<le> k"
proof (induction k arbitrary: n)
  case (Suc k)
  show ?case
  proof (cases "n < 10")
    case False
    then have "0 < k" using Suc.prems(1) by (cases k) auto
    moreover have "n div 10 < 10 ^ k" using Suc.prems(1) by (simp add: less_mult_imp_div_less mult.commute)
    ultimately show ?thesis using False Suc.IH [of "n div 10"] by (simp add: show_nat.simps [of n])
  qed (simp add: show_nat.simps [of n])
qed simp

lemma length_show_int32: "- (2 ^ 31) \<le> v \<Longrightarrow> v \<le> 2 ^ 31 - 1 \<Longrightarrow> length (show_int v) \<le> 11"
proof -
  assume v: "- (2 ^ 31) \<le> v" "v \<le> 2 ^ 31 - 1"
  then have "nat v < 10 ^ 10" "nat (- v) < 10 ^ 10" by simp_all
  then have "length (show_nat (nat v)) \<le> 10" "length (show_nat (nat (- v))) \<le> 10" using length_show_nat by simp_all
  then show ?thesis by (simp add: show_int_def)
qed

lemma length_show_u64: "length (show_int (uint (w :: u64))) \<le> 20"
proof -
  have "unat w < 10 ^ 20" using u64_bound [of w] by simp
  then have "length (show_nat (unat w)) \<le> 20" by (rule length_show_nat) simp
  moreover have "nat (uint w) = unat w" by simp
  ultimately show ?thesis by (simp add: show_int_def del: nat_uint_eq)
qed

text \<open>
  Every item is sent as a path that never fills its buffer and from which the server can read the item
  back.
\<close>

theorem upload_path_roundtrip:
  assumes "item_ok item"
  shows "read_path (upload_path item) = Some item \<and> length (upload_path item) < 100"
proof -
  have v: "- (2 ^ 31) \<le> ui_x item" "ui_x item \<le> 2 ^ 31 - 1" "- (2 ^ 31) \<le> ui_z item" "ui_z item \<le> 2 ^ 31 - 1"
      "- (2 ^ 31) \<le> ui_size item" "ui_size item \<le> 2 ^ 31 - 1" "ui_mode item \<in> {''lb'', ''sb''}"
    using assms by (simp_all add: item_ok_def)
  have len: "length (path_text item) < 100"
    using v(7) length_show_u64 [of "ui_seed item"] length_show_int32 [OF v(1,2)] length_show_int32 [OF v(3,4)] length_show_int32 [OF v(5,6)]
    unfolding path_text_def by auto
  then have p: "upload_path item = path_text item" by (simp add: upload_path_def snprintf_text_def)
  have s: "(0 :: int) \<le> uint (ui_seed item)" "uint (ui_seed item) \<le> 2 ^ 64 - 1"
    using uint_lt2p [of "ui_seed item"] by simp_all
  have "read_path (path_text item) = Some item"
    unfolding read_path_def path_text_def strip_append Option.bind.bind_lunit
    using read_number_show [OF s] read_number_show [OF v(1,2)] read_number_show [OF v(3,4)] read_number_show [OF v(5,6)]
    by (simp add: strip_def)
  then show ?thesis using p len by simp
qed

lemma upload_path_roundtrip_witness:
  "read_path (upload_path \<lparr>ui_seed = - 1, ui_x = - 2147483648, ui_z = 31, ui_size = 10000000, ui_mode = ''sb''\<rparr>) =
   Some \<lparr>ui_seed = - 1, ui_x = - 2147483648, ui_z = 31, ui_size = 10000000, ui_mode = ''sb''\<rparr>"
  using upload_path_roundtrip [of "\<lparr>ui_seed = - 1, ui_x = - 2147483648, ui_z = 31, ui_size = 10000000, ui_mode = ''sb''\<rparr>"]
  by (simp add: item_ok_def)

text \<open>
  The answer is judged by what the single \<open>recv\<close> returned: when the network delivers fewer than twelve
  bytes of it at first, any answer counts as a failure, also one that continues as a success; the rest of
  the answer after the status code does not matter.
\<close>

theorem short_read_is_failure:
  "(\<exists>e. http_post (calls\<lparr>recv_result := Some (take 11 answer)\<rparr>) = Inl e) \<and>
   (http_post \<lparr>wsa_ok = True, resolved = True, socket_ok = True, connected = True, sent = 0,
      recv_result = Some (''HTTP/1.1 200'' @ rest)\<rparr> = Inr ())"
proof -
  have "length (take 12 (take 11 answer)) \<noteq> 12" by simp
  moreover have "length ''HTTP/1.1 200'' = 12" "length ''HTTP/1.0 200'' = 12" by simp_all
  ultimately have "\<not> ok_response (take 11 answer)" unfolding ok_response_def
    by metis
  then show ?thesis by (simp add: http_post_def ok_response_def)
qed

end
