(* ===== verification/SizeCheck.thy ===== *)
theory SizeCheck
  imports CpuProcess Decimal
begin

text \<open>
  The stand-alone size checker (\<open>src/src/sizecheck.cpp\<close>): its command line, with named and positional
  arguments, and the measurement it prints. The theorems say that the positional and the named form of a
  query mean the same, what happens when they are mixed, and what the printed area is.
\<close>

section \<open>Definitions\<close>

text \<open>\<open>strtoll\<close>, and \<open>strtol\<close> or \<open>atoi\<close> stored in 32 bits; \<open>long\<close> has 64 bits.\<close>

definition strtoll :: "string \<Rightarrow> int" where
  "strtoll = strtol (- (2 ^ 63)) (2 ^ 63 - 1)"

definition strtol32 :: "string \<Rightarrow> int" where
  "strtol32 s = sint (word_of_int (strtoll s) :: u32)"

record ScArgs =
  sc_seed :: int
  sc_x :: int
  sc_z :: int
  sc_size :: int
  sc_has_mode :: bool
  sc_large :: bool
  sc_positionals :: "string list"

definition sc_start :: ScArgs where
  "sc_start = \<lparr>sc_seed = 0, sc_x = 0, sc_z = 0, sc_size = 0, sc_has_mode = False, sc_large = False, sc_positionals = []\<rparr>"

fun sc_loop :: "string list \<Rightarrow> ScArgs \<Rightarrow> ScArgs" where
  "sc_loop [] a = a"
| "sc_loop [arg] a =
     (if arg = ''--sb'' then a\<lparr>sc_large := False, sc_has_mode := True\<rparr>
      else if arg = ''--lb'' then a\<lparr>sc_large := True, sc_has_mode := True\<rparr>
      else if length (sc_positionals a) < 3 then a\<lparr>sc_positionals := sc_positionals a @ [arg]\<rparr> else a)"
| "sc_loop (arg # val # rest) a =
     (if arg = ''--sb'' then sc_loop (val # rest) (a\<lparr>sc_large := False, sc_has_mode := True\<rparr>)
      else if arg = ''--lb'' then sc_loop (val # rest) (a\<lparr>sc_large := True, sc_has_mode := True\<rparr>)
      else if arg = ''--worldseed'' \<or> arg = ''--seed'' then sc_loop rest (a\<lparr>sc_seed := strtoll val\<rparr>)
      else if arg = ''--x'' then sc_loop rest (a\<lparr>sc_x := strtol32 val\<rparr>)
      else if arg = ''--z'' then sc_loop rest (a\<lparr>sc_z := strtol32 val\<rparr>)
      else if arg = ''--size'' then sc_loop rest (a\<lparr>sc_size := strtol32 val\<rparr>)
      else sc_loop (val # rest) (if length (sc_positionals a) < 3 then a\<lparr>sc_positionals := sc_positionals a @ [arg]\<rparr> else a))"

text \<open>The positional arguments fill what was not set; \<open>None\<close> is the usage message.\<close>

definition sc_fill :: "ScArgs \<Rightarrow> ScArgs" where
  "sc_fill a =
     (let ps = sc_positionals a;
          a = (if length ps \<ge> 1 \<and> sc_seed a = 0 \<and> sc_x a = 0 \<and> sc_z a = 0 then a\<lparr>sc_seed := strtoll (ps ! 0)\<rparr> else a);
          a = (if length ps \<ge> 2 \<and> sc_x a = 0 then a\<lparr>sc_x := strtol32 (ps ! 1)\<rparr> else a);
          a = (if length ps \<ge> 3 \<and> sc_z a = 0 then a\<lparr>sc_z := strtol32 (ps ! 2)\<rparr> else a)
      in if sc_size a = 0 then a\<lparr>sc_size := (if sc_large a then 10000000 else 1000000)\<rparr> else a)"

definition sc_parse :: "string list \<Rightarrow> ScArgs option" where
  "sc_parse argv = (let a = sc_loop argv sc_start in if sc_has_mode a then Some (sc_fill a) else None)"

text \<open>What the program prints about a query, besides the time.\<close>

datatype Report = Usage | No_island int int int int | Island int int int

definition sizecheck :: "(bool \<Rightarrow> Cubiomes) \<Rightarrow> int \<Rightarrow> string list \<Rightarrow> Report" where
  "sizecheck create nthreads argv =
     (case sc_parse argv of
        None \<Rightarrow> Usage
      | Some a \<Rightarrow>
          let cubiomes = create (sc_large a); seed = word_of_int (sc_seed a) :: u64
          in case biome_centers cubiomes seed (sc_x a) (sc_z a) (search_range (sc_large a)) (sc_size a) 4 2 of
               None \<Rightarrow> No_island (sc_size a) (sc_x a) (sc_z a) (sc_seed a)
             | Some res \<Rightarrow>
                 let m = measure_retry (sc_large a) (cb_world cubiomes seed) nthreads res
                 in Island (ms_area m) (ms_x m) (ms_z m))"

section \<open>Command lines\<close>

lemma strtoll_show: "- (2 ^ 63) \<le> v \<Longrightarrow> v < 2 ^ 63 \<Longrightarrow> strtoll (show_int v) = v"
  by (simp add: strtoll_def strtol_show_int)

lemma strtol32_show: "- (2 ^ 31) \<le> v \<Longrightarrow> v < 2 ^ 31 \<Longrightarrow> strtol32 (show_int v) = v"
  by (simp add: strtol32_def strtoll_show int_word_sint)

lemma show_int_no_option: "\<not> take 2 (show_int v) = ''--''"
proof -
  have d: "is_digit (hd (show_nat n)) \<and> show_nat n \<noteq> []" for n using show_nat_digits [of n] by (metis hd_in_set list_all_iff)
  have h: "show_nat n \<noteq> CHR ''-'' # t" for n t using d [of n] minus_no_digit by (metis list.sel(1))
  show ?thesis
    by (cases "show_nat (nat (- v))"; cases "show_nat (nat v)") (use h d in \<open>auto simp: show_int_def\<close>)
qed

lemma show_int_no_word: "w \<in> {''--sb'', ''--lb'', ''--worldseed'', ''--seed'', ''--x'', ''--z'', ''--size''} \<Longrightarrow> show_int v \<noteq> w"
  using show_int_no_option [of v] by auto

text \<open>
  A query given by position means the same as the one given by names, for all seeds of 64 bits and
  positions of 32 bits.
\<close>

theorem positional_is_named:
  assumes "- (2 ^ 63) \<le> seed" "seed < 2 ^ 63" "- (2 ^ 31) \<le> x" "x < 2 ^ 31" "- (2 ^ 31) \<le> z" "z < 2 ^ 31"
  shows "map_option (\<lambda>a. a\<lparr>sc_positionals := []\<rparr>) (sc_parse [if large then ''--lb'' else ''--sb'', show_int seed, show_int x, show_int z]) =
         Some \<lparr>sc_seed = seed, sc_x = x, sc_z = z, sc_size = (if large then 10000000 else 1000000), sc_has_mode = True,
               sc_large = large, sc_positionals = []\<rparr> \<and>
         sc_parse [if large then ''--lb'' else ''--sb'', ''--worldseed'', show_int seed, ''--x'', show_int x, ''--z'', show_int z] =
         Some \<lparr>sc_seed = seed, sc_x = x, sc_z = z, sc_size = (if large then 10000000 else 1000000), sc_has_mode = True,
               sc_large = large, sc_positionals = []\<rparr>"
  using assms
  by (cases large) (simp_all add: sc_parse_def sc_fill_def sc_start_def Let_def show_int_no_word strtoll_show strtol32_show)

lemma positional_is_named_witness:
  "map_option (\<lambda>a. a\<lparr>sc_positionals := []\<rparr>) (sc_parse [''--sb'', show_int (- 123456789), show_int 0, show_int (- 64)]) =
   sc_parse [''--sb'', ''--worldseed'', show_int (- 123456789), ''--x'', show_int 0, ''--z'', show_int (- 64)]"
  using positional_is_named [of "- 123456789" 0 "- 64" False] by simp

text \<open>
  When the seed is given by name, the first positional argument is not taken for the first value that is
  missing: it is ignored, and a position given as two numbers after the seed ends up as its second number
  and 0.
\<close>

theorem named_seed_shifts_position:
  assumes "- (2 ^ 63) \<le> seed" "seed < 2 ^ 63" "seed \<noteq> 0" "- (2 ^ 31) \<le> x" "x < 2 ^ 31" "- (2 ^ 31) \<le> z" "z < 2 ^ 31"
  shows "map_option (\<lambda>a. (sc_seed a, sc_x a, sc_z a)) (sc_parse [''--sb'', ''--worldseed'', show_int seed, show_int x, show_int z]) =
         Some (seed, z, 0)"
  using assms by (simp add: sc_parse_def sc_fill_def sc_start_def Let_def show_int_no_word strtoll_show strtol32_show)

lemma named_seed_shifts_position_witness:
  "map_option (\<lambda>a. (sc_seed a, sc_x a, sc_z a)) (sc_parse [''--sb'', ''--worldseed'', show_int 5, show_int 100, show_int (- 200)]) =
   Some (5, - 200, 0)"
  using named_seed_shifts_position [of 5 100 "- 200"] by simp

section \<open>The printed area\<close>

text \<open>
  The printed area is the size of the largest mushroom region in some square, of at least 1024 and at most
  twice the largest radius to a side, around the centre that was found; without a mode the program prints
  its usage.
\<close>

theorem sizecheck_prints_largest_island:
  "case sizecheck create nthreads argv of
     Usage \<Rightarrow> sc_parse argv = None
   | No_island n x z seed \<Rightarrow> biome_centers (create (sc_large (the (sc_parse argv)))) (word_of_int seed) x z
         (search_range (sc_large (the (sc_parse argv)))) n 4 2 = None
   | Island area x z \<Rightarrow>
       (\<exists>a res r. sc_parse argv = Some a \<and> 512 \<le> r \<and> r \<le> max_radius (sc_large a) \<and>
          biome_centers (create (sc_large a)) (word_of_int (sc_seed a)) (sc_x a) (sc_z a) (search_range (sc_large a)) (sc_size a) 4 2 = Some res \<and>
          area = int (Max (insert 0 (card ` components
            (mushroom_blocks (cb_world (create (sc_large a)) (word_of_int (sc_seed a))) (pa_x res) (pa_z res) r)))))"
proof (cases "sc_parse argv")
  case (Some a)
  let ?cub = "create (sc_large a)" and ?seed = "word_of_int (sc_seed a) :: u64"
  show ?thesis
  proof (cases "biome_centers ?cub ?seed (sc_x a) (sc_z a) (search_range (sc_large a)) (sc_size a) 4 2")
    case None
    then show ?thesis using Some by (simp add: sizecheck_def Let_def)
  next
    case found: (Some res)
    let ?world = "cb_world ?cub ?seed"
    obtain r where r: "512 \<le> r" "r \<le> max_radius (sc_large a)"
        "measure_retry (sc_large a) ?world nthreads res =
         measure_1to1 ?world nthreads (pa_x res) (pa_z res) r False (pa_x res, pa_z res)"
      using measure_retry_is_measure by blast
    have "ms_area (measure_retry (sc_large a) ?world nthreads res) =
        int (Max (insert 0 (card ` components (mushroom_blocks ?world (pa_x res) (pa_z res) r))))"
      unfolding r(3) using measure_1to1_largest [of r ?world nthreads "pa_x res" "pa_z res" "(pa_x res, pa_z res)"] r(1) by simp
    then show ?thesis using Some found r(1,2) by (auto simp: sizecheck_def Let_def)
  qed
qed (simp add: sizecheck_def)

end
