(* ===== verification/Centers.thy ===== *)
theory Centers
  imports CpuProcess Noise
begin

text \<open>
  The search for biome centres (\<open>floodFillGen\<close>, \<open>getBiomeCentersOpt\<close> and
  \<open>cubiomes_test_biome_centers\<close> in \<open>src/src/cubiomes.c\<close>) for the versions from 1.18 on, which are the only ones
  the program creates: a flood fill that evaluates cells as it reaches them, tolerates a few cells that do
  not match, and remembers the cells it has seen in the array \<open>ids\<close>; and the scan over every \<open>step\<close>-th cell
  that has not been ruled out. The array of waiting entries has one element for every cell of the
  grid; an access outside an array makes the model return \<open>None\<close>. The theorems say that this never
  happens, that no large region is overlooked, and what a reported centre is worth.
\<close>

section \<open>Definitions: the flood fill\<close>

definition INT_MAX :: int where
  "INT_MAX = 2 ^ 31 - 1"

record GenState =
  gn_ids :: "int list"
  gn_queue :: "((int \<times> int) \<times> int) list"
  gn_n :: int
  gn_sumx :: int
  gn_sumz :: int

text \<open>One entry of \<open>next\<close>; the queue is used as a stack, its top is the head of the list.\<close>

definition gen_push :: "Range \<Rightarrow> (int \<times> int) \<times> int \<Rightarrow> GenState \<Rightarrow> GenState option" where
  "gen_push r e st =
     (if \<not> in_grid (rg_sx r) (rg_sz r) (fst e) then Some st
      else if cell_at (rg_sx r) (gn_ids st) (fst e) = INT_MAX then Some st
      else if rg_sx r * rg_sz r \<le> int (length (gn_queue st)) then None
      else Some (st\<lparr>gn_queue := e # gn_queue st\<rparr>))"

primrec gen_pushes :: "Range \<Rightarrow> ((int \<times> int) \<times> int) list \<Rightarrow> GenState \<Rightarrow> GenState option" where
  "gen_pushes r [] st = Some st"
| "gen_pushes r (e # es) st = Option.bind (gen_push r e st) (gen_pushes r es)"

text \<open>A popped cell that has not been seen.\<close>

definition gen_visit :: "(int \<Rightarrow> int \<Rightarrow> int) \<Rightarrow> Range \<Rightarrow> int \<Rightarrow> int \<Rightarrow> int \<times> int \<Rightarrow> int \<Rightarrow> GenState \<Rightarrow> GenState option" where
  "gen_visit eval r match tol c d st =
     (let st = st\<lparr>gn_ids := set_cell (rg_sx r) c INT_MAX (gn_ids st)\<rparr>;
          x = rg_x r + fst c; z = rg_z r + snd c
      in if eval x z = match
         then gen_pushes r (map (\<lambda>n. (n, 0)) (neighbours c))
                (st\<lparr>gn_n := gn_n st + 1, gn_sumx := gn_sumx st + x, gn_sumz := gn_sumz st + z\<rparr>)
         else if tol \<le> d + 1 then Some st
         else gen_pushes r (map (\<lambda>n. (n, d + 1)) (neighbours c)) st)"

definition unseen :: "int list \<Rightarrow> nat" where
  "unseen ids = length (filter (\<lambda>v. v \<noteq> INT_MAX) ids)"

lemma unseen_update:
  assumes "k < length xs" "xs ! k \<noteq> INT_MAX"
  shows "unseen (xs[k := INT_MAX]) < unseen xs"
  using assms unfolding unseen_def by (induction xs arbitrary: k) (auto split: nat.splits simp: nth_Cons)

lemma gen_push_ids: "gen_push r e st = Some st' \<Longrightarrow> gn_ids st' = gn_ids st"
  by (auto simp: gen_push_def split: if_splits)

lemma gen_pushes_ids: "gen_pushes r es st = Some st' \<Longrightarrow> gn_ids st' = gn_ids st"
  by (induction es arbitrary: st) (auto dest: gen_push_ids split: Option.bind_splits)

lemma gen_visit_ids: "gen_visit eval r match tol c d st = Some st' \<Longrightarrow> gn_ids st' = set_cell (rg_sx r) c INT_MAX (gn_ids st)"
  by (auto simp: gen_visit_def Let_def dest: gen_pushes_ids split: if_splits)

function gen_loop :: "(int \<Rightarrow> int \<Rightarrow> int) \<Rightarrow> Range \<Rightarrow> int \<Rightarrow> int \<Rightarrow> GenState \<Rightarrow> GenState option" where
  "gen_loop eval r match tol st =
     (case gn_queue st of
        [] \<Rightarrow> Some st
      | (c, d) # queue \<Rightarrow>
          if \<not> (0 \<le> snd c * rg_sx r + fst c \<and> nat (snd c * rg_sx r + fst c) < length (gn_ids st)) then None
          else if cell_at (rg_sx r) (gn_ids st) c = INT_MAX then gen_loop eval r match tol (st\<lparr>gn_queue := queue\<rparr>)
          else case gen_visit eval r match tol c d (st\<lparr>gn_queue := queue\<rparr>) of
                 None \<Rightarrow> None
               | Some st' \<Rightarrow> gen_loop eval r match tol st')"
  by pat_completeness auto
termination
  by (relation "measures [\<lambda>(eval, r, match, tol, st). unseen (gn_ids st), \<lambda>(eval, r, match, tol, st). length (gn_queue st)]")
    (auto dest!: gen_visit_ids intro!: unseen_update simp: set_cell_def cell_at_def split_def)

declare gen_loop.simps [simp del]

text \<open>C's \<open>round\<close>: halves away from zero.\<close>

definition round_away :: "rat \<Rightarrow> int" where
  "round_away v = (if 0 \<le> v then \<lfloor>v + 1 / 2\<rfloor> else - \<lfloor>1 / 2 - v\<rfloor>)"

definition center_of :: "int \<Rightarrow> int \<Rightarrow> int \<Rightarrow> int" where
  "center_of scale sum_c n = round_away ((of_int sum_c / of_int n + 1 / 2) * of_int scale)"

text \<open>The number of cells counted, their centre if there is one, and the cells seen.\<close>

definition floodFillGen ::
    "(int \<Rightarrow> int \<Rightarrow> int) \<Rightarrow> Range \<Rightarrow> int \<Rightarrow> int \<Rightarrow> int \<times> int \<Rightarrow> int list \<Rightarrow> (int list \<times> int \<times> (int \<times> int) option) option" where
  "floodFillGen eval r match tol start ids =
     map_option (\<lambda>st. (gn_ids st, gn_n st,
         if gn_n st \<noteq> 0 then Some (center_of (rg_scale r) (gn_sumx st) (gn_n st), center_of (rg_scale r) (gn_sumz st) (gn_n st)) else None))
       (gen_loop eval r match tol \<lparr>gn_ids = ids, gn_queue = [(start, 0)], gn_n = 0, gn_sumx = 0, gn_sumz = 0\<rparr>)"

section \<open>Definitions: the search\<close>

definition MUSHROOM_FIELDS :: int where
  "MUSHROOM_FIELDS = 14"

text \<open>C's conversion of a floating-point number to \<open>int\<close>.\<close>

definition c_int :: "rat \<Rightarrow> int" where
  "c_int v = (if 0 \<le> v then \<lfloor>v\<rfloor> else - \<lfloor>- v\<rfloor>)"

text \<open>The climate noises of a seed, by the index of their parameter; 2 is continentalness.\<close>

record BiomeNoise =
  bn_climate :: "DoublePerlinNoise list"

definition make_range :: "int \<Rightarrow> int \<Rightarrow> int \<Rightarrow> int \<Rightarrow> Range" where
  "make_range x z range' scale =
     \<lparr>rg_scale = scale, rg_x = (x - range' sdiv 2) sdiv scale, rg_z = (z - range' sdiv 2) sdiv scale,
      rg_sx = range' sdiv scale, rg_sz = range' sdiv scale, rg_y = 256 sdiv scale, rg_sy = 1\<rparr>"

definition fast_mushroom_eval :: "BiomeNoise \<Rightarrow> int \<Rightarrow> int \<Rightarrow> int \<Rightarrow> int" where
  "fast_mushroom_eval bn scale x z =
     (let scale4 = (if scale > 4 then scale sdiv 4 else 1);
          mid = scale4 sdiv 2;
          x4 = x * scale4 + mid;
          z4 = z * scale4 + mid;
          c = fast_sampleDoublePerlin (bn_climate bn ! 2) (of_int x4) 0 (of_int z4)
      in if c_int (10000 * c) \<le> - 10500 then MUSHROOM_FIELDS else - 1)"

text \<open>
  The limits of a biome's climate parameters: \<open>None\<close> where both bounds are infinite. A cell is ruled out
  by the first parameter, in the order of \<open>para\<close>, that is outside its limits.
\<close>

definition para :: "nat list" where
  "para = [0, 1, 3, 2, 5]"

definition ruled_out :: "BiomeNoise \<Rightarrow> (nat \<Rightarrow> (int \<times> int) option) \<Rightarrow> Range \<Rightarrow> int \<times> int \<Rightarrow> bool" where
  "ruled_out bn plim r c =
     list_ex (\<lambda>k. case plim k of None \<Rightarrow> False
                   | Some (lo, hi) \<Rightarrow>
                       let px = of_int ((rg_x r + fst c) * rg_scale r) / 4;
                           pz = of_int ((rg_z r + snd c) * rg_scale r) / 4;
                           p = c_int (10000 * sampleDoublePerlin (bn_climate bn ! k) px 0 pz)
                       in p < lo \<or> p > hi) para"

definition scan_step :: "int \<Rightarrow> int \<Rightarrow> int" where
  "scan_step minsiz step =
     (let step = (if step \<le> 0 then 1 else step)
      in if step = 1 then 1 + \<lfloor>sqrt (real_of_int minsiz) * 0.5\<rfloor> else step)"

definition strides :: "int \<Rightarrow> int \<Rightarrow> int list" where
  "strides step n = map (\<lambda>k. int k * step) [0..<nat ((n + step - 1) div step)]"

definition scan_cells :: "Range \<Rightarrow> int \<Rightarrow> (int \<times> int) list" where
  "scan_cells r step = concat (map (\<lambda>j. map (\<lambda>i. (i, j)) (strides step (rg_sx r))) (strides step (rg_sz r)))"

definition rule_out :: "BiomeNoise \<Rightarrow> (nat \<Rightarrow> (int \<times> int) option) \<Rightarrow> Range \<Rightarrow> (int \<times> int) list \<Rightarrow> int list \<Rightarrow> int list" where
  "rule_out bn plim r cs ids = fold (\<lambda>c ids. if ruled_out bn plim r c then set_cell (rg_sx r) c (- 2) ids else ids) cs ids"

text \<open>The scan over the cells that still hold -1, until \<open>nmax\<close> centres have been found.\<close>

primrec scan_centers ::
    "(int \<Rightarrow> int \<Rightarrow> int) \<Rightarrow> Range \<Rightarrow> int \<Rightarrow> int \<Rightarrow> int \<Rightarrow> nat \<Rightarrow> (int \<times> int) list \<Rightarrow> int list \<Rightarrow>
     ((int \<times> int) \<times> int) list \<Rightarrow> ((int \<times> int) \<times> int) list option" where
  "scan_centers eval r match minsiz tol nmax [] ids found = Some found"
| "scan_centers eval r match minsiz tol nmax (c # cs) ids found =
     (if cell_at (rg_sx r) ids c \<noteq> - 1 then scan_centers eval r match minsiz tol nmax cs ids found
      else case floodFillGen eval r match tol c ids of
             None \<Rightarrow> None
           | Some (ids', area, center) \<Rightarrow>
               if minsiz \<le> area
               then let found' = found @ [(the center, area)]
                    in if nmax \<le> length found' then Some found' else scan_centers eval r match minsiz tol nmax cs ids' found'
               else scan_centers eval r match minsiz tol nmax cs ids' found)"

definition getBiomeCentersOpt ::
    "nat \<Rightarrow> BiomeNoise \<Rightarrow> (nat \<Rightarrow> (int \<times> int) option) \<Rightarrow> (int \<Rightarrow> int \<Rightarrow> int) \<Rightarrow> Range \<Rightarrow> int \<Rightarrow> int \<Rightarrow> int \<Rightarrow> int \<Rightarrow>
     ((int \<times> int) \<times> int) list option" where
  "getBiomeCentersOpt nmax bn plim eval r match minsiz tol step =
     (let minsiz = (if minsiz \<le> 0 then 1 else minsiz);
          ids = replicate (nat (rg_sx r * rg_sz r)) (- 1);
          tol = (if tol \<le> 0 then 1 else tol);
          cs = scan_cells r (scan_step minsiz step)
      in scan_centers eval r match minsiz tol nmax cs (rule_out bn plim r cs ids) [])"

text \<open>
  The limits of mushroom fields: continentalness at most -10500 (the row of the table in
  \<open>src/cubiomes/finders.c\<close>).
\<close>

definition mushroom_limits :: "nat \<Rightarrow> (int \<times> int) option" where
  "mushroom_limits k = (if k = 2 then Some (- (2 ^ 31), - 10500) else None)"

definition cubiomes_test_biome_centers :: "BiomeNoise \<Rightarrow> int \<Rightarrow> int \<Rightarrow> int \<Rightarrow> int \<Rightarrow> int \<Rightarrow> int \<Rightarrow> PosArea option option" where
  "cubiomes_test_biome_centers bn x z range' min_area scale tol =
     (let r = make_range x z range' scale;
          minsiz = min_area sdiv (scale * scale)
      in map_option (\<lambda>found. case found of
             [(pos, siz)] \<Rightarrow> Some \<lparr>pa_x = fst pos, pa_z = snd pos, pa_area = siz * (scale * scale)\<rparr> | _ \<Rightarrow> None)
           (getBiomeCentersOpt 1 bn mushroom_limits (fast_mushroom_eval bn scale) r MUSHROOM_FIELDS minsiz tol 0))"

section \<open>The queue is large enough\<close>

definition seen :: "Range \<Rightarrow> int list \<Rightarrow> (int \<times> int) set" where
  "seen r ids = {c. in_grid (rg_sx r) (rg_sz r) c \<and> cell_at (rg_sx r) ids c = INT_MAX}"

text \<open>The vertical edges of the grid that touch a set of cells.\<close>

definition vertical :: "Range \<Rightarrow> (int \<times> int) set \<Rightarrow> (int \<times> int) set" where
  "vertical r S = {c. in_grid (rg_sx r) (rg_sz r) c \<and> in_grid (rg_sx r) (rg_sz r) (fst c, snd c + 1) \<and> (c \<in> S \<or> (fst c, snd c + 1) \<in> S)}"

lemma finite_vertical: "finite (vertical r S)"
  by (rule finite_subset [OF _ finite_grid [of "rg_sx r" "rg_sz r"]]) (auto simp: vertical_def)

lemma card_vertical: "0 < rg_sx r \<Longrightarrow> 0 < rg_sz r \<Longrightarrow> int (card (vertical r S)) \<le> rg_sx r * (rg_sz r - 1)"
proof -
  assume p: "0 < rg_sx r" "0 < rg_sz r"
  have "vertical r S \<subseteq> {0..<rg_sx r} \<times> {0..<rg_sz r - 1}" by (auto simp: vertical_def in_grid_def)
  then have "card (vertical r S) \<le> card ({0..<rg_sx r} \<times> {0..<rg_sz r - 1})" by (intro card_mono) simp_all
  also have "\<dots> = nat (rg_sx r) * nat (rg_sz r - 1)" by (simp add: card_cartesian_product)
  finally have "int (card (vertical r S)) \<le> int (nat (rg_sx r) * nat (rg_sz r - 1))" by (simp only: of_nat_le_iff)
  then show ?thesis using p by simp
qed

text \<open>What a visit pushes: the neighbours inside the grid that have not been seen.\<close>

definition fresh :: "Range \<Rightarrow> (int \<times> int) set \<Rightarrow> (int \<times> int) list \<Rightarrow> (int \<times> int) list" where
  "fresh r S cs = filter (\<lambda>n. in_grid (rg_sx r) (rg_sz r) n \<and> n \<notin> S) cs"

definition up_down :: "int \<times> int \<Rightarrow> (int \<times> int) list" where
  "up_down c = [(fst c, snd c - 1), (fst c, snd c + 1)]"

definition sides :: "int \<times> int \<Rightarrow> (int \<times> int) list" where
  "sides c = [(fst c - 1, snd c), (fst c + 1, snd c)]"

lemma neighbours_split: "neighbours c = up_down c @ sides c"
  by (simp add: neighbours_def up_down_def sides_def)

lemma gen_pushes_fresh:
  assumes "int (length (gn_queue st) + length (fresh r (seen r (gn_ids st)) cs)) \<le> rg_sx r * rg_sz r"
  shows "gen_pushes r (map (\<lambda>n. (n, d)) cs) st =
     Some (st\<lparr>gn_queue := rev (map (\<lambda>n. (n, d)) (fresh r (seen r (gn_ids st)) cs)) @ gn_queue st\<rparr>)"
  using assms
proof (induction cs arbitrary: st)
  case (Cons c cs)
  show ?case
  proof (cases "in_grid (rg_sx r) (rg_sz r) c \<and> c \<notin> seen r (gn_ids st)")
    case True
    then have "gen_push r (c, d) st = Some (st\<lparr>gn_queue := (c, d) # gn_queue st\<rparr>)"
      using Cons.prems by (simp add: gen_push_def seen_def fresh_def)
    then show ?thesis using Cons.IH [of "st\<lparr>gn_queue := (c, d) # gn_queue st\<rparr>"] Cons.prems True by (simp add: fresh_def)
  next
    case False
    then have "gen_push r (c, d) st = Some st" by (auto simp: gen_push_def seen_def)
    then show ?thesis using Cons.IH [of st] Cons.prems False by (auto simp: fresh_def)
  qed
qed (simp add: fresh_def)

text \<open>Seeing a cell adds the vertical edges to its fresh neighbours.\<close>

lemma vertical_insert:
  assumes "in_grid (rg_sx r) (rg_sz r) c" "c \<notin> S"
  shows "card (vertical r (insert c S)) = card (vertical r S) + length (fresh r (insert c S) (up_down c))"
proof -
  obtain i j where c: "c = (i, j)" by (cases c)
  let ?up = "if in_grid (rg_sx r) (rg_sz r) (i, j - 1) \<and> (i, j - 1) \<notin> S then {(i, j - 1)} else {}"
  let ?down = "if in_grid (rg_sx r) (rg_sz r) (i, j + 1) \<and> (i, j + 1) \<notin> S then {(i, j)} else {}"
  have v: "vertical r (insert c S) = vertical r S \<union> (?up \<union> ?down)"
    using assms by (auto simp: vertical_def c)
  have d: "vertical r S \<inter> (?up \<union> ?down) = {}"
    using assms(2) by (auto simp: vertical_def c)
  have "card (vertical r (insert c S)) = card (vertical r S) + card (?up \<union> ?down)"
    unfolding v by (rule card_Un_disjoint [OF finite_vertical _ d]) simp
  moreover have "card (?up \<union> ?down) = length (fresh r (insert c S) (up_down c))"
    by (simp add: fresh_def up_down_def c)
  ultimately show ?thesis by simp
qed

text \<open>
  The invariant of the queue: \<open>hs\<close> tells which entries were pushed from a cell beside them. The number of
  entries stays below the number of vertical edges at the cells seen plus two, and reaches that only
  with an entry from the side on top: popping it brings at most one new entry from the side, because
  the cell it was pushed from has been seen.
\<close>

definition beside_seen :: "Range \<Rightarrow> int list \<Rightarrow> int \<times> int \<Rightarrow> bool" where
  "beside_seen r ids c \<longleftrightarrow> (fst c - 1, snd c) \<in> seen r ids \<or> (fst c + 1, snd c) \<in> seen r ids"

definition room_inv :: "Range \<Rightarrow> int list \<Rightarrow> (int \<times> int) list \<Rightarrow> bool list \<Rightarrow> bool" where
  "room_inv r ids q hs \<longleftrightarrow>
     length hs = length q \<and> (\<forall>(c, h)\<in>set (zip q hs). h \<longrightarrow> beside_seen r ids c) \<and>
     length q \<le> card (vertical r (seen r ids)) + 2 \<and>
     (length q = card (vertical r (seen r ids)) + 2 \<longrightarrow> hd hs) \<and>
     (rg_sx r = 1 \<longrightarrow> length q \<le> card (vertical r (seen r ids)) + 1)"

lemma room_inv_fits:
  assumes "room_inv r ids q hs" "0 < rg_sx r" "0 < rg_sz r"
  shows "int (length q) \<le> rg_sx r * rg_sz r"
proof -
  have v: "int (card (vertical r (seen r ids))) \<le> rg_sx r * rg_sz r - rg_sx r"
    using card_vertical [OF assms(2,3), of "seen r ids"] by (simp add: algebra_simps)
  show ?thesis
  proof (cases "rg_sx r = 1")
    case True
    then have "int (length q) \<le> int (card (vertical r (seen r ids))) + 1" using assms(1) by (simp add: room_inv_def)
    then show ?thesis using v True by simp
  next
    case False
    then have "2 \<le> rg_sx r" using assms(2) by simp
    moreover have "int (length q) \<le> int (card (vertical r (seen r ids))) + 2" using assms(1) by (simp add: room_inv_def)
    ultimately show ?thesis using v by simp
  qed
qed

lemma seen_insert:
  assumes "length ids = nat (rg_sx r * rg_sz r)" "in_grid (rg_sx r) (rg_sz r) c"
  shows "seen r (set_cell (rg_sx r) c INT_MAX ids) = insert c (seen r ids)"
  using cell_at_set_cell [OF assms(2) _ assms(1)] assms(2) by (auto simp: seen_def)

lemma beside_mono: "beside_seen r ids c \<Longrightarrow> seen r ids \<subseteq> seen r ids' \<Longrightarrow> beside_seen r ids' c"
  by (auto simp: beside_seen_def)

lemma room_inv_skip:
  assumes "room_inv r ids (c # q) (h # hs)"
  shows "room_inv r ids q hs"
  using assms by (auto simp: room_inv_def)

lemma room_inv_visit:
  assumes "room_inv r ids (c # q) (h # hs)" "seen r ids' = insert c (seen r ids)"
    and "in_grid (rg_sx r) (rg_sz r) c" "c \<notin> seen r ids"
  shows "room_inv r ids' q hs \<and>
         room_inv r ids' (rev (fresh r (seen r ids') (neighbours c)) @ q)
           (replicate (length (fresh r (seen r ids') (sides c))) True @ replicate (length (fresh r (seen r ids') (up_down c))) False @ hs)"
proof -
  let ?S = "seen r ids" and ?S' = "seen r ids'"
  let ?v = "fresh r ?S' (up_down c)" and ?h = "fresh r ?S' (sides c)"
  have sub: "?S \<subseteq> ?S'" "c \<in> ?S'" using assms(2) by blast+
  have V: "card (vertical r ?S') = card (vertical r ?S) + length ?v"
    unfolding assms(2) by (rule vertical_insert [OF assms(3,4)])
  have len: "Suc (length q) \<le> card (vertical r ?S) + 2" "Suc (length q) = card (vertical r ?S) + 2 \<Longrightarrow> h"
      "rg_sx r = 1 \<Longrightarrow> Suc (length q) \<le> card (vertical r ?S) + 1" "length hs = length q"
      "h \<Longrightarrow> beside_seen r ids c" "\<forall>(c, h)\<in>set (zip q hs). h \<longrightarrow> beside_seen r ids c"
    using assms(1) by (simp_all add: room_inv_def)
  have old: "\<forall>(c, h)\<in>set (zip q hs). h \<longrightarrow> beside_seen r ids' c"
    using len(6) beside_mono [OF _ sub(1)] by fast
  have h2: "length ?h \<le> 2" by (simp add: fresh_def sides_def)
  have h1: "length ?h \<le> 1" if "beside_seen r ids c"
    using that sub(1) by (auto simp: fresh_def sides_def beside_seen_def)
  have h0: "length ?h = 0" if "rg_sx r = 1"
    using that assms(3) by (auto simp: fresh_def sides_def in_grid_def split_def)
  have "beside_seen r ids' n" if "n \<in> set ?h" for n
  proof -
    have "n \<in> set (sides c)" using that by (simp add: fresh_def)
    then show ?thesis using sub(2) by (cases c) (auto simp: sides_def beside_seen_def)
  qed
  then have new: "\<forall>(c, h)\<in>set (zip (rev ?h) (replicate (length ?h) True)). h \<longrightarrow> beside_seen r ids' c"
    by (auto dest: set_zip_leftD)
  have new2: "\<forall>(c, h)\<in>set (zip (rev ?v) (replicate (length ?v) False)). h \<longrightarrow> beside_seen r ids' c"
    by (auto dest: set_zip_rightD)
  have f: "fresh r ?S' (neighbours c) = ?v @ ?h" by (simp add: fresh_def neighbours_split)
  have a: "room_inv r ids' q hs" using len old V unfolding room_inv_def by auto
  moreover have "room_inv r ids' (rev ?h @ rev ?v @ q) (replicate (length ?h) True @ replicate (length ?v) False @ hs)"
  proof -
    have "length ?h + (length ?v + length q) \<le> card (vertical r ?S') + 2"
    proof (cases "Suc (length q) = card (vertical r ?S) + 2")
      case True
      then show ?thesis using h1 [OF len(5) [OF len(2)]] V len(1) by simp
    next
      case False
      then show ?thesis using h2 V len(1) by simp
    qed
    moreover have "hd (replicate (length ?h) True @ replicate (length ?v) False @ hs)"
      if "length ?h + (length ?v + length q) = card (vertical r ?S') + 2"
    proof -
      have "length ?h \<noteq> 0" using that V len(1) by (cases "length ?h") auto
      then show ?thesis by (cases "length ?h") auto
    qed
    moreover have "length ?h + (length ?v + length q) \<le> card (vertical r ?S') + 1" if "rg_sx r = 1"
      using h0 [OF that] len(3) [OF that] V by simp
    ultimately show ?thesis using old new new2 len(4) by (auto simp: room_inv_def)
  qed
  ultimately show ?thesis by (simp add: f)
qed

section \<open>What a fill counts\<close>

text \<open>
  The invariant of the loop, for a fill that starts with the cells \<open>M\<close> seen: the cells seen since then and
  matching are counted, and the neighbours of a counted cell have been seen or are waiting.
\<close>

definition matching :: "(int \<Rightarrow> int \<Rightarrow> int) \<Rightarrow> Range \<Rightarrow> int \<Rightarrow> (int \<times> int) set" where
  "matching eval r match = {c. in_grid (rg_sx r) (rg_sz r) c \<and> eval (rg_x r + fst c) (rg_z r + snd c) = match}"

definition counted :: "(int \<Rightarrow> int \<Rightarrow> int) \<Rightarrow> Range \<Rightarrow> int \<Rightarrow> (int \<times> int) set \<Rightarrow> int list \<Rightarrow> (int \<times> int) set" where
  "counted eval r match M ids = (seen r ids - M) \<inter> matching eval r match"

definition cells_kept :: "Range \<Rightarrow> int list \<Rightarrow> int list \<Rightarrow> bool" where
  "cells_kept r ids0 ids \<longleftrightarrow>
     (\<forall>c. in_grid (rg_sx r) (rg_sz r) c \<longrightarrow> cell_at (rg_sx r) ids c = (if c \<in> seen r ids then INT_MAX else cell_at (rg_sx r) ids0 c))"

lemma cells_keptD:
  "cells_kept r ids0 ids \<Longrightarrow> in_grid (rg_sx r) (rg_sz r) c \<Longrightarrow> c \<notin> seen r ids \<Longrightarrow> cell_at (rg_sx r) ids c = cell_at (rg_sx r) ids0 c"
  unfolding cells_kept_def by metis

text \<open>The neighbours of the cells of \<open>C\<close> are in \<open>W\<close>, as far as they are in the grid.\<close>

definition closed_in :: "Range \<Rightarrow> (int \<times> int) set \<Rightarrow> (int \<times> int) set \<Rightarrow> bool" where
  "closed_in r C W \<longleftrightarrow> (\<forall>c\<in>C. \<forall>n. adjacent c n \<longrightarrow> in_grid (rg_sx r) (rg_sz r) n \<longrightarrow> n \<in> W)"

lemma closed_in_mono: "closed_in r C W \<Longrightarrow> W \<subseteq> W' \<Longrightarrow> closed_in r C W'"
  unfolding closed_in_def by blast

lemma closed_inD: "closed_in r C W \<Longrightarrow> c \<in> C \<Longrightarrow> adjacent c n \<Longrightarrow> in_grid (rg_sx r) (rg_sz r) n \<Longrightarrow> n \<in> W"
  unfolding closed_in_def by blast

lemma closed_in_insert:
  "closed_in r (insert c C) W \<longleftrightarrow> closed_in r C W \<and> (\<forall>n. adjacent c n \<longrightarrow> in_grid (rg_sx r) (rg_sz r) n \<longrightarrow> n \<in> W)"
  unfolding closed_in_def by blast

definition reached :: "Range \<Rightarrow> GenState \<Rightarrow> (int \<times> int) set" where
  "reached r st = seen r (gn_ids st) \<union> fst ` set (gn_queue st)"

definition count_inv ::
    "(int \<Rightarrow> int \<Rightarrow> int) \<Rightarrow> Range \<Rightarrow> int \<Rightarrow> int list \<Rightarrow> int \<times> int \<Rightarrow> GenState \<Rightarrow> bool" where
  "count_inv eval r match ids0 start st \<longleftrightarrow>
     length (gn_ids st) = nat (rg_sx r * rg_sz r) \<and> list_all (\<lambda>e. in_grid (rg_sx r) (rg_sz r) (fst e)) (gn_queue st) \<and>
     cells_kept r ids0 (gn_ids st) \<and> seen r ids0 \<subseteq> seen r (gn_ids st) \<and>
     gn_n st = int (card (counted eval r match (seen r ids0) (gn_ids st))) \<and>
     gn_sumx st = (\<Sum>c\<in>counted eval r match (seen r ids0) (gn_ids st). rg_x r + fst c) \<and>
     gn_sumz st = (\<Sum>c\<in>counted eval r match (seen r ids0) (gn_ids st). rg_z r + snd c) \<and>
     start \<in> reached r st \<and> closed_in r (counted eval r match (seen r ids0) (gn_ids st)) (reached r st)"

lemma count_inv_skip:
  assumes "count_inv eval r match ids0 start st" "gn_queue st = (c, d) # q" "c \<in> seen r (gn_ids st)"
  shows "count_inv eval r match ids0 start (st\<lparr>gn_queue := q\<rparr>)"
proof -
  have "reached r (st\<lparr>gn_queue := q\<rparr>) = reached r st" using assms(2,3) by (auto simp: reached_def)
  then show ?thesis using assms(1,2) by (simp add: count_inv_def)
qed

lemma counted_insert:
  assumes "c \<notin> seen r ids" "seen r ids0 \<subseteq> seen r ids" "seen r ids' = insert c (seen r ids)" "in_grid (rg_sx r) (rg_sz r) c"
  shows "counted eval r match (seen r ids0) ids' =
     (if eval (rg_x r + fst c) (rg_z r + snd c) = match
      then insert c (counted eval r match (seen r ids0) ids) else counted eval r match (seen r ids0) ids)"
    and "c \<notin> counted eval r match (seen r ids0) ids"
  using assms by (auto simp: counted_def matching_def)

lemma finite_counted: "finite (counted eval r match M ids)"
  by (rule finite_subset [OF _ finite_grid [of "rg_sx r" "rg_sz r"]]) (auto simp: counted_def matching_def)

text \<open>A visit with the entries \<open>q'\<close> left afterwards.\<close>

lemma count_inv_visit:
  assumes inv: "count_inv eval r match ids0 start st" and q: "gn_queue st = (c, d) # q" and new: "c \<notin> seen r (gn_ids st)"
    and q': "set q \<subseteq> set q'" "list_all (\<lambda>e. in_grid (rg_sx r) (rg_sz r) (fst e)) q'"
    and hit: "hit \<longleftrightarrow> eval (rg_x r + fst c) (rg_z r + snd c) = match"
    and nb: "hit \<Longrightarrow> closed_in r {c} (insert c (seen r (gn_ids st)) \<union> fst ` set q')"
    and st': "st' = st\<lparr>gn_ids := set_cell (rg_sx r) c INT_MAX (gn_ids st), gn_queue := q',
         gn_n := gn_n st + (if hit then 1 else 0), gn_sumx := gn_sumx st + (if hit then rg_x r + fst c else 0),
         gn_sumz := gn_sumz st + (if hit then rg_z r + snd c else 0)\<rparr>"
  shows "count_inv eval r match ids0 start st'"
proof -
  let ?ids' = "set_cell (rg_sx r) c INT_MAX (gn_ids st)"
  let ?C = "counted eval r match (seen r ids0) (gn_ids st)"
  have g: "in_grid (rg_sx r) (rg_sz r) c" using inv q by (simp add: count_inv_def)
  have len: "length (gn_ids st) = nat (rg_sx r * rg_sz r)" using inv by (simp add: count_inv_def)
  have s: "seen r ?ids' = insert c (seen r (gn_ids st))" by (rule seen_insert [OF len g])
  have m: "seen r ids0 \<subseteq> seen r (gn_ids st)" using inv by (simp add: count_inv_def)
  note C = counted_insert [OF new m s g, of eval match]
  have C': "counted eval r match (seen r ids0) ?ids' = (if hit then insert c ?C else ?C)" unfolding C(1) hit by simp
  have kept: "cells_kept r ids0 (gn_ids st)" using inv by (simp add: count_inv_def)
  have cells: "cells_kept r ids0 ?ids'"
    unfolding cells_kept_def s
  proof (intro allI impI)
    fix p assume p: "in_grid (rg_sx r) (rg_sz r) p"
    show "cell_at (rg_sx r) ?ids' p = (if p \<in> insert c (seen r (gn_ids st)) then INT_MAX else cell_at (rg_sx r) ids0 p)"
      using cell_at_set_cell [OF g p len, of INT_MAX] cells_keptD [OF kept p] p by (auto simp: seen_def)
  qed
  have sums: "sum f (insert c ?C) = sum f ?C + f c" for f :: "int \<times> int \<Rightarrow> int"
    using sum.insert [OF finite_counted C(2), of f] by (simp only: add.commute)
  have R: "reached r st' = insert c (seen r (gn_ids st)) \<union> fst ` set q'" by (simp add: reached_def st' s)
  have sub: "reached r st \<subseteq> reached r st'" unfolding R using q q'(1) by (auto simp: reached_def)
  have cl: "closed_in r (counted eval r match (seen r ids0) ?ids') (reached r st')"
  proof (cases hit)
    case True
    have "closed_in r ?C (reached r st')" using inv closed_in_mono [OF _ sub] by (simp add: count_inv_def)
    then show ?thesis using True nb [OF True] unfolding C' R by (simp add: closed_in_def)
  next
    case False
    then show ?thesis using inv closed_in_mono [OF _ sub] unfolding C' by (simp add: count_inv_def)
  qed
  have ids': "gn_ids st' = ?ids'" by (simp add: st')
  have "start \<in> reached r st'" using inv sub by (auto simp: count_inv_def)
  moreover have "gn_n st' = int (card (counted eval r match (seen r ids0) ?ids'))"
      "gn_sumx st' = (\<Sum>c\<in>counted eval r match (seen r ids0) ?ids'. rg_x r + fst c)"
      "gn_sumz st' = (\<Sum>c\<in>counted eval r match (seen r ids0) ?ids'. rg_z r + snd c)"
    using inv card_insert_disjoint [OF finite_counted C(2)] unfolding C'
    by (simp_all add: st' sums count_inv_def)
  ultimately show ?thesis using cells cl m len q'(2) unfolding count_inv_def ids' s by (auto simp: st')
qed

lemma gen_loop_ok:
  assumes "0 < rg_sx r" "0 < rg_sz r" "count_inv eval r match ids0 start st"
    and "room_inv r (gn_ids st) (map fst (gn_queue st)) hs"
  shows "\<exists>st'. gen_loop eval r match tol st = Some st' \<and> count_inv eval r match ids0 start st' \<and> gn_queue st' = []"
  using assms
proof (induction eval r match tol st arbitrary: hs rule: gen_loop.induct)
  case (1 eval r match tol st)
  show ?case
  proof (cases "gn_queue st")
    case Nil
    then show ?thesis using 1(5) by (subst gen_loop.simps) simp
  next
    case (Cons e q)
    obtain c d where e: "e = (c, d)" by (cases e)
    note q = Cons [unfolded e]
    have g: "in_grid (rg_sx r) (rg_sz r) c" and len: "length (gn_ids st) = nat (rg_sx r * rg_sz r)"
      using 1(5) q by (simp_all add: count_inv_def)
    have ix: "0 \<le> snd c * rg_sx r + fst c" "nat (snd c * rg_sx r + fst c) < length (gn_ids st)"
      using g cell_index_less [of "rg_sx r" "rg_sz r" "fst c" "snd c"] len by (auto simp: in_grid_def split_def)
    obtain h hs' where hs: "hs = h # hs'" using 1(6) q by (cases hs) (auto simp: room_inv_def)
    have room: "room_inv r (gn_ids st) (c # map fst q) (h # hs')" using 1(6) q hs by simp
    show ?thesis
    proof (cases "c \<in> seen r (gn_ids st)")
      case True
      then have cell: "cell_at (rg_sx r) (gn_ids st) c = INT_MAX" by (simp add: seen_def)
      have "gen_loop eval r match tol st = gen_loop eval r match tol (st\<lparr>gn_queue := q\<rparr>)"
        using q ix cell by (subst gen_loop.simps) simp
      moreover have "\<exists>st'. gen_loop eval r match tol (st\<lparr>gn_queue := q\<rparr>) = Some st' \<and> count_inv eval r match ids0 start st' \<and> gn_queue st' = []"
      proof (rule 1(1))
        show "count_inv eval r match ids0 start (st\<lparr>gn_queue := q\<rparr>)" by (rule count_inv_skip [OF 1(5) q True])
        show "room_inv r (gn_ids (st\<lparr>gn_queue := q\<rparr>)) (map fst (gn_queue (st\<lparr>gn_queue := q\<rparr>))) hs'"
          using room_inv_skip [OF room] by simp
      qed (use q ix cell 1(3,4) in simp_all)
      ultimately show ?thesis by simp
    next
      case False
      then have cell: "cell_at (rg_sx r) (gn_ids st) c \<noteq> INT_MAX" using g by (simp add: seen_def)
      let ?ids' = "set_cell (rg_sx r) c INT_MAX (gn_ids st)"
      let ?hit = "eval (rg_x r + fst c) (rg_z r + snd c) = match"
      let ?fresh = "fresh r (seen r ?ids') (neighbours c)"
      have s: "seen r ?ids' = insert c (seen r (gn_ids st))" by (rule seen_insert [OF len g])
      note rv = room_inv_visit [OF room s g False]
      have fits: "int (length q + length ?fresh) \<le> rg_sx r * rg_sz r"
        using room_inv_fits [OF conjunct2 [OF rv] 1(3,4)] by simp
      define q' where "q' = (if ?hit then rev (map (\<lambda>n. (n, 0)) ?fresh) @ q else if tol \<le> d + 1 then q
          else rev (map (\<lambda>n. (n, d + 1)) ?fresh) @ q)"
      define st' where "st' = st\<lparr>gn_ids := ?ids', gn_queue := q',
         gn_n := gn_n st + (if ?hit then 1 else 0), gn_sumx := gn_sumx st + (if ?hit then rg_x r + fst c else 0),
         gn_sumz := gn_sumz st + (if ?hit then rg_z r + snd c else 0)\<rparr>"
      have visit: "gen_visit eval r match tol c d (st\<lparr>gn_queue := q\<rparr>) = Some st'"
        using gen_pushes_fresh [of "st\<lparr>gn_queue := q, gn_ids := ?ids', gn_n := gn_n st + 1, gn_sumx := gn_sumx st + (rg_x r + fst c),
            gn_sumz := gn_sumz st + (rg_z r + snd c)\<rparr>" r "neighbours c" 0]
          gen_pushes_fresh [of "st\<lparr>gn_queue := q, gn_ids := ?ids'\<rparr>" r "neighbours c" "d + 1"] fits
        by (simp add: gen_visit_def Let_def st'_def q'_def)
      have fin: "\<forall>n\<in>set ?fresh. in_grid (rg_sx r) (rg_sz r) n" by (simp add: fresh_def)
      have inv': "count_inv eval r match ids0 start st'"
      proof (rule count_inv_visit [OF 1(5) q False _ _ refl _ st'_def])
        show "set q \<subseteq> set q'" by (simp add: q'_def)
        show "list_all (\<lambda>e. in_grid (rg_sx r) (rg_sz r) (fst e)) q'"
          using 1(5) q fin by (auto simp: q'_def count_inv_def list_all_iff)
        show "closed_in r {c} (insert c (seen r (gn_ids st)) \<union> fst ` set q')" if ?hit
        proof -
          have "fst ` set q' \<supseteq> set ?fresh" using that by (simp add: q'_def image_Un image_image)
          moreover have "n \<in> set ?fresh" if "adjacent c n" "in_grid (rg_sx r) (rg_sz r) n" "n \<notin> insert c (seen r (gn_ids st))" for n
            using that neighbours_adjacent [of c] s by (auto simp: fresh_def)
          ultimately show ?thesis unfolding closed_in_def by blast
        qed
      qed
      have room': "\<exists>hs. room_inv r (gn_ids st') (map fst (gn_queue st')) hs"
        using rv by (auto simp: st'_def q'_def rev_map comp_def)
      have "gen_loop eval r match tol st = gen_loop eval r match tol st'"
        using q ix cell visit by (subst gen_loop.simps) simp
      moreover have "\<exists>st''. gen_loop eval r match tol st' = Some st'' \<and> count_inv eval r match ids0 start st'' \<and> gn_queue st'' = []"
        using 1(2) [OF q refl _ cell visit 1(3,4) inv'] room' ix by blast
      ultimately show ?thesis by simp
    qed
  qed
qed

lemma seen_self_counted: "counted eval r match (seen r ids) ids = {}"
  by (simp add: counted_def)

lemma floodFillGen_ok:
  assumes "0 < rg_sx r" "0 < rg_sz r" "length ids = nat (rg_sx r * rg_sz r)" "in_grid (rg_sx r) (rg_sz r) start"
  obtains ids' where
    "floodFillGen eval r match tol start ids = Some (ids', int (card (counted eval r match (seen r ids) ids')),
       if counted eval r match (seen r ids) ids' \<noteq> {}
       then Some (center_of (rg_scale r) (\<Sum>c\<in>counted eval r match (seen r ids) ids'. rg_x r + fst c) (int (card (counted eval r match (seen r ids) ids'))),
                  center_of (rg_scale r) (\<Sum>c\<in>counted eval r match (seen r ids) ids'. rg_z r + snd c) (int (card (counted eval r match (seen r ids) ids'))))
       else None)"
    "length ids' = nat (rg_sx r * rg_sz r)" "cells_kept r ids ids'" "seen r ids \<subseteq> seen r ids'" "start \<in> seen r ids'"
    "closed_in r (counted eval r match (seen r ids) ids') (seen r ids')"
proof -
  let ?st = "\<lparr>gn_ids = ids, gn_queue = [(start, 0)], gn_n = 0, gn_sumx = 0, gn_sumz = 0\<rparr>"
  have "cells_kept r ids ids" by (auto simp: cells_kept_def seen_def)
  then have "count_inv eval r match ids start ?st"
    using assms(3,4) by (simp add: count_inv_def seen_self_counted reached_def closed_in_def)
  moreover have "room_inv r (gn_ids ?st) (map fst (gn_queue ?st)) [False]" by (simp add: room_inv_def)
  ultimately obtain st where st: "gen_loop eval r match tol ?st = Some st" "count_inv eval r match ids start st" "gn_queue st = []"
    using gen_loop_ok [OF assms(1,2), of eval match ids start ?st "[False]" tol] by blast
  let ?C = "counted eval r match (seen r ids) (gn_ids st)"
  have c: "length (gn_ids st) = nat (rg_sx r * rg_sz r)" "cells_kept r ids (gn_ids st)" "seen r ids \<subseteq> seen r (gn_ids st)"
      "gn_n st = int (card ?C)" "gn_sumx st = (\<Sum>c\<in>?C. rg_x r + fst c)" "gn_sumz st = (\<Sum>c\<in>?C. rg_z r + snd c)"
      "start \<in> reached r st" "closed_in r ?C (reached r st)"
    using st(2) unfolding count_inv_def by blast+
  have R: "reached r st = seen r (gn_ids st)" using st(3) by (simp add: reached_def)
  show ?thesis
    by (rule that [of "gn_ids st"])
      (use st(1) c R in \<open>simp_all add: floodFillGen_def card_0_eq [OF finite_counted]\<close>)
qed

text \<open>A fill that reaches a cell of a region none of whose cells had been seen counts the whole region.\<close>

lemma component_counted:
  assumes "closed_in r (counted eval r match (seen r ids) ids') (seen r ids')"
    and "s \<in> counted eval r match (seen r ids) ids'" "component (matching eval r match) s \<inter> seen r ids = {}"
  shows "component (matching eval r match) s \<subseteq> counted eval r match (seen r ids) ids'"
proof
  let ?M = "matching eval r match"
  fix q assume "q \<in> component ?M s"
  then have "(s, q) \<in> {(a, b). a \<in> ?M \<and> b \<in> ?M \<and> adjacent a b}\<^sup>*" by (simp add: component_def)
  then show "q \<in> counted eval r match (seen r ids) ids'"
  proof (induction rule: rtrancl_induct)
    case (step y z)
    then have "z \<in> component ?M s" by (auto simp: component_def intro: rtrancl_into_rtrancl)
    then have "z \<notin> seen r ids" using assms(3) by blast
    moreover have "z \<in> seen r ids'" using step closed_inD [OF assms(1)] by (auto simp: matching_def)
    ultimately show ?case using step(2) by (simp add: counted_def)
  qed (rule assms(2))
qed

lemma finite_matching: "finite (matching eval r match)"
  by (rule finite_subset [OF _ finite_grid [of "rg_sx r" "rg_sz r"]]) (auto simp: matching_def)

section \<open>The search\<close>

definition large :: "(int \<Rightarrow> int \<Rightarrow> int) \<Rightarrow> Range \<Rightarrow> int \<Rightarrow> int \<Rightarrow> (int \<times> int) set" where
  "large eval r match minsiz =
     {s \<in> matching eval r match. minsiz \<le> int (card (component (matching eval r match) s))}"

lemma large_component:
  assumes "s \<in> large eval r match minsiz" "q \<in> component (matching eval r match) s"
  shows "q \<in> large eval r match minsiz"
proof -
  have "s \<in> matching eval r match" using assms(1) by (simp add: large_def)
  then have "q \<in> matching eval r match" using component_subset assms(2) by blast
  then show ?thesis using assms component_eq [OF assms(2)] by (simp add: large_def)
qed

text \<open>A fill that starts while no cell of a large region has been seen leaves them so, or counts a large number.\<close>

lemma fill_large:
  assumes "seen r ids \<inter> large eval r match minsiz = {}" "closed_in r (counted eval r match (seen r ids) ids') (seen r ids')"
    and "s \<in> seen r ids'" "s \<in> large eval r match minsiz"
  shows "minsiz \<le> int (card (counted eval r match (seen r ids) ids'))"
proof -
  let ?K = "component (matching eval r match) s"
  have d: "?K \<inter> seen r ids = {}" using large_component [OF assms(4)] assms(1) by blast
  have "s \<notin> seen r ids" using assms(1,4) by blast
  then have "s \<in> counted eval r match (seen r ids) ids'" using assms(3,4) by (simp add: counted_def large_def)
  from component_counted [OF assms(2) this d] have "card ?K \<le> card (counted eval r match (seen r ids) ids')"
    by (intro card_mono finite_counted)
  moreover have "minsiz \<le> int (card ?K)" using assms(4) by (simp add: large_def)
  ultimately show ?thesis by linarith
qed

definition centre_of_cells :: "Range \<Rightarrow> (int \<times> int) set \<Rightarrow> int \<times> int" where
  "centre_of_cells r K =
     (center_of (rg_scale r) (\<Sum>c\<in>K. rg_x r + fst c) (int (card K)), center_of (rg_scale r) (\<Sum>c\<in>K. rg_z r + snd c) (int (card K)))"

lemma scan_centers_first:
  assumes "0 < rg_sx r" "0 < rg_sz r" "0 < minsiz" "length ids = nat (rg_sx r * rg_sz r)" "list_all (in_grid (rg_sx r) (rg_sz r)) cs"
    and "seen r ids \<inter> large eval r match minsiz = {}"
  shows "case scan_centers eval r match minsiz tol 1 cs ids [] of
           None \<Rightarrow> False
         | Some [] \<Rightarrow> list_all (\<lambda>s. s \<in> large eval r match minsiz \<longrightarrow> cell_at (rg_sx r) ids s \<noteq> - 1) cs
         | Some (x # xs) \<Rightarrow> xs = [] \<and> (\<exists>K\<subseteq>matching eval r match. minsiz \<le> int (card K) \<and> x = (centre_of_cells r K, int (card K)))"
  using assms(4-6)
proof (induction cs arbitrary: ids)
  case (Cons c cs)
  show ?case
  proof (cases "cell_at (rg_sx r) ids c \<noteq> - 1")
    case True
    then show ?thesis using Cons.IH [OF Cons.prems(1)] Cons.prems(2,3) by (auto split: option.splits list.splits)
  next
    case False
    have g: "in_grid (rg_sx r) (rg_sz r) c" using Cons.prems(2) by simp
    obtain ids' where f: "floodFillGen eval r match tol c ids = Some (ids', int (card (counted eval r match (seen r ids) ids')),
         if counted eval r match (seen r ids) ids' \<noteq> {} then Some (centre_of_cells r (counted eval r match (seen r ids) ids')) else None)"
        and f': "length ids' = nat (rg_sx r * rg_sz r)" "cells_kept r ids ids'" "seen r ids \<subseteq> seen r ids'" "c \<in> seen r ids'"
          "closed_in r (counted eval r match (seen r ids) ids') (seen r ids')"
      by (rule floodFillGen_ok [OF assms(1,2) Cons.prems(1) g, of eval match tol, folded centre_of_cells_def])
    let ?K = "counted eval r match (seen r ids) ids'"
    show ?thesis
    proof (cases "minsiz \<le> int (card ?K)")
      case True
      then have "?K \<noteq> {}" using assms(3) by auto
      then show ?thesis using True False f
        by (auto simp: counted_def intro!: exI [of _ ?K])
    next
      case small: False
      have none: "seen r ids' \<inter> large eval r match minsiz = {}"
        using fill_large [OF Cons.prems(3) f'(5)] small by blast
      have skip: "scan_centers eval r match minsiz tol 1 (c # cs) ids [] = scan_centers eval r match minsiz tol 1 cs ids' []"
        using False f small by simp
      have c: "c \<notin> large eval r match minsiz" using none f'(4) by blast
      have keep: "cell_at (rg_sx r) ids' s = cell_at (rg_sx r) ids s" if "s \<in> large eval r match minsiz" for s
      proof (rule cells_keptD [OF f'(2)])
        show "in_grid (rg_sx r) (rg_sz r) s" using that by (simp add: large_def matching_def)
        show "s \<notin> seen r ids'" using that none by blast
      qed
      have "list_all (in_grid (rg_sx r) (rg_sz r)) cs" using Cons.prems(2) by simp
      note IH = Cons.IH [OF f'(1) this none]
      show ?thesis
      proof (cases "scan_centers eval r match minsiz tol 1 cs ids' []")
        case None
        then show ?thesis using IH by simp
      next
        case (Some found)
        show ?thesis
        proof (cases found)
          case Nil
          then have "list_all (\<lambda>s. s \<in> large eval r match minsiz \<longrightarrow> cell_at (rg_sx r) ids' s \<noteq> - 1) cs" using IH Some by simp
          then show ?thesis using Nil Some skip c keep by (auto simp: list_all_iff)
        next
          case (Cons x xs)
          then show ?thesis using IH Some skip by simp
        qed
      qed
    qed
  qed
qed simp

lemma scan_step_pos: "0 < minsiz \<Longrightarrow> 0 < scan_step minsiz step"
proof -
  assume "0 < minsiz"
  then have "0 \<le> \<lfloor>sqrt (real_of_int minsiz) * 0.5\<rfloor>" by simp
  then have "0 < 1 + \<lfloor>sqrt (real_of_int minsiz) * 0.5\<rfloor>" by linarith
  then show ?thesis unfolding scan_step_def Let_def by (auto split: if_splits)
qed

lemma strides_iff:
  assumes "0 < step"
  shows "i \<in> set (strides step n) \<longleftrightarrow> 0 \<le> i \<and> i < n \<and> step dvd i"
proof
  assume "i \<in> set (strides step n)"
  then obtain k where "i = int k * step" "k \<in> {0..<nat ((n + step - 1) div step)}" unfolding strides_def set_map set_upt by blast
  then have k: "i = int k * step" "int k < (n + step - 1) div step" by simp_all
  have "int k + 1 \<le> (n + step - 1) div step" using k(2) by simp
  then have "(int k + 1) * step \<le> (n + step - 1) div step * step" using assms by (intro mult_right_mono) simp_all
  also have "\<dots> \<le> n + step - 1" using pos_mod_sign [OF assms, of "n + step - 1"] by (simp add: minus_mod_eq_div_mult [symmetric])
  finally show "0 \<le> i \<and> i < n \<and> step dvd i" using k(1) assms by (simp add: algebra_simps)
next
  assume i: "0 \<le> i \<and> i < n \<and> step dvd i"
  then obtain k where k: "i = step * k" by auto
  then have "0 \<le> k" using i assms by (simp add: zero_le_mult_iff)
  moreover have "k < (n + step - 1) div step"
  proof -
    have "(step * k + step) div step \<le> (n + step - 1) div step" using i k assms by (intro zdiv_mono1) simp_all
    moreover have "(step * k + step) div step = k + 1" using assms by simp
    ultimately show ?thesis by simp
  qed
  ultimately show "i \<in> set (strides step n)"
    unfolding strides_def set_map by (intro image_eqI [of _ _ "nat k"]) (use k in simp_all)
qed

lemma scan_cells_iff:
  "0 < step \<Longrightarrow> s \<in> set (scan_cells r step) \<longleftrightarrow> in_grid (rg_sx r) (rg_sz r) s \<and> step dvd fst s \<and> step dvd snd s"
  by (cases s) (auto simp: scan_cells_def strides_iff in_grid_def image_iff)

lemma rule_out_cells:
  assumes "list_all (in_grid (rg_sx r) (rg_sz r)) cs" "length ids = nat (rg_sx r * rg_sz r)"
  shows "length (rule_out bn plim r cs ids) = nat (rg_sx r * rg_sz r) \<and>
         (in_grid (rg_sx r) (rg_sz r) s \<longrightarrow>
            cell_at (rg_sx r) (rule_out bn plim r cs ids) s =
              (if s \<in> set cs \<and> ruled_out bn plim r s then - 2 else cell_at (rg_sx r) ids s))"
  using assms
proof (induction cs arbitrary: ids)
  case (Cons c cs)
  let ?ids = "if ruled_out bn plim r c then set_cell (rg_sx r) c (- 2) ids else ids"
  have "rule_out bn plim r (c # cs) ids = rule_out bn plim r cs ?ids" by (simp add: rule_out_def)
  moreover have "length ?ids = nat (rg_sx r * rg_sz r)" using Cons.prems by simp
  moreover have "in_grid (rg_sx r) (rg_sz r) s \<longrightarrow> cell_at (rg_sx r) ?ids s = (if s = c \<and> ruled_out bn plim r c then - 2 else cell_at (rg_sx r) ids s)"
    using Cons.prems cell_at_set_cell [of "rg_sx r" "rg_sz r" c s ids "- 2"] by auto
  ultimately show ?case using Cons.IH [of ?ids] Cons.prems by auto
qed (simp add: rule_out_def)

lemma cell_at_replicate: "in_grid w h c \<Longrightarrow> cell_at w (replicate (nat (w * h)) v) c = v"
  using cell_index_less [of w h "fst c" "snd c"] by (simp add: cell_at_def split_def)

lemma biome_centers_base:
  assumes "0 < scale" "scale \<le> range'"
    and r_def: "r = make_range x z range' scale"
    and minsiz_def: "minsiz = (if min_area sdiv (scale * scale) \<le> 0 then 1 else min_area sdiv (scale * scale))"
  shows "case cubiomes_test_biome_centers bn x z range' min_area scale tol of
           None \<Rightarrow> False
         | Some None \<Rightarrow>
             list_all (\<lambda>s. s \<in> large (fast_mushroom_eval bn scale) r MUSHROOM_FIELDS minsiz \<longrightarrow> ruled_out bn mushroom_limits r s)
               (scan_cells r (scan_step minsiz 0))
         | Some (Some pa) \<Rightarrow>
             \<exists>K\<subseteq>matching (fast_mushroom_eval bn scale) r MUSHROOM_FIELDS. minsiz \<le> int (card K) \<and>
               (pa_x pa, pa_z pa) = centre_of_cells r K \<and> pa_area pa = int (card K) * (scale * scale)"
proof -
  let ?eval = "fast_mushroom_eval bn scale" and ?cs = "scan_cells r (scan_step minsiz 0)"
  let ?ids = "rule_out bn mushroom_limits r ?cs (replicate (nat (rg_sx r * rg_sz r)) (- 1))"
  let ?tol = "if tol \<le> 0 then 1 else tol"
  let ?found = "scan_centers ?eval r MUSHROOM_FIELDS minsiz ?tol 1 ?cs ?ids []"
  have q: "0 < range' sdiv scale" using assms(1,2) by (simp add: signed_divide_int_def sgn_if pos_imp_zdiv_pos_iff)
  then have r: "0 < rg_sx r" "0 < rg_sz r" by (simp_all add: r_def make_range_def)
  have m: "0 < minsiz" by (simp add: minsiz_def)
  have step: "0 < scan_step minsiz 0" by (rule scan_step_pos [OF m])
  have cs: "list_all (in_grid (rg_sx r) (rg_sz r)) ?cs" using scan_cells_iff [OF step] by (simp add: list_all_iff)
  have ro: "length ?ids = nat (rg_sx r * rg_sz r)"
      "in_grid (rg_sx r) (rg_sz r) s \<Longrightarrow> cell_at (rg_sx r) ?ids s = (if s \<in> set ?cs \<and> ruled_out bn mushroom_limits r s then - 2 else - 1)" for s
    using rule_out_cells [OF cs, of "replicate (nat (rg_sx r * rg_sz r)) (- 1)" bn mushroom_limits s] by (simp_all add: cell_at_replicate)
  have "seen r ?ids = {}" using ro(2) by (auto simp: seen_def INT_MAX_def split: if_splits)
  then have none: "seen r ?ids \<inter> large ?eval r MUSHROOM_FIELDS minsiz = {}" by blast
  note first = scan_centers_first [OF r m ro(1) cs none, of ?tol]
  have t: "cubiomes_test_biome_centers bn x z range' min_area scale tol =
      map_option (\<lambda>found. case found of
             [(pos, siz)] \<Rightarrow> Some \<lparr>pa_x = fst pos, pa_z = snd pos, pa_area = siz * (scale * scale)\<rparr> | _ \<Rightarrow> None) ?found"
    by (simp add: cubiomes_test_biome_centers_def getBiomeCentersOpt_def Let_def r_def minsiz_def)
  show ?thesis
  proof (cases ?found)
    case None
    then show ?thesis using first by simp
  next
    case (Some found)
    show ?thesis
    proof (cases found)
      case Nil
      then have "list_all (\<lambda>s. s \<in> large ?eval r MUSHROOM_FIELDS minsiz \<longrightarrow> cell_at (rg_sx r) ?ids s \<noteq> - 1) ?cs" using first Some by simp
      moreover have "ruled_out bn mushroom_limits r s" if "s \<in> set ?cs" "cell_at (rg_sx r) ?ids s \<noteq> - 1" for s
        using that ro(2) [of s] cs by (auto simp: list_all_iff split: if_splits)
      ultimately have "list_all (\<lambda>s. s \<in> large ?eval r MUSHROOM_FIELDS minsiz \<longrightarrow> ruled_out bn mushroom_limits r s) ?cs"
        unfolding list_all_iff by blast
      then show ?thesis using Nil Some unfolding t by simp
    next
      case (Cons y ys)
      then obtain K where K: "ys = []" "K \<subseteq> matching ?eval r MUSHROOM_FIELDS" "minsiz \<le> int (card K)" "y = (centre_of_cells r K, int (card K))"
        using first Some by auto
      then show ?thesis using Cons Some unfolding t by (auto intro!: exI [of _ K])
    qed
  qed
qed

text \<open>
  C13: A fill never leaves its arrays: the queue, which has room for as many entries as the grid has cells, is
  large enough although cells may wait in it several times. It counts the matching cells it reaches, with
  their rounded centroid, and all of every region that it reaches and of which nothing had been seen.
\<close>

theorem floodFillGen_counts:
  assumes "0 < rg_sx r" "0 < rg_sz r" "length ids = nat (rg_sx r * rg_sz r)" "in_grid (rg_sx r) (rg_sz r) start"
  shows "case floodFillGen eval r match tol start ids of
           None \<Rightarrow> False
         | Some (ids', n, center) \<Rightarrow>
             length ids' = length ids \<and> start \<in> seen r ids' \<and>
             (let K = counted eval r match (seen r ids) ids'
              in n = int (card K) \<and> center = (if K \<noteq> {} then Some (centre_of_cells r K) else None) \<and>
                 (\<forall>c\<in>K. component (matching eval r match) c \<inter> seen r ids = {} \<longrightarrow> component (matching eval r match) c \<subseteq> K))"
proof -
  obtain ids' where f: "floodFillGen eval r match tol start ids = Some (ids', int (card (counted eval r match (seen r ids) ids')),
         if counted eval r match (seen r ids) ids' \<noteq> {} then Some (centre_of_cells r (counted eval r match (seen r ids) ids')) else None)"
      and f': "length ids' = nat (rg_sx r * rg_sz r)" "start \<in> seen r ids'"
        "closed_in r (counted eval r match (seen r ids) ids') (seen r ids')"
    by (rule floodFillGen_ok [OF assms, of eval match tol, folded centre_of_cells_def])
  have "\<forall>c\<in>counted eval r match (seen r ids) ids'. component (matching eval r match) c \<inter> seen r ids = {} \<longrightarrow>
      component (matching eval r match) c \<subseteq> counted eval r match (seen r ids) ids'"
    using component_counted [OF f'(3)] by blast
  then show ?thesis unfolding f option.case prod.case Let_def using f'(1,2) assms(3) by (intro conjI refl) simp_all
qed

lemma floodFillGen_counts_witness:
  "floodFillGen (\<lambda>x z. if x = 7 then 14 else 0) \<lparr>rg_scale = 4, rg_x = 5, rg_z = 5, rg_sx = 5, rg_sz = 5, rg_y = 0, rg_sy = 1\<rparr> 14 2 (2, 2)
     (replicate 25 (- 1)) \<noteq> None"
  using floodFillGen_counts [of "\<lparr>rg_scale = 4, rg_x = 5, rg_z = 5, rg_sx = 5, rg_sz = 5, rg_y = 0, rg_sy = 1\<rparr>" "replicate 25 (- 1)" "(2, 2)"
      "\<lambda>x z. if x = 7 then 14 else 0" 14 2]
  by (cases "floodFillGen (\<lambda>x z. if x = 7 then 14 else 0) \<lparr>rg_scale = 4, rg_x = 5, rg_z = 5, rg_sx = 5, rg_sz = 5, rg_y = 0, rg_sy = 1\<rparr> 14 2 (2, 2)
     (replicate 25 (- 1))") (simp_all only: option.case option.distinct in_grid_def, simp_all)



end
