(* ===== verification/BiomeSample.thy ===== *)
theory BiomeSample
  imports Centers
begin

text \<open>
  The biome of a cell and the generator the CPU threads use (\<open>sampleBiomeNoise\<close> in
  \<open>src/cubiomes/biomenoise.c\<close>; \<open>cubiomes_sample_biome_2y\<close>, \<open>cubiomes_get_biome_at_block\<close>,
  \<open>cubiomes_voronoi_map\<close>, \<open>eval\<close> and \<open>cubiomes_test_monte_carlo\<close> in \<open>src/src/cubiomes.c\<close>).
  Arithmetic in \<open>float\<close> is arithmetic of rationals followed by a rounding function \<open>f32\<close>, which is a
  parameter, as are the spline of the terrain, the search tree from climates to biomes, the
  Monte Carlo estimate, and the noises a seed gives; \<open>ClimateWorld\<close> fills them in. The lemmas say that the
  sampler of two layers with its early exit agrees with the general one about mushroom fields, and that the
  check of the origin agrees with the measurement, so that origin mode accepts exactly the large islands at the
  origin.
\<close>

section \<open>Definitions\<close>

record Env =
  f32 :: "rat \<Rightarrow> rat"
  getSpline :: "rat list \<Rightarrow> rat"
  climateToBiome :: "int list \<Rightarrow> nat option \<Rightarrow> int \<times> nat option"

text \<open>\<open>px\<close> and \<open>pz\<close>: the position, shifted by the noise with index 4.\<close>

definition shifted :: "BiomeNoise \<Rightarrow> int \<Rightarrow> int \<Rightarrow> rat \<times> rat" where
  "shifted bn x z =
     (of_int x + sampleDoublePerlin (bn_climate bn ! 4) (of_int x) 0 (of_int z) * 4,
      of_int z + sampleDoublePerlin (bn_climate bn ! 4) (of_int z) (of_int x) 0 * 4)"

definition spline_weirdness :: "Env \<Rightarrow> rat \<Rightarrow> rat" where
  "spline_weirdness env w =
     f32 env (- 3 * f32 env (\<bar>f32 env (\<bar>w\<bar> - f32 env 0.6666667)\<bar> - f32 env 0.33333334))"

definition depth_at :: "Env \<Rightarrow> rat \<Rightarrow> int \<Rightarrow> rat" where
  "depth_at env off y = f32 env (1 - of_int (y * 4) / 128 - 83 / 160 + off)"

definition climate_points :: "Env \<Rightarrow> rat \<Rightarrow> rat \<Rightarrow> rat \<Rightarrow> rat \<Rightarrow> rat \<Rightarrow> rat \<Rightarrow> int list" where
  "climate_points env t h c e d w = map (\<lambda>v. c_int (f32 env (10000 * v))) [t, h, c, e, d, w]"

text \<open>
  \<open>sampleBiomeNoise\<close> for a noise that is not restricted to one climate parameter: the climate it leaves in
  \<open>p_np\<close>, and the biome with the new \<open>dat\<close>, the leaf where the next search may start. Of the flags only
  \<open>SAMPLE_NO_SHIFT\<close> occurs in this program.
\<close>

definition climate_from :: "Env \<Rightarrow> BiomeNoise \<Rightarrow> rat \<times> rat \<Rightarrow> int \<Rightarrow> int list" where
  "climate_from env bn p y =
     (let (px, pz) = p;
          climate = (\<lambda>k. f32 env (sampleDoublePerlin (bn_climate bn ! k) px 0 pz));
          c = climate 2;
          e = climate 3;
          w = climate 5;
          np_param = [c, e, spline_weirdness env w, w];
          off = f32 env (getSpline env np_param + f32 env 0.015);
          d = depth_at env off y;
          t = climate 0;
          h = climate 1
      in climate_points env t h c e d w)"

definition sampleBiomeNoise_with :: "Env \<Rightarrow> BiomeNoise \<Rightarrow> bool \<Rightarrow> int \<times> int \<times> int \<Rightarrow> nat option \<Rightarrow> int \<times> nat option" where
  "sampleBiomeNoise_with env bn no_shift xyz dat =
     (let (x, y, z) = xyz;
          p = (if no_shift then (of_int x, of_int z) else shifted bn x z)
      in climateToBiome env (climate_from env bn p y) dat)"

definition sampleBiomeNoise :: "Env \<Rightarrow> BiomeNoise \<Rightarrow> int \<Rightarrow> int \<Rightarrow> int \<Rightarrow> int" where
  "sampleBiomeNoise env bn x y z = fst (sampleBiomeNoise_with env bn False (x, y, z) None)"

definition climate_at :: "Env \<Rightarrow> BiomeNoise \<Rightarrow> int \<Rightarrow> int \<Rightarrow> int \<Rightarrow> int list" where
  "climate_at env bn x y z = climate_from env bn (shifted bn x z) y"

lemma sampleBiomeNoise_climate: "sampleBiomeNoise env bn x y z = fst (climateToBiome env (climate_at env bn x y z) None)"
  by (simp add: sampleBiomeNoise_def sampleBiomeNoise_with_def climate_at_def)

text \<open>Both layers at once, with the early exit above the limit of the continentalness.\<close>

definition cubiomes_sample_biome_2y :: "Env \<Rightarrow> BiomeNoise \<Rightarrow> int \<Rightarrow> int \<Rightarrow> int \<Rightarrow> int \<times> int" where
  "cubiomes_sample_biome_2y env bn x4 z4 cont_max =
     (let px = of_int x4 + fast_sampleDoublePerlin (bn_climate bn ! 4) (of_int x4) 0 (of_int z4) * 4;
          pz = of_int z4 + fast_sampleDoublePerlin (bn_climate bn ! 4) (of_int z4) (of_int x4) 0 * 4;
          climate = (\<lambda>k. f32 env (fast_sampleDoublePerlin (bn_climate bn ! k) px 0 pz));
          c = climate 2
      in if cont_max < c_int (f32 env (10000 * c)) then (0, 0)
         else let e = climate 3;
                  w = climate 5;
                  np_param = [c, e, spline_weirdness env w, w];
                  off = f32 env (getSpline env np_param + f32 env 0.015);
                  t = climate 0;
                  h = climate 1
              in (fst (climateToBiome env (climate_points env t h c e (depth_at env off 15) w) None),
                  fst (climateToBiome env (climate_points env t h c e (depth_at env off 16) w) None)))"

definition cubiomes_get_mushroom_cont_max :: int where
  "cubiomes_get_mushroom_cont_max = snd (the (mushroom_limits 2))"

text \<open>A generator with a seed applied.\<close>

record Generator =
  g_bn :: BiomeNoise
  g_sha :: u64
  g_seed :: u64

definition applySeed :: "(u64 \<Rightarrow> BiomeNoise) \<Rightarrow> u64 \<Rightarrow> Generator" where
  "applySeed setBiomeSeed seed = \<lparr>g_bn = setBiomeSeed seed, g_sha = getVoronoiSHA seed, g_seed = seed\<rparr>"

definition cubiomes_get_biome_at_block :: "Env \<Rightarrow> Generator \<Rightarrow> int \<Rightarrow> int \<Rightarrow> int \<Rightarrow> int" where
  "cubiomes_get_biome_at_block env g x y z =
     (let (x4, y4, z4) = voronoiAccess3D (g_sha g) x y z in sampleBiomeNoise env (g_bn g) x4 y4 z4)"

text \<open>The cell test of the Monte Carlo estimate, and the estimate itself.\<close>

definition mc_eval :: "BiomeNoise \<Rightarrow> int \<Rightarrow> int \<Rightarrow> bool" where
  "mc_eval bn x z = (let (px, pz) = shifted bn x z in sampleDoublePerlin (bn_climate bn ! 2) px 0 pz < - 1.05)"

definition cubiomes_test_monte_carlo ::
    "(Range \<Rightarrow> u64 \<Rightarrow> rat \<Rightarrow> rat \<Rightarrow> (int \<Rightarrow> int \<Rightarrow> bool) \<Rightarrow> bool) \<Rightarrow> Generator \<Rightarrow> int \<Rightarrow> int \<Rightarrow> int \<Rightarrow> int \<Rightarrow> rat \<Rightarrow> bool" where
  "cubiomes_test_monte_carlo monteCarloBiomes g x z range' min_area confidence =
     (let r = make_range x z range' 4;
          fraction = of_int min_area / of_int (rg_sx r * rg_sz r * rg_scale r * rg_scale r)
      in monteCarloBiomes r (g_seed g) fraction confidence (mc_eval (g_bn g)))"

text \<open>What the CPU threads call, put together.\<close>

definition cubiomes_of ::
    "Env \<Rightarrow> (u64 \<Rightarrow> BiomeNoise) \<Rightarrow> (Range \<Rightarrow> u64 \<Rightarrow> rat \<Rightarrow> rat \<Rightarrow> (int \<Rightarrow> int \<Rightarrow> bool) \<Rightarrow> bool) \<Rightarrow> Cubiomes" where
  "cubiomes_of env setBiomeSeed monteCarloBiomes =
     \<lparr>cb_world = (\<lambda>seed. let g = applySeed setBiomeSeed seed in
        \<lparr>wd_sha = g_sha g, biome_2y = (\<lambda>x4 z4. cubiomes_sample_biome_2y env (g_bn g) x4 z4 cubiomes_get_mushroom_cont_max)\<rparr>),
      monte_carlo = (\<lambda>seed x z range' area. cubiomes_test_monte_carlo monteCarloBiomes (applySeed setBiomeSeed seed) x z range' area 0.999),
      biome_centers = (\<lambda>seed x z range' area scale tol.
        the (cubiomes_test_biome_centers (g_bn (applySeed setBiomeSeed seed)) x z range' area scale tol)),
      biome_at_block = (\<lambda>seed x y z. cubiomes_get_biome_at_block env (applySeed setBiomeSeed seed) x y z)\<rparr>"

section \<open>The two samplers\<close>

text \<open>What the limits in the table of climate parameters mean: beyond them the biome does not occur.\<close>

definition limit_holds :: "Env \<Rightarrow> BiomeNoise \<Rightarrow> bool" where
  "limit_holds env bn \<longleftrightarrow>
     (\<forall>x z. \<forall>y\<in>{15, 16}. cubiomes_get_mushroom_cont_max < climate_at env bn x y z ! 2 \<longrightarrow>
        sampleBiomeNoise env bn x y z \<noteq> MUSHROOM_FIELDS)"

lemma sample_2y_is_sample:
  assumes "limit_holds env bn"
  shows "fst (cubiomes_sample_biome_2y env bn x z cubiomes_get_mushroom_cont_max) = MUSHROOM_FIELDS \<longleftrightarrow> sampleBiomeNoise env bn x 15 z = MUSHROOM_FIELDS"
    and "snd (cubiomes_sample_biome_2y env bn x z cubiomes_get_mushroom_cont_max) = MUSHROOM_FIELDS \<longleftrightarrow> sampleBiomeNoise env bn x 16 z = MUSHROOM_FIELDS"
proof -
  have fast: "fast_sampleDoublePerlin = sampleDoublePerlin" using fast_noise_is_noise by blast
  obtain px pz where p: "shifted bn x z = (px, pz)" by (cases "shifted bn x z")
  let ?cl = "\<lambda>k. f32 env (sampleDoublePerlin (bn_climate bn ! k) px 0 pz)"
  let ?off = "f32 env (getSpline env [?cl 2, ?cl 3, spline_weirdness env (?cl 5), ?cl 5] + f32 env 0.015)"
  let ?np = "\<lambda>y. climate_points env (?cl 0) (?cl 1) (?cl 2) (?cl 3) (depth_at env ?off y) (?cl 5)"
  have c: "climate_at env bn x y z = ?np y" for y by (simp add: climate_at_def climate_from_def p Let_def)
  then have s: "sampleBiomeNoise env bn x y z = fst (climateToBiome env (?np y) None)" for y by (simp add: sampleBiomeNoise_climate)
  have t: "cubiomes_sample_biome_2y env bn x z m =
      (if m < c_int (f32 env (10000 * ?cl 2)) then (0, 0) else (fst (climateToBiome env (?np 15) None), fst (climateToBiome env (?np 16) None)))" for m
    using p by (simp add: cubiomes_sample_biome_2y_def fast shifted_def Let_def)
  have n: "length (?np y) = 6" "?np y ! 2 = c_int (f32 env (10000 * ?cl 2))" for y by (simp_all add: climate_points_def)
  have none: "fst (climateToBiome env (?np y) None) \<noteq> MUSHROOM_FIELDS"
    if "cubiomes_get_mushroom_cont_max < c_int (f32 env (10000 * ?cl 2))" "y = 15 \<or> y = 16" for y
  proof -
    have "y \<in> {15, 16}" "cubiomes_get_mushroom_cont_max < climate_at env bn x y z ! 2" using that n(2) c by auto
    then show ?thesis using assms s unfolding limit_holds_def by metis
  qed
  show "fst (cubiomes_sample_biome_2y env bn x z cubiomes_get_mushroom_cont_max) = MUSHROOM_FIELDS \<longleftrightarrow> sampleBiomeNoise env bn x 15 z = MUSHROOM_FIELDS"
    and "snd (cubiomes_sample_biome_2y env bn x z cubiomes_get_mushroom_cont_max) = MUSHROOM_FIELDS \<longleftrightarrow> sampleBiomeNoise env bn x 16 z = MUSHROOM_FIELDS"
    unfolding s t using none by (auto simp: MUSHROOM_FIELDS_def)
qed

section \<open>Origin mode\<close>

lemma block_is_mushroom_block:
  assumes "limit_holds env (sb seed)"
  shows "cubiomes_get_biome_at_block env (applySeed sb seed) x 62 z = MUSHROOM_FIELDS \<longleftrightarrow>
         mushroom_block (cb_world (cubiomes_of env sb mc) seed) x z"
proof -
  let ?sha = "getVoronoiSHA seed"
  obtain x4 y4 z4 where v: "voronoiAccess3D ?sha x 62 z = (x4, y4, z4)" by (metis prod_cases3)
  have "15 \<le> y4" "y4 \<le> 16" using conjunct2 [OF voronoiAccess3D_near [of ?sha x 62 z]] unfolding v by simp_all
  then have "y4 = 15 \<or> y4 = 16" by linarith
  then show ?thesis using v sample_2y_is_sample [OF assms, of x4 z4]
    by (auto simp: cubiomes_get_biome_at_block_def applySeed_def mushroom_block_def cubiomes_of_def Let_def MUSHROOM_FIELDS_def)
qed

text \<open>Origin mode as a whole, for any generator whose mushroom fields keep within their limit.\<close>

lemma origin_mode_base:
  assumes "limit_holds env (sb (cd_seed input))" "inside (max_radius l) (island (cb_world (cubiomes_of env sb mc) (cd_seed input)))"
  shows "process_origin l False (cubiomes_of env sb mc) nthreads min_size input =
     (let world = cb_world (cubiomes_of env sb mc) (cd_seed input); C = island world
      in if mushroom_block world 0 0 \<and> min_size \<le> int (card C)
         then Some \<lparr>co_seed = cd_seed input, co_x = (\<Sum>(x, z)\<in>C. x) sdiv int (card C),
                    co_z = (\<Sum>(x, z)\<in>C. z) sdiv int (card C), co_score = int (card C)\<rparr>
         else None)"
proof (cases "mushroom_block (cb_world (cubiomes_of env sb mc) (cd_seed input)) 0 0")
  case True
  then have b: "biome_at_block (cubiomes_of env sb mc) (cd_seed input) 0 62 0 = 14"
    using block_is_mushroom_block [of env sb "cd_seed input" 0 0 mc, OF assms(1)] by (simp add: cubiomes_of_def MUSHROOM_FIELDS_def)
  show ?thesis
    unfolding Let_def process_origin_exact_base [OF True assms(2), of nthreads min_size] using True b by simp
next
  case False
  then have "biome_at_block (cubiomes_of env sb mc) (cd_seed input) 0 62 0 \<noteq> 14"
    using block_is_mushroom_block [of env sb "cd_seed input" 0 0 mc, OF assms(1)] by (simp add: cubiomes_of_def MUSHROOM_FIELDS_def)
  then show ?thesis using False by (simp add: process_origin_def Let_def)
qed

end
