(* ===== verification/ClimateTree.thy ===== *)
theory ClimateTree
  imports Prelude
begin

text \<open>
  The search for the biome of a climate (\<open>get_np_dist\<close>, \<open>get_resulting_node\<close> and \<open>climateToBiome\<close> in
  \<open>src/cubiomes/biomenoise.c\<close>). The biomes of a version are the leaves of a search tree that is stored in one
  array; every node has a box of six climate intervals, and the search walks the tree and leaves out every
  subtree whose box is not nearer than the best leaf so far. The tables themselves
  (\<open>src/cubiomes/tables\<close>) are generated data and a parameter; what the search needs of them is
  \<open>tree_ok\<close>. The theorem says that the pruned search finds the first of the nearest leaves.
\<close>

section \<open>Definitions\<close>

record BiomeTree =
  bt_steps :: "nat list"
  bt_param :: "int list"
  bt_nodes :: "u64 list"
  bt_order :: nat

definition bt_len :: "BiomeTree \<Rightarrow> nat" where
  "bt_len bt = length (bt_nodes bt)"

text \<open>The index into the parameters that byte \<open>i\<close> of a node holds.\<close>

definition param_index :: "BiomeTree \<Rightarrow> nat \<Rightarrow> nat \<Rightarrow> nat" where
  "param_index bt idx i = unat (drop_bit (8 * i) (bt_nodes bt ! idx) AND 0xFF)"

text \<open>The square of the distance on one axis, in 64 bits.\<close>

definition axis_dist :: "int \<Rightarrow> int \<Rightarrow> u64 \<Rightarrow> u64" where
  "axis_dist lo hi p =
     (let a = p - word_of_int hi;
          b = word_of_int lo - p;
          d = (if 0 < sint a then a else if 0 < sint b then b else 0)
      in d * d)"

definition get_np_dist :: "u64 list \<Rightarrow> BiomeTree \<Rightarrow> nat \<Rightarrow> u64" where
  "get_np_dist np bt idx =
     sum_list (map (\<lambda>i.
       let k = param_index bt idx i
       in axis_dist (bt_param bt ! (2 * k)) (bt_param bt ! (2 * k + 1)) (np ! i)) [0..<6])"

text \<open>
  The loop that skips the levels an incomplete subtree does not have. A level is the tail of the steps that
  starts there; \<open>None\<close> stands for a read past the end of the steps.
\<close>

fun tree_step :: "nat \<Rightarrow> nat \<Rightarrow> nat list \<Rightarrow> (nat \<times> nat list) option" where
  "tree_step idx len [] = None"
| "tree_step idx len (step # rest) = (if len \<le> idx + step then tree_step idx len rest else Some (step, rest))"

text \<open>The inner nodes the loop visits: the first one is not compared with the length, \<open>inner\<close> has 16 bits.\<close>

primrec inners_from :: "nat \<Rightarrow> nat \<Rightarrow> nat \<Rightarrow> u16 \<Rightarrow> nat list" where
  "inners_from 0 step len inner = []"
| "inners_from (Suc n) step len inner =
     unat inner # (let inner = inner + of_nat step in if len \<le> unat inner then [] else inners_from n step len inner)"

definition inners :: "BiomeTree \<Rightarrow> nat \<Rightarrow> nat \<Rightarrow> nat list" where
  "inners bt step idx = inners_from (bt_order bt) step (bt_len bt) (ucast (drop_bit 48 (bt_nodes bt ! idx)))"

lemma tree_step_shorter: "tree_step idx len steps = Some (step, rest) \<Longrightarrow> length rest < length steps"
  by (induction steps) (auto split: if_splits)

function (sequential) get_resulting_node :: "u64 list \<Rightarrow> BiomeTree \<Rightarrow> nat list \<Rightarrow> nat \<Rightarrow> nat \<Rightarrow> u64 \<Rightarrow> nat option"
  and inner_loop :: "u64 list \<Rightarrow> BiomeTree \<Rightarrow> nat list \<Rightarrow> nat list \<Rightarrow> nat \<Rightarrow> u64 \<Rightarrow> nat option" where
  "get_resulting_node np bt [] idx alt ds = None"
| "get_resulting_node np bt (s # ss) idx alt ds =
     (if s = 0 then Some idx
      else case tree_step idx (bt_len bt) (s # ss) of None \<Rightarrow> None
         | Some (step, rest) \<Rightarrow> inner_loop np bt rest (inners bt step idx) alt ds)"
| "inner_loop np bt rest [] leaf ds = Some leaf"
| "inner_loop np bt rest (inner # todo) leaf ds =
     (let ds_inner = get_np_dist np bt inner
      in if ds_inner < ds
         then case get_resulting_node np bt rest inner leaf ds of None \<Rightarrow> None
            | Some leaf2 \<Rightarrow>
                let ds_leaf2 = (if inner = leaf2 then ds_inner else get_np_dist np bt leaf2)
                in if ds_leaf2 < ds then inner_loop np bt rest todo leaf2 ds_leaf2
                   else inner_loop np bt rest todo leaf ds
         else inner_loop np bt rest todo leaf ds)"
  by pat_completeness auto

termination
  by (relation "inv_image (less_than <*lex*> less_than)
      (case_sum (\<lambda>(np, bt, steps, _). (length steps, 0)) (\<lambda>(np, bt, rest, todo, _). (length rest, length todo)))")
    (auto dest!: tree_step_shorter simp del: tree_step.simps)

text \<open>The tables of the versions, and the choice between them.\<close>

record ClimateTables =
  btree18 :: BiomeTree
  btree192 :: BiomeTree
  btree19 :: BiomeTree
  btree20 :: BiomeTree
  btree21wd :: BiomeTree

definition MC_1_19_2 :: int where "MC_1_19_2 = 23"
definition MC_1_19_4 :: int where "MC_1_19_4 = 24"
definition MC_1_20_6 :: int where "MC_1_20_6 = 25"
definition MC_1_21_WD :: int where "MC_1_21_WD = 28"

definition choose_tree :: "ClimateTables \<Rightarrow> int \<Rightarrow> BiomeTree" where
  "choose_tree tables mc =
     (if MC_1_21_WD \<le> mc then btree21wd tables
      else if MC_1_20_6 \<le> mc then btree20 tables
      else if MC_1_19_4 \<le> mc then btree19 tables
      else if MC_1_19_2 \<le> mc then btree192 tables
      else btree18 tables)"

text \<open>\<open>dat\<close> holds the leaf of the call before; the biome and the new \<open>dat\<close> are returned.\<close>

definition leaf_biome :: "BiomeTree \<Rightarrow> nat \<Rightarrow> int" where
  "leaf_biome bt idx = uint (drop_bit 48 (bt_nodes bt ! idx) AND 0xFF)"

definition climateToBiome_tree :: "BiomeTree \<Rightarrow> u64 list \<Rightarrow> nat option \<Rightarrow> (int \<times> nat option) option" where
  "climateToBiome_tree bt np dat =
     (case dat of
        Some alt \<Rightarrow> map_option (\<lambda>idx. (leaf_biome bt idx, Some idx))
          (get_resulting_node np bt (bt_steps bt) 0 alt (get_np_dist np bt alt))
      | None \<Rightarrow> map_option (\<lambda>idx. (leaf_biome bt idx, None)) (get_resulting_node np bt (bt_steps bt) 0 0 (- 1)))"

definition climateToBiome_at :: "ClimateTables \<Rightarrow> int \<Rightarrow> int list \<Rightarrow> nat option \<Rightarrow> (int \<times> nat option) option" where
  "climateToBiome_at tables mc np dat = climateToBiome_tree (choose_tree tables mc) (map word_of_int np) dat"

section \<open>Distances\<close>

text \<open>The intervals of a node, and the distance of a point of integers.\<close>

definition lo_of :: "BiomeTree \<Rightarrow> nat \<Rightarrow> nat \<Rightarrow> int" where
  "lo_of bt idx i = bt_param bt ! (2 * param_index bt idx i)"

definition hi_of :: "BiomeTree \<Rightarrow> nat \<Rightarrow> nat \<Rightarrow> int" where
  "hi_of bt idx i = bt_param bt ! (2 * param_index bt idx i + 1)"

definition gap :: "int \<Rightarrow> int \<Rightarrow> int \<Rightarrow> int" where
  "gap lo hi p = (if hi < p then p - hi else if p < lo then lo - p else 0)"

definition node_dist :: "int list \<Rightarrow> BiomeTree \<Rightarrow> nat \<Rightarrow> int" where
  "node_dist np bt idx = sum_list (map (\<lambda>i. (gap (lo_of bt idx i) (hi_of bt idx i) (np ! i))\<^sup>2) [0..<6])"

definition node_ok :: "BiomeTree \<Rightarrow> nat \<Rightarrow> bool" where
  "node_ok bt idx \<longleftrightarrow>
     idx < bt_len bt \<and>
     list_all (\<lambda>i. 2 * param_index bt idx i + 1 < length (bt_param bt) \<and>
       - (2 ^ 28) \<le> lo_of bt idx i \<and> lo_of bt idx i \<le> hi_of bt idx i \<and> hi_of bt idx i \<le> 2 ^ 28) [0..<6]"

definition point_ok :: "int list \<Rightarrow> bool" where
  "point_ok np \<longleftrightarrow> length np = 6 \<and> list_all (\<lambda>p. - (2 ^ 28) \<le> p \<and> p \<le> 2 ^ 28) np"

lemma six: "[0..<6] = [0, 1, 2, 3, 4, 5 :: nat]"
  by (simp add: upt_rec)

lemma sint_word_of_int64: "- (2 ^ 63) \<le> v \<Longrightarrow> v < 2 ^ 63 \<Longrightarrow> sint (word_of_int v :: u64) = v"
  by (simp add: signed_of_int signed_take_bit_int_eq_self)

lemma gap_bounds:
  assumes "- (2 ^ 28) \<le> lo" "lo \<le> hi" "hi \<le> 2 ^ 28" "- (2 ^ 28) \<le> p" "p \<le> 2 ^ 28"
  shows "0 \<le> gap lo hi p" "gap lo hi p \<le> 2 ^ 29"
  using assms by (simp_all add: gap_def)

lemma gap_square_bound:
  assumes "- (2 ^ 28) \<le> lo" "lo \<le> hi" "hi \<le> 2 ^ 28" "- (2 ^ 28) \<le> p" "p \<le> 2 ^ 28"
  shows "(gap lo hi p)\<^sup>2 \<le> 2 ^ 58"
proof -
  have "(gap lo hi p)\<^sup>2 \<le> (2 ^ 29)\<^sup>2" using gap_bounds [OF assms] by (intro power_mono) simp_all
  then show ?thesis by simp
qed

lemma axis_dist_gap:
  assumes "- (2 ^ 28) \<le> lo" "lo \<le> hi" "hi \<le> 2 ^ 28" "- (2 ^ 28) \<le> p" "p \<le> 2 ^ 28"
  shows "axis_dist lo hi (word_of_int p) = word_of_int ((gap lo hi p)\<^sup>2)"
proof -
  have a: "(word_of_int p - word_of_int hi :: u64) = word_of_int (p - hi)" "(word_of_int lo - word_of_int p :: u64) = word_of_int (lo - p)"
    by simp_all
  have s: "sint (word_of_int (p - hi) :: u64) = p - hi" "sint (word_of_int (lo - p) :: u64) = lo - p"
    by (rule sint_word_of_int64; use assms in simp)+
  show ?thesis unfolding axis_dist_def a Let_def s by (simp add: gap_def power2_eq_square)
qed

lemma get_np_dist_int:
  assumes "node_ok bt idx" "point_ok np"
  shows "get_np_dist (map word_of_int np) bt idx = word_of_int (node_dist np bt idx)" "0 \<le> node_dist np bt idx" "node_dist np bt idx < 2 ^ 63"
proof -
  have b: "- (2 ^ 28) \<le> lo_of bt idx i" "lo_of bt idx i \<le> hi_of bt idx i" "hi_of bt idx i \<le> 2 ^ 28"
      "- (2 ^ 28) \<le> np ! i" "np ! i \<le> 2 ^ 28" "i < length np" if "i < 6" for i
    using assms that by (simp_all add: node_ok_def point_ok_def list_all_length)
  let ?t = "\<lambda>i. (gap (lo_of bt idx i) (hi_of bt idx i) (np ! i))\<^sup>2"
  have "get_np_dist (map word_of_int np) bt idx = sum_list (map (\<lambda>i. word_of_int (?t i)) [0..<6])"
    unfolding get_np_dist_def Let_def lo_of_def [symmetric] hi_of_def [symmetric]
    by (rule arg_cong [where f = sum_list], rule map_cong [OF refl]) (use b in \<open>simp del: of_int_power add: axis_dist_gap\<close>)
  also have "\<dots> = word_of_int (node_dist np bt idx)" by (simp add: node_dist_def six)
  finally show "get_np_dist (map word_of_int np) bt idx = word_of_int (node_dist np bt idx)" .
  show "0 \<le> node_dist np bt idx" unfolding node_dist_def by (rule sum_list_nonneg) auto
  have "?t i \<le> 2 ^ 58" if "i < 6" for i using b [OF that] by (intro gap_square_bound)
  from this [of 0] this [of 1] this [of 2] this [of 3] this [of 4] this [of 5]
  show "node_dist np bt idx < 2 ^ 63" by (simp add: node_dist_def six)
qed

text \<open>A box that lies in another is not nearer.\<close>

definition box_within :: "BiomeTree \<Rightarrow> nat \<Rightarrow> nat \<Rightarrow> bool" where
  "box_within bt p c \<longleftrightarrow> list_all (\<lambda>i. lo_of bt p i \<le> lo_of bt c i \<and> hi_of bt c i \<le> hi_of bt p i) [0..<6]"

lemma gap_mono:
  assumes "lo \<le> lo'" "lo' \<le> hi'" "hi' \<le> hi"
  shows "(gap lo hi p)\<^sup>2 \<le> (gap lo' hi' p)\<^sup>2"
  using assms by (intro power_mono) (auto simp: gap_def)

lemma box_within_dist:
  assumes "box_within bt p c" "node_ok bt c"
  shows "node_dist np bt p \<le> node_dist np bt c"
  unfolding node_dist_def
  by (rule sum_list_mono, rule gap_mono) (use assms in \<open>auto simp: box_within_def node_ok_def list_all_iff\<close>)

section \<open>The leaves\<close>

text \<open>The leaves below a node, in the order of the array walk, and a subtree in which boxes contain boxes.\<close>

function (sequential) leaves_below :: "BiomeTree \<Rightarrow> nat list \<Rightarrow> nat \<Rightarrow> nat list" where
  "leaves_below bt [] idx = []"
| "leaves_below bt (s # ss) idx =
     (if s = 0 then [idx]
      else case tree_step idx (bt_len bt) (s # ss) of None \<Rightarrow> []
         | Some (step, rest) \<Rightarrow> concat (map (leaves_below bt rest) (inners bt step idx)))"
  by pat_completeness auto

termination
  by (relation "measure (\<lambda>(bt, steps, idx). length steps)") (auto dest!: tree_step_shorter simp del: tree_step.simps)

function (sequential) subtree_ok :: "BiomeTree \<Rightarrow> nat list \<Rightarrow> nat \<Rightarrow> bool" where
  "subtree_ok bt [] idx = False"
| "subtree_ok bt (s # ss) idx =
     (node_ok bt idx \<and>
      (s = 0 \<or> (case tree_step idx (bt_len bt) (s # ss) of None \<Rightarrow> False
         | Some (step, rest) \<Rightarrow>
             inners bt step idx \<noteq> [] \<and> list_all (\<lambda>c. box_within bt idx c \<and> subtree_ok bt rest c) (inners bt step idx))))"
  by pat_completeness auto

termination
  by (relation "measure (\<lambda>(bt, steps, idx). length steps)") (auto dest!: tree_step_shorter simp del: tree_step.simps)

text \<open>The root itself needs no box.\<close>

definition root_inners :: "BiomeTree \<Rightarrow> (nat list \<times> nat list) option" where
  "root_inners bt = map_option (\<lambda>(step, rest). (rest, inners bt step 0)) (tree_step 0 (bt_len bt) (bt_steps bt))"

definition tree_ok :: "BiomeTree \<Rightarrow> bool" where
  "tree_ok bt \<longleftrightarrow>
     bt_steps bt \<noteq> [] \<and> hd (bt_steps bt) \<noteq> 0 \<and>
     (case root_inners bt of None \<Rightarrow> False | Some (rest, cs) \<Rightarrow> cs \<noteq> [] \<and> list_all (subtree_ok bt rest) cs)"

definition tree_leaves :: "BiomeTree \<Rightarrow> nat list" where
  "tree_leaves bt = leaves_below bt (bt_steps bt) 0"

text \<open>The linear search: the first of the leaves that beat everything before.\<close>

definition nearer :: "int list \<Rightarrow> BiomeTree \<Rightarrow> nat \<Rightarrow> nat \<times> u64 \<Rightarrow> nat \<times> u64" where
  "nearer np bt l = (\<lambda>(leaf, ds).
     let d = get_np_dist (map word_of_int np) bt l in if d < ds then (l, d) else (leaf, ds))"

definition best_of :: "int list \<Rightarrow> BiomeTree \<Rightarrow> nat list \<Rightarrow> nat \<times> u64 \<Rightarrow> nat \<times> u64" where
  "best_of np bt ls st = fold (nearer np bt) ls st"

lemma best_of_simps [simp]:
  "best_of np bt [] st = st"
  "best_of np bt (l # ls) st = best_of np bt ls (nearer np bt l st)"
  "best_of np bt (ls @ ms) st = best_of np bt ms (best_of np bt ls st)"
  by (simp_all add: best_of_def)

lemma leaves_dist:
  assumes "subtree_ok bt steps idx" "l \<in> set (leaves_below bt steps idx)"
  shows "node_ok bt l \<and> node_dist np bt idx \<le> node_dist np bt l"
  using assms
proof (induction bt steps idx rule: leaves_below.induct)
  case (2 bt s ss idx)
  show ?case
  proof (cases "s = 0")
    case True
    then show ?thesis using 2 by simp
  next
    case False
    then obtain step rest where st: "tree_step idx (bt_len bt) (s # ss) = Some (step, rest)"
      using 2(2) by (auto simp del: tree_step.simps split: option.splits)
    then obtain c where c: "c \<in> set (inners bt step idx)" "l \<in> set (leaves_below bt rest c)"
      using 2(3) False by (auto simp del: tree_step.simps)
    have ok: "subtree_ok bt rest c" "box_within bt idx c" using 2(2) False st c(1) by (auto simp: list_all_iff simp del: tree_step.simps)
    have "node_ok bt c" using ok(1) by (cases rest) auto
    then show ?thesis using 2(1) [OF False st refl c(1) ok(1) c(2)] box_within_dist [OF ok(2), of np] by simp
  qed
qed simp

lemma subtree_leaf:
  "subtree_ok bt steps idx \<Longrightarrow> leaves_below bt steps idx \<noteq> []"
proof (induction bt steps idx rule: leaves_below.induct)
  case (2 bt s ss idx)
  show ?case
  proof (cases "s = 0")
    case False
    then obtain step rest where st: "tree_step idx (bt_len bt) (s # ss) = Some (step, rest)"
      using 2(2) by (auto simp del: tree_step.simps split: option.splits)
    then obtain c cs where c: "inners bt step idx = c # cs" using 2(2) False by (cases "inners bt step idx") (auto simp del: tree_step.simps)
    then have "leaves_below bt rest c \<noteq> []" using 2(1) [OF False st refl, of c] 2(2) False st by (simp del: tree_step.simps)
    then show ?thesis using False st c by (simp del: tree_step.simps)
  qed simp
qed simp

section \<open>The pruned search\<close>

abbreviation point_dist :: "int list \<Rightarrow> BiomeTree \<Rightarrow> nat \<Rightarrow> u64" where
  "point_dist np bt idx \<equiv> get_np_dist (map word_of_int np) bt idx"

lemma point_dist_uint:
  assumes "node_ok bt idx" "point_ok np"
  shows "uint (point_dist np bt idx) = node_dist np bt idx"
  using get_np_dist_int [OF assms] by (simp add: uint_word_of_int_eq take_bit_int_eq_self)

lemma point_dist_le:
  assumes "node_ok bt a" "node_ok bt b" "point_ok np"
  shows "point_dist np bt a \<le> point_dist np bt b \<longleftrightarrow> node_dist np bt a \<le> node_dist np bt b"
  using assms by (simp add: word_le_def point_dist_uint)

lemma point_dist_less_max:
  assumes "node_ok bt idx" "point_ok np"
  shows "point_dist np bt idx < - 1"
proof -
  have "uint (- 1 :: u64) = 2 ^ 64 - 1" by (simp add: unsigned_minus_1_eq_mask mask_eq_exp_minus_1)
  then show ?thesis using get_np_dist_int(3) [OF assms] unfolding word_less_def point_dist_uint [OF assms] by simp
qed

text \<open>The distance that goes with the best leaf: its own, or the largest number before there is a leaf.\<close>

definition best_fits :: "int list \<Rightarrow> BiomeTree \<Rightarrow> nat \<times> u64 \<Rightarrow> bool" where
  "best_fits np bt st \<longleftrightarrow> snd st = point_dist np bt (fst st) \<or> snd st = - 1"

lemma best_of_cases:
  assumes "list_all (node_ok bt) ls" "point_ok np" "best_fits np bt st"
  shows "(best_of np bt ls st = st \<and> (ls = [] \<or> snd st = point_dist np bt (fst st))) \<or>
         (snd (best_of np bt ls st) = point_dist np bt (fst (best_of np bt ls st)) \<and> snd (best_of np bt ls st) < snd st)"
  using assms
proof (induction ls arbitrary: st)
  case (Cons l ls)
  let ?st = "nearer np bt l st"
  have s: "?st = (if point_dist np bt l < snd st then (l, point_dist np bt l) else st)"
    by (cases st) (simp add: nearer_def Let_def)
  have ok: "node_ok bt l" "list_all (node_ok bt) ls" using Cons.prems by simp_all
  have fits: "best_fits np bt ?st" using Cons.prems(3) by (simp add: s best_fits_def)
  have new: "snd st = point_dist np bt (fst st)" if "?st = st"
    using that Cons.prems(3) point_dist_less_max [OF ok(1) Cons.prems(2)] by (auto simp: s best_fits_def split: if_splits)
  note IH = Cons.IH [OF ok(2) Cons.prems(2) fits]
  show ?case
  proof (cases "point_dist np bt l < snd st")
    case True
    then have "snd ?st = point_dist np bt (fst ?st)" "snd ?st < snd st" by (simp_all add: s)
    then show ?thesis using IH unfolding best_of_simps
      by (elim disjE conjE; intro disjI2 conjI; (assumption | (erule order.strict_trans, assumption) | (simp only:)))
  next
    case False
    then have e: "?st = st" by (simp add: s)
    show ?thesis using IH new [OF e] unfolding best_of_simps e by blast
  qed
qed simp

lemma best_of_none:
  assumes "\<And>l. l \<in> set ls \<Longrightarrow> snd st \<le> point_dist np bt l"
  shows "best_of np bt ls st = st"
  using assms by (induction ls) (auto simp: nearer_def Let_def leD split: prod.split)

lemma subtree_ok_node: "subtree_ok bt steps idx \<Longrightarrow> node_ok bt idx"
  by (cases steps) auto

lemma pruned_right:
  assumes "subtree_ok bt steps c" "point_ok np" "\<not> point_dist np bt c < snd st"
  shows "best_of np bt (leaves_below bt steps c) st = st"
proof (rule best_of_none)
  fix l assume "l \<in> set (leaves_below bt steps c)"
  then have "node_ok bt l" "node_dist np bt c \<le> node_dist np bt l" using leaves_dist [OF assms(1)] by blast+
  then have "point_dist np bt c \<le> point_dist np bt l" using point_dist_le subtree_ok_node [OF assms(1)] assms(2) by blast
  then show "snd st \<le> point_dist np bt l" using assms(3) by simp
qed

lemma search_is_best:
  "np = map word_of_int p \<Longrightarrow> point_ok p \<Longrightarrow> best_fits p bt (alt, ds) \<Longrightarrow> subtree_ok bt steps idx \<Longrightarrow> point_dist p bt idx < ds \<Longrightarrow>
     get_resulting_node np bt steps idx alt ds = Some (fst (best_of p bt (leaves_below bt steps idx) (alt, ds)))"
  "np = map word_of_int p \<Longrightarrow> point_ok p \<Longrightarrow> best_fits p bt (leaf, ds) \<Longrightarrow> list_all (subtree_ok bt rest) todo \<Longrightarrow>
     inner_loop np bt rest todo leaf ds = Some (fst (best_of p bt (concat (map (leaves_below bt rest) todo)) (leaf, ds)))"
proof (induction np bt steps idx alt ds and np bt rest todo leaf ds rule: get_resulting_node_inner_loop.induct)
  case (2 np bt s ss idx alt ds)
  show ?case
  proof (cases "s = 0")
    case True
    then show ?thesis using 2(6) by (simp add: nearer_def)
  next
    case False
    then obtain step rest where st: "tree_step idx (bt_len bt) (s # ss) = Some (step, rest)"
      using 2(5) by (auto simp del: tree_step.simps split: option.splits)
    have "list_all (subtree_ok bt rest) (inners bt step idx)" using 2(5) False st by (simp add: list_all_iff del: tree_step.simps)
    then show ?thesis using 2(1) [OF False st refl 2(2,3,4)] False st by (simp del: tree_step.simps)
  qed
next
  case (4 np bt rest inner todo leaf ds)
  let ?L = "leaves_below bt rest inner" and ?d = "point_dist p bt inner"
  have ok: "subtree_ok bt rest inner" "list_all (subtree_ok bt rest) todo" using 4(8) by simp_all
  have L: "list_all (node_ok bt) ?L" "?L \<noteq> []" using leaves_dist [OF ok(1)] subtree_leaf [OF ok(1)] by (auto simp: list_all_iff)
  show ?case
  proof (cases "?d < ds")
    case False
    then have "best_of p bt ?L (leaf, ds) = (leaf, ds)" using pruned_right [OF ok(1) 4(6)] by simp
    then show ?thesis using 4(4) [OF refl _ 4(5,6,7) ok(2)] False by (simp add: 4(5) Let_def)
  next
    case True
    obtain l d where b: "best_of p bt ?L (leaf, ds) = (l, d)" by (cases "best_of p bt ?L (leaf, ds)")
    have r: "get_resulting_node np bt rest inner leaf ds = Some l"
      using 4(1) [OF refl _ 4(5,6,7) ok(1) True] True b by (simp add: 4(5))
    consider "l = leaf" "d = ds" "ds = point_dist p bt leaf" | "d = point_dist p bt l" "d < ds"
      using best_of_cases [OF L(1) 4(6,7)] L(2) b by auto
    then show ?thesis
    proof cases
      case 1
      then have "(if inner = l then get_np_dist np bt inner else get_np_dist np bt l) = ds" by (simp add: 4(5))
      then show ?thesis using 4(3) [OF refl _ r refl _ 4(5,6,7) ok(2)] True b 1 r by (simp add: 4(5) Let_def)
    next
      case 2
      have "(if inner = l then get_np_dist np bt inner else get_np_dist np bt l) = d" using 2 by (simp add: 4(5))
      moreover have "best_fits p bt (l, d)" using 2 by (simp add: best_fits_def)
      ultimately show ?thesis using 4(2) [OF refl _ r refl _ 4(5,6) _ ok(2)] True b 2 r by (simp add: 4(5) Let_def)
    qed
  qed
qed simp_all

section \<open>The nearest leaf\<close>

text \<open>The first element with the least key.\<close>

definition first_min :: "('a \<Rightarrow> 'k::linorder) \<Rightarrow> 'a list \<Rightarrow> 'a" where
  "first_min k xs = hd (filter (\<lambda>x. list_all (\<lambda>y. k x \<le> k y) xs) xs)"

lemma first_min_in:
  assumes "xs \<noteq> []"
  shows "first_min k xs \<in> set xs \<and> list_all (\<lambda>y. k (first_min k xs) \<le> k y) xs"
proof -
  have "Min (k ` set xs) \<in> k ` set xs" using assms by (intro Min_in) simp_all
  then obtain x where x: "x \<in> set xs" "k x = Min (k ` set xs)" by auto
  then have "x \<in> set (filter (\<lambda>x. list_all (\<lambda>y. k x \<le> k y) xs) xs)" by (simp add: list_all_iff)
  then have "filter (\<lambda>x. list_all (\<lambda>y. k x \<le> k y) xs) xs \<noteq> []" by (metis empty_iff list.set(1))
  from hd_in_set [OF this] show ?thesis by (simp add: first_min_def)
qed

lemma first_min_snoc:
  assumes "xs \<noteq> []"
  shows "first_min k (xs @ [x]) = (if k x < k (first_min k xs) then x else first_min k xs)"
proof -
  let ?P = "\<lambda>zs x. list_all (\<lambda>y. k x \<le> k y) zs"
  have m: "first_min k xs \<in> set xs" "\<And>y. y \<in> set xs \<Longrightarrow> k (first_min k xs) \<le> k y"
    using first_min_in [OF assms, of k] by (auto simp: list_all_iff)
  show ?thesis
  proof (cases "k x < k (first_min k xs)")
    case True
    have "k x \<le> k y" if "y \<in> set xs" for y using m(2) [OF that] True by simp
    then have "filter (?P (xs @ [x])) xs = []" "?P (xs @ [x]) x"
      using True m(2) by (auto simp: filter_empty_conv list_all_iff not_le intro: order.strict_trans2)
    then show ?thesis using True by (simp add: first_min_def)
  next
    case False
    have "?P (xs @ [x]) z \<longleftrightarrow> ?P xs z" if "z \<in> set xs" for z
      using False m(1) by (auto simp: list_all_iff)
    then have "filter (?P (xs @ [x])) xs = filter (?P xs) xs" by (simp cong: filter_cong)
    moreover have "filter (?P xs) xs \<noteq> []" using m first_min_in [OF assms, of k] by (auto simp: filter_empty_conv)
    ultimately show ?thesis using False by (simp add: first_min_def)
  qed
qed

text \<open>The fold of the search, started without a leaf or with one.\<close>

lemma best_of_first_min:
  assumes "list_all (node_ok bt) ls" "ls \<noteq> []" "point_ok p"
  shows "best_of p bt ls (a, - 1) = (first_min (node_dist p bt) ls, point_dist p bt (first_min (node_dist p bt) ls))"
  using assms
proof (induction ls rule: rev_induct)
  case (snoc l ls)
  have ok: "node_ok bt l" "list_all (node_ok bt) ls" using snoc.prems(1) by simp_all
  show ?case
  proof (cases "ls = []")
    case True
    then show ?thesis using point_dist_less_max [OF ok(1) snoc.prems(3)]
      by (simp add: nearer_def first_min_def)
  next
    case False
    then have m: "node_ok bt (first_min (node_dist p bt) ls)" using first_min_in ok(2) by (metis list_all_iff)
    have "point_dist p bt l < point_dist p bt (first_min (node_dist p bt) ls) \<longleftrightarrow> node_dist p bt l < node_dist p bt (first_min (node_dist p bt) ls)"
      using point_dist_le [OF m ok(1) snoc.prems(3)] by (simp add: not_le [symmetric])
    then show ?thesis using snoc.IH [OF ok(2) False snoc.prems(3)] first_min_snoc [OF False, of "node_dist p bt" l] by (simp add: nearer_def Let_def)
  qed
qed simp

lemma best_of_from:
  assumes "list_all (node_ok bt) ls" "point_ok p"
  shows "best_of p bt ls (alt, point_dist p bt alt) =
     (let l = first_min (point_dist p bt) (alt # ls) in (l, point_dist p bt l))"
  using assms
proof (induction ls rule: rev_induct)
  case Nil
  show ?case by (simp add: first_min_def)
next
  case (snoc l ls)
  then show ?case using first_min_snoc [of "alt # ls" "point_dist p bt" l] by (simp add: nearer_def Let_def)
qed

lemma tree_leaves_root:
  assumes "tree_ok bt"
  obtains s ss step rest where "bt_steps bt = s # ss" "s \<noteq> 0" "tree_step 0 (bt_len bt) (s # ss) = Some (step, rest)"
    "list_all (subtree_ok bt rest) (inners bt step 0)" "tree_leaves bt = concat (map (leaves_below bt rest) (inners bt step 0))"
    "tree_leaves bt \<noteq> []" "list_all (node_ok bt) (tree_leaves bt)"
proof -
  obtain s ss where s: "bt_steps bt = s # ss" "s \<noteq> 0" using assms by (cases "bt_steps bt") (auto simp: tree_ok_def)
  obtain step rest where r: "tree_step 0 (bt_len bt) (s # ss) = Some (step, rest)" "inners bt step 0 \<noteq> []"
      "list_all (subtree_ok bt rest) (inners bt step 0)"
    using assms s by (auto simp: tree_ok_def root_inners_def simp del: tree_step.simps split: option.splits)
  have l: "tree_leaves bt = concat (map (leaves_below bt rest) (inners bt step 0))"
    using s r(1) by (simp add: tree_leaves_def del: tree_step.simps)
  have "tree_leaves bt \<noteq> []" using r(2,3) subtree_leaf unfolding l by (cases "inners bt step 0") auto
  moreover have "list_all (node_ok bt) (tree_leaves bt)"
    using r(3) leaves_dist unfolding l by (fastforce simp: list_all_iff)
  ultimately show ?thesis using that s r l by blast
qed

lemma search_from_root:
  assumes "tree_ok bt" "point_ok p" "best_fits p bt (alt, ds)"
  shows "get_resulting_node (map word_of_int p) bt (bt_steps bt) 0 alt ds = Some (fst (best_of p bt (tree_leaves bt) (alt, ds)))"
proof -
  obtain s ss step rest where s: "bt_steps bt = s # ss" "s \<noteq> 0" "tree_step 0 (bt_len bt) (s # ss) = Some (step, rest)"
    "list_all (subtree_ok bt rest) (inners bt step 0)" "tree_leaves bt = concat (map (leaves_below bt rest) (inners bt step 0))"
    by (rule tree_leaves_root [OF assms(1)])
  show ?thesis using s search_is_best(2) [OF refl assms(2,3) s(4)] by (simp del: tree_step.simps)
qed

lemma climate_search_none:
  assumes "tree_ok bt" "point_ok p"
  shows "climateToBiome_tree bt (map word_of_int p) None = Some (leaf_biome bt (first_min (node_dist p bt) (tree_leaves bt)), None)"
proof -
  have l: "tree_leaves bt \<noteq> []" "list_all (node_ok bt) (tree_leaves bt)" by (rule tree_leaves_root [OF assms(1)], assumption)+
  have "get_resulting_node (map word_of_int p) bt (bt_steps bt) 0 0 (- 1) = Some (first_min (node_dist p bt) (tree_leaves bt))"
    using search_from_root [OF assms, of 0 "- 1"] by (simp only: best_of_first_min [OF l(2,1) assms(2)] best_fits_def fst_conv snd_conv simp_thms)
  then show ?thesis by (simp only: climateToBiome_tree_def option.case option.map)
qed

text \<open>
  C18: The pruned search of the climate tree is a linear search: in a tree whose boxes contain the boxes below
  them, the biome of a climate is that of the first of the nearest leaves; a search that starts from the leaf
  of the call before keeps that leaf unless another one is strictly nearer.
\<close>

theorem climate_search_is_nearest:
  assumes "tree_ok bt" "point_ok p"
  shows "climateToBiome_tree bt (map word_of_int p) None = Some (leaf_biome bt (first_min (node_dist p bt) (tree_leaves bt)), None) \<and>
         climateToBiome_tree bt (map word_of_int p) (Some alt) =
           (let l = first_min (point_dist p bt) (alt # tree_leaves bt) in Some (leaf_biome bt l, Some l))"
proof -
  have l: "list_all (node_ok bt) (tree_leaves bt)" by (rule tree_leaves_root [OF assms(1)], assumption)
  have "get_resulting_node (map word_of_int p) bt (bt_steps bt) 0 alt (point_dist p bt alt) =
      Some (first_min (point_dist p bt) (alt # tree_leaves bt))"
    using search_from_root [OF assms, of alt "point_dist p bt alt"]
    by (simp only: best_of_from [OF l assms(2)] best_fits_def Let_def fst_conv snd_conv simp_thms)
  then have "climateToBiome_tree bt (map word_of_int p) (Some alt) =
      (let l = first_min (point_dist p bt) (alt # tree_leaves bt) in Some (leaf_biome bt l, Some l))"
    by (simp only: climateToBiome_tree_def option.case option.map Let_def)
  then show ?thesis using climate_search_none [OF assms] by simp
qed

text \<open>A tree of three levels with four leaves.\<close>

definition sample_tree :: BiomeTree where
  "sample_tree = \<lparr>bt_steps = [3, 1, 0],
     bt_param = [- 10000, 10000, - 12000, - 10500, - 10500, - 1900, - 1900, 10000, 0, 0, 10000, 10000, 0, 10000, - 12000, 10000, - 12000, - 1900],
     bt_nodes = [0x0001000000000000,
       0x0002000600080000, 0x000E000400010000, 0x0000000400020000,
       0x0005000600070000, 0x000E000500010000, 0x0001000500020000], bt_order = 2\<rparr>"

lemma inners_from_2:
  "inners_from 2 step len inner =
     (let inner' = inner + of_nat step in if len \<le> unat inner' then [unat inner] else [unat inner, unat inner'])"
  by (simp add: numeral_2_eq_2 Let_def)

lemmas tree_eval =
  tree_ok_def root_inners_def bt_len_def inners_def inners_from_2 node_ok_def box_within_def lo_of_def hi_of_def param_index_def six

lemma sample_tree_ok: "tree_ok sample_tree"
  unfolding sample_tree_def by (simp add: tree_eval)

lemma sample_leaves: "tree_leaves sample_tree = [2, 3, 5, 6]"
  unfolding sample_tree_def by (simp add: tree_leaves_def bt_len_def inners_def inners_from_2)

lemma sample_biome: "leaf_biome sample_tree 2 = 14"
  by (simp add: leaf_biome_def sample_tree_def unsigned_drop_bit_eq)

lemma climate_search_is_nearest_witness:
  "climateToBiome_tree sample_tree (map word_of_int [0, 0, - 11000, 500, 2000, 0]) None = Some (14, None)"
proof -
  have p: "point_ok [0, 0, - 11000, 500, 2000, 0]" by (simp add: point_ok_def)
  have d: "map (node_dist [0, 0, - 11000, 500, 2000, 0] sample_tree) [2, 3, 5, 6] = [4000000, 4250000, 64000000, 64250000]"
    by (simp add: node_dist_def six gap_def lo_of_def hi_of_def param_index_def sample_tree_def)
  have "first_min (node_dist [0, 0, - 11000, 500, 2000, 0] sample_tree) [2, 3, 5, 6] = 2"
    using d by (simp add: first_min_def)
  then show ?thesis using conjunct1 [OF climate_search_is_nearest [OF sample_tree_ok p, of undefined]]
    by (simp only: sample_leaves sample_biome)
qed

end
