(* ===== verification/ClimateLimit.thy ===== *)
theory ClimateLimit
  imports ClimateTree
begin

text \<open>
  Why a search for one biome may stop early (\<open>getBiomeParaLimits\<close> in \<open>src/cubiomes/finders.c\<close> as
  \<open>src/src/cubiomes.c\<close> uses it): a condition on the search tree that can be computed, and under which
  a biome never occurs beyond a limit of the continentalness. The theorem derives this from the search
  itself.
\<close>

section \<open>Covers\<close>

text \<open>Intervals in ascending order that leave no integer of \<open>lo..hi\<close> out.\<close>

fun covers :: "int \<Rightarrow> int \<Rightarrow> (int \<times> int) list \<Rightarrow> bool" where
  "covers lo hi [] \<longleftrightarrow> hi < lo"
| "covers lo hi ((a, b) # is) \<longleftrightarrow> a \<le> lo \<and> covers (b + 1) hi is"

lemma covers_member:
  assumes "covers lo hi is" "lo \<le> p" "p \<le> hi"
  shows "\<exists>(a, b)\<in>set is. a \<le> p \<and> p \<le> b"
  using assms
proof (induction lo hi "is" rule: covers.induct)
  case (2 lo hi a b "is")
  show ?case
  proof (cases "p \<le> b")
    case True
    then show ?thesis using 2(2,3) by auto
  next
    case False
    then show ?thesis using 2 by auto
  qed
qed simp

lemma covers_gap:
  assumes "covers lo hi is" "lo \<le> hi"
  shows "\<exists>(a, b)\<in>set is. (gap a b p)\<^sup>2 \<le> (gap lo hi p)\<^sup>2"
proof -
  have le: "(gap a b p)\<^sup>2 \<le> (gap lo hi p)\<^sup>2" if "a \<le> q" "q \<le> b" "q = (if p < lo then lo else if hi < p then hi else p)" for a b q
    by (rule power_mono) (use that assms(2) in \<open>auto simp: gap_def split: if_splits\<close>)
  define q where "q = (if p < lo then lo else if hi < p then hi else p)"
  have "lo \<le> q" "q \<le> hi" using assms(2) by (simp_all add: q_def)
  from covers_member [OF assms(1) this] obtain a b where "(a, b) \<in> set is" "a \<le> q" "q \<le> b" by blast
  then show ?thesis using le [OF _ _ q_def] by blast
qed

section \<open>Limits of a biome\<close>

text \<open>
  Leaves of other biomes that are nearer than \<open>m\<close> beyond the limit, as far as the temperature allows: on
  every other axis they contain the box of \<open>m\<close>, and the continentalness goes on.
\<close>

definition stand_ins :: "BiomeTree \<Rightarrow> int \<Rightarrow> nat \<Rightarrow> nat list" where
  "stand_ins bt mx m =
     sort_key (\<lambda>l. lo_of bt l 0)
       (filter (\<lambda>l. lo_of bt l 2 \<le> mx + 1 \<and> mx < hi_of bt l 2 \<and>
           list_all (\<lambda>i. lo_of bt l i \<le> lo_of bt m i \<and> hi_of bt m i \<le> hi_of bt l i) [1, 3, 4, 5]) (tree_leaves bt))"

definition biome_limited :: "BiomeTree \<Rightarrow> int \<Rightarrow> int \<Rightarrow> bool" where
  "biome_limited bt biome mx \<longleftrightarrow>
     list_all (\<lambda>m. leaf_biome bt m = biome \<longrightarrow>
         hi_of bt m 2 \<le> mx \<and> covers (lo_of bt m 0) (hi_of bt m 0) (map (\<lambda>l. (lo_of bt l 0, hi_of bt l 0)) (stand_ins bt mx m)))
       (tree_leaves bt)"

lemma stand_in_nearer:
  assumes "node_ok bt l" "node_ok bt m" "lo_of bt l 2 \<le> mx + 1" "mx < hi_of bt l 2" "hi_of bt m 2 \<le> mx"
    and "list_all (\<lambda>i. lo_of bt l i \<le> lo_of bt m i \<and> hi_of bt m i \<le> hi_of bt l i) [1, 3, 4, 5]"
    and "(gap (lo_of bt l 0) (hi_of bt l 0) (np ! 0))\<^sup>2 \<le> (gap (lo_of bt m 0) (hi_of bt m 0) (np ! 0))\<^sup>2" "mx < np ! 2"
  shows "node_dist np bt l < node_dist np bt m"
proof -
  let ?g = "\<lambda>n i. (gap (lo_of bt n i) (hi_of bt n i) (np ! i))\<^sup>2"
  have lm: "lo_of bt m i \<le> hi_of bt m i" "lo_of bt l i \<le> hi_of bt l i" if "i < 6" for i
    using assms(1,2) that by (simp_all add: node_ok_def list_all_iff)
  have le: "?g l i \<le> ?g m i" if "i \<in> {1, 3, 4, 5}" for i
    using assms(6) that lm [of i] by (intro gap_mono) (auto simp: list_all_iff)
  have "?g l 2 < ?g m 2"
    by (rule power_strict_mono) (use assms(3,4,5,8) lm [of 2] in \<open>auto simp: gap_def\<close>)
  then show ?thesis using assms(7) le [of 1] le [of 3] le [of 4] le [of 5] by (simp add: node_dist_def six)
qed

lemma beyond_limit_base:
  assumes "tree_ok bt" "biome_limited bt biome mx" "point_ok p" "mx < p ! 2"
  shows "map_option fst (climateToBiome_tree bt (map word_of_int p) None) \<noteq> Some biome"
proof
  let ?ls = "tree_leaves bt" and ?m = "first_min (node_dist p bt) (tree_leaves bt)"
  assume "map_option fst (climateToBiome_tree bt (map word_of_int p) None) = Some biome"
  then have biome: "leaf_biome bt ?m = biome" by (simp add: climate_search_none [OF assms(1,3)])
  have l: "?ls \<noteq> []" "list_all (node_ok bt) ?ls" by (rule tree_leaves_root [OF assms(1)], assumption)+
  have m: "?m \<in> set ?ls" "\<And>y. y \<in> set ?ls \<Longrightarrow> node_dist p bt ?m \<le> node_dist p bt y"
    using first_min_in [OF l(1), of "node_dist p bt"] by (auto simp: list_all_iff)
  have ok: "node_ok bt y" if "y \<in> set ?ls" for y using l(2) that by (simp add: list_all_iff)
  have c: "hi_of bt ?m 2 \<le> mx" "covers (lo_of bt ?m 0) (hi_of bt ?m 0) (map (\<lambda>l. (lo_of bt l 0, hi_of bt l 0)) (stand_ins bt mx ?m))"
    using assms(2) m(1) biome by (auto simp: biome_limited_def list_all_iff)
  have "lo_of bt ?m 0 \<le> hi_of bt ?m 0" using ok [OF m(1)] by (simp add: node_ok_def list_all_iff)
  from covers_gap [OF c(2) this, of "p ! 0"] obtain y where y: "y \<in> set (stand_ins bt mx ?m)"
    "(gap (lo_of bt y 0) (hi_of bt y 0) (p ! 0))\<^sup>2 \<le> (gap (lo_of bt ?m 0) (hi_of bt ?m 0) (p ! 0))\<^sup>2" by auto
  have yl: "y \<in> set ?ls" "lo_of bt y 2 \<le> mx + 1" "mx < hi_of bt y 2"
    "list_all (\<lambda>i. lo_of bt y i \<le> lo_of bt ?m i \<and> hi_of bt ?m i \<le> hi_of bt y i) [1, 3, 4, 5]"
    using y(1) unfolding stand_ins_def set_sort by (simp_all only: set_filter mem_Collect_eq)
  have "node_dist p bt y < node_dist p bt ?m"
    by (rule stand_in_nearer [OF ok [OF yl(1)] ok [OF m(1)] yl(2,3) c(1) yl(4) y(2) assms(4)])
  then show False using m(2) [OF yl(1)] by simp
qed

text \<open>
  C19: A biome does not occur beyond a limit of the continentalness if the tree passes a finite check: next to
  each of its leaves there are leaves that go on where it ends and together span its temperatures. For
  mushroom fields and the limit -10500 the oceans are such leaves.
\<close>

theorem biome_never_beyond_limit:
  assumes "tree_ok bt" "biome_limited bt biome mx" "point_ok p" "mx < p ! 2"
  shows "map_option fst (climateToBiome_tree bt (map word_of_int p) None) \<noteq> Some biome"
  by (rule beyond_limit_base [OF assms])

lemma sample_tree_limited: "biome_limited sample_tree 14 (- 10500)"
proof -
  have b: "map (leaf_biome sample_tree) [2, 3, 5, 6] = [14, 0, 14, 1]"
    by (simp add: leaf_biome_def sample_tree_def unsigned_drop_bit_eq)
  have lo: "map (\<lambda>l. map (lo_of sample_tree l) [0, 1, 2, 3, 4, 5]) [2, 3, 5, 6] =
      [[- 10000, - 10000, - 12000, - 10000, 0, - 10000], [- 10000, - 10000, - 10500, - 10000, 0, - 10000],
       [- 10000, - 10000, - 12000, - 10000, 10000, - 10000], [- 10000, - 10000, - 10500, - 10000, 10000, - 10000]]"
    by (simp add: lo_of_def param_index_def sample_tree_def)
  have hi: "map (\<lambda>l. map (hi_of sample_tree l) [0, 1, 2, 3, 4, 5]) [2, 3, 5, 6] =
      [[10000, 10000, - 10500, 10000, 0, 10000], [10000, 10000, - 1900, 10000, 0, 10000],
       [10000, 10000, - 10500, 10000, 10000, 10000], [10000, 10000, - 1900, 10000, 10000, 10000]]"
    by (simp add: hi_of_def param_index_def sample_tree_def)
  have s: "stand_ins sample_tree (- 10500) 2 = [3]" "stand_ins sample_tree (- 10500) 5 = [6]"
    using lo hi by (simp_all add: stand_ins_def sample_leaves)
  show ?thesis using b lo hi by (simp add: biome_limited_def sample_leaves s)
qed

lemma biome_never_beyond_limit_witness:
  "map_option fst (climateToBiome_tree sample_tree (map word_of_int [0, 0, - 10499, 500, 2000, 0]) None) \<noteq> Some 14"
  by (rule biome_never_beyond_limit [OF sample_tree_ok sample_tree_limited]) (simp_all add: point_ok_def)

end
