(* ===== verification/TerrainSpline.thy ===== *)
theory TerrainSpline
  imports CubRng
begin

text \<open>
  The terrain spline (\<open>getSpline\<close>, \<open>initBiomeNoise\<close> and the functions they call in
  \<open>src/cubiomes/biomenoise.c\<close>): nested cubic splines over the climate, built once into two stacks of fixed
  size. The stacks are modelled by the number of entries taken; floats are exact rationals. The theorems
  say that the stacks suffice (the second one exactly), that the evaluation never meets a malformed spline, and that
  it is the cubic interpolation with the given values and slopes at the points.
\<close>

section \<open>Definitions\<close>

text \<open>A point of a spline is its location, its value and its derivative.\<close>

datatype Spline = FixSpline rat | Spline nat "(rat \<times> Spline \<times> rat) list"

definition SP_CONTINENTALNESS :: nat where "SP_CONTINENTALNESS = 0"
definition SP_EROSION :: nat where "SP_EROSION = 1"
definition SP_RIDGES :: nat where "SP_RIDGES = 2"

record SplineStack =
  ss_len :: nat
  ss_flen :: nat

definition take_spline :: "SplineStack \<Rightarrow> SplineStack" where
  "take_spline ss = ss\<lparr>ss_len := ss_len ss + 1\<rparr>"

definition addSplineVal :: "(rat \<times> Spline \<times> rat) list \<Rightarrow> rat \<Rightarrow> Spline \<Rightarrow> rat \<Rightarrow> (rat \<times> Spline \<times> rat) list" where
  "addSplineVal rsp loc v der = rsp @ [(loc, v, der)]"

definition createFixSpline :: "SplineStack \<Rightarrow> rat \<Rightarrow> Spline \<times> SplineStack" where
  "createFixSpline ss v = (FixSpline v, ss\<lparr>ss_flen := ss_flen ss + 1\<rparr>)"

text \<open>Successive calls \<open>addSplineVal(sp, loc, createFixSpline(ss, val), der)\<close>.\<close>

fun addFixVals :: "(rat \<times> Spline \<times> rat) list \<Rightarrow> (rat \<times> rat \<times> rat) list \<Rightarrow> SplineStack \<Rightarrow> (rat \<times> Spline \<times> rat) list \<times> SplineStack" where
  "addFixVals rsp [] ss = (rsp, ss)"
| "addFixVals rsp ((loc, v, der) # ps) ss =
     (let (sp, ss) = createFixSpline ss v in addFixVals (addSplineVal rsp loc sp der) ps ss)"

definition getOffsetValue :: "rat \<Rightarrow> rat \<Rightarrow> rat" where
  "getOffsetValue weirdness continentalness =
     (let f0 = 1 - (1 - continentalness) * 0.5;
          f1 = 0.5 * (1 - continentalness);
          f2 = (weirdness + 1.17) * 0.46082947;
          off = f2 * f0 - f1
      in if weirdness < - 0.7 then (if off > - 0.2222 then off else - 0.2222) else (if off > 0 then off else 0))"

definition createSpline_38219 :: "SplineStack \<Rightarrow> rat \<Rightarrow> bool \<Rightarrow> Spline \<times> SplineStack" where
  "createSpline_38219 ss f bl =
     (let ss = take_spline ss;
          i = getOffsetValue (- 1) f;
          k = getOffsetValue 1 f;
          l = 1 - (1 - f) * 0.5;
          u = 0.5 * (1 - f);
          l = u / (0.46082947 * l) - 1.17;
          (ps, ss) =
            (if - 0.65 < l \<and> l < 1
             then let u = getOffsetValue (- 0.65) f;
                      p = getOffsetValue (- 0.75) f;
                      q = (p - i) * 4;
                      r = getOffsetValue l f;
                      s = (k - r) / (1 - l)
                  in addFixVals [] [(- 1, i, q), (- 0.75, p, 0), (- 0.65, u, 0), (l - 0.01, r, 0), (l, r, s), (1, k, s)] ss
             else let u = (k - i) * 0.5
                  in if bl then addFixVals [] [(- 1, if i > 0.2 then i else 0.2, 0), (0, lerp 0.5 i k, u), (1, k, u)] ss
                     else addFixVals [] [(- 1, i, u), (1, k, u)] ss)
      in (Spline SP_RIDGES ps, ss))"

definition createFlatOffsetSpline :: "SplineStack \<Rightarrow> rat \<Rightarrow> rat \<Rightarrow> rat \<Rightarrow> rat \<Rightarrow> rat \<Rightarrow> rat \<Rightarrow> Spline \<times> SplineStack" where
  "createFlatOffsetSpline ss f g h i j k =
     (let ss = take_spline ss;
          l = 0.5 * (g - f);
          l = (if l < k then k else l);
          m = 5 * (h - g);
          (ps, ss) = addFixVals []
            [(- 1, f, l), (- 0.4, g, if l < m then l else m), (0, h, m), (0.4, i, 2 * (i - h)), (1, j, 0.7 * (j - i))] ss
      in (Spline SP_RIDGES ps, ss))"

definition createLandSpline ::
    "SplineStack \<Rightarrow> rat \<Rightarrow> rat \<Rightarrow> rat \<Rightarrow> rat \<Rightarrow> rat \<Rightarrow> rat \<Rightarrow> bool \<Rightarrow> Spline \<times> SplineStack" where
  "createLandSpline ss f g h i j k bl =
     (let (sp1, ss) = createSpline_38219 ss (lerp i 0.6 1.5) bl;
          (sp2, ss) = createSpline_38219 ss (lerp i 0.6 1) bl;
          (sp3, ss) = createSpline_38219 ss i bl;
          ih = 0.5 * i;
          (sp4, ss) = createFlatOffsetSpline ss (f - 0.15) ih ih ih (i * 0.6) 0.5;
          (sp5, ss) = createFlatOffsetSpline ss f (j * i) (g * i) ih (i * 0.6) 0.5;
          (sp6, ss) = createFlatOffsetSpline ss f j j g h 0.5;
          (sp7, ss) = createFlatOffsetSpline ss f j j g h 0.5;
          ss = take_spline ss;
          (fix1, ss) = createFixSpline ss f;
          ps8 = addSplineVal [] (- 1) fix1 0;
          ps8 = addSplineVal ps8 (- 0.4) sp6 0;
          (fix2, ss) = createFixSpline ss (h + 0.07);
          sp8 = Spline SP_RIDGES (addSplineVal ps8 0 fix2 0);
          (sp9, ss) = createFlatOffsetSpline ss (- 0.02) k k g h 0;
          ss = take_spline ss;
          ps = [(- 0.85, sp1, 0), (- 0.7, sp2, 0), (- 0.4, sp3, 0), (- 0.35, sp4, 0), (- 0.1, sp5, 0), (0.2, sp6, 0)];
          ps = (if bl then ps @ [(0.4, sp7, 0), (0.45, sp8, 0), (0.55, sp8, 0), (0.58, sp7, 0)] else ps)
      in (Spline SP_EROSION (addSplineVal ps 0.7 sp9 0), ss))"

definition initBiomeNoise :: "Spline \<times> SplineStack" where
  "initBiomeNoise =
     (let ss = take_spline \<lparr>ss_len = 0, ss_flen = 0\<rparr>;
          (sp1, ss) = createLandSpline ss (- 0.15) 0 0 0.1 0 (- 0.03) False;
          (sp2, ss) = createLandSpline ss (- 0.1) 0.03 0.1 0.1 0.01 (- 0.03) False;
          (sp3, ss) = createLandSpline ss (- 0.1) 0.03 0.1 0.7 0.01 (- 0.03) True;
          (sp4, ss) = createLandSpline ss (- 0.05) 0.03 0.1 1 0.01 0.01 True;
          (ps, ss) = addFixVals [] [(- 1.1, 0.044, 0), (- 1.02, - 0.2222, 0), (- 0.51, - 0.2222, 0), (- 0.44, - 0.12, 0), (- 0.18, - 0.12, 0)] ss;
          ps = addSplineVal ps (- 0.16) sp1 0;
          ps = addSplineVal ps (- 0.15) sp1 0;
          ps = addSplineVal ps (- 0.1) sp2 0;
          ps = addSplineVal ps 0.25 sp3 0;
          ps = addSplineVal ps 1 sp4 0
      in (Spline SP_CONTINENTALNESS ps, ss))"

text \<open>
  The first point at or after \<open>f\<close>, and the evaluation. \<open>None\<close>: the program exits with the message
  \<open>getSpline(): bad parameters\<close>; a spline with one point would be read as a \<open>FixSpline\<close>, and is refused here.
\<close>

definition spline_index :: "(rat \<times> 'a \<times> rat) list \<Rightarrow> rat \<Rightarrow> nat" where
  "spline_index ps f = length (takeWhile (\<lambda>(loc, _, _). loc < f) ps)"

definition hermite :: "rat \<Rightarrow> rat \<Rightarrow> rat \<Rightarrow> rat \<Rightarrow> rat \<Rightarrow> rat \<Rightarrow> rat \<Rightarrow> rat" where
  "hermite g h l m n v f =
     (let k = (f - g) / (h - g);
          p = l * (h - g) - (v - n);
          q = - m * (h - g) + (v - n)
      in lerp k n v + k * (1 - k) * lerp k p q)"

lemma spline_index_le: "spline_index ps f \<le> length ps"
  by (simp add: spline_index_def length_takeWhile_le)

lemma spline_child_size:
  assumes "(loc, v, der) = ps ! i" "i < length ps"
  shows "size v < size (Spline typ ps)"
proof -
  have "(loc, v, der) \<in> set ps \<Longrightarrow> size v < size (Spline typ ps)" by (induction ps) auto
  then show ?thesis using assms by simp
qed

lemma spline_index_inside:
  assumes "\<not> (length ps \<le> 1 \<or> 12 \<le> length ps)"
  shows "spline_index ps f - 1 < length ps" "\<not> (spline_index ps f = 0 \<or> spline_index ps f = length ps) \<Longrightarrow> spline_index ps f < length ps"
  using spline_index_le [of ps f] assms by auto

function getSpline :: "Spline \<Rightarrow> rat list \<Rightarrow> rat option" where
  "getSpline (FixSpline v) vals = Some v"
| "getSpline (Spline typ ps) vals =
     (if length ps \<le> 1 \<or> 12 \<le> length ps then None
      else
        let f = vals ! typ;
            i = spline_index ps f
        in if i = 0 \<or> i = length ps
           then let (loc, v, der) = ps ! (i - 1)
                in map_option (\<lambda>v. v + der * (f - loc)) (getSpline v vals)
           else let (g, sp1, l) = ps ! (i - 1);
                    (h, sp2, m) = ps ! i
                in case (getSpline sp1 vals, getSpline sp2 vals) of
                     (Some n, Some v) \<Rightarrow> Some (hermite g h l m n v f)
                   | _ \<Rightarrow> None)"
  by pat_completeness auto

termination
proof (relation "measure (\<lambda>(sp, vals). size sp)", goal_cases)
  case (2 ty ps vals f i pt loc y v der)
  then have "size v < size (Spline ty ps)"
    using spline_index_inside(1) [of ps f] by (intro spline_child_size [of loc v der ps "i - 1"]) simp_all
  then show ?case by simp
next
  case (3 ty ps vals f i pt g y sp1 l pt2 h y2 sp2 m)
  then have "size sp1 < size (Spline ty ps)"
    using spline_index_inside(1) [of ps f] by (intro spline_child_size [of g sp1 l ps "i - 1"]) simp_all
  then show ?case by simp
next
  case (4 ty ps vals f i pt g y sp1 l pt2 h y2 sp2 m)
  then have "size sp2 < size (Spline ty ps)"
    using spline_index_inside(2) [of ps f] by (intro spline_child_size [of h sp2 m ps i]) simp_all
  then show ?case by simp
qed simp

section \<open>Well-formed splines\<close>

function spline_ok :: "Spline \<Rightarrow> bool" where
  "spline_ok (FixSpline v) = True"
| "spline_ok (Spline typ ps) \<longleftrightarrow>
     typ < 4 \<and> 2 \<le> length ps \<and> length ps < 12 \<and> sorted_wrt (<) (map fst ps) \<and>
     list_all (\<lambda>i. spline_ok (fst (snd (ps ! i)))) [0..<length ps]"
  by pat_completeness auto

termination
proof (relation "measure size", goal_cases)
  case (2 ty ps i)
  then have "size (fst (snd (ps ! i))) < size (Spline ty ps)"
    by (intro spline_child_size [of "fst (ps ! i)" _ "snd (snd (ps ! i))" ps i]) simp_all
  then show ?case by simp
qed simp

lemma spline_ok_child:
  assumes "spline_ok (Spline ty ps)" "i < length ps" "ps ! i = (loc, v, der)"
  shows "spline_ok v"
  using assms by (auto simp: list_all_iff dest!: bspec [of _ _ i])

lemma spline_ok_list [simp]:
  "list_all (\<lambda>i. spline_ok (fst (snd (ps ! i)))) [0..<length ps] \<longleftrightarrow> list_all (\<lambda>p. spline_ok (fst (snd p))) ps"
  by (simp add: list_all_length)

lemma getSpline_returns:
  "spline_ok sp \<Longrightarrow> getSpline sp vals \<noteq> None"
proof (induction sp rule: measure_induct_rule [of size])
  case (less sp)
  show ?case
  proof (cases sp)
    case (Spline ty ps)
    let ?i = "spline_index ps (vals ! ty)"
    have len: "\<not> (length ps \<le> 1 \<or> 12 \<le> length ps)" using less.prems Spline by auto
    have child: "getSpline v vals \<noteq> None" if "i < length ps" "ps ! i = (loc, v, der)" for i loc v der
      using less.IH [of v] spline_child_size [OF that(2) [symmetric] that(1), of ty] spline_ok_child [OF less.prems [unfolded Spline] that] Spline
      by simp
    obtain g sp1 l where a: "ps ! (?i - 1) = (g, sp1, l)" by (cases "ps ! (?i - 1)")
    note r1 = child [OF spline_index_inside(1) [OF len] a]
    show ?thesis
    proof (cases "?i = 0 \<or> ?i = length ps")
      case True
      then show ?thesis using len a r1 by (auto simp: Spline Let_def)
    next
      case False
      obtain h sp2 m where b: "ps ! ?i = (h, sp2, m)" by (cases "ps ! ?i")
      note r2 = child [OF spline_index_inside(2) [OF len False] b]
      show ?thesis using len False a b r1 r2 by (auto simp: Spline Let_def)
    qed
  qed simp
qed

section \<open>The stacks\<close>

text \<open>Where the ridges of \<open>createSpline_38219\<close> begin, and how many fixed values it takes.\<close>

definition ridge_start :: "rat \<Rightarrow> rat" where
  "ridge_start f = 0.5 * (1 - f) / (0.46082947 * (1 - (1 - f) * 0.5)) - 1.17"

definition fixed_values :: "rat \<Rightarrow> bool \<Rightarrow> nat" where
  "fixed_values f bl = (if - 0.65 < ridge_start f \<and> ridge_start f < 1 then 6 else if bl then 3 else 2)"

definition grown :: "nat \<Rightarrow> nat \<Rightarrow> SplineStack \<Rightarrow> SplineStack" where
  "grown n m ss = \<lparr>ss_len = ss_len ss + n, ss_flen = ss_flen ss + m\<rparr>"

lemma grown_grown [simp]: "grown n m (grown n' m' ss) = grown (n' + n) (m' + m) ss"
  by (simp add: grown_def)

lemma take_grown: "take_spline ss = grown 1 0 ss"
  by (simp add: take_spline_def grown_def)

lemma fix_grown: "createFixSpline ss v = (FixSpline v, grown 0 1 ss)"
  by (simp add: createFixSpline_def grown_def)

lemmas build_grown = take_grown fix_grown addSplineVal_def Let_def

lemma create_38219_grown:
  assumes "ridge_start f \<le> - 0.65 \<or> - 0.64 < ridge_start f"
  shows "spline_ok (fst (createSpline_38219 ss f bl)) \<and> snd (createSpline_38219 ss f bl) = grown 1 (fixed_values f bl) ss"
  unfolding createSpline_38219_def Let_def ridge_start_def [symmetric] fixed_values_def
  using assms by (auto simp: build_grown SP_RIDGES_def grown_def)

lemma create_flat_grown:
  "spline_ok (fst (createFlatOffsetSpline ss f g h i j k)) \<and> snd (createFlatOffsetSpline ss f g h i j k) = grown 1 5 ss"
  by (simp add: createFlatOffsetSpline_def build_grown SP_RIDGES_def grown_def)

definition land_ridges :: "rat \<Rightarrow> rat list" where
  "land_ridges i = [lerp i 0.6 1.5, lerp i 0.6 1, i]"

lemma create_land_grown:
  assumes "list_all (\<lambda>f. ridge_start f \<le> - 0.65 \<or> - 0.64 < ridge_start f) (land_ridges i)"
  shows "spline_ok (fst (createLandSpline ss f g h i j k bl)) \<and>
         snd (createLandSpline ss f g h i j k bl) = grown 10 (sum_list (map (\<lambda>f. fixed_values f bl) (land_ridges i)) + 27) ss"
proof -
  have r: "ridge_start f \<le> - 0.65 \<or> - 0.64 < ridge_start f" if "f \<in> set (land_ridges i)" for f
    using assms that by (auto simp: list_all_iff)
  have c: "\<exists>sp. createSpline_38219 ss f bl = (sp, grown 1 (fixed_values f bl) ss) \<and> spline_ok sp" if "f \<in> set (land_ridges i)" for ss f
    using create_38219_grown [OF r [OF that], of ss bl] by (cases "createSpline_38219 ss f bl") auto
  have d: "\<exists>sp. createFlatOffsetSpline ss f g h i j k = (sp, grown 1 5 ss) \<and> spline_ok sp" for ss f g h i j k
    using create_flat_grown [of ss f g h i j k] by (cases "createFlatOffsetSpline ss f g h i j k") auto
  have m: "lerp i 0.6 1.5 \<in> set (land_ridges i)" "lerp i 0.6 1 \<in> set (land_ridges i)" "i \<in> set (land_ridges i)" by (simp_all add: land_ridges_def)
  obtain f1 f2 f3 where f: "\<And>ss. createSpline_38219 ss (lerp i 0.6 1.5) bl = (f1 ss, grown 1 (fixed_values (lerp i 0.6 1.5) bl) ss)"
      "\<And>ss. createSpline_38219 ss (lerp i 0.6 1) bl = (f2 ss, grown 1 (fixed_values (lerp i 0.6 1) bl) ss)"
      "\<And>ss. createSpline_38219 ss i bl = (f3 ss, grown 1 (fixed_values i bl) ss)"
      "\<And>ss. spline_ok (f1 ss) \<and> spline_ok (f2 ss) \<and> spline_ok (f3 ss)"
    using c [OF m(1)] c [OF m(2)] c [OF m(3)] by metis
  obtain fl where fl: "\<And>ss f g h i j k. createFlatOffsetSpline ss f g h i j k = (fl ss f g h i j k, grown 1 5 ss) \<and> spline_ok (fl ss f g h i j k)"
    using d by metis
  show ?thesis using f(4) fl
    by (simp add: createLandSpline_def f(1-3) [simplified] build_grown SP_RIDGES_def SP_EROSION_def land_ridges_def grown_def)
qed

lemma initBiomeNoise_ok: "spline_ok (fst initBiomeNoise) \<and> snd initBiomeNoise = \<lparr>ss_len = 41, ss_flen = 151\<rparr>"
proof -
  let ?ok = "\<lambda>i. list_all (\<lambda>f. ridge_start f \<le> - 0.65 \<or> - 0.64 < ridge_start f) (land_ridges i)"
    and ?n = "\<lambda>i bl. sum_list (map (\<lambda>f. fixed_values f bl) (land_ridges i)) + 27"
  have c: "\<exists>sp. createLandSpline ss f g h i j k bl = (sp, grown 10 n ss) \<and> spline_ok sp"
    if "?ok i" "?n i bl = n" for ss f g h i j k bl n
    using create_land_grown [OF that(1), of ss f g h j k bl] that(2) by (cases "createLandSpline ss f g h i j k bl") auto
  have v: "?ok 0.1" "?ok 0.7" "?ok 1" "?n 0.1 False = 37" "?n 0.7 True = 36" "?n 1 True = 36"
    by (simp_all add: land_ridges_def ridge_start_def fixed_values_def lerp_def)
  obtain l1 where l1: "\<And>ss f g h j k. createLandSpline ss f g h 0.1 j k False = (l1 ss f g h j k, grown 10 37 ss) \<and> spline_ok (l1 ss f g h j k)"
    using c [OF v(1,4)] by metis
  obtain l2 where l2: "\<And>ss f g h j k. createLandSpline ss f g h 0.7 j k True = (l2 ss f g h j k, grown 10 36 ss) \<and> spline_ok (l2 ss f g h j k)"
    using c [OF v(2,5)] by metis
  obtain l3 where l3: "\<And>ss f g h j k. createLandSpline ss f g h 1 j k True = (l3 ss f g h j k, grown 10 36 ss) \<and> spline_ok (l3 ss f g h j k)"
    using c [OF v(3,6)] by metis
  show ?thesis using l1 [simplified] l2 [simplified] l3 by (simp add: initBiomeNoise_def build_grown SP_CONTINENTALNESS_def grown_def)
qed

text \<open>
  C20: The terrain spline fits its memory, and evaluating it never fails: building it takes 41 of 42 splines
  and exactly 151 of the 151 fixed values, every spline in it has between 2 and 11 points at increasing
  locations, and so \<open>getSpline\<close> returns a value for every climate.
\<close>

theorem terrain_spline_fits:
  "ss_len (snd initBiomeNoise) = 41 \<and> ss_flen (snd initBiomeNoise) = 151 \<and> spline_ok (fst initBiomeNoise) \<and>
   getSpline (fst initBiomeNoise) vals \<noteq> None"
proof -
  have "spline_ok (fst initBiomeNoise) \<and> snd initBiomeNoise = \<lparr>ss_len = 41, ss_flen = 151\<rparr>" by (rule initBiomeNoise_ok)
  then show ?thesis using getSpline_returns by simp
qed

section \<open>Interpolation\<close>

lemma spline_index_at:
  assumes "sorted_wrt (<) (map fst ps)" "k < length ps" "f \<le> fst (ps ! k)" "k = 0 \<or> fst (ps ! (k - 1)) < f"
  shows "spline_index ps f = k"
proof -
  have before: "fst (ps ! j) < f" if "j < k" for j
  proof (cases "j = k - 1")
    case False
    then have "fst (ps ! j) < fst (ps ! (k - 1))" using that assms(1,2) by (auto simp: sorted_wrt_iff_nth_less)
    then show ?thesis using assms(4) that by auto
  qed (use assms(4) that in auto)
  have "takeWhile (\<lambda>(loc, _, _). loc < f) ps = take k ps"
    by (rule takeWhile_eq_take_P_nth) (use before assms(2,3) in \<open>auto simp: split_def\<close>)
  then show ?thesis using assms(2) by (simp add: spline_index_def)
qed

text \<open>The cubic with values \<open>n\<close>, \<open>v\<close> and slopes \<open>l\<close>, \<open>m\<close> at \<open>g\<close> and \<open>h\<close>, in the usual basis.\<close>

definition cubic :: "rat \<Rightarrow> rat \<Rightarrow> rat \<Rightarrow> rat \<Rightarrow> rat \<Rightarrow> rat \<Rightarrow> rat \<Rightarrow> rat" where
  "cubic g h l m n v f =
     (let t = (f - g) / (h - g)
      in n * (2 * t ^ 3 - 3 * t\<^sup>2 + 1) + (h - g) * l * (t ^ 3 - 2 * t\<^sup>2 + t) +
         v * (- 2 * t ^ 3 + 3 * t\<^sup>2) + (h - g) * m * (t ^ 3 - t\<^sup>2))"

lemma hermite_cubic: "hermite g h l m n v f = cubic g h l m n v f"
  by (simp add: hermite_def cubic_def Let_def lerp_def algebra_simps power3_eq_cube power2_eq_square)

lemma cubic_ends: "cubic g h l m n v g = n" "g \<noteq> h \<Longrightarrow> cubic g h l m n v h = v"
  by (simp_all add: cubic_def Let_def)

lemma spline_ok_points:
  assumes "spline_ok (Spline ty ps)"
  shows "sorted_wrt (<) (map fst ps)" "\<not> (length ps \<le> 1 \<or> 12 \<le> length ps)"
    and "i < j \<Longrightarrow> j < length ps \<Longrightarrow> fst (ps ! i) < fst (ps ! j)"
  using assms by (auto simp: sorted_wrt_iff_nth_less)

lemma getSpline_edge:
  assumes "spline_ok (Spline ty ps)" "spline_index ps (vals ! ty) = 0 \<or> spline_index ps (vals ! ty) = length ps"
    and "ps ! (spline_index ps (vals ! ty) - 1) = (h, sp, m)" "getSpline sp vals = Some v"
  shows "getSpline (Spline ty ps) vals = Some (v + m * (vals ! ty - h))"
  unfolding getSpline.simps(2) Let_def if_not_P [OF spline_ok_points(2) [OF assms(1)]] if_P [OF assms(2)] assms(3) prod.case assms(4)
  by simp

lemma getSpline_mid:
  assumes "spline_ok (Spline ty ps)" "\<not> (spline_index ps (vals ! ty) = 0 \<or> spline_index ps (vals ! ty) = length ps)"
    and "ps ! (spline_index ps (vals ! ty) - 1) = (g, sp1, l)" "getSpline sp1 vals = Some n"
    and "ps ! spline_index ps (vals ! ty) = (h, sp2, m)" "getSpline sp2 vals = Some v"
  shows "getSpline (Spline ty ps) vals = Some (cubic g h l m n v (vals ! ty))"
  unfolding getSpline.simps(2) Let_def if_not_P [OF spline_ok_points(2) [OF assms(1)]] if_not_P [OF assms(2)] assms(3,5) prod.case assms(4,6)
  by (simp add: hermite_cubic)

declare getSpline.simps(2) [simp del] spline_ok.simps(2) [simp del]

lemma getSpline_inside:
  assumes "spline_ok (Spline ty ps)" "k < length ps" "ps ! k = (h, sp2, m)" "getSpline sp2 vals = Some v"
    and "0 < k" "ps ! (k - 1) = (g, sp1, l)" "getSpline sp1 vals = Some n" "g < vals ! ty" "vals ! ty \<le> h"
  shows "getSpline (Spline ty ps) vals = Some (cubic g h l m n v (vals ! ty))"
proof -
  have "spline_index ps (vals ! ty) = k" by (rule spline_index_at [OF spline_ok_points(1) [OF assms(1)] assms(2)]) (use assms in auto)
  then show ?thesis using assms by (intro getSpline_mid) simp_all
qed

lemma getSpline_first:
  assumes "spline_ok (Spline ty ps)" "0 < length ps" "ps ! 0 = (h, sp2, m)" "getSpline sp2 vals = Some v" "vals ! ty \<le> h"
  shows "getSpline (Spline ty ps) vals = Some (v + m * (vals ! ty - h))"
proof -
  have "spline_index ps (vals ! ty) = 0" by (rule spline_index_at [OF spline_ok_points(1) [OF assms(1)] assms(2)]) (use assms in auto)
  then show ?thesis using assms by (intro getSpline_edge) simp_all
qed

lemma getSpline_at:
  assumes "spline_ok (Spline ty ps)" "k < length ps" "ps ! k = (h, sp2, m)" "getSpline sp2 vals = Some v" "vals ! ty = h"
  shows "getSpline (Spline ty ps) vals = Some v"
proof (cases "k = 0")
  case True
  then show ?thesis using getSpline_first [OF assms(1) _ _ assms(4), of h m] assms by auto
next
  case False
  obtain g sp1 l where g: "ps ! (k - 1) = (g, sp1, l)" by (cases "ps ! (k - 1)")
  have "g < h" using spline_ok_points(3) [OF assms(1), of "k - 1" k] False assms(2,3) g by simp
  moreover obtain n where "getSpline sp1 vals = Some n"
    using getSpline_returns [OF spline_ok_child [OF assms(1) _ g], of vals] assms(2) by fastforce
  ultimately show ?thesis using getSpline_inside [OF assms(1-4) _ g] False assms(5) by (simp add: cubic_ends)
qed

lemma getSpline_last:
  assumes "spline_ok (Spline ty ps)" "Suc k = length ps" "ps ! k = (h, sp2, m)" "getSpline sp2 vals = Some v" "h \<le> vals ! ty"
  shows "getSpline (Spline ty ps) vals = Some (v + m * (vals ! ty - h))"
proof (cases "vals ! ty = h")
  case True
  then show ?thesis using getSpline_at [OF assms(1) _ assms(3,4)] assms(2) by simp
next
  case False
  have "(\<lambda>(loc, _, _). loc < vals ! ty) p" if p: "p \<in> set ps" for p
  proof -
    obtain j where j: "j < length ps" "p = ps ! j" using p by (auto simp: in_set_conv_nth)
    have "fst p \<le> h"
    proof (cases "j = k")
      case False
      then show ?thesis using spline_ok_points(3) [OF assms(1), of j k] j assms(2,3) by simp
    qed (use j assms(3) in simp)
    then show ?thesis using False assms(5) by (cases p) auto
  qed
  then have "takeWhile (\<lambda>(loc, _, _). loc < vals ! ty) ps = ps" by (simp only: takeWhile_eq_all_conv) blast
  then have "spline_index ps (vals ! ty) = length ps" unfolding spline_index_def by (rule arg_cong)
  moreover have "length ps - 1 = k" using assms(2) by simp
  ultimately show ?thesis using assms by (intro getSpline_edge) simp_all
qed

text \<open>
  C21: Between two neighbouring points \<open>getSpline\<close> is the cubic with the values and slopes of the points, at a
  point it is the value of the point, and before the first and after the last point it is the straight line with
  the slope of that point.
\<close>

theorem getSpline_interpolates:
  assumes "spline_ok (Spline ty ps)" "k < length ps" "ps ! k = (h, sp2, m)" "getSpline sp2 vals = Some v"
  shows "(vals ! ty = h \<longrightarrow> getSpline (Spline ty ps) vals = Some v) \<and>
         (k = 0 \<and> vals ! ty \<le> h \<or> Suc k = length ps \<and> h \<le> vals ! ty \<longrightarrow>
            getSpline (Spline ty ps) vals = Some (v + m * (vals ! ty - h))) \<and>
         (\<forall>g sp1 l n. 0 < k \<and> ps ! (k - 1) = (g, sp1, l) \<and> getSpline sp1 vals = Some n \<and> g \<le> vals ! ty \<and> vals ! ty \<le> h \<longrightarrow>
            getSpline (Spline ty ps) vals = Some (cubic g h l m n v (vals ! ty)))"
proof (intro conjI impI allI)
  show "getSpline (Spline ty ps) vals = Some v" if "vals ! ty = h" by (rule getSpline_at [OF assms that])
  show "getSpline (Spline ty ps) vals = Some (v + m * (vals ! ty - h))"
    if "k = 0 \<and> vals ! ty \<le> h \<or> Suc k = length ps \<and> h \<le> vals ! ty"
    using that getSpline_first [OF assms(1) _ _ assms(4)] getSpline_last [OF assms(1) _ assms(3,4)] assms(2,3) by auto
  fix g sp1 l n
  assume c: "0 < k \<and> ps ! (k - 1) = (g, sp1, l) \<and> getSpline sp1 vals = Some n \<and> g \<le> vals ! ty \<and> vals ! ty \<le> h"
  show "getSpline (Spline ty ps) vals = Some (cubic g h l m n v (vals ! ty))"
  proof (cases "g = vals ! ty")
    case True
    have "getSpline (Spline ty ps) vals = Some n"
      by (rule getSpline_at [OF assms(1), of "k - 1" g sp1 l]) (use assms(2) c True in auto)
    then show ?thesis using True by (simp add: cubic_ends)
  qed (use getSpline_inside [OF assms] c in simp)
qed

lemma getSpline_interpolates_witness:
  "getSpline (Spline 0 [(0, FixSpline 1, 2), (2, FixSpline 3, 0)]) [1, 0, 0, 0] = Some (cubic 0 2 2 0 1 3 1) \<and> cubic 0 2 2 0 1 3 1 = 5 / 2"
proof -
  let ?ps = "[(0, FixSpline 1, 2), (2, FixSpline 3, 0)]"
  have "getSpline (Spline 0 ?ps) [1, 0, 0, 0] = Some (cubic 0 2 2 0 1 3 ([1, 0, 0, 0] ! 0))"
    using getSpline_interpolates [of 0 ?ps 1 2 "FixSpline 3" 0 "[1, 0, 0, 0]" 3] by (simp add: spline_ok.simps)
  then show ?thesis by (simp add: cubic_def power3_eq_cube power2_eq_square)
qed

end
