(* ===== verification/SplineBound.thy ===== *)
theory SplineBound
  imports TerrainSpline Noise
begin

text \<open>
  Bounds of the terrain spline and of the climate noises that enter it: what makes the climate of every cell
  fit the arithmetic of the search (\<open>getSpline\<close>, \<open>initBiomeNoise\<close> in \<open>src/cubiomes/biomenoise.c\<close>,
  \<open>sampleDoublePerlin\<close> in \<open>src/cubiomes/noise.c\<close>).
\<close>

section \<open>Splines with small values and slopes\<close>

fun gentle :: "nat \<Rightarrow> Spline \<Rightarrow> bool" where
  "gentle n (FixSpline v) \<longleftrightarrow> \<bar>v\<bar> \<le> 2"
| "gentle 0 (Spline ty ps) \<longleftrightarrow> False"
| "gentle (Suc n) (Spline ty ps) \<longleftrightarrow> list_all (\<lambda>(loc, v, der). \<bar>loc\<bar> \<le> 2 \<and> \<bar>der\<bar> \<le> 5 \<and> gentle n v) ps"

text \<open>A bound for the values of a spline of depth \<open>n\<close> on arguments up to 32.\<close>

primrec spline_cap :: "nat \<Rightarrow> rat" where
  "spline_cap 0 = 2"
| "spline_cap (Suc n) = 3 / 2 * spline_cap n + 170"

lemma spline_cap_mono: "2 \<le> spline_cap n"
  by (induction n) simp_all

lemma abs_mult_le:
  fixes a b :: rat
  assumes "\<bar>a\<bar> \<le> A" "\<bar>b\<bar> \<le> B"
  shows "\<bar>a * b\<bar> \<le> A * B"
proof -
  have "\<bar>a\<bar> * \<bar>b\<bar> \<le> A * B" using assms by (intro mult_mono) (auto intro: order.trans [OF abs_ge_zero])
  then show ?thesis by (simp add: abs_mult)
qed

lemma hermite_bound:
  assumes "g < f" "f \<le> h" "\<bar>g\<bar> \<le> 2" "\<bar>h\<bar> \<le> 2" "\<bar>l\<bar> \<le> 5" "\<bar>m\<bar> \<le> 5" "\<bar>n\<bar> \<le> B" "\<bar>v\<bar> \<le> B"
  shows "\<bar>hermite g h l m n v f\<bar> \<le> 3 / 2 * B + 5"
proof -
  define k where "k = (f - g) / (h - g)"
  have k: "0 \<le> k" "k \<le> 1" using assms(1,2) by (simp_all add: k_def)
  have hg: "\<bar>h - g\<bar> \<le> 4" using assms(3,4) by linarith
  have "\<bar>l * (h - g)\<bar> \<le> 5 * 4" "\<bar>- m * (h - g)\<bar> \<le> 5 * 4" using assms(5,6) hg by (intro abs_mult_le; simp)+
  then have pq: "\<bar>l * (h - g) - (v - n)\<bar> \<le> 20 + 2 * B" "\<bar>- m * (h - g) + (v - n)\<bar> \<le> 20 + 2 * B" using assms(7,8) by linarith+
  have "0 \<le> (k - 1 / 2) * (k - 1 / 2)" by (rule zero_le_square)
  then have "k * (1 - k) \<le> 1 / 4" by (simp add: algebra_simps)
  moreover have "0 \<le> k * (1 - k)" using k by simp
  ultimately have "\<bar>k * (1 - k)\<bar> \<le> 1 / 4" by simp
  from abs_mult_le [OF this lerp_bound [OF k pq]] lerp_bound [OF k assms(7,8)]
  have "\<bar>lerp k n v + k * (1 - k) * lerp k (l * (h - g) - (v - n)) (- m * (h - g) + (v - n))\<bar> \<le> B + 1 / 4 * (20 + 2 * B)"
    by linarith
  moreover have "B + 1 / 4 * (20 + 2 * B) = 3 / 2 * B + 5" by (simp add: field_simps)
  ultimately show ?thesis by (simp only: hermite_def Let_def k_def [symmetric])
qed

lemma spline_index_point: "i < spline_index ps f \<Longrightarrow> fst (ps ! i) < f"
  unfolding spline_index_def by (metis (mono_tags, lifting) nth_mem set_takeWhileD split_beta takeWhile_nth)

lemma spline_index_reached: "spline_index ps f < length ps \<Longrightarrow> f \<le> fst (ps ! spline_index ps f)"
  unfolding spline_index_def by (metis (mono_tags, lifting) not_le nth_length_takeWhile split_beta)

lemma getSpline_bound:
  assumes "spline_ok sp" "gentle n sp" "\<forall>i<4. \<bar>vals ! i\<bar> \<le> 32" "getSpline sp vals = Some w"
  shows "\<bar>w\<bar> \<le> spline_cap n"
  using assms(1,2,4)
proof (induction n arbitrary: sp w)
  case 0
  then show ?case by (cases sp) simp_all
next
  case (Suc n)
  show ?case
  proof (cases sp)
    case (FixSpline v)
    then show ?thesis using Suc.prems spline_cap_mono [of "Suc n"] by simp
  next
    case (Spline ty ps)
    let ?i = "spline_index ps (vals ! ty)" and ?f = "vals ! ty"
    have len: "\<not> (length ps \<le> 1 \<or> 12 \<le> length ps)" and ty: "ty < 4" using Suc.prems(1) by (simp_all add: Spline spline_ok.simps not_le)
    have f: "\<bar>?f\<bar> \<le> 32" using assms(3) ty by simp
    have pt: "\<bar>loc\<bar> \<le> 2 \<and> \<bar>der\<bar> \<le> 5 \<and> (\<forall>u. getSpline v vals = Some u \<longrightarrow> \<bar>u\<bar> \<le> spline_cap n)"
      if "i < length ps" "ps ! i = (loc, v, der)" for i loc v der
    proof -
      have "(loc, v, der) \<in> set ps" using that by (metis nth_mem)
      then have "\<bar>loc\<bar> \<le> 2 \<and> \<bar>der\<bar> \<le> 5 \<and> gentle n v" using Suc.prems(2) Spline by (auto simp: list_all_iff)
      moreover have "spline_ok v" using spline_ok_child [OF Suc.prems(1) [unfolded Spline] that] .
      ultimately show ?thesis using Suc.IH by blast
    qed
    obtain g sp1 l where a: "ps ! (?i - 1) = (g, sp1, l)" by (cases "ps ! (?i - 1)")
    note p1 = pt [OF spline_index_inside(1) [OF len] a]
    show ?thesis
    proof (cases "?i = 0 \<or> ?i = length ps")
      case True
      then obtain u where u: "getSpline sp1 vals = Some u" "w = u + l * (?f - g)"
        using Suc.prems(3) len a by (auto simp: Spline getSpline.simps(2) Let_def)
      have "\<bar>?f - g\<bar> \<le> 34" using f p1 by linarith
      then have "\<bar>l * (?f - g)\<bar> \<le> 5 * 34" using p1 by (intro abs_mult_le) simp_all
      moreover have "\<bar>u\<bar> \<le> spline_cap n" using p1 u(1) by blast
      ultimately have "\<bar>w\<bar> \<le> spline_cap n + 170" using u(2) by linarith
      then show ?thesis using spline_cap_mono [of n] by simp
    next
      case False
      obtain h sp2 m where b: "ps ! ?i = (h, sp2, m)" by (cases "ps ! ?i")
      note p2 = pt [OF spline_index_inside(2) [OF len False] b]
      obtain u1 u2 where u: "getSpline sp1 vals = Some u1" "getSpline sp2 vals = Some u2" "w = hermite g h l m u1 u2 ?f"
        using Suc.prems(3) len a b False by (auto simp: Spline getSpline.simps(2) Let_def split: option.splits)
      have "g < ?f" using spline_index_point [of "?i - 1" ps ?f] a False by simp
      moreover have "?f \<le> h" using spline_index_reached [OF spline_index_inside(2) [OF len False]] b by simp
      ultimately have "\<bar>w\<bar> \<le> 3 / 2 * spline_cap n + 5" unfolding u(3)
        using p1 p2 u(1,2) by (intro hermite_bound) simp_all
      then show ?thesis by simp
    qed
  qed
qed

section \<open>The terrain spline\<close>

definition flat_gentle :: "rat \<Rightarrow> rat \<Rightarrow> rat \<Rightarrow> rat \<Rightarrow> rat \<Rightarrow> rat \<Rightarrow> bool" where
  "flat_gentle f g h i j k \<longleftrightarrow>
     list_all (\<lambda>v. \<bar>v\<bar> \<le> 2) [f, g, h, i, j] \<and> \<bar>k\<bar> \<le> 5 \<and> \<bar>h - g\<bar> \<le> 1 \<and> \<bar>i - h\<bar> \<le> 1"

lemma create_flat_gentle:
  assumes "flat_gentle f g h i j k"
  shows "gentle (Suc n) (fst (createFlatOffsetSpline ss f g h i j k))"
  using assms by (auto simp: createFlatOffsetSpline_def flat_gentle_def build_grown abs_le_iff field_simps)

text \<open>The arguments of the flat splines of a land spline.\<close>

definition land_gentle :: "rat \<Rightarrow> rat \<Rightarrow> rat \<Rightarrow> rat \<Rightarrow> rat \<Rightarrow> rat \<Rightarrow> bool" where
  "land_gentle f g h i j k \<longleftrightarrow>
     flat_gentle (f - 0.15) (0.5 * i) (0.5 * i) (0.5 * i) (i * 0.6) 0.5 \<and> flat_gentle f (j * i) (g * i) (0.5 * i) (i * 0.6) 0.5 \<and>
     flat_gentle f j j g h 0.5 \<and> flat_gentle (- 0.02) k k g h 0 \<and> \<bar>h + 0.07\<bar> \<le> 2"

lemma create_land_gentle:
  assumes "\<And>ss. list_all (\<lambda>v. gentle 2 (fst (createSpline_38219 ss v bl))) (land_ridges i)" "land_gentle f g h i j k"
  shows "gentle 3 (fst (createLandSpline ss f g h i j k bl))"
proof -
  have fg: "\<bar>f\<bar> \<le> 2" "\<bar>h + 0.07\<bar> \<le> 2" using assms(2) by (simp_all add: land_gentle_def flat_gentle_def)
  have flat: "gentle (Suc n) sp" if "createFlatOffsetSpline ss a b c d e q = (sp, ss')" "flat_gentle a b c d e q" for n a b c d e q ss ss' sp
    using create_flat_gentle [OF that(2), of n ss] that(1) by simp
  have "gentle 2 (fst (createSpline_38219 ss v bl))" if "v \<in> set (land_ridges i)" for v ss
    using assms(1) [of ss] that by (simp add: list_all_iff)
  then have "\<forall>ss. gentle (Suc (Suc 0)) (fst (createSpline_38219 ss (lerp i 0.6 1.5) bl)) \<and>
      gentle (Suc (Suc 0)) (fst (createSpline_38219 ss (lerp i 0.6 1) bl)) \<and> gentle (Suc (Suc 0)) (fst (createSpline_38219 ss i bl))"
    by (simp add: land_ridges_def eval_nat_numeral)
  then show ?thesis
    using assms(2) fg
    by (cases bl) (auto simp: createLandSpline_def land_gentle_def build_grown eval_nat_numeral split_def
        intro!: flat [OF prod.collapse [symmetric]])
qed

lemma ridges_gentle:
  "list_all (\<lambda>v. gentle 2 (fst (createSpline_38219 ss v False))) (land_ridges 0.1)"
  "list_all (\<lambda>v. gentle 2 (fst (createSpline_38219 ss v True))) (land_ridges 0.7)"
  "list_all (\<lambda>v. gentle 2 (fst (createSpline_38219 ss v True))) (land_ridges 1)"
  by (simp_all add: land_ridges_def lerp_def createSpline_38219_def getOffsetValue_def build_grown eval_nat_numeral)

lemma initBiomeNoise_gentle: "gentle 4 (fst initBiomeNoise)"
proof -
  have g: "\<bar>v\<bar> \<le> 2 \<Longrightarrow> gentle n (FixSpline v)" for n v by simp
  have l: "gentle 3 sp" if "createLandSpline ss f g h i j k bl = (sp, ss')" "land_gentle f g h i j k"
      "\<And>ss. list_all (\<lambda>v. gentle 2 (fst (createSpline_38219 ss v bl))) (land_ridges i)" for ss ss' f g h i j k bl sp
    using create_land_gentle [OF that(3,2), of ss] that(1) by simp
  have ok: "land_gentle (- 0.15) 0 0 0.1 0 (- 0.03)" "land_gentle (- 0.1) 0.03 0.1 0.1 0.01 (- 0.03)"
    "land_gentle (- 0.1) 0.03 0.1 0.7 0.01 (- 0.03)" "land_gentle (- 0.05) 0.03 0.1 1 0.01 0.01"
    by (simp_all add: land_gentle_def flat_gentle_def)
  obtain sp1 s1 where 1: "createLandSpline (take_spline \<lparr>ss_len = 0, ss_flen = 0\<rparr>) (- 0.15) 0 0 0.1 0 (- 0.03) False = (sp1, s1)" by fastforce
  obtain sp2 s2 where 2: "createLandSpline s1 (- 0.1) 0.03 0.1 0.1 0.01 (- 0.03) False = (sp2, s2)" by fastforce
  obtain sp3 s3 where 3: "createLandSpline s2 (- 0.1) 0.03 0.1 0.7 0.01 (- 0.03) True = (sp3, s3)" by fastforce
  obtain sp4 s4 where 4: "createLandSpline s3 (- 0.05) 0.03 0.1 1 0.01 0.01 True = (sp4, s4)" by fastforce
  have "gentle 3 sp1" "gentle 3 sp2" "gentle 3 sp3" "gentle 3 sp4"
    using l [OF 1 ok(1) ridges_gentle(1)] l [OF 2 ok(2) ridges_gentle(1)] l [OF 3 ok(3) ridges_gentle(2)] l [OF 4 ok(4) ridges_gentle(3)]
    by blast+
  then show ?thesis
    by (simp add: initBiomeNoise_def 1 [simplified] 2 [simplified] 3 [simplified] 4 [simplified] Let_def fix_grown addSplineVal_def eval_nat_numeral)
qed

section \<open>The climate noises\<close>

definition tidy :: "PerlinNoise \<Rightarrow> bool" where
  "tidy pn \<longleftrightarrow> 0 \<le> pn_d2 pn \<and> pn_d2 pn \<le> 1 \<and> pn_t2 pn = smoothstep (pn_d2 pn)"

lemma perlin_finish_tidy: "tidy (perlin_finish a b c idx)"
  unfolding tidy_def perlin_finish_def Let_def frac_def [symmetric]
  by (simp only: PerlinNoise.simps smoothstep_def simp_thms frac_unit less_imp_le [OF frac_unit(2)])

lemma xPerlinInit_tidy:
  assumes "xPerlinInit xr = Some (pn, xr')"
  shows "tidy pn"
  using assms by (auto simp: xPerlinInit_def perlin_finish_tidy split: prod.splits)

lemma samplePerlin_tidy:
  assumes "tidy pn"
  shows "\<bar>samplePerlin pn x y z 0 ymin\<bar> \<le> 2"
proof -
  have u: "\<bar>v\<bar> \<le> 1" "\<bar>v - 1\<bar> \<le> 1" "0 \<le> smoothstep v" "smoothstep v \<le> 1" if "0 \<le> v" "v \<le> 1" for v :: rat
    using that smoothstep_unit [OF that] by auto
  have fr: "0 \<le> v - of_int \<lfloor>v\<rfloor>" "v - of_int \<lfloor>v\<rfloor> \<le> 1" for v :: rat using frac_unit [of v] by (simp_all add: frac_def)
  obtain d2 h2 t2 where pick: "(if y = 0 then (pn_d2 pn, pn_h2 pn, pn_t2 pn)
       else let d2 = y + pn_b pn; i2 = floor d2; d2 = d2 - of_int i2
            in (d2, word_of_int i2, d2 * d2 * d2 * (d2 * (d2 * 6 - 15) + 10))) = (d2, h2, t2)" "0 \<le> d2" "d2 \<le> 1" "t2 = smoothstep d2"
  proof (cases "y = 0")
    case True
    then show ?thesis using that [of "pn_d2 pn" "pn_h2 pn" "pn_t2 pn"] assms by (simp add: tidy_def)
  next
    case False
    then show ?thesis using that [of "y + pn_b pn - of_int \<lfloor>y + pn_b pn\<rfloor>"] fr [of "y + pn_b pn"]
      by (simp add: Let_def smoothstep_def)
  qed
  show ?thesis
    unfolding samplePerlin_def pick(1)
    unfolding Let_def prod.case not_True_eq_False if_False pick(4) smoothstep_def [symmetric]
    by (simp only: simp_thms if_False) (intro lerp_bound indexedLerp_bound u fr pick(2,3))
qed

definition octave_sum :: "PerlinNoise list \<Rightarrow> rat" where
  "octave_sum octs = sum_list (map (\<lambda>p. \<bar>pn_amplitude p\<bar>) octs)"

lemma sampleOctave_bound:
  assumes "list_all tidy (on_octaves on)"
  shows "\<bar>sampleOctave on x y z\<bar> \<le> 2 * octave_sum (on_octaves on)"
proof -
  have "\<bar>fold (\<lambda>p v. v + pn_amplitude p * samplePerlin p (q1 p) (q2 p) (q3 p) 0 0) ps v\<bar> \<le> \<bar>v\<bar> + 2 * octave_sum ps"
    if "list_all tidy ps" for ps v q1 q2 q3
    using that
  proof (induction ps arbitrary: v)
    case (Cons p ps)
    have "\<bar>pn_amplitude p * samplePerlin p (q1 p) (q2 p) (q3 p) 0 0\<bar> \<le> \<bar>pn_amplitude p\<bar> * 2"
      using Cons.prems by (intro abs_mult_le samplePerlin_tidy) simp_all
    moreover note Cons.IH [of "v + pn_amplitude p * samplePerlin p (q1 p) (q2 p) (q3 p) 0 0"]
    ultimately show ?case using Cons.prems by (simp add: octave_sum_def)
  qed (simp add: octave_sum_def)
  from this [OF assms, of "\<lambda>p. maintainPrecision (x * pn_lacunarity p)" "\<lambda>p. maintainPrecision (y * pn_lacunarity p)"
      "\<lambda>p. maintainPrecision (z * pn_lacunarity p)" 0]
  show ?thesis by (simp add: sampleOctave_def Let_def)
qed

primrec amp_sum :: "rat \<Rightarrow> rat list \<Rightarrow> rat" where
  "amp_sum persist [] = 0"
| "amp_sum persist (a # as) = a * persist + amp_sum (persist * (1 / 2)) as"

lemma xOctaveInit_loop_sum:
  assumes "nmax < 0" "list_all (\<lambda>a. 0 \<le> a) as" "0 \<le> persist" "0 \<le> n" "xOctaveInit_loop i n xlo xhi omin nmax as lacuna persist = Some octs"
  shows "list_all tidy octs \<and> octave_sum octs = amp_sum persist as"
  using assms(2-)
proof (induction as arbitrary: i n lacuna persist octs)
  case (Cons a as)
  have n: "n \<noteq> nmax" "0 \<le> n + 1" "0 \<le> persist * (1 / 2)" "list_all (\<lambda>a. 0 \<le> a) as" "0 \<le> a * persist"
    using assms(1) Cons.prems by auto
  show ?case
  proof (cases "a = 0")
    case True
    then show ?thesis using Cons.IH [OF n(4,3) Cons.prems(3), of "Suc i" "lacuna * 2" octs] Cons.prems(4) n(1) by simp
  next
    case False
    then obtain pxr oct q rest where r: "xPerlinInit pxr = Some (oct, q)" "octs = oct\<lparr>pn_amplitude := a * persist, pn_lacunarity := lacuna\<rparr> # rest"
      "xOctaveInit_loop (Suc i) (n + 1) xlo xhi omin nmax as (lacuna * 2) (persist * (1 / 2)) = Some rest"
      using Cons.prems(4) n(1) by (auto simp: Let_def bind_eq_Some_conv split: prod.splits)
    have "tidy (oct\<lparr>pn_amplitude := a * persist, pn_lacunarity := lacuna\<rparr>)" using xPerlinInit_tidy [OF r(1)] by (simp add: tidy_def)
    then show ?thesis using Cons.IH [OF n(4,3,2) r(3)] n(5) r(2) by (simp add: octave_sum_def)
  qed
qed (simp add: octave_sum_def)

lemma sampleDoublePerlin_bound:
  assumes "xDoublePerlinInit xr amps omin (- 1) = Some (dpn, xr')" "list_all (\<lambda>a. 0 \<le> a) amps" "0 \<le> persist_ini ! length amps"
  shows "\<bar>sampleDoublePerlin dpn x y z\<bar> \<le> 4 * amp_sum (persist_ini ! length amps) amps * \<bar>dp_amplitude dpn\<bar>"
proof -
  obtain xr1 where ab: "xOctaveInit xr amps omin (- 1) = Some (dp_octA dpn, xr1)" "xOctaveInit xr1 amps omin (- 1) = Some (dp_octB dpn, xr')"
    using assms(1) by (auto simp: xDoublePerlinInit_def Let_def bind_eq_Some_conv)
  have b: "\<bar>sampleOctave on u v w\<bar> \<le> 2 * amp_sum (persist_ini ! length amps) amps"
    if init: "xOctaveInit q amps omin (- 1) = Some (on, q')" for q q' on u v w
  proof -
    obtain xlo xhi octs where o: "on = \<lparr>on_octaves = octs\<rparr>"
      "xOctaveInit_loop 0 0 xlo xhi omin (- 1) amps (lacuna_ini ! nat (- omin)) (persist_ini ! length amps) = Some octs"
      using init by (auto simp: xOctaveInit_def Let_def split: prod.splits)
    have "list_all tidy octs \<and> octave_sum octs = amp_sum (persist_ini ! length amps) amps"
      by (rule xOctaveInit_loop_sum [OF _ assms(2,3) _ o(2)]) simp_all
    then show ?thesis using sampleOctave_bound [of on u v w] o(1) by simp
  qed
  have "\<bar>sampleOctave (dp_octA dpn) x y z + sampleOctave (dp_octB dpn) (x * (337 / 331)) (y * (337 / 331)) (z * (337 / 331))\<bar>
      \<le> 4 * amp_sum (persist_ini ! length amps) amps"
    using b [OF ab(1), of x y z] b [OF ab(2), of "x * (337 / 331)" "y * (337 / 331)" "z * (337 / 331)"] by linarith
  from abs_mult_le [OF this order_refl] show ?thesis by (simp add: sampleDoublePerlin_def Let_def)
qed

end
