(* ===== verification/ClimateSeed.thy ===== *)
theory ClimateSeed
  imports GpuInit Centers
begin

text \<open>
  The noises of a seed (\<open>init_climate_seed\<close> and \<open>setBiomeSeed\<close> in \<open>src/cubiomes/biomenoise.c\<close>): six double
  Perlin noises over one buffer of octaves. The theorems say that the buffer is filled exactly, and that the tables
  the kernels initialise for a seed are those of cubiomes' continentalness.
\<close>

section \<open>Definitions\<close>

text \<open>
  The result is \<open>None\<close> when a draw never comes out, \<open>Some (Inl message)\<close> when the program exits, and
  otherwise the noise with the number of octaves it took from the buffer.
\<close>

definition xDoublePerlinInit_n :: "Xoroshiro \<Rightarrow> rat list \<Rightarrow> int \<Rightarrow> int \<Rightarrow> (string + DoublePerlinNoise \<times> nat) option" where
  "xDoublePerlinInit_n pxr amp omin nmax =
     map_option (\<lambda>(dpn, _). Inr (dpn, length (on_octaves (dp_octA dpn)) + length (on_octaves (dp_octB dpn))))
       (xDoublePerlinInit pxr amp omin nmax)"

definition init_climate_seed :: "u64 \<Rightarrow> u64 \<Rightarrow> bool \<Rightarrow> nat \<Rightarrow> int \<Rightarrow> (string + DoublePerlinNoise \<times> nat) option" where
  "init_climate_seed xlo xhi large_biomes nptype nmax =
     (if nptype = 4 then
        xDoublePerlinInit_n \<lparr>xr_lo = xlo XOR 0x080518cf6af25384, xr_hi = xhi XOR 0x3f3dfb40a54febd5\<rparr> [1, 1, 1, 0] (- 3) nmax
      else if nptype = 0 then
        xDoublePerlinInit_n
          \<lparr>xr_lo = xlo XOR (if large_biomes then 0x944b0073edf549db else 0x5c7e6b29735f0d7f),
           xr_hi = xhi XOR (if large_biomes then 0x4ff44347e9d22b96 else 0xf7d86f1bbc734988)\<rparr>
          [1.5, 0, 1, 0, 0, 0] (if large_biomes then - 12 else - 10) nmax
      else if nptype = 1 then
        xDoublePerlinInit_n
          \<lparr>xr_lo = xlo XOR (if large_biomes then 0x71b8ab943dbd5301 else 0x81bb4d22e8dc168e),
           xr_hi = xhi XOR (if large_biomes then 0xbb63ddcf39ff7a2b else 0xf1c8b4bea16303cd)\<rparr>
          [1, 1, 0, 0, 0, 0] (if large_biomes then - 10 else - 8) nmax
      else if nptype = 2 then
        xDoublePerlinInit_n
          \<lparr>xr_lo = xlo XOR (if large_biomes then 0x9a3f51a113fce8dc else 0x83886c9d0ae3a662),
           xr_hi = xhi XOR (if large_biomes then 0xee2dbd157e5dcdad else 0xafa638a61b42e8ad)\<rparr>
          [1, 1, 2, 2, 2, 1, 1, 1, 1] (if large_biomes then - 11 else - 9) nmax
      else if nptype = 3 then
        xDoublePerlinInit_n
          \<lparr>xr_lo = xlo XOR (if large_biomes then 0x8c984b1f8702a951 else 0xd02491e6058f6fd8),
           xr_hi = xhi XOR (if large_biomes then 0xead7b1f92bae535f else 0x4792512c94c17a80)\<rparr>
          [1, 1, 0, 1, 1] (if large_biomes then - 11 else - 9) nmax
      else if nptype = 5 then
        xDoublePerlinInit_n \<lparr>xr_lo = xlo XOR 0xefc8ef4d36102b34, xr_hi = xhi XOR 0x1beeeb324a0f24ea\<rparr> [1, 2, 1, 0, 0, 0] (- 7) nmax
      else Some (Inl ''unsupported climate parameter''))"

text \<open>The loop over the climates: \<open>n\<close> counts the octaves taken.\<close>

fun climate_loop :: "u64 \<Rightarrow> u64 \<Rightarrow> bool \<Rightarrow> nat list \<Rightarrow> nat \<Rightarrow> DoublePerlinNoise list \<Rightarrow> (string + DoublePerlinNoise list \<times> nat) option" where
  "climate_loop xlo xhi large_biomes [] n climate = Some (Inr (climate, n))"
| "climate_loop xlo xhi large_biomes (i # is) n climate =
     (case init_climate_seed xlo xhi large_biomes i (- 1) of
        None \<Rightarrow> None
      | Some (Inl msg) \<Rightarrow> Some (Inl msg)
      | Some (Inr (dpn, k)) \<Rightarrow> climate_loop xlo xhi large_biomes is (n + k) (climate @ [dpn]))"

definition octave_buffer :: nat where
  "octave_buffer = 2 * 23"

definition climate_fork :: "u64 \<Rightarrow> u64 \<times> u64" where
  "climate_fork seed =
     (let pxr = xSetSeed seed;
          (xlo, pxr) = xNextLong pxr;
          (xhi, pxr) = xNextLong pxr
      in (xlo, xhi))"

definition setBiomeSeed :: "u64 \<Rightarrow> bool \<Rightarrow> (string + BiomeNoise) option" where
  "setBiomeSeed seed large_biomes =
     (let (xlo, xhi) = climate_fork seed
      in case climate_loop xlo xhi large_biomes [0..<6] 0 [] of
           None \<Rightarrow> None
         | Some (Inl msg) \<Rightarrow> Some (Inl msg)
         | Some (Inr (climate, n)) \<Rightarrow>
             if octave_buffer < n then Some (Inl ''setBiomeSeed(): BiomeNoise is malformed, buffer too small'')
             else Some (Inr \<lparr>bn_climate = climate\<rparr>))"

section \<open>The buffer\<close>

lemma xOctaveInit_loop_length:
  assumes "nmax < 0" "0 \<le> n"
  shows "xOctaveInit_loop i n xlo xhi omin nmax as lacuna persist = Some octs \<Longrightarrow> length octs = length (filter (\<lambda>a. a \<noteq> 0) as)"
  using assms(2)
proof (induction as arbitrary: i n lacuna persist octs)
  case (Cons a as)
  have "n \<noteq> nmax" "0 \<le> n + 1" using assms(1) Cons.prems(2) by auto
  then show ?case using Cons.prems Cons.IH [of "Suc i" n] Cons.IH [of "Suc i" "n + 1"]
    by (auto simp: Let_def bind_eq_Some_conv split: if_splits prod.splits)
qed simp

lemma xDoublePerlinInit_n_count:
  assumes "xDoublePerlinInit_n pxr amp omin (- 1) = Some r"
  shows "\<exists>dpn. r = Inr (dpn, 2 * length (filter (\<lambda>a. a \<noteq> 0) amp)) \<and>
    length (on_octaves (dp_octA dpn)) = length (filter (\<lambda>a. a \<noteq> 0) amp) \<and> length (on_octaves (dp_octB dpn)) = length (filter (\<lambda>a. a \<noteq> 0) amp)"
proof -
  obtain dpn xr where d: "xDoublePerlinInit pxr amp omin (- 1) = Some (dpn, xr)"
      "r = Inr (dpn, length (on_octaves (dp_octA dpn)) + length (on_octaves (dp_octB dpn)))"
    using assms by (auto simp: xDoublePerlinInit_n_def)
  then obtain xr1 where ab: "xOctaveInit pxr amp omin (- 1) = Some (dp_octA dpn, xr1)" "xOctaveInit xr1 amp omin (- 1) = Some (dp_octB dpn, xr)"
    by (auto simp: xDoublePerlinInit_def Let_def bind_eq_Some_conv)
  have len: "length (on_octaves on) = length (filter (\<lambda>a. a \<noteq> 0) amp)" if "xOctaveInit q amp omin (- 1) = Some (on, q')" for q on q'
    using that xOctaveInit_loop_length [of "- 1" 0] by (auto simp: xOctaveInit_def Let_def split_def)
  show ?thesis using d(2) len [OF ab(1)] len [OF ab(2)] by auto
qed

definition climate_octaves :: "nat \<Rightarrow> nat" where
  "climate_octaves i = [4, 4, 18, 8, 6, 6] ! i"

lemma init_climate_seed_count:
  assumes "init_climate_seed xlo xhi large_biomes i (- 1) = Some r" "i < 6"
  shows "\<exists>dpn. r = Inr (dpn, climate_octaves i) \<and>
    length (on_octaves (dp_octA dpn)) = [2, 2, 9, 4, 3, 3] ! i \<and> length (on_octaves (dp_octB dpn)) = [2, 2, 9, 4, 3, 3] ! i"
proof -
  consider "i = 0" | "i = 1" | "i = 2" | "i = 3" | "i = 4" | "i = 5" using assms(2) by linarith
  then show ?thesis using assms(1)
    by cases (auto simp: init_climate_seed_def climate_octaves_def dest!: xDoublePerlinInit_n_count)
qed

lemma climate_loop_count:
  assumes "climate_loop xlo xhi large_biomes is n climate = Some r" "list_all (\<lambda>i. i < 6) is"
  shows "\<exists>cs. r = Inr (climate @ cs, n + sum_list (map climate_octaves is)) \<and> length cs = length is \<and>
     list_all2 (\<lambda>i dpn. init_climate_seed xlo xhi large_biomes i (- 1) = Some (Inr (dpn, climate_octaves i))) is cs"
  using assms
proof (induction "is" arbitrary: n climate)
  case (Cons i "is")
  obtain r' where r': "init_climate_seed xlo xhi large_biomes i (- 1) = Some r'" using Cons.prems(1) by (auto split: option.splits)
  then obtain dpn where d: "r' = Inr (dpn, climate_octaves i)" using init_climate_seed_count Cons.prems(2) by fastforce
  have "climate_loop xlo xhi large_biomes is (n + climate_octaves i) (climate @ [dpn]) = Some r" using Cons.prems(1) r' d by simp
  from Cons.IH [OF this] Cons.prems(2) obtain cs where
    "r = Inr ((climate @ [dpn]) @ cs, n + climate_octaves i + sum_list (map climate_octaves is))" "length cs = length is"
    "list_all2 (\<lambda>i dpn. init_climate_seed xlo xhi large_biomes i (- 1) = Some (Inr (dpn, climate_octaves i))) is cs" by auto
  then show ?case using r' d by (intro exI [of _ "dpn # cs"]) (simp add: add.assoc)
qed simp

lemma six_climates: "[0..<6] = [0, 1, 2, 3, 4, 5 :: nat]"
  by (simp add: upt_rec)

lemma setBiomeSeed_cases:
  assumes "setBiomeSeed seed large_biomes = Some r"
  obtains bn where "r = Inr bn" "length (bn_climate bn) = 6"
    "\<And>i. i < 6 \<Longrightarrow> init_climate_seed (fst (climate_fork seed)) (snd (climate_fork seed)) large_biomes i (- 1) = Some (Inr (bn_climate bn ! i, climate_octaves i))"
proof -
  obtain xlo xhi where f: "climate_fork seed = (xlo, xhi)" by (cases "climate_fork seed")
  obtain q where q: "climate_loop xlo xhi large_biomes [0..<6] 0 [] = Some q" using assms f by (auto simp: setBiomeSeed_def split: option.splits)
  obtain cs where cs: "q = Inr (cs, 46)" "length cs = 6"
      "list_all2 (\<lambda>i dpn. init_climate_seed xlo xhi large_biomes i (- 1) = Some (Inr (dpn, climate_octaves i))) [0..<6] cs"
    using climate_loop_count [OF q] by (auto simp: six_climates climate_octaves_def)
  have "r = Inr \<lparr>bn_climate = cs\<rparr>" using assms f q cs(1) by (simp add: setBiomeSeed_def octave_buffer_def)
  then show ?thesis using that [of "\<lparr>bn_climate = cs\<rparr>"] cs(2,3) f by (simp add: list_all2_conv_all_nth)
qed

text \<open>
  Seeding the climate noises never ends the program with a message: when it returns, there are six noises
  and they take exactly the 46 octaves of the buffer, 23 for the first and 23 for the second noises.
\<close>

theorem setBiomeSeed_fills_buffer:
  "case setBiomeSeed seed large_biomes of
     None \<Rightarrow> True
   | Some (Inl msg) \<Rightarrow> False
   | Some (Inr bn) \<Rightarrow> map (\<lambda>dpn. length (on_octaves (dp_octA dpn))) (bn_climate bn) = [2, 2, 9, 4, 3, 3] \<and>
       map (\<lambda>dpn. length (on_octaves (dp_octB dpn))) (bn_climate bn) = [2, 2, 9, 4, 3, 3] \<and>
       octave_buffer = 2 * sum_list [2, 2, 9, 4, 3, 3]"
proof (cases "setBiomeSeed seed large_biomes")
  case (Some r)
  then show ?thesis
  proof (cases rule: setBiomeSeed_cases)
    case (1 bn)
    have c: "bn_climate bn = [bn_climate bn ! 0, bn_climate bn ! 1, bn_climate bn ! 2, bn_climate bn ! 3, bn_climate bn ! 4, bn_climate bn ! 5]"
      using 1(2) by (intro nth_equalityI) (auto simp: less_Suc_eq nth_Cons' eval_nat_numeral)
    have l: "length (on_octaves (dp_octA (bn_climate bn ! i))) = [2, 2, 9, 4, 3, 3] ! i \<and> length (on_octaves (dp_octB (bn_climate bn ! i))) = [2, 2, 9, 4, 3, 3] ! i"
      if "i < 6" for i
      using init_climate_seed_count [OF 1(3) [OF that] that] by auto
    show ?thesis unfolding Some 1(1) option.case sum.case
      by (subst (1 2) c) (use l in \<open>simp add: octave_buffer_def\<close>)
  qed
qed simp

section \<open>The tables of the kernels\<close>

text \<open>What the kernels keep of a table of cubiomes.\<close>

definition kernel_table :: "PerlinNoise \<Rightarrow> ImprovedNoise" where
  "kernel_table pn =
     \<lparr>in_p = take 256 (pn_d pn), in_xo = trunc_offset (pn_a pn), in_yo = trunc_offset (pn_b pn), in_zo = trunc_offset (pn_c pn)\<rparr>"

lemma kernel_table_scaled [simp]: "kernel_table (pn\<lparr>pn_amplitude := a, pn_lacunarity := lf\<rparr>) = kernel_table pn"
  by (simp add: kernel_table_def)

lemma init_noise_table:
  "init_noise (as_xrsr xr) = map_option (\<lambda>(pn, _). kernel_table pn) (xPerlinInit xr)"
  unfolding init_noise_xPerlinInit kernel_table_def by (rule refl)

definition octave_state :: "u64 \<Rightarrow> u64 \<Rightarrow> int \<Rightarrow> nat \<Rightarrow> Xoroshiro" where
  "octave_state xlo xhi omin j =
     (let (mlo, mhi) = md5_octave_n ! nat (12 + omin + int j) in \<lparr>xr_lo = xlo XOR mlo, xr_hi = xhi XOR mhi\<rparr>)"

lemma xOctaveInit_loop_tables:
  assumes "\<forall>a\<in>set as. a \<noteq> 0" "nmax < 0" "0 \<le> n"
  shows "map_option (map kernel_table) (xOctaveInit_loop i n xlo xhi omin nmax as lacuna persist) =
    those (map (\<lambda>j. init_noise (as_xrsr (octave_state xlo xhi omin j))) [i..<i + length as])"
  using assms
proof (induction as arbitrary: i n lacuna persist)
  case (Cons a as)
  let ?rest = "\<lambda>n. xOctaveInit_loop (Suc i) n xlo xhi omin nmax as (lacuna * 2) (persist * (1 / 2))"
  have n: "n \<noteq> nmax" "a \<noteq> 0" "0 \<le> n + 1" using Cons.prems by auto
  obtain mlo mhi where m: "md5_octave_n ! nat (12 + omin + int i) = (mlo, mhi)" by (cases "md5_octave_n ! nat (12 + omin + int i)")
  have up: "[i..<i + length (a # as)] = i # [Suc i..<Suc i + length as]" by (simp add: upt_rec)
  have IH: "map_option (map kernel_table) (?rest (n + 1)) =
    those (map (\<lambda>j. init_noise (as_xrsr (octave_state xlo xhi omin j))) [Suc i..<Suc i + length as])"
    using Cons.prems n by (intro Cons.IH) auto
  show ?case
    unfolding up list.map those.simps IH [symmetric]
    unfolding octave_state_def m Let_def prod.case init_noise_table
    using n(1,2) by (cases "xPerlinInit \<lparr>xr_lo = xlo XOR mlo, xr_hi = xhi XOR mhi\<rparr>")
      (auto simp: m Let_def option.map_comp comp_def)
qed simp

definition fork_of :: "XrsrForkHash \<Rightarrow> XrsrRandomFork" where
  "fork_of h = \<lparr>fork_lo = hash_lo h, fork_hi = hash_hi h\<rparr>"

lemma fork_from_state:
  assumes "f \<noteq> fork_of h"
  shows "XrsrRandomFork_from f h = as_xrsr \<lparr>xr_lo = fork_lo f XOR hash_lo h, xr_hi = fork_hi f XOR hash_hi h\<rparr>"
proof -
  have "fork_lo f \<noteq> hash_lo h \<or> fork_hi f \<noteq> hash_hi h" using assms by (cases f) (auto simp: fork_of_def)
  then show ?thesis by (auto simp: XrsrRandomFork_from_def XrsrRandom_make_def as_xrsr_def or_eq_0_words xor_eq_0_words)
qed

lemma fork_of_longs:
  "XrsrRandom_fork (as_xrsr xr) =
     (\<lparr>fork_lo = fst (xNextLong xr), fork_hi = fst (xNextLong (snd (xNextLong xr)))\<rparr>, as_xrsr (snd (xNextLong (snd (xNextLong xr)))))"
  by (simp add: XrsrRandom_fork_def split_def xNextLong_eq [symmetric] Let_def)

lemma climate_fork_seed:
  "XrsrRandom_seed_fork seed = \<lparr>fork_lo = fst (climate_fork seed), fork_hi = snd (climate_fork seed)\<rparr>"
  unfolding seed_fork_eq xSetSeed_eq [symmetric] fork_of_longs by (simp add: climate_fork_def split_def Let_def)

text \<open>No generator on the way to the tables is in the all-zero state, which \<open>XrsrRandom\<close> repairs and cubiomes does not.\<close>

definition forks_regular :: "bool \<Rightarrow> u64 \<Rightarrow> bool" where
  "forks_regular l seed \<longleftrightarrow>
     (let config = chosen_continentalness_config l; (a, b) = noise_forks l seed
      in XrsrRandom_seed_fork seed \<noteq> fork_of (nn_hash config) \<and>
         list_all (\<lambda>c. a \<noteq> fork_of (oc_hash c)) (nn_a config) \<and> list_all (\<lambda>c. b \<noteq> fork_of (oc_hash c)) (nn_b config))"

lemma make_octaves_hash:
  "j < length as \<Longrightarrow> oc_hash (fst (make_octaves i first as f v ! j)) = hash_octave ! nat (first + 12 + int (i + j)) \<and>
     oc_hash (snd (make_octaves i first as f v ! j)) = hash_octave ! nat (first + 12 + int (i + j))"
proof (induction as arbitrary: i j f v)
  case (Cons a as)
  then show ?case by (cases j) simp_all
qed simp

lemma make_octaves_length [simp]: "length (make_octaves i first as f v) = length as"
  by (induction as arbitrary: i f v) simp_all

definition climate_omin :: "bool \<Rightarrow> int" where
  "climate_omin l = (if l then - 11 else - 9)"

lemma config_length: "length (nn_a (chosen_continentalness_config l)) = 9" "length (nn_b (chosen_continentalness_config l)) = 9"
  by (simp_all add: chosen_continentalness_config_def continentalness_config_def continentalness_large_config_def
      make_normal_noise_config_def continentalness_parameters_def continentalness_large_parameters_def make_noise_parameters_def Let_def)

lemma config_hash:
  assumes "k < 9"
  shows "oc_hash (nn_a (chosen_continentalness_config l) ! k) = hash_octave ! nat (12 + climate_omin l + int k)"
    and "oc_hash (nn_b (chosen_continentalness_config l) ! k) = hash_octave ! nat (12 + climate_omin l + int k)"
  using assms make_octaves_hash [of k]
  by (simp_all add: chosen_continentalness_config_def continentalness_config_def continentalness_large_config_def climate_omin_def
      make_normal_noise_config_def continentalness_parameters_def continentalness_large_parameters_def make_noise_parameters_def Let_def
      ac_simps del: make_octaves.simps)

lemma octave_state_hash:
  assumes "k < 9"
  shows "octave_state xlo xhi (climate_omin l) k =
     (let h = hash_octave ! nat (12 + climate_omin l + int k) in \<lparr>xr_lo = xlo XOR hash_lo h, xr_hi = xhi XOR hash_hi h\<rparr>)"
proof -
  have m: "md5_octave_n = map (\<lambda>h. (hash_lo h, hash_hi h)) hash_octave" by (simp add: md5_octave_n_def hash_octave_def)
  have "length hash_octave = 13" by (simp add: hash_octave_def)
  then have "nat (12 + climate_omin l + int k) < length hash_octave" using assms by (simp add: climate_omin_def nat_less_iff)
  then show ?thesis unfolding octave_state_def m Let_def by (subst nth_map) simp_all
qed

text \<open>One of the two noises: nine tables from a fork.\<close>

lemma fork_tables:
  assumes "\<And>k. k < 9 \<Longrightarrow> f \<noteq> fork_of (hash_octave ! nat (12 + climate_omin l + int k))"
    and "f = fst (XrsrRandom_fork (as_xrsr xr))" "length amp = 9" "\<forall>a\<in>set amp. a \<noteq> 0"
  shows "those (map (\<lambda>k. init_noise (XrsrRandomFork_from f (hash_octave ! nat (12 + climate_omin l + int k)))) [0..<9]) =
     map_option (\<lambda>(on, _). map kernel_table (on_octaves on)) (xOctaveInit xr amp (climate_omin l) (- 1))"
proof -
  have "map (\<lambda>k. init_noise (XrsrRandomFork_from f (hash_octave ! nat (12 + climate_omin l + int k)))) [0..<9] =
      map (\<lambda>k. init_noise (as_xrsr (octave_state (fork_lo f) (fork_hi f) (climate_omin l) k))) [0..<9]"
    by (rule map_cong [OF refl]) (simp add: fork_from_state [OF assms(1)] octave_state_hash Let_def)
  also have "those \<dots> = map_option (map kernel_table)
      (xOctaveInit_loop 0 0 (fork_lo f) (fork_hi f) (climate_omin l) (- 1) amp la pe)" for la pe
    by (subst xOctaveInit_loop_tables [OF assms(4)]) (simp_all add: assms(3))
  finally show ?thesis
    by (simp add: xOctaveInit_def assms(2) fork_of_longs split_def Let_def option.map_comp comp_def del: xOctaveInit_loop.simps)
qed

text \<open>
  C16: For every seed, the eighteen tables the kernels initialise are those of cubiomes' continentalness: the
  nine tables of either noise come out exactly when \<open>init_climate_seed\<close> returns, and they are its tables,
  with the offsets truncated to 16 fractional bits.
\<close>

theorem kernel_tables_are_climate:
  assumes "forks_regular l seed"
  shows "Option.bind (those (map (\<lambda>k. seed_octave l seed (slot_a k)) [0..<9]))
       (\<lambda>a. map_option (Pair a) (those (map (\<lambda>k. seed_octave l seed (slot_b k)) [0..<9]))) =
     (case init_climate_seed (fst (climate_fork seed)) (snd (climate_fork seed)) l 2 (- 1) of
        Some (Inr (dpn, _)) \<Rightarrow> Some (map kernel_table (on_octaves (dp_octA dpn)), map kernel_table (on_octaves (dp_octB dpn)))
      | _ \<Rightarrow> None)"
proof -
  let ?c = "chosen_continentalness_config l" and ?amp = "[1, 1, 2, 2, 2, 1, 1, 1, 1] :: rat list"
  obtain a b where ab: "noise_forks l seed = (a, b)" by (cases "noise_forks l seed")
  have reg: "XrsrRandom_seed_fork seed \<noteq> fork_of (nn_hash ?c)" "\<And>c. c \<in> set (nn_a ?c) \<Longrightarrow> a \<noteq> fork_of (oc_hash c)"
      "\<And>c. c \<in> set (nn_b ?c) \<Longrightarrow> b \<noteq> fork_of (oc_hash c)"
    using assms ab by (auto simp: forks_regular_def list_all_iff Let_def)
  define pxr where "pxr = \<lparr>xr_lo = fst (climate_fork seed) XOR hash_lo (nn_hash ?c), xr_hi = snd (climate_fork seed) XOR hash_hi (nn_hash ?c)\<rparr>"
  define xr where "xr = snd (xNextLong (snd (xNextLong pxr)))"
  have "XrsrRandomFork_from (XrsrRandom_seed_fork seed) (nn_hash ?c) = as_xrsr pxr"
    using fork_from_state [OF reg(1)] by (simp add: pxr_def climate_fork_seed)
  then have forks: "a = fst (XrsrRandom_fork (as_xrsr pxr))" "b = fst (XrsrRandom_fork (as_xrsr xr))"
    using ab by (simp_all add: noise_forks_def Let_def double_fork_eq fork_of_longs xr_def)
  have ne: "a \<noteq> fork_of (hash_octave ! nat (12 + climate_omin l + int k))" "b \<noteq> fork_of (hash_octave ! nat (12 + climate_omin l + int k))" if "k < 9" for k
    using reg(2) [of "nn_a ?c ! k"] reg(3) [of "nn_b ?c ! k"] config_hash [OF that, of l] config_length [of l] that by simp_all
  have sa: "map (\<lambda>k. seed_octave l seed (slot_a k)) [0..<9] =
      map (\<lambda>k. init_noise (XrsrRandomFork_from a (hash_octave ! nat (12 + climate_omin l + int k)))) [0..<9]"
    by (rule map_cong [OF refl]) (simp add: seed_octave_def ab slot_a_def config_hash Let_def)
  have sb: "map (\<lambda>k. seed_octave l seed (slot_b k)) [0..<9] =
      map (\<lambda>k. init_noise (XrsrRandomFork_from b (hash_octave ! nat (12 + climate_omin l + int k)))) [0..<9]"
    by (rule map_cong [OF refl]) (simp add: seed_octave_def ab slot_b_def config_hash Let_def)
  have init: "init_climate_seed (fst (climate_fork seed)) (snd (climate_fork seed)) l 2 (- 1) = xDoublePerlinInit_n pxr ?amp (climate_omin l) (- 1)"
    by (simp add: init_climate_seed_def pxr_def climate_omin_def chosen_continentalness_config_def continentalness_config_def
      continentalness_large_config_def make_normal_noise_config_def hash_continentalness_def hash_continentalness_large_def Let_def)
  have amp: "length ?amp = 9" "\<forall>a\<in>set ?amp. a \<noteq> 0" by simp_all
  have same: "q = xr" if "xOctaveInit pxr ?amp (climate_omin l) (- 1) = Some (on, q)" for on q
    using that by (auto simp: xOctaveInit_def xr_def split_def Let_def simp del: xOctaveInit_loop.simps)
  have ta: "those (map (\<lambda>k. seed_octave l seed (slot_a k)) [0..<9]) =
      map_option (\<lambda>(on, _). map kernel_table (on_octaves on)) (xOctaveInit pxr ?amp (climate_omin l) (- 1))"
    unfolding sa by (rule fork_tables [OF ne(1) forks(1) amp])
  have tb: "those (map (\<lambda>k. seed_octave l seed (slot_b k)) [0..<9]) =
      map_option (\<lambda>(on, _). map kernel_table (on_octaves on)) (xOctaveInit xr ?amp (climate_omin l) (- 1))"
    unfolding sb by (rule fork_tables [OF ne(2) forks(2) amp])
  show ?thesis
    unfolding ta tb init xDoublePerlinInit_n_def xDoublePerlinInit_def
    by (cases "xOctaveInit pxr ?amp (climate_omin l) (- 1)"; cases "xOctaveInit xr ?amp (climate_omin l) (- 1)")
      (auto dest!: same simp: Let_def)
qed

text \<open>The forks of a seed, computed.\<close>

lemma sample_seed_fork: "XrsrRandom_seed_fork 3 = \<lparr>fork_lo = 17520215285717621967, fork_hi = 4098424635931033617\<rparr>"
  by (simp add: XrsrRandom_seed_fork_def mix64_def rol64_def XRSR_SILVER_RATIO_def XRSR_GOLDEN_RATIO_def XRSR_MIX1_def XRSR_MIX2_def
      cong: let_weak_cong)

lemma sample_noise_forks:
  "noise_forks False 3 =
     (\<lparr>fork_lo = 3831931693695306386, fork_hi = 17662527524532914561\<rparr>, \<lparr>fork_lo = 5370647657740307189, fork_hi = 16656496707066923931\<rparr>)"
proof -
  have "XrsrRandom_double_fork \<lparr>x_lo = 8118902045017307821, x_hi = 10900610899310274748\<rparr> =
     (\<lparr>fork_lo = 3831931693695306386, fork_hi = 17662527524532914561\<rparr>, \<lparr>fork_lo = 5370647657740307189, fork_hi = 16656496707066923931\<rparr>)"
    by (simp add: XrsrRandom_double_fork_def rol64_def cong: let_weak_cong)
  then show ?thesis
    unfolding noise_forks_def sample_seed_fork
    by (simp add: chosen_continentalness_config_def continentalness_config_def make_normal_noise_config_def
        XrsrRandomFork_from_def XrsrRandom_make_def hash_continentalness_def Let_def)
qed

lemma sample_forks_regular: "forks_regular False 3"
  by (simp add: forks_regular_def sample_noise_forks sample_seed_fork fork_of_def chosen_continentalness_config_def continentalness_config_def
      make_normal_noise_config_def hash_continentalness_def continentalness_parameters_def make_noise_parameters_def hash_octave_def Let_def)

lemma kernel_tables_are_climate_witness:
  "case init_climate_seed (fst (climate_fork 3)) (snd (climate_fork 3)) False 2 (- 1) of
     Some (Inr (dpn, _)) \<Rightarrow> those (map (\<lambda>k. seed_octave False 3 (slot_a k)) [0..<9]) = Some (map kernel_table (on_octaves (dp_octA dpn)))
   | _ \<Rightarrow> Option.bind (those (map (\<lambda>k. seed_octave False 3 (slot_a k)) [0..<9]))
       (\<lambda>a. map_option (Pair a) (those (map (\<lambda>k. seed_octave False 3 (slot_b k)) [0..<9]))) = None"
  using kernel_tables_are_climate [OF sample_forks_regular]
  by (auto simp: bind_eq_Some_conv split: option.splits sum.splits)

end
