(* ===== verification/MonteCarlo.thy ===== *)
theory MonteCarlo
  imports Centers
begin

text \<open>
  The Monte Carlo estimate (\<open>inverf\<close>, \<open>wilson\<close> and \<open>monteCarloBiomes\<close> in \<open>src/cubiomes/finders.c\<close>): cells of
  an area are tested in random order until a confidence interval decides. When the number of samples comes near the
  number of cells the order is a shuffle in place, otherwise cells are drawn with repetition. The functions
  of the C mathematics library are parameters. The theorem says that the estimate always returns and is the sequential judgement of a
  list of cells, which with the shuffle holds every cell once.
\<close>

section \<open>Definitions\<close>

record MathLib =
  m_sqrt :: "rat \<Rightarrow> rat"
  m_exp :: "rat \<Rightarrow> rat"
  m_erf :: "rat \<Rightarrow> rat"

definition FLT_EPSILON :: rat where "FLT_EPSILON = 1 / 2 ^ 23"
definition PI :: rat where "PI = 3.14159265358979323846"

text \<open>Newton's method; \<open>None\<close> when it does not come to rest.\<close>

partial_function (option) inverf_loop :: "MathLib \<Rightarrow> rat \<Rightarrow> rat \<Rightarrow> rat \<Rightarrow> rat option" where
  "inverf_loop ml x t dt =
     (if FLT_EPSILON < \<bar>dt\<bar>
      then let dt = 0.5 * m_sqrt ml PI * (m_erf ml t - x) / m_exp ml (- t * t) in inverf_loop ml x (t - dt) dt
      else Some t)"

definition inverf :: "MathLib \<Rightarrow> rat \<Rightarrow> rat option" where
  "inverf ml x = inverf_loop ml x x 1"

definition wilson :: "MathLib \<Rightarrow> rat \<Rightarrow> rat \<Rightarrow> rat \<Rightarrow> rat \<times> rat" where
  "wilson ml n p z =
     (let s = z * z / n;
          t = 1 / (1 + s);
          w = t * (p + 0.5 * s);
          d = t * z * m_sqrt ml ((p * (1 - p) + 0.25 * s) / n) + FLT_EPSILON
      in (w - d, w + d))"

type_synonym Touple = "int \<times> int \<times> int"

text \<open>The buffer of all cells, in the order it is filled.\<close>

definition mc_cells :: "Range \<Rightarrow> Touple list" where
  "mc_cells r = concat (map (\<lambda>k. concat (map (\<lambda>j. map (\<lambda>i. (i, k, j)) [0..rg_sx r - 1]) [0..rg_sz r - 1])) [0..rg_sy r - 1])"

text \<open>One position: from the buffer, which is shuffled on the way, or drawn.\<close>

definition mc_sample :: "Range \<Rightarrow> nat \<Rightarrow> nat \<Rightarrow> Touple list option \<Rightarrow> u64 \<Rightarrow> (Touple \<times> Touple list option \<times> u64) option" where
  "mc_sample r n i buf rng =
     (case buf of
        Some b \<Rightarrow>
          (let j = n - i
           in map_option (\<lambda>(k, rng).
                let t = b ! unat k;
                    b = (if unat k \<noteq> j - 1 then b[unat k := b ! (j - 1), j - 1 := t] else b)
                in (t, Some b, rng))
              (cub_nextInt (of_nat j) rng))
      | None \<Rightarrow>
          Option.bind (cub_nextInt (word_of_int (rg_sx r)) rng) (\<lambda>(tx, rng).
          Option.bind (cub_nextInt (word_of_int (rg_sy r)) rng) (\<lambda>(ty, rng).
          map_option (\<lambda>(tz, rng). ((sint tx, sint ty, sint tz), None, rng))
            (cub_nextInt (word_of_int (rg_sz r)) rng))))"

text \<open>The counters and the decision after a sample: \<open>Some\<close> result when the loop is left.\<close>

definition mc_decide :: "MathLib \<Rightarrow> rat \<Rightarrow> rat \<Rightarrow> rat \<Rightarrow> rat \<Rightarrow> rat \<Rightarrow> bool option" where
  "mc_decide ml coverage zscore width m x =
     (let per_m = 1 / m;
          (lo, hi) = wilson ml m (x * per_m) zscore
      in if lo - per_m > coverage then Some True
         else if hi + per_m < coverage then Some False
         else if hi - lo < width then Some (x * per_m > coverage)
         else None)"

primrec mc_loop ::
    "nat \<Rightarrow> MathLib \<Rightarrow> (int \<Rightarrow> int \<Rightarrow> int \<Rightarrow> int \<Rightarrow> int) \<Rightarrow> Range \<Rightarrow> rat \<Rightarrow> rat \<Rightarrow> rat \<Rightarrow> nat \<Rightarrow> Touple list option \<Rightarrow> u64 \<Rightarrow> rat \<Rightarrow> rat \<Rightarrow>
     (bool \<times> u64) option" where
  "mc_loop 0 ml eval r coverage zscore width n buf rng m x = Some (True, rng)"
| "mc_loop (Suc left) ml eval r coverage zscore width n buf rng m x =
     Option.bind (mc_sample r n (n - Suc left) buf rng) (\<lambda>((tx, ty, tz), buf, rng).
       let status = eval (rg_scale r) (rg_x r + tx) (rg_y r + ty) (rg_z r + tz)
       in if status = - 1 then mc_loop left ml eval r coverage zscore width n buf rng m x
          else if status \<noteq> 0 \<and> status \<noteq> 1 then Some (False, rng)
          else let x = (if status = 1 then x + 1 else x);
                   m = m + 1
               in case mc_decide ml coverage zscore width m x of
                    Some ret \<Rightarrow> Some (ret, rng)
                  | None \<Rightarrow> mc_loop left ml eval r coverage zscore width n buf rng m x)"

text \<open>\<open>malloc_ok\<close>: whether the memory for the buffer is there; without it cells are drawn.\<close>

definition monteCarloBiomes ::
    "MathLib \<Rightarrow> bool \<Rightarrow> Range \<Rightarrow> u64 \<Rightarrow> rat \<Rightarrow> rat \<Rightarrow> (int \<Rightarrow> int \<Rightarrow> int \<Rightarrow> int \<Rightarrow> int) \<Rightarrow> (bool \<times> u64) option" where
  "monteCarloBiomes ml malloc_ok r rng coverage confidence eval =
     (let r = (if rg_sy r = 0 then r\<lparr>rg_sy := 1\<rparr> else r);
          n = nat ((rg_sx r * rg_sy r * rg_sz r) mod 2 ^ 64)
      in Option.bind (inverf ml confidence) (\<lambda>v.
         let zscore = m_sqrt ml 2 * v;
             wn = zscore * m_sqrt ml (of_nat n);
             (wlo, whi) = wilson ml wn coverage zscore;
             buf = (if of_nat n < 4 * wn \<and> n < 2 ^ 31 - 1 \<and> malloc_ok then Some (mc_cells r) else None)
         in mc_loop n ml eval r coverage zscore (whi - wlo) n buf rng 0 0))"

section \<open>The order of the cells\<close>

lemma cub_nextInt_returns:
  assumes "0 < n" "n < 2 ^ 31"
  shows "\<exists>k s'. cub_nextInt (word_of_int n) s = Some (k, s') \<and> unat k < nat n \<and> sint k = int (unat k)"
proof -
  let ?n = "word_of_int n :: u32"
  have u: "unat ?n = nat n" using assms by (simp add: unat_eq_nat_uint uint_word_of_int)
  then have n: "0 < ?n" "unat ?n < 2 ^ 31" "?n \<noteq> 0" using assms by (auto simp: word_less_nat_alt word_gt_0)
  obtain k s' where "cub_nextInt ?n s = Some (k, s')" "unat k < unat ?n" using cub_draw_returns [OF n(1,2)] by blast
  moreover have "unat k < 2 ^ 31" using \<open>unat k < unat ?n\<close> n(2) by simp
  ultimately show ?thesis using \<open>unat k < unat ?n\<close> u sint_nonneg_eq by auto
qed

lemma mc_cells_set: "(i, k, j) \<in> set (mc_cells r) \<longleftrightarrow> 0 \<le> i \<and> i < rg_sx r \<and> 0 \<le> k \<and> k < rg_sy r \<and> 0 \<le> j \<and> j < rg_sz r"
proof -
  have "(i, k, j) \<in> set (mc_cells r) \<longleftrightarrow> k \<in> {0..rg_sy r - 1} \<and> j \<in> {0..rg_sz r - 1} \<and> i \<in> {0..rg_sx r - 1}"
    unfolding mc_cells_def by (auto simp only: set_concat set_map set_upto image_iff Union_iff bex_simps prod.inject)
  then show ?thesis by auto
qed

lemma mc_cells_length:
  assumes "0 \<le> rg_sx r" "0 \<le> rg_sy r" "0 \<le> rg_sz r"
  shows "length (mc_cells r) = nat (rg_sx r * rg_sy r * rg_sz r)"
  using assms by (simp add: mc_cells_def length_concat comp_def sum_list_triv nat_mult_distrib ac_simps)

lemma mc_cells_distinct: "distinct (mc_cells r)"
proof -
  have row: "distinct (concat (map (\<lambda>j. map (\<lambda>i. (i, k, j)) is) js))" if "distinct is" "distinct js" for k "is" js
    using that by (induction js) (auto simp: distinct_map inj_on_def)
  have "distinct (concat (map (\<lambda>k. concat (map (\<lambda>j. map (\<lambda>i. (i, k, j)) is) js)) ks))" if "distinct is" "distinct js" "distinct ks" for "is" js ks
    using that row by (induction ks) auto
  then show ?thesis unfolding mc_cells_def using distinct_upto by blast
qed

text \<open>The decision over the results of the cells, one after the other.\<close>

primrec mc_judge :: "MathLib \<Rightarrow> rat \<Rightarrow> rat \<Rightarrow> rat \<Rightarrow> int list \<Rightarrow> rat \<Rightarrow> rat \<Rightarrow> bool" where
  "mc_judge ml coverage zscore width [] m x = True"
| "mc_judge ml coverage zscore width (status # rest) m x =
     (if status = - 1 then mc_judge ml coverage zscore width rest m x
      else if status \<noteq> 0 \<and> status \<noteq> 1 then False
      else let x = (if status = 1 then x + 1 else x); m = m + 1
           in case mc_decide ml coverage zscore width m x of
                Some ret \<Rightarrow> ret | None \<Rightarrow> mc_judge ml coverage zscore width rest m x)"

definition cell_status :: "(int \<Rightarrow> int \<Rightarrow> int \<Rightarrow> int \<Rightarrow> int) \<Rightarrow> Range \<Rightarrow> Touple \<Rightarrow> int" where
  "cell_status eval r = (\<lambda>(tx, ty, tz). eval (rg_scale r) (rg_x r + tx) (rg_y r + ty) (rg_z r + tz))"

text \<open>The cells that can still come: with the buffer, its first \<open>left\<close> entries, each once.\<close>

definition cells_left :: "Range \<Rightarrow> nat \<Rightarrow> Touple list option \<Rightarrow> Touple list \<Rightarrow> bool" where
  "cells_left r left buf ps \<longleftrightarrow>
     length ps = left \<and> (case buf of Some b \<Rightarrow> mset ps = mset (take left b) | None \<Rightarrow> set ps \<subseteq> set (mc_cells r))"

lemma shuffle_step:
  assumes "k \<le> left" "left < length b"
  shows "mset (take (Suc left) b) = add_mset (b ! k) (mset (take left (if k \<noteq> left then b[k := b ! left, left := b ! k] else b)))"
proof (cases "k = left")
  case True
  then show ?thesis using assms by (simp add: take_Suc_conv_app_nth)
next
  case False
  then have k: "k < left" using assms(1) by simp
  have "take left (b[k := b ! left, left := b ! k]) = (take left b)[k := b ! left]"
    using k by (simp add: take_update_swap list_update_beyond)
  moreover have "mset ((take left b)[k := b ! left]) = add_mset (b ! left) (mset (take left b) - {#b ! k#})"
    using k assms(2) by (simp add: mset_update)
  moreover have "b ! k \<in># mset (take left b)" using k assms(2) by (auto simp: in_set_conv_nth intro!: exI [of _ k])
  ultimately show ?thesis using False assms(2) by (simp add: take_Suc_conv_app_nth)
qed

lemma mc_sample_returns:
  assumes "0 < rg_sx r" "0 < rg_sy r" "0 < rg_sz r" "rg_sx r < 2 ^ 31" "rg_sy r < 2 ^ 31" "rg_sz r < 2 ^ 31"
    and "Suc left \<le> n" "case buf of Some b \<Rightarrow> length b = n \<and> n < 2 ^ 31 | None \<Rightarrow> True"
  obtains t buf' rng' where "mc_sample r n (n - Suc left) buf rng = Some (t, buf', rng')"
    "case buf' of Some b \<Rightarrow> length b = n \<and> n < 2 ^ 31 | None \<Rightarrow> True"
    "\<And>ps. cells_left r left buf' ps \<Longrightarrow> cells_left r (Suc left) buf (t # ps)" "\<exists>ps. cells_left r left buf' ps"
proof (cases buf)
  case (Some b)
  have j: "n - (n - Suc left) = Suc left" using assms(7) by simp
  have "int (Suc left) < 2 ^ 31" using assms(7,8) Some by simp
  from cub_nextInt_returns [OF _ this, of rng] obtain k rng' where k: "cub_nextInt (of_nat (Suc left)) rng = Some (k, rng')" "unat k \<le> left"
    by auto
  let ?b = "if unat k \<noteq> left then b[unat k := b ! left, left := b ! unat k] else b"
  have s: "mc_sample r n (n - Suc left) buf rng = Some (b ! unat k, Some ?b, rng')"
    using k(1) by (simp only: mc_sample_def Some option.case j Let_def option.map prod.case diff_Suc_1)
  have len: "left < length b" using assms(7,8) Some by simp
  show ?thesis
  proof (rule that [OF s])
    show "case Some ?b of Some b \<Rightarrow> length b = n \<and> n < 2 ^ 31 | None \<Rightarrow> True" using assms(8) Some by simp
    show "cells_left r (Suc left) buf (b ! unat k # ps)" if "cells_left r left (Some ?b) ps" for ps
      using that shuffle_step [OF k(2) len] by (simp add: cells_left_def Some)
    show "\<exists>ps. cells_left r left (Some ?b) ps" using len by (intro exI [of _ "take left ?b"]) (simp add: cells_left_def)
  qed
next
  case None
  obtain tx r1 where x: "cub_nextInt (word_of_int (rg_sx r)) rng = Some (tx, r1)" "unat tx < nat (rg_sx r)" "sint tx = int (unat tx)"
    using cub_nextInt_returns [OF assms(1,4)] by blast
  obtain ty r2 where y: "cub_nextInt (word_of_int (rg_sy r)) r1 = Some (ty, r2)" "unat ty < nat (rg_sy r)" "sint ty = int (unat ty)"
    using cub_nextInt_returns [OF assms(2,5)] by blast
  obtain tz r3 where z: "cub_nextInt (word_of_int (rg_sz r)) r2 = Some (tz, r3)" "unat tz < nat (rg_sz r)" "sint tz = int (unat tz)"
    using cub_nextInt_returns [OF assms(3,6)] by blast
  let ?t = "(sint tx, sint ty, sint tz)"
  have s: "mc_sample r n (n - Suc left) buf rng = Some (?t, None, r3)" by (simp add: mc_sample_def None x(1) y(1) z(1))
  have "sint tx < rg_sx r" "sint ty < rg_sy r" "sint tz < rg_sz r" using x(2,3) y(2,3) z(2,3) by linarith+
  moreover have "0 \<le> sint tx" "0 \<le> sint ty" "0 \<le> sint tz" using x(3) y(3) z(3) by linarith+
  ultimately have t: "?t \<in> set (mc_cells r)" by (simp only: mc_cells_set)
  show ?thesis
  proof (rule that [OF s])
    show "cells_left r (Suc left) buf (?t # ps)" if "cells_left r left None ps" for ps using that t by (simp add: cells_left_def None)
    show "\<exists>ps. cells_left r left None ps" using t by (intro exI [of _ "replicate left ?t"]) (auto simp: cells_left_def)
  qed simp
qed

lemma mc_loop_judges:
  assumes "0 < rg_sx r" "0 < rg_sy r" "0 < rg_sz r" "rg_sx r < 2 ^ 31" "rg_sy r < 2 ^ 31" "rg_sz r < 2 ^ 31"
  shows "left \<le> n \<Longrightarrow> (case buf of Some b \<Rightarrow> length b = n \<and> n < 2 ^ 31 | None \<Rightarrow> True) \<Longrightarrow>
    \<exists>ps. cells_left r left buf ps \<and>
      map_option fst (mc_loop left ml eval r coverage zscore width n buf rng m x) =
      Some (mc_judge ml coverage zscore width (map (cell_status eval r) ps) m x)"
proof (induction left arbitrary: buf rng m x)
  case 0
  show ?case by (intro exI [of _ "[]"]) (simp add: cells_left_def split: option.split)
next
  case (Suc left)
  obtain t buf' rng' where s: "mc_sample r n (n - Suc left) buf rng = Some (t, buf', rng')"
    "case buf' of Some b \<Rightarrow> length b = n \<and> n < 2 ^ 31 | None \<Rightarrow> True"
    "\<And>ps. cells_left r left buf' ps \<Longrightarrow> cells_left r (Suc left) buf (t # ps)" "\<exists>ps. cells_left r left buf' ps"
    by (rule mc_sample_returns [OF assms Suc.prems, of rng]) (rule that)
  obtain tx ty tz where t: "t = (tx, ty, tz)" by (cases t)
  obtain ps0 where ps0: "cells_left r left buf' ps0" using s(4) ..
  let ?st = "cell_status eval r t"
  let ?x = "if ?st = 1 then x + 1 else x"
  have st: "eval (rg_scale r) (rg_x r + tx) (rg_y r + ty) (rg_z r + tz) = ?st" by (simp add: cell_status_def t)
  have IH: "\<exists>ps. cells_left r left buf' ps \<and> map_option fst (mc_loop left ml eval r coverage zscore width n buf' rng' m x) =
      Some (mc_judge ml coverage zscore width (map (cell_status eval r) ps) m x)" for m x
    by (rule Suc.IH [OF _ s(2)]) (use Suc.prems(1) in simp)
  consider "?st = - 1" | "?st \<noteq> - 1" "?st \<noteq> 0" "?st \<noteq> 1" | ret where "?st = 0 \<or> ?st = 1" "mc_decide ml coverage zscore width (m + 1) ?x = Some ret"
    | "?st = 0 \<or> ?st = 1" "mc_decide ml coverage zscore width (m + 1) ?x = None" by (cases "mc_decide ml coverage zscore width (m + 1) ?x") auto
  then show ?case
  proof cases
    case 1
    obtain ps where "cells_left r left buf' ps" "map_option fst (mc_loop left ml eval r coverage zscore width n buf' rng' m x) =
      Some (mc_judge ml coverage zscore width (map (cell_status eval r) ps) m x)" using IH by blast
    then show ?thesis using 1 s(1,3) st t by (intro exI [of _ "t # ps"]) simp
  next
    case 2
    then show ?thesis using s(1) s(3) [OF ps0] st t by (intro exI [of _ "t # ps0"]) simp
  next
    case (3 ret)
    then show ?thesis using s(1) s(3) [OF ps0] st t by (intro exI [of _ "t # ps0"]) (auto simp: Let_def)
  next
    case 4
    obtain ps where "cells_left r left buf' ps" "map_option fst (mc_loop left ml eval r coverage zscore width n buf' rng' (m + 1) ?x) =
      Some (mc_judge ml coverage zscore width (map (cell_status eval r) ps) (m + 1) ?x)" using IH by blast
    then show ?thesis using 4 s(1,3) st t by (intro exI [of _ "t # ps"]) (auto simp: Let_def)
  qed
qed


section \<open>Properties\<close>

text \<open>The range as the function uses it: a height of 0 stands for one layer.\<close>

definition mc_range :: "Range \<Rightarrow> Range" where
  "mc_range r = (if rg_sy r = 0 then r\<lparr>rg_sy := 1\<rparr> else r)"

definition mc_bounded :: "Range \<Rightarrow> bool" where
  "mc_bounded r \<longleftrightarrow> 0 < rg_sx r \<and> 0 < rg_sy r \<and> 0 < rg_sz r \<and> rg_sx r < 2 ^ 31 \<and> rg_sy r < 2 ^ 31 \<and> rg_sz r < 2 ^ 31 \<and>
     rg_sx r * rg_sy r * rg_sz r < 2 ^ 64"

text \<open>C22: where the iteration for the quantile comes to rest, the estimate returns, and its answer is the
  sequential judgement of as many cells of the area as the area has; when the buffer is used they are all
  the cells, each exactly once, in an order that the random numbers fix.\<close>

theorem monteCarlo_judges_cells:
  assumes "mc_bounded (mc_range r)" and "inverf ml confidence = Some v"
  shows "\<exists>ps. let q = mc_range r; z = m_sqrt ml 2 * v; wn = z * m_sqrt ml (of_nat (length (mc_cells q)));
              (wlo, whi) = wilson ml wn coverage z
          in map_option fst (monteCarloBiomes ml malloc_ok r rng coverage confidence eval) =
               Some (mc_judge ml coverage z (whi - wlo) (map (cell_status eval q) ps) 0 0) \<and>
             length ps = length (mc_cells q) \<and> set ps \<subseteq> set (mc_cells q) \<and>
             (of_nat (length ps) < 4 * wn \<and> length ps < 2 ^ 31 - 1 \<and> malloc_ok \<longrightarrow> mset ps = mset (mc_cells q))"
proof -
  let ?q = "mc_range r"
  have b: "0 < rg_sx ?q" "0 < rg_sy ?q" "0 < rg_sz ?q" "rg_sx ?q < 2 ^ 31" "rg_sy ?q < 2 ^ 31" "rg_sz ?q < 2 ^ 31"
    "rg_sx ?q * rg_sy ?q * rg_sz ?q < 2 ^ 64" using assms(1) by (simp_all add: mc_bounded_def)
  let ?n = "length (mc_cells ?q)" and ?z = "m_sqrt ml 2 * v"
  let ?wn = "?z * m_sqrt ml (of_nat ?n)"
  let ?buf = "if of_nat ?n < 4 * ?wn \<and> ?n < 2 ^ 31 - 1 \<and> malloc_ok then Some (mc_cells ?q) else None"
  obtain wlo whi where w: "wilson ml ?wn coverage ?z = (wlo, whi)" by fastforce
  have n: "nat ((rg_sx ?q * rg_sy ?q * rg_sz ?q) mod 2 ^ 64) = ?n" using b by (simp add: mc_cells_length mod_pos_pos_trivial)
  have run: "monteCarloBiomes ml malloc_ok r rng coverage confidence eval =
      mc_loop ?n ml eval ?q coverage ?z (whi - wlo) ?n ?buf rng 0 0"
    unfolding monteCarloBiomes_def Let_def mc_range_def [symmetric] n assms(2) by (simp add: w)
  have buf: "case ?buf of Some b \<Rightarrow> length b = ?n \<and> ?n < 2 ^ 31 | None \<Rightarrow> True" by simp
  obtain ps where ps: "cells_left ?q ?n ?buf ps"
    "map_option fst (mc_loop ?n ml eval ?q coverage ?z (whi - wlo) ?n ?buf rng 0 0) =
      Some (mc_judge ml coverage ?z (whi - wlo) (map (cell_status eval ?q) ps) 0 0)"
    using mc_loop_judges [OF b(1-6) order_refl buf] by blast
  have "length ps = ?n" "set ps \<subseteq> set (mc_cells ?q)"
    using ps(1) by (auto simp: cells_left_def split: if_splits dest: mset_eq_setD)
  moreover have "mset ps = mset (mc_cells ?q)" if "of_nat ?n < 4 * ?wn \<and> ?n < 2 ^ 31 - 1 \<and> malloc_ok"
    using ps(1) by (simp only: cells_left_def if_P [OF that] option.case take_all order_refl)
  ultimately show ?thesis using ps(2) by (intro exI [of _ ps]) (simp add: Let_def w run)
qed

definition sample_math :: MathLib where
  "sample_math = \<lparr>m_sqrt = (\<lambda>x. x), m_exp = (\<lambda>_. 1), m_erf = (\<lambda>x. x)\<rparr>"

definition sample_area :: Range where
  "sample_area = \<lparr>rg_scale = 4, rg_x = 0, rg_z = 0, rg_sx = 2, rg_sz = 2, rg_y = 0, rg_sy = 0\<rparr>"

lemma sample_inverf: "inverf sample_math x = Some x"
  by (simp add: inverf_def inverf_loop.simps sample_math_def FLT_EPSILON_def)

theorem monteCarlo_judges_cells_witness:
  "\<exists>ps :: Touple list. mset ps = {#(0, 0, 0), (0, 0, 1), (1, 0, 0), (1, 0, 1)#} \<and>
     map_option fst (monteCarloBiomes sample_math True sample_area 42 (1 / 2) (19 / 20) (\<lambda>_ x _ z. if x = z then 1 else 0)) =
       Some (mc_judge sample_math (1 / 2) (19 / 10) (let (l, h) = wilson sample_math (38 / 5) (1 / 2) (19 / 10) in h - l)
         (map (\<lambda>(x, _, z). if x = z then 1 else 0) ps) 0 0)"
proof -
  have q: "mc_bounded (mc_range sample_area)" by (simp add: mc_bounded_def mc_range_def sample_area_def)
  have cells: "mc_cells (mc_range sample_area) = [(0, 0, 0), (1, 0, 0), (0, 0, 1), (1, 0, 1)]"
    by (simp add: mc_cells_def mc_range_def sample_area_def upto_rec1)
  have st: "cell_status (\<lambda>_ x _ z. if x = z then 1 else 0) (mc_range sample_area) = (\<lambda>(x, _, z). if x = z then 1 else 0)"
    by (auto simp: cell_status_def mc_range_def sample_area_def)
  have sqrt: "m_sqrt sample_math = (\<lambda>x. x)" by (simp add: sample_math_def)
  obtain wlo whi where w: "wilson sample_math (38 / 5) (1 / 2) (19 / 10) = (wlo, whi)" by fastforce
  from monteCarlo_judges_cells [OF q sample_inverf [of "19 / 20"], where coverage = "1 / 2" and malloc_ok = True and rng = 42
      and eval = "\<lambda>_ x _ z. if x = z then 1 else 0"]
  have "\<exists>ps :: Touple list. mset ps = {#(0, 0, 0), (0, 0, 1), (1, 0, 0), (1, 0, 1)#} \<and>
     map_option fst (monteCarloBiomes sample_math True sample_area 42 (1 / 2) (19 / 20) (\<lambda>_ x _ z. if x = z then 1 else 0)) =
       Some (mc_judge sample_math (1 / 2) (19 / 10) (whi - wlo) (map (\<lambda>(x, _, z). if x = z then 1 else 0) ps) 0 0)"
    unfolding Let_def cells st by (rule ex_forward) (simp add: sqrt w add_mset_commute)
  then show ?thesis by (simp add: w)
qed

end
