(* ===== verification/ClimateWorld.thy ===== *)
theory ClimateWorld
  imports BiomeSample ClimateSeed ClimateLimit SplineBound MonteCarlo
begin

text \<open>
  The generator put together from its parts, as \<open>cubiomes_create\<close> and \<open>cubiomes_apply_seed\<close> in
  \<open>src/src/cubiomes.c\<close> set it up: the newest version, its noises from the seed, the terrain spline, the search
  tree and the Monte Carlo estimate. The rounding to \<open>float\<close>, the tables of the tree and the C mathematics library
  stay parameters. The theorem says that the sampler of the measurement, with its early exit, finds mushroom
  fields exactly where the general sampler does, for every seed.
\<close>

section \<open>Definitions\<close>

definition MC_NEWEST :: int where
  "MC_NEWEST = MC_1_21_WD"

text \<open>Where a part does not return (an exit, a read outside) the model is a value no theorem uses.\<close>

definition climate_env :: "(rat \<Rightarrow> rat) \<Rightarrow> ClimateTables \<Rightarrow> Env" where
  "climate_env round32 tables =
     \<lparr>f32 = round32,
      getSpline = (\<lambda>vals. case TerrainSpline.getSpline (fst initBiomeNoise) vals of Some v \<Rightarrow> v | None \<Rightarrow> 0),
      climateToBiome = (\<lambda>np dat. case climateToBiome_at tables MC_NEWEST np dat of Some r \<Rightarrow> r | None \<Rightarrow> (- 1, dat))\<rparr>"

definition climate_noise :: "bool \<Rightarrow> u64 \<Rightarrow> BiomeNoise" where
  "climate_noise large_biomes seed =
     (case setBiomeSeed seed large_biomes of Some (Inr bn) \<Rightarrow> bn | _ \<Rightarrow> \<lparr>bn_climate = []\<rparr>)"

definition monte_carlo_estimate :: "MathLib \<Rightarrow> bool \<Rightarrow> Range \<Rightarrow> u64 \<Rightarrow> rat \<Rightarrow> rat \<Rightarrow> (int \<Rightarrow> int \<Rightarrow> bool) \<Rightarrow> bool" where
  "monte_carlo_estimate ml malloc_ok r rng coverage confidence ev =
     (case monteCarloBiomes ml malloc_ok r rng coverage confidence (\<lambda>_ x _ z. if ev x z then 1 else 0) of
        Some (ret, _) \<Rightarrow> ret | None \<Rightarrow> False)"

definition cubiomes_world :: "(rat \<Rightarrow> rat) \<Rightarrow> ClimateTables \<Rightarrow> MathLib \<Rightarrow> bool \<Rightarrow> bool \<Rightarrow> Cubiomes" where
  "cubiomes_world round32 tables ml malloc_ok large_biomes =
     cubiomes_of (climate_env round32 tables) (climate_noise large_biomes) (monte_carlo_estimate ml malloc_ok)"

section \<open>The climate noises of a seed\<close>

definition trimmed :: "rat list \<Rightarrow> nat" where
  "trimmed amps = length amps - length (takeWhile (\<lambda>a. a = 0) (rev amps)) - length (takeWhile (\<lambda>a. a = 0) amps)"

definition noise_cap :: "rat list \<Rightarrow> rat" where
  "noise_cap amps = 4 * amp_sum (persist_ini ! length amps) amps * \<bar>amp_ini ! trimmed amps\<bar>"

lemma sampleDoublePerlin_cap:
  assumes "xDoublePerlinInit_n xr amps omin (- 1) = Some (Inr (dpn, k))" "list_all (\<lambda>a. 0 \<le> a) amps" "0 \<le> persist_ini ! length amps"
  shows "\<bar>sampleDoublePerlin dpn x y z\<bar> \<le> noise_cap amps"
proof -
  obtain xr' where d: "xDoublePerlinInit xr amps omin (- 1) = Some (dpn, xr')"
    using assms(1) by (auto simp: xDoublePerlinInit_n_def)
  then have "dp_amplitude dpn = amp_ini ! trimmed amps"
    by (auto simp: xDoublePerlinInit_def trimmed_def Let_def bind_eq_Some_conv)
  then show ?thesis using sampleDoublePerlin_bound [OF d assms(2,3), of x y z] by (simp only: noise_cap_def)
qed

lemma climate_bound:
  assumes "init_climate_seed xlo xhi large_biomes i (- 1) = Some (Inr (dpn, k))" "i < 6"
  shows "\<bar>sampleDoublePerlin dpn x y z\<bar> \<le> 8"
proof -
  have cap: "noise_cap amps \<le> 8 \<and> list_all (\<lambda>a. 0 \<le> a) amps \<and> 0 \<le> persist_ini ! length amps"
    if "amps \<in> {[1.5, 0, 1, 0, 0, 0], [1, 1, 0, 0, 0, 0], [1, 1, 2, 2, 2, 1, 1, 1, 1], [1, 1, 0, 1, 1], [1, 1, 1, 0], [1, 2, 1, 0, 0, 0]}" for amps
    using that by (elim insertE emptyE) (simp_all add: noise_cap_def trimmed_def persist_ini_def amp_ini_def)
  have "i \<in> {0, 1, 2, 3, 4, 5}" using assms(2) by auto
  then obtain xr amps omin where "xDoublePerlinInit_n xr amps omin (- 1) = Some (Inr (dpn, k))"
    "amps \<in> {[1.5, 0, 1, 0, 0, 0], [1, 1, 0, 0, 0, 0], [1, 1, 2, 2, 2, 1, 1, 1, 1], [1, 1, 0, 1, 1], [1, 1, 1, 0], [1, 2, 1, 0, 0, 0]}"
    using assms(1) unfolding init_climate_seed_def by (elim insertE emptyE; simp; blast)
  then show ?thesis using sampleDoublePerlin_cap cap by (meson order.trans)
qed

lemma seeded_bound:
  assumes "setBiomeSeed seed large_biomes = Some (Inr bn)" "i < 6"
  shows "\<bar>sampleDoublePerlin (bn_climate bn ! i) x y z\<bar> \<le> 8"
proof (rule setBiomeSeed_cases [OF assms(1)])
  fix bn'
  assume bn: "Inr bn = Inr bn'"
    and init: "\<And>i. i < 6 \<Longrightarrow> init_climate_seed (fst (climate_fork seed)) (snd (climate_fork seed)) large_biomes i (- 1) =
      Some (Inr (bn_climate bn' ! i, climate_octaves i))"
  show ?thesis using climate_bound [OF init [OF assms(2)] assms(2)] bn by simp
qed

section \<open>The climate of a cell fits the search\<close>

text \<open>Rounding to the nearest \<open>float\<close>, as far as it is used: half a unit in the last place, or of the least number.\<close>

definition nearest32 :: "(rat \<Rightarrow> rat) \<Rightarrow> bool" where
  "nearest32 f \<longleftrightarrow> (\<forall>v. \<bar>v\<bar> \<le> 2 ^ 100 \<longrightarrow> \<bar>f v - v\<bar> \<le> \<bar>v\<bar> / 2 ^ 24 + 1 / 2 ^ 150)"

lemma nearest32_bound:
  assumes "nearest32 f" "\<bar>v\<bar> \<le> B" "1 \<le> B" "B \<le> 2 ^ 100"
  shows "\<bar>f v\<bar> \<le> B * (101 / 100)"
proof -
  have "\<bar>f v - v\<bar> \<le> \<bar>v\<bar> / 2 ^ 24 + 1 / 2 ^ 150" using assms by (simp add: nearest32_def)
  also have "\<dots> \<le> B / 2 ^ 24 + 1 / 2 ^ 24" by (intro add_mono divide_right_mono assms) simp_all
  finally have "\<bar>f v - v\<bar> \<le> B * (1 / 100)" using assms(3) by simp
  then show ?thesis using assms(2) by linarith
qed

lemma c_int_bound: "\<bar>v\<bar> \<le> of_int n \<Longrightarrow> \<bar>c_int v\<bar> \<le> n"
proof -
  assume v: "\<bar>v\<bar> \<le> of_int n"
  then have "0 \<le> (of_int n :: rat)" by linarith
  then show ?thesis using v by (auto simp: c_int_def abs_le_iff floor_le_iff intro: order.trans [of _ 0])
qed

lemma weirdness_bound:
  assumes "nearest32 f" "\<bar>w\<bar> \<le> 202 / 25"
  shows "\<bar>f (- 3 * f (\<bar>f (\<bar>w\<bar> - f 0.6666667)\<bar> - f 0.33333334))\<bar> \<le> 32"
proof -
  note r = nearest32_bound [OF assms(1)]
  have 1: "\<bar>f 0.6666667\<bar> \<le> 101 / 100" "\<bar>f 0.33333334\<bar> \<le> 101 / 100" using r [of _ 1] by simp_all
  then have "\<bar>f (\<bar>w\<bar> - f 0.6666667)\<bar> \<le> 91 / 10 * (101 / 100)" using assms(2) by (intro r; (linarith | simp))
  then have "\<bar>f (\<bar>f (\<bar>w\<bar> - f 0.6666667)\<bar> - f 0.33333334)\<bar> \<le> 1021 / 100 * (101 / 100)" using 1 by (intro r; (linarith | simp))
  then have "\<bar>f (- 3 * f (\<bar>f (\<bar>w\<bar> - f 0.6666667)\<bar> - f 0.33333334))\<bar> \<le> 31 * (101 / 100)" by (intro r; (linarith | simp))
  then show ?thesis by simp
qed

definition spline_value :: "rat list \<Rightarrow> rat" where
  "spline_value vals = (case TerrainSpline.getSpline (fst initBiomeNoise) vals of Some v \<Rightarrow> v | None \<Rightarrow> 0)"

lemma spline_value_bound:
  assumes "\<forall>i<4. \<bar>vals ! i\<bar> \<le> 32"
  shows "\<bar>spline_value vals\<bar> \<le> 1400"
proof -
  have cap: "spline_cap 4 \<le> 1400" by (simp add: eval_nat_numeral)
  obtain v where "TerrainSpline.getSpline (fst initBiomeNoise) vals = Some v"
    using getSpline_returns initBiomeNoise_ok by blast
  then show ?thesis
    using getSpline_bound [OF conjunct1 [OF initBiomeNoise_ok] initBiomeNoise_gentle assms] cap by (fastforce simp: spline_value_def)
qed

lemma climate_points_ok:
  assumes "nearest32 (f32 env)" "list_all (\<lambda>v. \<bar>v\<bar> \<le> 2000) [t, h, c, e, d, w]"
  shows "point_ok (climate_points env t h c e d w)"
proof -
  have "- (2 ^ 28) \<le> c_int (f32 env (10000 * v)) \<and> c_int (f32 env (10000 * v)) \<le> 2 ^ 28" if "\<bar>v\<bar> \<le> 2000" for v
  proof -
    have "\<bar>f32 env (10000 * v)\<bar> \<le> 20000000 * (101 / 100)" using that by (intro nearest32_bound [OF assms(1)]) (simp_all add: abs_mult)
    then have "\<bar>c_int (f32 env (10000 * v))\<bar> \<le> 20200000" by (intro c_int_bound) simp
    then have "- 20200000 \<le> c_int (f32 env (10000 * v))" "c_int (f32 env (10000 * v)) \<le> 20200000" by linarith+
    then show ?thesis by simp
  qed
  then show ?thesis using assms(2) by (simp add: climate_points_def point_ok_def)
qed

lemma climate_at_ok:
  assumes "nearest32 f" "\<And>i x y z. i < 6 \<Longrightarrow> \<bar>sampleDoublePerlin (bn_climate bn ! i) x y z\<bar> \<le> 8" "y \<in> {15, 16}"
  shows "point_ok (climate_at (climate_env f tables) bn x y z)"
proof -
  let ?env = "climate_env f tables"
  have f: "f32 ?env = f" "Env.getSpline ?env = spline_value" by (auto simp: climate_env_def spline_value_def)
  note r = nearest32_bound [OF assms(1)]
  obtain px pz where p: "shifted bn x z = (px, pz)" by (cases "shifted bn x z")
  let ?cl = "\<lambda>k. f (sampleDoublePerlin (bn_climate bn ! k) px 0 pz)"
  have cl: "\<bar>?cl k\<bar> \<le> 202 / 25" if "k < 6" for k using r [OF assms(2) [OF that, of px 0 pz]] by simp
  let ?vals = "[?cl 2, ?cl 3, spline_weirdness ?env (?cl 5), ?cl 5]"
  have "\<bar>spline_weirdness ?env (?cl 5)\<bar> \<le> 32" unfolding spline_weirdness_def f by (rule weirdness_bound [OF assms(1) cl]) simp
  then have "\<forall>i<4. \<bar>?vals ! i\<bar> \<le> 32" using cl [of 2] cl [of 3] cl [of 5] by (auto simp: less_Suc_eq eval_nat_numeral)
  then have "\<bar>spline_value ?vals\<bar> \<le> 1400" by (rule spline_value_bound)
  moreover have "\<bar>f 0.015\<bar> \<le> 101 / 100" using r [of "0.015" 1] by simp
  ultimately have off: "\<bar>f (spline_value ?vals + f 0.015)\<bar> \<le> 1402 * (101 / 100)" by (intro r; (linarith | simp))
  let ?d = "depth_at ?env (f (spline_value ?vals + f 0.015)) y"
  have "\<bar>?d\<bar> \<le> 1420 * (101 / 100)" unfolding depth_at_def f
  proof (rule r)
    show "\<bar>1 - of_int (y * 4) / 128 - 83 / 160 + f (spline_value ?vals + f 0.015)\<bar> \<le> 1420"
      using off assms(3) by auto
  qed simp_all
  then have "list_all (\<lambda>v. \<bar>v\<bar> \<le> 2000) [?cl 0, ?cl 1, ?cl 2, ?cl 3, ?d, ?cl 5]"
    using cl [of 0] cl [of 1] cl [of 2] cl [of 3] cl [of 5] by simp
  then have "point_ok (climate_points ?env (?cl 0) (?cl 1) (?cl 2) (?cl 3) ?d (?cl 5))"
    by (intro climate_points_ok) (simp_all add: f assms(1))
  then show ?thesis by (simp add: climate_at_def climate_from_def p Let_def f)
qed

section \<open>The sampler of the measurement\<close>

definition tables_ok :: "ClimateTables \<Rightarrow> bool" where
  "tables_ok tables \<longleftrightarrow>
     tree_ok (choose_tree tables MC_NEWEST) \<and> biome_limited (choose_tree tables MC_NEWEST) MUSHROOM_FIELDS cubiomes_get_mushroom_cont_max"

lemma limit_of_parts:
  assumes "tables_ok tables" "nearest32 f" "setBiomeSeed seed large_biomes = Some (Inr bn)"
  shows "limit_holds (climate_env f tables) bn"
  unfolding limit_holds_def
proof (intro allI ballI impI)
  fix x z y :: int
  let ?env = "climate_env f tables"
  let ?np = "climate_at ?env bn x y z" and ?bt = "choose_tree tables MC_NEWEST"
  assume y: "y \<in> {15, 16}" and m: "cubiomes_get_mushroom_cont_max < ?np ! 2"
  have ok: "point_ok ?np" by (rule climate_at_ok [OF assms(2) seeded_bound [OF assms(3)] y])
  have t: "tree_ok ?bt" "biome_limited ?bt MUSHROOM_FIELDS cubiomes_get_mushroom_cont_max" using assms(1) by (simp_all add: tables_ok_def)
  obtain b where b: "climateToBiome_tree ?bt (map word_of_int ?np) None = Some (b, None)" using climate_search_none [OF t(1) ok] by blast
  then have "b \<noteq> MUSHROOM_FIELDS" using beyond_limit_base [OF t ok m] by simp
  moreover have "sampleBiomeNoise ?env bn x y z = b"
    using b by (simp add: sampleBiomeNoise_climate climate_env_def climateToBiome_at_def)
  ultimately show "sampleBiomeNoise ?env bn x y z \<noteq> MUSHROOM_FIELDS" by simp
qed

text \<open>
  C15: The sampler of the measurement computes two layers at once with inlined noise and stops early beyond the
  limit of mushroom fields; with the noises of any seed, the terrain spline and the search tree it finds mushroom
  fields exactly where the general sampler does, if the tables pass the check of their limits and \<open>float\<close> rounds to
  the nearest. In particular every climate fits the 64-bit arithmetic of the search.
\<close>

theorem sample_2y_agrees:
  assumes "tables_ok tables" "nearest32 f"
  shows "case setBiomeSeed seed large_biomes of
      Some (Inr bn) \<Rightarrow>
        (let env = climate_env f tables; (b15, b16) = cubiomes_sample_biome_2y env bn x z cubiomes_get_mushroom_cont_max
         in point_ok (climate_at env bn x 15 z) \<and> point_ok (climate_at env bn x 16 z) \<and>
            (b15 = MUSHROOM_FIELDS \<longleftrightarrow> sampleBiomeNoise env bn x 15 z = MUSHROOM_FIELDS) \<and>
            (b16 = MUSHROOM_FIELDS \<longleftrightarrow> sampleBiomeNoise env bn x 16 z = MUSHROOM_FIELDS))
    | _ \<Rightarrow> True"
proof (cases "setBiomeSeed seed large_biomes")
  case (Some r)
  then obtain bn where bn: "r = Inr bn" by (rule setBiomeSeed_cases)
  let ?env = "climate_env f tables"
  have "point_ok (climate_at ?env bn x y z)" if "y \<in> {15, 16}" for y
    by (rule climate_at_ok [OF assms(2) seeded_bound [OF Some [unfolded bn]] that])
  then show ?thesis using sample_2y_is_sample [OF limit_of_parts [OF assms Some [unfolded bn]], of x z]
    by (cases "cubiomes_sample_biome_2y ?env bn x z cubiomes_get_mushroom_cont_max") (simp add: Some bn Let_def)
qed simp

definition sample_tables :: ClimateTables where
  "sample_tables = \<lparr>btree18 = sample_tree, btree192 = sample_tree, btree19 = sample_tree, btree20 = sample_tree, btree21wd = sample_tree\<rparr>"

lemma sample_tables_ok: "tables_ok sample_tables"
  using sample_tree_ok sample_tree_limited
  by (simp add: tables_ok_def choose_tree_def sample_tables_def MC_NEWEST_def MUSHROOM_FIELDS_def cubiomes_get_mushroom_cont_max_def mushroom_limits_def)

lemma exact_nearest32: "nearest32 (\<lambda>v. v)"
  by (simp add: nearest32_def)

lemma sample_2y_agrees_witness:
  "case setBiomeSeed 3 False of
     Some (Inr bn) \<Rightarrow>
       snd (cubiomes_sample_biome_2y (climate_env (\<lambda>v. v) sample_tables) bn 5 (- 7) cubiomes_get_mushroom_cont_max) = MUSHROOM_FIELDS \<longleftrightarrow>
       sampleBiomeNoise (climate_env (\<lambda>v. v) sample_tables) bn 5 16 (- 7) = MUSHROOM_FIELDS
   | _ \<Rightarrow> True"
  using sample_2y_agrees [OF sample_tables_ok exact_nearest32, where seed = 3 and large_biomes = False and x = 5 and z = "- 7"]
  by (auto simp: Let_def split: option.splits sum.splits prod.splits)

section \<open>Origin mode\<close>

lemma climate_noise_seeded: "setBiomeSeed seed large_biomes = Some (Inr bn) \<Longrightarrow> climate_noise large_biomes seed = bn"
  by (simp add: climate_noise_def)

lemma origin_mode_world:
  assumes "tables_ok tables" "nearest32 f"
  shows "case setBiomeSeed (cd_seed input) l of
      Some (Inr bn) \<Rightarrow>
        (let cub = cubiomes_world f tables ml ok l; world = cb_world cub (cd_seed input); C = island world
         in inside (max_radius l) C \<longrightarrow>
            process_origin l False cub nthreads min_size input =
              (if mushroom_block world 0 0 \<and> min_size \<le> int (card C)
               then Some \<lparr>co_seed = cd_seed input, co_x = (\<Sum>(x, z)\<in>C. x) sdiv int (card C),
                          co_z = (\<Sum>(x, z)\<in>C. z) sdiv int (card C), co_score = int (card C)\<rparr>
               else None))
    | _ \<Rightarrow> True"
proof (cases "setBiomeSeed (cd_seed input) l")
  case (Some r)
  then obtain bn where bn: "r = Inr bn" by (rule setBiomeSeed_cases)
  have lim: "limit_holds (climate_env f tables) (climate_noise l (cd_seed input))"
    using limit_of_parts [OF assms Some [unfolded bn]] climate_noise_seeded [OF Some [unfolded bn]] by simp
  show ?thesis unfolding Some bn option.case sum.case Let_def cubiomes_world_def
    using origin_mode_base [where sb = "climate_noise l" and env = "climate_env f tables" and input = input and l = l
        and mc = "monte_carlo_estimate ml ok" and nthreads = nthreads and min_size = min_size, OF lim]
    unfolding Let_def by (intro impI)
qed simp


text \<open>The sample tree without mushroom fields.\<close>

definition dry_tree :: BiomeTree where
  "dry_tree = sample_tree\<lparr>bt_nodes := [0x0001000000000000,
       0x0002000600080000, 0x0018000400010000, 0x0000000400020000,
       0x0005000600070000, 0x0018000500010000, 0x0001000500020000]\<rparr>"

definition dry_tables :: ClimateTables where
  "dry_tables = \<lparr>btree18 = dry_tree, btree192 = dry_tree, btree19 = dry_tree, btree20 = dry_tree, btree21wd = dry_tree\<rparr>"

lemma dry_tree_ok: "tree_ok dry_tree" "tree_leaves dry_tree = [2, 3, 5, 6]" "list_all (\<lambda>l. leaf_biome dry_tree l \<noteq> MUSHROOM_FIELDS) [2, 3, 5, 6]"
  unfolding dry_tree_def sample_tree_def
  by (simp add: tree_eval) (simp_all add: tree_leaves_def bt_len_def inners_def inners_from_2 leaf_biome_def unsigned_drop_bit_eq MUSHROOM_FIELDS_def)

lemma dry_tables_ok: "tables_ok dry_tables"
  using dry_tree_ok by (simp add: tables_ok_def choose_tree_def dry_tables_def MC_NEWEST_def biome_limited_def)

lemma dry_biome:
  assumes "setBiomeSeed seed large_biomes = Some (Inr bn)" "y \<in> {15, 16}"
  shows "sampleBiomeNoise (climate_env (\<lambda>v. v) dry_tables) bn x y z \<noteq> MUSHROOM_FIELDS"
proof -
  let ?env = "climate_env (\<lambda>v. v) dry_tables"
  have ok: "point_ok (climate_at ?env bn x y z)" by (rule climate_at_ok [OF exact_nearest32 seeded_bound [OF assms(1)] assms(2)])
  let ?l = "first_min (node_dist (climate_at ?env bn x y z) dry_tree) (tree_leaves dry_tree)"
  have "sampleBiomeNoise ?env bn x y z = leaf_biome dry_tree ?l"
    using climate_search_none [OF dry_tree_ok(1) ok]
    by (simp add: sampleBiomeNoise_climate climate_env_def climateToBiome_at_def choose_tree_def dry_tables_def MC_NEWEST_def)
  moreover have "?l \<in> set (tree_leaves dry_tree)"
    using first_min_in [of "tree_leaves dry_tree" "node_dist (climate_at ?env bn x y z) dry_tree"] dry_tree_ok(2) by simp
  ultimately show ?thesis using dry_tree_ok(3) unfolding dry_tree_ok(2) list_all_iff by metis
qed


end
