(* ===== verification/BiomeMap.thy ===== *)
theory BiomeMap
  imports BiomeSample
begin

text \<open>
  Maps of biomes (\<open>genBiomeNoise3D\<close> and \<open>genBiomeNoiseScaled\<close> in \<open>src/cubiomes/biomenoise.c\<close>;
  \<open>getMinCacheSize\<close>, \<open>allocCache\<close>, \<open>genBiomes\<close> and \<open>getBiomeAt\<close> in \<open>src/cubiomes/generator.c\<close>), for the
  overworld of the versions from 1.18 on. A map of blocks is computed in one buffer: the cells around it are
  generated behind the place of the result and looked up for every block. An access outside the
  buffer makes the model return \<open>None\<close>. The theorems say that the buffer the program allocates is large
  enough and that the map holds the biome of every block.
\<close>

section \<open>Definitions\<close>

text \<open>The offsets of a range in the order of its buffer: layers, rows, cells.\<close>

definition range_offsets :: "Range \<Rightarrow> (int \<times> int \<times> int) list" where
  "range_offsets r =
     concat (map (\<lambda>k. concat (map (\<lambda>j. map (\<lambda>i. (int i, int k, int j)) [0..<nat (rg_sx r)]) [0..<nat (rg_sz r)])) [0..<nat (rg_sy r)])"

text \<open>\<open>opt\<close>: every search starts from the leaf of the one before, at first from node 0, and positions are not shifted.\<close>

primrec noise3D_loop :: "Env \<Rightarrow> BiomeNoise \<Rightarrow> bool \<Rightarrow> (int \<times> int \<times> int) list \<Rightarrow> nat option \<Rightarrow> int list" where
  "noise3D_loop env bn opt [] dat = []"
| "noise3D_loop env bn opt (p # ps) dat =
     (let (id, dat') = sampleBiomeNoise_with env bn opt p dat
      in id # noise3D_loop env bn opt ps (if opt then dat' else None))"

definition genBiomeNoise3D :: "Env \<Rightarrow> BiomeNoise \<Rightarrow> Range \<Rightarrow> bool \<Rightarrow> int list" where
  "genBiomeNoise3D env bn r opt =
     (let scale = (if 4 < rg_scale r then rg_scale r sdiv 4 else 1);
          mid = scale sdiv 2
      in noise3D_loop env bn opt (map (\<lambda>(i, k, j). ((rg_x r + i) * scale + mid, rg_y r + k, (rg_z r + j) * scale + mid)) (range_offsets r))
           (if opt then Some 0 else None))"

text \<open>Values written to the buffer from an index on, and a value read from it.\<close>

definition buf_write :: "nat \<Rightarrow> int list \<Rightarrow> int list \<Rightarrow> int list option" where
  "buf_write p vs cache =
     (if p + length vs \<le> length cache then Some (take p cache @ vs @ drop (p + length vs) cache) else None)"

definition buf_read :: "int \<Rightarrow> int list \<Rightarrow> int option" where
  "buf_read p cache = (if 0 \<le> p \<and> nat p < length cache then Some (cache ! nat p) else None)"

text \<open>The biome of a block: from the cells behind the result, if they have been generated, or sampled.\<close>

definition block_value :: "Env \<Rightarrow> BiomeNoise \<Rightarrow> u64 \<Rightarrow> Range \<Rightarrow> Range \<Rightarrow> nat \<Rightarrow> int list \<Rightarrow> int \<times> int \<times> int \<Rightarrow> int option" where
  "block_value env bn sha r s siz cache = (\<lambda>(i, k, j).
     let (x4, y4, z4) = voronoiAccess3D sha (rg_x r + i) (rg_y r + k) (rg_z r + j)
     in if 1 < siz
        then let x4 = x4 - rg_x s; y4 = y4 - rg_y s; z4 = z4 - rg_z s
             in buf_read (int siz + (y4 * rg_sx s * rg_sz s + z4 * rg_sx s + x4)) cache
        else Some (sampleBiomeNoise env bn x4 y4 z4))"

primrec block_loop ::
    "Env \<Rightarrow> BiomeNoise \<Rightarrow> u64 \<Rightarrow> Range \<Rightarrow> Range \<Rightarrow> nat \<Rightarrow> (int \<times> int \<times> int) list \<Rightarrow> nat \<Rightarrow> int list \<Rightarrow> int list option" where
  "block_loop env bn sha r s siz [] p cache = Some cache"
| "block_loop env bn sha r s siz (b # bs) p cache =
     Option.bind (block_value env bn sha r s siz cache b) (\<lambda>v.
     Option.bind (buf_write p [v] cache) (block_loop env bn sha r s siz bs (p + 1)))"

definition genBiomeNoiseScaled :: "Env \<Rightarrow> BiomeNoise \<Rightarrow> int list \<Rightarrow> Range \<Rightarrow> u64 \<Rightarrow> int list option" where
  "genBiomeNoiseScaled env bn cache r sha =
     (let r = (if rg_sy r = 0 then r\<lparr>rg_sy := 1\<rparr> else r);
          siz = nat (rg_sx r * rg_sy r * rg_sz r)
      in if rg_scale r = 1
         then Option.bind (getVoronoiSrcRange r) (\<lambda>s.
              Option.bind (if 1 < siz then buf_write siz (genBiomeNoise3D env bn s False) cache else Some cache) (\<lambda>cache.
              block_loop env bn sha r s siz (range_offsets r) 0 cache))
         else buf_write 0 (genBiomeNoise3D env bn r (4 < rg_scale r)) cache)"

definition getMinCacheSize :: "int \<Rightarrow> int \<Rightarrow> int \<Rightarrow> int \<Rightarrow> nat" where
  "getMinCacheSize scale sx sy sz =
     (let sy = (if sy = 0 then 1 else sy);
          len = sx * sz * sy
      in if scale \<le> 1
         then let sx = (sx + 3) div 4 + 2; sy = (sy + 3) div 4 + 2; sz = (sz + 3) div 4 + 2
              in nat (len + sx * sy * sz)
         else nat len)"

text \<open>\<open>None\<close>: nothing to allocate. The memory is taken to be there.\<close>

definition allocCache :: "Range \<Rightarrow> int list option" where
  "allocCache r =
     (let len = getMinCacheSize (rg_scale r) (rg_sx r) (rg_sy r) (rg_sz r)
      in if len = 0 then None else Some (replicate len 0))"

definition genBiomes :: "Env \<Rightarrow> Generator \<Rightarrow> int list \<Rightarrow> Range \<Rightarrow> int list option" where
  "genBiomes env g cache r = genBiomeNoiseScaled env (g_bn g) cache r (g_sha g)"

definition getBiomeAt :: "Env \<Rightarrow> Generator \<Rightarrow> int \<Rightarrow> int \<Rightarrow> int \<Rightarrow> int \<Rightarrow> int option" where
  "getBiomeAt env g scale x y z =
     (let r = \<lparr>rg_scale = scale, rg_x = x, rg_z = z, rg_sx = 1, rg_sz = 1, rg_y = y, rg_sy = 1\<rparr>
      in Option.bind (allocCache r) (\<lambda>ids. map_option hd (genBiomes env g ids r)))"

section \<open>The order of the buffer\<close>

lemma concat_map_nth:
  assumes "\<And>x. x \<in> set xs \<Longrightarrow> length (f x) = n" "i < length xs" "j < n"
  shows "concat (map f xs) ! (i * n + j) = f (xs ! i) ! j"
  using assms
proof (induction xs arbitrary: i)
  case (Cons x xs)
  show ?case
  proof (cases i)
    case 0
    then show ?thesis using Cons.prems(1) [of x] Cons.prems(3) by (simp add: nth_append)
  next
    case (Suc i')
    have "concat (map f xs) ! (i' * n + j) = f (xs ! i') ! j" using Cons.prems Suc by (intro Cons.IH) auto
    then show ?thesis using Cons.prems(1) [of x] Suc by (simp add: nth_append)
  qed
qed simp

lemma concat_map_length: "(\<And>x. x \<in> set xs \<Longrightarrow> length (f x) = n) \<Longrightarrow> length (concat (map f xs)) = length xs * n"
  by (induction xs) auto

lemma range_offsets_length: "length (range_offsets r) = nat (rg_sy r) * (nat (rg_sz r) * nat (rg_sx r))"
  unfolding range_offsets_def by (subst concat_map_length [where n = "nat (rg_sz r) * nat (rg_sx r)"]) (simp_all add: concat_map_length [where n = "nat (rg_sx r)"])

lemma range_offsets_nth:
  assumes "i < nat (rg_sx r)" "j < nat (rg_sz r)" "k < nat (rg_sy r)"
  shows "range_offsets r ! (k * (nat (rg_sz r) * nat (rg_sx r)) + (j * nat (rg_sx r) + i)) = (int i, int k, int j)"
proof -
  have "j * nat (rg_sx r) + i < (j + 1) * nat (rg_sx r)" using assms(1) by simp
  also have "\<dots> \<le> nat (rg_sz r) * nat (rg_sx r)" using assms(2) by (intro mult_le_mono1) simp
  finally have lt: "j * nat (rg_sx r) + i < nat (rg_sz r) * nat (rg_sx r)" .
  show ?thesis unfolding range_offsets_def
    by (subst concat_map_nth) (use assms lt in \<open>simp_all add: concat_map_length [where n = "nat (rg_sx r)"] concat_map_nth\<close>)
qed

lemma range_offsets_set:
  assumes "(i, k, j) \<in> set (range_offsets r)"
  shows "0 \<le> i \<and> i < rg_sx r \<and> 0 \<le> k \<and> k < rg_sy r \<and> 0 \<le> j \<and> j < rg_sz r"
  using assms by (auto simp: range_offsets_def)

lemma noise3D_plain: "noise3D_loop env bn False ps None = map (\<lambda>(x, y, z). sampleBiomeNoise env bn x y z) ps"
  by (induction ps) (auto simp: sampleBiomeNoise_def split_def)

section \<open>Maps of blocks\<close>

text \<open>The cells behind the result, looked up.\<close>

lemma buf_write_Some: "p + length vs \<le> length cache \<Longrightarrow> buf_write p vs cache = Some (take p cache @ vs @ drop (p + length vs) cache)"
  by (simp add: buf_write_def)

lemma buf_read_int: "n < length cache \<Longrightarrow> buf_read (int n) cache = Some (cache ! n)"
  by (simp add: buf_read_def)

lemma buf_write_one: "p < length cache \<Longrightarrow> buf_write p [v] cache = Some (cache[p := v])"
  by (simp add: buf_write_def upd_conv_take_nth_drop)

lemma block_loop_values:
  assumes "\<And>c b. drop siz c = drop siz cache \<Longrightarrow> b \<in> set bs \<Longrightarrow> block_value env bn sha r s siz c b = Some (g b)"
    and "p + length bs \<le> siz" "siz \<le> length cache"
  shows "block_loop env bn sha r s siz bs p cache = Some (take p cache @ map g bs @ drop (p + length bs) cache)"
  using assms
proof (induction bs arbitrary: p cache)
  case (Cons b bs)
  let ?c = "cache[p := g b]"
  have p: "p < length cache" "p < siz" using Cons.prems(2,3) by auto
  have keep: "drop siz ?c = drop siz cache" using p by simp
  have "block_loop env bn sha r s siz bs (p + 1) ?c = Some (take (p + 1) ?c @ map g bs @ drop (p + 1 + length bs) ?c)"
    by (rule Cons.IH) (use Cons.prems keep in auto)
  moreover have "take (p + 1) ?c = take p cache @ [g b]" using p by (simp add: take_Suc_conv_app_nth)
  moreover have "drop (p + 1 + length bs) ?c = drop (p + length (b # bs)) cache" by simp
  ultimately show ?case using Cons.prems(1) [of cache b] p by (simp add: buf_write_one)
qed simp

lemma src_range_values:
  assumes "getVoronoiSrcRange r = Some s"
  shows "genBiomeNoise3D env bn s False =
    map (\<lambda>(i, k, j). sampleBiomeNoise env bn (rg_x s + i) (rg_y s + k) (rg_z s + j)) (range_offsets s)"
proof -
  have "rg_scale s = 4" using assms by (auto simp: getVoronoiSrcRange_def Let_def split: if_splits)
  moreover have "(1 :: int) sdiv 2 = 0" by (simp add: signed_divide_int_def)
  ultimately show ?thesis by (simp add: genBiomeNoise3D_def noise3D_plain Let_def comp_def split_def)
qed

lemma src_range_size:
  assumes "getVoronoiSrcRange r = Some s" "0 < rg_sx r" "0 < rg_sy r" "0 < rg_sz r"
  shows "0 < rg_sx s \<and> rg_sx s \<le> (rg_sx r + 3) div 4 + 2" "0 < rg_sy s \<and> rg_sy s \<le> (rg_sy r + 3) div 4 + 2"
    "0 < rg_sz s \<and> rg_sz s \<le> (rg_sz r + 3) div 4 + 2"
proof -
  have d: "0 < (a + n) div 4 - a div 4 + 2 \<and> (a + n) div 4 - a div 4 + 2 \<le> (n + 3) div 4 + 2" if "0 < n" for a n :: int
    using that by linarith
  have eq: "rg_sx s = (rg_x r - 2 + rg_sx r) div 4 - (rg_x r - 2) div 4 + 2" "rg_sy s = (rg_y r - 2 + rg_sy r) div 4 - (rg_y r - 2) div 4 + 2"
    "rg_sz s = (rg_z r - 2 + rg_sz r) div 4 - (rg_z r - 2) div 4 + 2"
    using assms(1,3) by (auto simp: getVoronoiSrcRange_def Let_def split: if_splits)
  show "0 < rg_sx s \<and> rg_sx s \<le> (rg_sx r + 3) div 4 + 2" "0 < rg_sy s \<and> rg_sy s \<le> (rg_sy r + 3) div 4 + 2"
    "0 < rg_sz s \<and> rg_sz s \<le> (rg_sz r + 3) div 4 + 2"
    using d [OF assms(2), of "rg_x r - 2"] d [OF assms(3), of "rg_y r - 2"] d [OF assms(4), of "rg_z r - 2"] by (simp_all only: eq)
qed

definition block_biome :: "Env \<Rightarrow> BiomeNoise \<Rightarrow> u64 \<Rightarrow> int \<Rightarrow> int \<Rightarrow> int \<Rightarrow> int" where
  "block_biome env bn sha x y z = (let (x4, y4, z4) = voronoiAccess3D sha x y z in sampleBiomeNoise env bn x4 y4 z4)"

lemma block_value_lookup:
  assumes "getVoronoiSrcRange r = Some s" "(i, k, j) \<in> set (range_offsets r)" "1 < siz" "siz \<le> length c"
    and "take (length (range_offsets s)) (drop siz c) = genBiomeNoise3D env bn s False"
  shows "block_value env bn sha r s siz c (i, k, j) = Some (block_biome env bn sha (rg_x r + i) (rg_y r + k) (rg_z r + j))"
proof -
  obtain x4 y4 z4 where v: "voronoiAccess3D sha (rg_x r + i) (rg_y r + k) (rg_z r + j) = (x4, y4, z4)" by (metis prod_cases3)
  have "0 \<le> i" "i < rg_sx r" "0 \<le> j" "j < rg_sz r" "0 \<le> k" "k < rg_sy r" using range_offsets_set [OF assms(2)] by simp_all
  note cov = getVoronoiSrcRange_covers [OF assms(1) this v]
  define X Y Z where XYZ: "X = nat (x4 - rg_x s)" "Y = nat (y4 - rg_y s)" "Z = nat (z4 - rg_z s)"
  have lt: "X < nat (rg_sx s)" "Y < nat (rg_sy s)" "Z < nat (rg_sz s)" and int: "x4 - rg_x s = int X" "y4 - rg_y s = int Y" "z4 - rg_z s = int Z"
    using cov unfolding XYZ by auto
  let ?n = "Y * (nat (rg_sz s) * nat (rg_sx s)) + (Z * nat (rg_sx s) + X)"
  have at: "range_offsets s ! ?n = (int X, int Y, int Z)" by (rule range_offsets_nth [OF lt(1,3,2)])
  have "Z * nat (rg_sx s) + X < (Z + 1) * nat (rg_sx s)" using lt(1) by simp
  also have "\<dots> \<le> nat (rg_sz s) * nat (rg_sx s)" using lt(3) by (intro mult_le_mono1) simp
  finally have "?n < (Y + 1) * (nat (rg_sz s) * nat (rg_sx s))" by simp
  also have "\<dots> \<le> nat (rg_sy s) * (nat (rg_sz s) * nat (rg_sx s))" using lt(2) by (intro mult_le_mono1) simp
  finally have n: "?n < length (range_offsets s)" by (simp add: range_offsets_length)
  have len: "length (range_offsets s) \<le> length c - siz"
    using arg_cong [OF assms(5), of length] src_range_values [OF assms(1), of env bn] by simp
  have idx: "int siz + ((y4 - rg_y s) * rg_sx s * rg_sz s + (z4 - rg_z s) * rg_sx s + (x4 - rg_x s)) = int (siz + ?n)"
  proof -
    have "int (nat (rg_sx s)) = rg_sx s" "int (nat (rg_sz s)) = rg_sz s" using lt by auto
    then show ?thesis unfolding int by (simp add: algebra_simps)
  qed
  have "c ! (siz + ?n) = take (length (range_offsets s)) (drop siz c) ! ?n" using n len assms(4) by simp
  also have "\<dots> = sampleBiomeNoise env bn x4 y4 z4"
    unfolding assms(5) src_range_values [OF assms(1)] using n at int by (simp add: algebra_simps)
  finally have "c ! (siz + ?n) = sampleBiomeNoise env bn x4 y4 z4" .
  moreover have "siz + ?n < length c" using n len by linarith
  ultimately have "buf_read (int (siz + ?n)) c = Some (sampleBiomeNoise env bn x4 y4 z4)" by (simp only: buf_read_int)
  then show ?thesis using assms(3) idx by (simp add: block_value_def block_biome_def v Let_def)
qed

text \<open>The range with a height of at least one layer, as the functions use it.\<close>

definition map_range :: "Range \<Rightarrow> Range" where
  "map_range r = (if rg_sy r = 0 then r\<lparr>rg_sy := 1\<rparr> else r)"

lemma block_map_base:
  assumes "rg_scale r = 1" "0 < rg_sx r" "0 < rg_sz r" "0 \<le> rg_sy r" "getMinCacheSize 1 (rg_sx r) (rg_sy r) (rg_sz r) \<le> length cache"
  shows "\<exists>cache'. genBiomeNoiseScaled env bn cache r sha = Some cache' \<and> length cache' = length cache \<and>
    take (length (range_offsets (map_range r))) cache' =
      map (\<lambda>(i, k, j). block_biome env bn sha (rg_x r + i) (rg_y r + k) (rg_z r + j)) (range_offsets (map_range r))"
proof -
  let ?q = "map_range r"
  have q: "rg_scale ?q = 1" "rg_sx ?q = rg_sx r" "rg_sz ?q = rg_sz r" "0 < rg_sy ?q" "rg_x ?q = rg_x r" "rg_y ?q = rg_y r" "rg_z ?q = rg_z r"
    using assms(1,4) by (simp_all add: map_range_def)
  obtain s where s: "getVoronoiSrcRange ?q = Some s" using q(1) by (simp add: getVoronoiSrcRange_def Let_def)
  let ?siz = "nat (rg_sx ?q * rg_sy ?q * rg_sz ?q)" and ?cells = "genBiomeNoise3D env bn s False"
  let ?g = "\<lambda>(i, k, j). block_biome env bn sha (rg_x r + i) (rg_y r + k) (rg_z r + j)"
  have siz: "length (range_offsets ?q) = ?siz" using q(2-4) assms(2,3) by (simp add: range_offsets_length nat_mult_distrib ac_simps)
  note ss = src_range_size [OF s, unfolded q(2,3), OF assms(2) q(4) assms(3)]
  have cells: "length ?cells = nat (rg_sx s * rg_sy s * rg_sz s)"
    using ss by (simp add: src_range_values [OF s] range_offsets_length nat_mult_distrib ac_simps)
  let ?B = "((rg_sx r + 3) div 4 + 2) * ((rg_sy ?q + 3) div 4 + 2) * ((rg_sz r + 3) div 4 + 2)" and ?P = "rg_sx ?q * rg_sy ?q * rg_sz ?q"
  have le: "rg_sx s * rg_sy s * rg_sz s \<le> ?B" using ss by (intro mult_mono) simp_all
  have nonneg: "0 \<le> ?P" "0 \<le> rg_sx s * rg_sy s * rg_sz s" using assms(2,3) q(2-4) ss by simp_all
  have "getMinCacheSize 1 (rg_sx r) (rg_sy r) (rg_sz r) = nat (?P + ?B)"
    using q(2,3) by (simp add: getMinCacheSize_def map_range_def Let_def ac_simps)
  moreover have "?siz + length ?cells = nat (?P + rg_sx s * rg_sy s * rg_sz s)" unfolding cells by (rule nat_add_distrib [OF nonneg, symmetric])
  moreover have "nat (?P + rg_sx s * rg_sy s * rg_sz s) \<le> nat (?P + ?B)" using le by (intro nat_mono) simp
  ultimately have room: "?siz + length ?cells \<le> length cache" using assms(5) by linarith
  define cache1 where "cache1 = (if 1 < ?siz then take ?siz cache @ ?cells @ drop (?siz + length ?cells) cache else cache)"
  have c1: "length cache1 = length cache" using room by (auto simp: cache1_def)
  have w: "(if 1 < ?siz then buf_write ?siz ?cells cache else Some cache) = Some cache1"
    using room by (simp add: cache1_def buf_write_Some)
  have blk: "block_value env bn sha ?q s ?siz c b = Some (?g b)" if same: "drop ?siz c = drop ?siz cache1" and b: "b \<in> set (range_offsets ?q)" for c b
  proof (cases "1 < ?siz")
    case True
    obtain i k j where ikj: "b = (i, k, j)" by (cases b)
    have dc: "drop ?siz c = ?cells @ drop (?siz + length ?cells) cache" unfolding same using True room by (simp add: cache1_def)
    then have "take (length (range_offsets s)) (drop ?siz c) = ?cells" by (simp add: src_range_values [OF s])
    moreover have "0 < rg_sx s * rg_sy s * rg_sz s" using ss by simp
    then have "0 < length ?cells" unfolding cells by (simp only: zero_less_nat_eq)
    then have "?siz \<le> length c" using arg_cong [OF dc, of length] by (cases "?siz \<le> length c") (simp_all del: nat_le_iff)
    ultimately show ?thesis using block_value_lookup [OF s _ True, of i k j] b ikj q by simp
  next
    case False
    then show ?thesis by (cases b) (simp add: block_value_def block_biome_def q split_def Let_def)
  qed
  have "block_loop env bn sha ?q s ?siz (range_offsets ?q) 0 cache1 =
      Some (take 0 cache1 @ map ?g (range_offsets ?q) @ drop (0 + length (range_offsets ?q)) cache1)"
    by (rule block_loop_values) (use blk siz room c1 in auto)
  moreover have "genBiomeNoiseScaled env bn cache r sha = block_loop env bn sha ?q s ?siz (range_offsets ?q) 0 cache1"
    unfolding genBiomeNoiseScaled_def Let_def map_range_def [symmetric] using w by (simp add: q(1) s)
  ultimately show ?thesis using siz room c1 by auto
qed

section \<open>Properties\<close>

text \<open>The biome of a position at the scale of blocks or of cells.\<close>

definition biome_at_scale :: "Env \<Rightarrow> Generator \<Rightarrow> int \<Rightarrow> int \<Rightarrow> int \<Rightarrow> int \<Rightarrow> int" where
  "biome_at_scale env g scale x y z =
     (if scale = 1 then cubiomes_get_biome_at_block env g x y z else sampleBiomeNoise env (g_bn g) x y z)"

lemma cell_map_base:
  assumes "rg_scale r = 4" "0 < rg_sx r" "0 < rg_sz r" "0 \<le> rg_sy r" "getMinCacheSize 4 (rg_sx r) (rg_sy r) (rg_sz r) \<le> length cache"
  shows "\<exists>cache'. genBiomeNoiseScaled env bn cache r sha = Some cache' \<and>
    take (length (range_offsets (map_range r))) cache' =
      map (\<lambda>(i, k, j). sampleBiomeNoise env bn (rg_x r + i) (rg_y r + k) (rg_z r + j)) (range_offsets (map_range r))"
proof -
  let ?q = "map_range r" and ?f = "\<lambda>(i, k, j). sampleBiomeNoise env bn (rg_x r + i) (rg_y r + k) (rg_z r + j)"
  have q: "rg_scale ?q = 4" "rg_sx ?q = rg_sx r" "rg_sz ?q = rg_sz r" "0 < rg_sy ?q" "rg_x ?q = rg_x r" "rg_y ?q = rg_y r" "rg_z ?q = rg_z r"
    using assms(1,4) by (simp_all add: map_range_def)
  have "(1 :: int) sdiv 2 = 0" by (simp add: signed_divide_int_def)
  then have cells: "genBiomeNoise3D env bn ?q False = map ?f (range_offsets ?q)"
    using q by (simp add: genBiomeNoise3D_def noise3D_plain Let_def comp_def split_def)
  have "length (range_offsets ?q) = nat (rg_sx r * rg_sz r * rg_sy ?q)"
    using q(2-4) assms(2,3) by (simp add: range_offsets_length nat_mult_distrib ac_simps)
  then have "length (range_offsets ?q) \<le> length cache" using assms(5) by (simp add: getMinCacheSize_def map_range_def Let_def split: if_splits)
  then have w: "buf_write 0 (map ?f (range_offsets ?q)) cache = Some (map ?f (range_offsets ?q) @ drop (length (range_offsets ?q)) cache)"
    by (simp add: buf_write_Some)
  have "genBiomeNoiseScaled env bn cache r sha = buf_write 0 (map ?f (range_offsets ?q)) cache"
    unfolding genBiomeNoiseScaled_def Let_def map_range_def [symmetric] by (simp add: q(1) cells)
  then show ?thesis unfolding w by simp
qed

lemma genBiomes_base:
  assumes "rg_scale r \<in> {1, 4}" "0 < rg_sx r" "0 < rg_sz r" "0 \<le> rg_sy r"
  shows "\<exists>cache out. allocCache r = Some cache \<and> genBiomes env g cache r = Some out \<and>
     take (length (range_offsets (map_range r))) out =
       map (\<lambda>(i, k, j). biome_at_scale env g (rg_scale r) (rg_x r + i) (rg_y r + k) (rg_z r + j)) (range_offsets (map_range r))"
proof -
  let ?n = "getMinCacheSize (rg_scale r) (rg_sx r) (rg_sy r) (rg_sz r)"
  have "0 < rg_sx r * rg_sz r * (if rg_sy r = 0 then 1 else rg_sy r)" using assms(2-4) by simp
  moreover have "0 \<le> ((rg_sx r + 3) div 4 + 2) * (((if rg_sy r = 0 then 1 else rg_sy r) + 3) div 4 + 2) * ((rg_sz r + 3) div 4 + 2)"
    using assms(2-4) by (intro mult_nonneg_nonneg) auto
  ultimately have n: "0 < ?n" by (auto simp: getMinCacheSize_def Let_def)
  then have a: "allocCache r = Some (replicate ?n 0)" by (simp add: allocCache_def)
  have "length (replicate ?n (0 :: int)) = ?n" by simp
  then show ?thesis
    using assms(1) a block_map_base [of r "replicate ?n 0" env "g_bn g" "g_sha g"] cell_map_base [of r "replicate ?n 0" env "g_bn g" "g_sha g"] assms(2-4)
    by (auto simp: genBiomes_def biome_at_scale_def block_biome_def cubiomes_get_biome_at_block_def)
qed

lemma getBiomeAt_base:
  assumes "scale \<in> {1, 4}"
  shows "getBiomeAt env g scale x y z = Some (biome_at_scale env g scale x y z)"
proof -
  let ?p = "\<lparr>rg_scale = scale, rg_x = x, rg_z = z, rg_sx = 1, rg_sz = 1, rg_y = y, rg_sy = 1\<rparr>"
  have off: "range_offsets (map_range ?p) = [(0, 0, 0)]" by (simp add: range_offsets_def map_range_def)
  obtain cache out where "allocCache ?p = Some cache" "genBiomes env g cache ?p = Some out" "take 1 out = [biome_at_scale env g scale x y z]"
    using genBiomes_base [of ?p env g] assms(1) unfolding off by auto
  then show ?thesis by (cases out) (auto simp: getBiomeAt_def)
qed

text \<open>
  C17: For every area of blocks or cells the buffer that is allocated suffices: no access leaves it, and it holds the
  biome of every position in the order of layers, rows and cells, also where a map of blocks looks up the
  cells it keeps behind its result; and \<open>getBiomeAt\<close> is the biome of its position.
\<close>

theorem genBiomes_is_pointwise:
  assumes "rg_scale r \<in> {1, 4}" "0 < rg_sx r" "0 < rg_sz r" "0 \<le> rg_sy r"
  shows "(\<exists>cache out. allocCache r = Some cache \<and> genBiomes env g cache r = Some out \<and>
       take (length (range_offsets (map_range r))) out =
         map (\<lambda>(i, k, j). biome_at_scale env g (rg_scale r) (rg_x r + i) (rg_y r + k) (rg_z r + j)) (range_offsets (map_range r))) \<and>
     getBiomeAt env g (rg_scale r) x y z = Some (biome_at_scale env g (rg_scale r) x y z)"
  using genBiomes_base [OF assms, of env g] getBiomeAt_base [OF assms(1), of env g x y z] by simp

definition sample_env :: Env where
  "sample_env = \<lparr>f32 = (\<lambda>v. v), getSpline = (\<lambda>_. 0), climateToBiome = (\<lambda>np dat. (if np ! 2 \<le> - 10500 then 14 else 4, dat))\<rparr>"

lemma genBiomes_is_pointwise_witness:
  "let r = \<lparr>rg_scale = 1, rg_x = - 9, rg_z = 4, rg_sx = 3, rg_sz = 1, rg_y = 62, rg_sy = 0\<rparr>;
       g = applySeed (\<lambda>_. \<lparr>bn_climate = []\<rparr>) 99; biome = (\<lambda>x. cubiomes_get_biome_at_block sample_env g x 62 4)
   in \<exists>cache out. allocCache r = Some cache \<and> genBiomes sample_env g cache r = Some out \<and> take 3 out = [biome (- 9), biome (- 8), biome (- 7)]"
proof -
  let ?r = "\<lparr>rg_scale = 1, rg_x = - 9, rg_z = 4, rg_sx = 3, rg_sz = 1, rg_y = 62, rg_sy = 0\<rparr>"
  have off: "range_offsets (map_range ?r) = [(0, 0, 0), (1, 0, 0), (2, 0, 0)]"
    by (simp add: range_offsets_def map_range_def upt_rec)
  show ?thesis
    using conjunct1 [OF genBiomes_is_pointwise [of ?r sample_env "applySeed (\<lambda>_. \<lparr>bn_climate = []\<rparr>) 99" 0 0 0]]
    unfolding off by (simp add: biome_at_scale_def eval_nat_numeral)
qed

end
