(* ===== verification/Renderer.thy ===== *)
theory Renderer
  imports BiomeMap SizeCheck
begin

text \<open>
  The map renderer of the viewer (\<open>src/seedviewer/renderer/render_map.cpp\<close>) with the image routines it calls
  (\<open>biomesToImage\<close> and \<open>savePPM\<close> in \<open>src/cubiomes/util.c\<close>): its command line, the image sampled at strided
  positions and the image averaged from a map. A byte of the image that is never written is \<open>None\<close>. The
  theorems say which colour every pixel has, and which pixels are never written.
\<close>

section \<open>Definitions: the command line\<close>

record RenderArgs =
  rn_seed :: int
  rn_x :: int
  rn_z :: int
  rn_scale :: int
  rn_width :: int
  rn_height :: int
  rn_y :: int
  rn_output :: "string option"
  rn_large :: bool
  rn_zoom :: int
  rn_sample :: bool

definition rn_start :: RenderArgs where
  "rn_start = \<lparr>rn_seed = 0, rn_x = 0, rn_z = 0, rn_scale = 4, rn_width = 512, rn_height = 512, rn_y = - 1,
     rn_output = None, rn_large = False, rn_zoom = 1, rn_sample = False\<rparr>"

text \<open>An option with a value; \<open>None\<close> for an argument that is none.\<close>

definition rn_option :: "string \<Rightarrow> string \<Rightarrow> RenderArgs \<Rightarrow> RenderArgs option" where
  "rn_option arg val a =
     (if arg = ''--seed'' then Some (a\<lparr>rn_seed := strtoll val\<rparr>)
      else if arg = ''--x'' then Some (a\<lparr>rn_x := strtol32 val\<rparr>)
      else if arg = ''--z'' then Some (a\<lparr>rn_z := strtol32 val\<rparr>)
      else if arg = ''--scale'' then Some (a\<lparr>rn_scale := strtol32 val\<rparr>)
      else if arg = ''--width'' then Some (a\<lparr>rn_width := strtol32 val\<rparr>)
      else if arg = ''--height'' then Some (a\<lparr>rn_height := strtol32 val\<rparr>)
      else if arg = ''--y'' then Some (a\<lparr>rn_y := strtol32 val\<rparr>)
      else if arg = ''--output'' then Some (a\<lparr>rn_output := Some val\<rparr>)
      else if arg = ''--zoom'' then Some (a\<lparr>rn_zoom := strtol32 val\<rparr>)
      else None)"

text \<open>A flag or an argument that is ignored; \<open>None\<close> when help is asked for.\<close>

definition rn_flag :: "string \<Rightarrow> RenderArgs \<Rightarrow> RenderArgs option" where
  "rn_flag arg a =
     (if arg = ''--large-biomes'' then Some (a\<lparr>rn_large := True\<rparr>)
      else if arg = ''--sample'' then Some (a\<lparr>rn_sample := True\<rparr>)
      else if arg = ''-h'' \<or> arg = ''--help'' then None
      else Some a)"

fun rn_loop :: "string list \<Rightarrow> RenderArgs \<Rightarrow> RenderArgs option" where
  "rn_loop [] a = Some a"
| "rn_loop [arg] a = rn_flag arg a"
| "rn_loop (arg # val # rest) a =
     (case rn_option arg val a of
        Some a \<Rightarrow> rn_loop rest a
      | None \<Rightarrow> Option.bind (rn_flag arg a) (rn_loop (val # rest)))"

section \<open>Definitions: the image\<close>

type_synonym Colour = "u8 \<times> u8 \<times> u8"

text \<open>What the program ends with: the exit status after a message, a crash, or an image for the file.\<close>

datatype RenderResult = Rn_exit int | Rn_crash | Rn_image int int "u8 option list"

definition colour_bytes :: "Colour option \<Rightarrow> u8 option list" where
  "colour_bytes c = (case c of Some (r, g, b) \<Rightarrow> [Some r, Some g, Some b] | None \<Rightarrow> [None, None, None])"

definition id_colour :: "Colour list \<Rightarrow> int \<Rightarrow> Colour option" where
  "id_colour colors biome = (if 0 \<le> biome \<and> biome < 256 then Some (colors ! nat biome) else None)"

text \<open>The pixels of an image by rows.\<close>

definition image_of :: "int \<Rightarrow> int \<Rightarrow> (int \<Rightarrow> int \<Rightarrow> Colour option) \<Rightarrow> u8 option list" where
  "image_of w h pixel = concat (map (\<lambda>j. concat (map (\<lambda>i. colour_bytes (pixel (int i) (int j))) [0..<nat w])) [0..<nat h])"

text \<open>The image sampled at strided positions.\<close>

definition sample_pixel :: "Env \<Rightarrow> Generator \<Rightarrow> Colour list \<Rightarrow> RenderArgs \<Rightarrow> int \<Rightarrow> int \<Rightarrow> int \<Rightarrow> int \<Rightarrow> int \<Rightarrow> Colour option" where
  "sample_pixel env g colors a y start_x start_z i j =
     (let stride = rn_scale a * rn_zoom a;
          wx = start_x + i * stride;
          wz = start_z + j * stride;
          biome = (case getBiomeAt env g (rn_scale a) (wx sdiv rn_scale a) y (wz sdiv rn_scale a) of Some b \<Rightarrow> b | None \<Rightarrow> - 1)
      in Some (case id_colour colors biome of Some c \<Rightarrow> c | None \<Rightarrow> (0, 0, 0)))"

definition render_sample :: "Env \<Rightarrow> Generator \<Rightarrow> Colour list \<Rightarrow> RenderArgs \<Rightarrow> int \<Rightarrow> RenderResult" where
  "render_sample env g colors a y =
     (let stride = rn_scale a * rn_zoom a;
          block_half_w = (rn_width a * stride) sdiv 2;
          block_half_h = (rn_height a * stride) sdiv 2;
          start_x = rn_x a - block_half_w + stride sdiv 2;
          start_z = rn_z a - block_half_h + stride sdiv 2
      in if rn_scale a = 0 \<and> 0 < rn_width a \<and> 0 < rn_height a then Rn_crash
         else Rn_image (rn_width a) (rn_height a) (image_of (rn_width a) (rn_height a) (sample_pixel env g colors a y start_x start_z)))"

text \<open>The average of a square of cells, as far as it lies in the map.\<close>

definition square_cells :: "int \<Rightarrow> int \<Rightarrow> int \<Rightarrow> int \<Rightarrow> int \<Rightarrow> (int \<times> int) list" where
  "square_cells zoom eff_w eff_h i j =
     filter (\<lambda>(si, sj). si < eff_w \<and> sj < eff_h)
       (concat (map (\<lambda>dj. map (\<lambda>di. (i * zoom + int di, j * zoom + int dj)) [0..<nat zoom]) [0..<nat zoom]))"

definition channel_sum :: "(Colour \<Rightarrow> u8) \<Rightarrow> Colour list \<Rightarrow> int list \<Rightarrow> int" where
  "channel_sum ch colors ids = sum_list (map (\<lambda>b. case id_colour colors b of Some c \<Rightarrow> uint (ch c) | None \<Rightarrow> 0) ids)"

definition average_colour :: "Colour list \<Rightarrow> int list \<Rightarrow> Colour option" where
  "average_colour colors ids =
     (let n = int (length ids);
          avg = (\<lambda>ch. word_of_int (channel_sum ch colors ids sdiv n))
      in if 0 < n then Some (avg fst, avg (fst \<circ> snd), avg (snd \<circ> snd)) else None)"

definition zoom_pixel :: "Colour list \<Rightarrow> int list \<Rightarrow> int \<Rightarrow> int \<Rightarrow> int \<Rightarrow> int \<Rightarrow> int \<Rightarrow> Colour option" where
  "zoom_pixel colors biomes zoom eff_w eff_h i j =
     average_colour colors (map (\<lambda>(si, sj). biomes ! nat (sj * eff_w + si)) (square_cells zoom eff_w eff_h i j))"

text \<open>\<open>biomesToImage\<close>: every biome as a square of \<open>pixscale\<close> pixels, from the top or from the bottom.\<close>

definition dark :: "u8 \<Rightarrow> u8" where
  "dark c = (let r = (ucast c :: u32) - 40 in if 0xff < r then 0 else ucast (r AND 0xff))"

definition image_colour :: "Colour list \<Rightarrow> int \<Rightarrow> Colour" where
  "image_colour colors biome =
     (case id_colour colors biome of Some c \<Rightarrow> c
      | None \<Rightarrow> (case colors ! unat ((word_of_int biome :: u32) AND 0x7f) of (r, g, b) \<Rightarrow> (dark r, dark g, dark b)))"

definition put_pixel :: "nat \<Rightarrow> Colour \<Rightarrow> u8 option list \<Rightarrow> u8 option list" where
  "put_pixel idx c pixels = (case c of (r, g, b) \<Rightarrow> pixels[3 * idx := Some r, 3 * idx + 1 := Some g, 3 * idx + 2 := Some b])"

definition biomesToImage :: "u8 option list \<Rightarrow> Colour list \<Rightarrow> int list \<Rightarrow> nat \<Rightarrow> nat \<Rightarrow> nat \<Rightarrow> bool \<Rightarrow> bool \<times> u8 option list" where
  "biomesToImage pixels colors biomes sx sy pixscale flip =
     (list_ex (\<lambda>b. b < 0 \<or> 256 \<le> b) (take (sx * sy) biomes),
      fold (\<lambda>(j, i, m, n).
          put_pixel (pixscale * i + n + (sx * pixscale) * (pixscale * (if flip then j else sy - 1 - j) + m)) (image_colour colors (biomes ! (j * sx + i))))
        (List.product [0..<sy] (List.product [0..<sx] (List.product [0..<pixscale] [0..<pixscale]))) pixels)"

definition render_map :: "Env \<Rightarrow> Generator \<Rightarrow> Colour list \<Rightarrow> RenderArgs \<Rightarrow> int \<Rightarrow> RenderResult" where
  "render_map env g colors a y =
     (let scale = rn_scale a; zoom = rn_zoom a; width = rn_width a; height = rn_height a
      in if scale = 0 then Rn_crash
         else
           let block_half_w = (width * scale * zoom) sdiv 2;
               block_half_h = (height * scale * zoom) sdiv 2;
               x4 = (rn_x a - block_half_w) sdiv scale;
               z4 = (rn_z a - block_half_h) sdiv scale;
               eff_w = (if width * zoom > 4096 then 4096 else width * zoom);
               eff_h = (if height * zoom > 4096 then 4096 else height * zoom);
               r = \<lparr>rg_scale = scale, rg_x = x4, rg_z = z4, rg_sx = eff_w, rg_sz = eff_h, rg_y = y, rg_sy = 1\<rparr>
           in case allocCache r of
                None \<Rightarrow> Rn_exit 1
              | Some cache \<Rightarrow>
                  case genBiomes env g cache r of
                    None \<Rightarrow> Rn_crash
                  | Some biomes \<Rightarrow>
                      if 1 < zoom then Rn_image width height (image_of width height (zoom_pixel colors biomes zoom eff_w eff_h))
                      else Rn_image eff_w eff_h
                             (snd (biomesToImage (replicate (nat eff_w * nat eff_h * 3) None) colors biomes (nat eff_w) (nat eff_h) 1 True)))"

text \<open>The program up to the file: \<open>generator\<close> sets up and seeds the generator, memory is taken to be there.\<close>

definition render :: "Env \<Rightarrow> (bool \<Rightarrow> u64 \<Rightarrow> Generator) \<Rightarrow> Colour list \<Rightarrow> string list \<Rightarrow> RenderResult" where
  "render env generator colors argv =
     (case rn_loop argv rn_start of
        None \<Rightarrow> Rn_exit 0
      | Some a \<Rightarrow>
          if rn_output a = None then Rn_exit 1
          else
            let y = (if rn_y a < 0 then (if rn_scale a = 1 then 62 else 15) else rn_y a);
                g = generator (rn_large a) (word_of_int (rn_seed a))
            in if rn_sample a then render_sample env g colors a y else render_map env g colors a y)"

text \<open>The file: a header and the bytes of the image.\<close>

definition savePPM :: "int \<Rightarrow> int \<Rightarrow> u8 list \<Rightarrow> u8 list" where
  "savePPM sx sy pixels =
     map of_char (''P6'' @ [CHR 0x0A] @ show_int sx @ '' '' @ show_int sy @ [CHR 0x0A] @ ''255'' @ [CHR 0x0A]) @ take (nat (3 * sx * sy)) pixels"

section \<open>Definitions: the viewer's tiles\<close>

text \<open>The state of the module in the browser; the cache only grows.\<close>

record Wasm =
  wm_g :: Generator
  wm_cache :: "int list"

definition cubiomes_init :: "(bool \<Rightarrow> u64 \<Rightarrow> Generator) \<Rightarrow> u32 \<Rightarrow> u32 \<Rightarrow> bool \<Rightarrow> Wasm \<Rightarrow> Wasm" where
  "cubiomes_init generator seed_lo seed_hi large_biomes wm =
     wm\<lparr>wm_g := generator large_biomes (push_bit 32 (ucast seed_hi) OR ucast seed_lo)\<rparr>"

definition tile_pixel :: "Colour list \<Rightarrow> int \<Rightarrow> u8 list" where
  "tile_pixel colors biome =
     (let biome = (if biome < 0 \<or> 255 < biome then 0 else biome) in case colors ! nat biome of (r, g, b) \<Rightarrow> [r, g, b, 255])"

definition cubiomes_sample_tile :: "Env \<Rightarrow> Colour list \<Rightarrow> int \<Rightarrow> int \<Rightarrow> int \<Rightarrow> int \<Rightarrow> nat \<Rightarrow> nat \<Rightarrow> Wasm \<Rightarrow> u8 list option" where
  "cubiomes_sample_tile env colors origin_x origin_z y4 stride w h wm =
     map_option concat (those (concat (map (\<lambda>j. map (\<lambda>i.
         let bx = origin_x + int i * stride; bz = origin_z + int j * stride
         in map_option (tile_pixel colors) (getBiomeAt env (wm_g wm) 4 (bx sdiv 4) y4 (bz sdiv 4))) [0..<w]) [0..<h])))"

definition cubiomes_gen_tile :: "Env \<Rightarrow> Colour list \<Rightarrow> int \<Rightarrow> int \<Rightarrow> int \<Rightarrow> int \<Rightarrow> int \<Rightarrow> Wasm \<Rightarrow> (u8 list \<times> Wasm) option" where
  "cubiomes_gen_tile env colors x4 z4 y4 sx sz wm =
     (let needed = nat (sx * sz);
          cache = (if length (wm_cache wm) < needed then replicate needed 0 else wm_cache wm);
          r = \<lparr>rg_scale = 4, rg_x = x4, rg_z = z4, rg_sx = sx, rg_sz = sz, rg_y = y4, rg_sy = 1\<rparr>
      in map_option (\<lambda>out. (concat (map (tile_pixel colors) (take needed out)), wm\<lparr>wm_cache := out\<rparr>)) (genBiomes env (wm_g wm) cache r))"

section \<open>The pixels\<close>

lemma colour_bytes_length [simp]: "length (colour_bytes c) = 3"
  by (auto simp: colour_bytes_def split: option.split)

lemma image_of_length: "length (image_of w h pixel) = nat h * (nat w * 3)"
  unfolding image_of_def by (subst concat_map_length [where n = "nat w * 3"]) (simp_all add: concat_map_length [where n = 3])

lemma image_of_nth:
  assumes "i < nat w" "j < nat h" "k < 3"
  shows "image_of w h pixel ! (j * (nat w * 3) + (i * 3 + k)) = colour_bytes (pixel (int i) (int j)) ! k"
proof -
  have "i * 3 + k < (i + 1) * 3" using assms(3) by simp
  also have "\<dots> \<le> nat w * 3" using assms(1) by (intro mult_le_mono1) simp
  finally have lt: "i * 3 + k < nat w * 3" .
  show ?thesis unfolding image_of_def
    by (subst concat_map_nth) (use assms lt in \<open>simp_all add: concat_map_length [where n = 3] concat_map_nth\<close>)
qed

lemma image_of_cong:
  assumes "\<And>i j. 0 \<le> i \<Longrightarrow> i < w \<Longrightarrow> 0 \<le> j \<Longrightarrow> j < h \<Longrightarrow> p i j = q i j"
  shows "image_of w h p = image_of w h q"
  unfolding image_of_def using assms by (intro arg_cong [where f = concat] map_cong refl) auto

lemma square_cells_set:
  assumes "(si, sj) \<in> set (square_cells zoom eff_w eff_h i j)" "0 \<le> i" "0 \<le> j" "0 < zoom"
  shows "0 \<le> si \<and> si < eff_w \<and> 0 \<le> sj \<and> sj < eff_h"
  using assms by (auto simp: square_cells_def)

lemma square_cells_empty:
  assumes "0 < zoom"
  shows "square_cells zoom eff_w eff_h i j = [] \<longleftrightarrow> eff_w \<le> i * zoom \<or> eff_h \<le> j * zoom"
proof
  assume e: "square_cells zoom eff_w eff_h i j = []"
  have "(i * zoom, j * zoom) \<in> set (concat (map (\<lambda>dj. map (\<lambda>di. (i * zoom + int di, j * zoom + int dj)) [0..<nat zoom]) [0..<nat zoom]))"
    using assms by force
  then show "eff_w \<le> i * zoom \<or> eff_h \<le> j * zoom" using e unfolding square_cells_def filter_empty_conv by fastforce
next
  assume "eff_w \<le> i * zoom \<or> eff_h \<le> j * zoom"
  then show "square_cells zoom eff_w eff_h i j = []" unfolding square_cells_def filter_empty_conv by auto
qed

lemma average_colour_None: "average_colour colors bs = None \<longleftrightarrow> bs = []"
  by (simp add: average_colour_def Let_def)

text \<open>A map of one layer, read by columns and rows.\<close>

lemma map_layer:
  assumes "rg_scale r \<in> {1, 4}" "0 < rg_sx r" "0 < rg_sz r" "rg_sy r = 1"
  obtains cache out where "allocCache r = Some cache" "genBiomes env g cache r = Some out"
    "\<And>i j. 0 \<le> i \<Longrightarrow> i < rg_sx r \<Longrightarrow> 0 \<le> j \<Longrightarrow> j < rg_sz r \<Longrightarrow>
       nat (j * rg_sx r + i) < length out \<and> out ! nat (j * rg_sx r + i) = biome_at_scale env g (rg_scale r) (rg_x r + i) (rg_y r) (rg_z r + j)"
proof -
  have q: "map_range r = r" using assms(4) by (simp add: map_range_def)
  obtain cache out where c: "allocCache r = Some cache" "genBiomes env g cache r = Some out"
    and out: "take (length (range_offsets r)) out =
       map (\<lambda>(i, k, j). biome_at_scale env g (rg_scale r) (rg_x r + i) (rg_y r + k) (rg_z r + j)) (range_offsets r)"
    using genBiomes_base [OF assms(1-3), of env g] assms(4) unfolding q by auto
  show ?thesis
  proof (rule that [OF c])
    fix i j :: int
    assume b: "0 \<le> i" "i < rg_sx r" "0 \<le> j" "j < rg_sz r"
    let ?n = "nat j * nat (rg_sx r) + nat i"
    have n: "nat (j * rg_sx r + i) = ?n" using b assms(2) by (simp add: nat_add_distrib nat_mult_distrib)
    have at: "range_offsets r ! ?n = (i, 0, j)"
      using range_offsets_nth [of "nat i" r "nat j" 0] b assms(4) by simp
    have "?n < (nat j + 1) * nat (rg_sx r)" using b by simp
    also have "\<dots> \<le> nat (rg_sz r) * nat (rg_sx r)" using b by (intro mult_le_mono1) simp
    finally have lt: "?n < length (range_offsets r)" using assms(4) by (simp add: range_offsets_length)
    moreover have "length (range_offsets r) \<le> length out" using arg_cong [OF out, of length] by simp
    ultimately have len: "?n < length out" by simp
    have "out ! ?n = take (length (range_offsets r)) out ! ?n" using lt by simp
    also have "\<dots> = biome_at_scale env g (rg_scale r) (rg_x r + i) (rg_y r) (rg_z r + j)" unfolding out using lt at by simp
    finally show "nat (j * rg_sx r + i) < length out \<and>
        out ! nat (j * rg_sx r + i) = biome_at_scale env g (rg_scale r) (rg_x r + i) (rg_y r) (rg_z r + j)" using len n by simp
  qed
qed

text \<open>The cells of a pixel, and its colour, in a map that is cut off at 4096 cells.\<close>

definition map_corner :: "RenderArgs \<Rightarrow> int \<times> int" where
  "map_corner a =
     ((rn_x a - (rn_width a * rn_scale a * rn_zoom a) sdiv 2) sdiv rn_scale a,
      (rn_z a - (rn_height a * rn_scale a * rn_zoom a) sdiv 2) sdiv rn_scale a)"

definition zoomed_colour :: "Env \<Rightarrow> Generator \<Rightarrow> Colour list \<Rightarrow> RenderArgs \<Rightarrow> int \<Rightarrow> int \<Rightarrow> int \<Rightarrow> Colour option" where
  "zoomed_colour env g colors a y i j =
     (let (x4, z4) = map_corner a
      in average_colour colors
           (map (\<lambda>(si, sj). biome_at_scale env g (rn_scale a) (x4 + si) y (z4 + sj))
             (square_cells (rn_zoom a) (min 4096 (rn_width a * rn_zoom a)) (min 4096 (rn_height a * rn_zoom a)) i j)))"

lemma render_map_base:
  assumes "rn_scale a \<in> {1, 4}" "1 < rn_zoom a" "0 < rn_width a" "0 < rn_height a"
  shows "render_map env g colors a y =
     Rn_image (rn_width a) (rn_height a) (image_of (rn_width a) (rn_height a) (zoomed_colour env g colors a y))"
proof -
  let ?w = "min 4096 (rn_width a * rn_zoom a)" and ?h = "min 4096 (rn_height a * rn_zoom a)"
  obtain x4 z4 where xz: "map_corner a = (x4, z4)" by fastforce
  let ?r = "\<lparr>rg_scale = rn_scale a, rg_x = x4, rg_z = z4, rg_sx = ?w, rg_sz = ?h, rg_y = y, rg_sy = 1\<rparr>"
  have r: "rg_scale ?r \<in> {1, 4}" "0 < rg_sx ?r" "0 < rg_sz ?r" "rg_sy ?r = 1" using assms by simp_all
  obtain cache out where m: "allocCache ?r = Some cache" "genBiomes env g cache ?r = Some out"
    and at: "\<And>i j. 0 \<le> i \<Longrightarrow> i < ?w \<Longrightarrow> 0 \<le> j \<Longrightarrow> j < ?h \<Longrightarrow> out ! nat (j * ?w + i) = biome_at_scale env g (rn_scale a) (x4 + i) y (z4 + j)"
    by (rule map_layer [OF r, of env g]) simp
  have cut: "(if 4096 < v then 4096 else v) = min 4096 v" for v :: int by simp
  have "render_map env g colors a y = Rn_image (rn_width a) (rn_height a)
      (image_of (rn_width a) (rn_height a) (zoom_pixel colors out (rn_zoom a) ?w ?h))"
    using assms(1,2) xz m by (auto simp: render_map_def Let_def cut map_corner_def)
  also have "image_of (rn_width a) (rn_height a) (zoom_pixel colors out (rn_zoom a) ?w ?h) =
      image_of (rn_width a) (rn_height a) (zoomed_colour env g colors a y)"
  proof (rule image_of_cong)
    fix i j
    assume ij: "0 \<le> i" "i < rn_width a" "0 \<le> j" "j < rn_height a"
    have "map (\<lambda>(si, sj). out ! nat (sj * ?w + si)) (square_cells (rn_zoom a) ?w ?h i j) =
        map (\<lambda>(si, sj). biome_at_scale env g (rn_scale a) (x4 + si) y (z4 + sj)) (square_cells (rn_zoom a) ?w ?h i j)"
    proof (rule map_cong [OF refl], clarify)
      fix si sj
      assume c: "(si, sj) \<in> set (square_cells (rn_zoom a) ?w ?h i j)"
      have "0 \<le> si \<and> si < ?w \<and> 0 \<le> sj \<and> sj < ?h" by (rule square_cells_set [OF c ij(1,3)]) (use assms(2) in simp)
      then show "out ! nat (sj * ?w + si) = biome_at_scale env g (rn_scale a) (x4 + si) y (z4 + sj)" using at by blast
    qed
    then show "zoom_pixel colors out (rn_zoom a) ?w ?h i j = zoomed_colour env g colors a y i j"
      unfolding zoom_pixel_def zoomed_colour_def xz Let_def prod.case by (rule arg_cong)
  qed
  finally show ?thesis .
qed

section \<open>Properties\<close>

text \<open>
  C29: The image averaged from a map: every pixel is the average colour of the cells of its square as far as they
  lie in the map; a pixel whose square lies beyond the 4096 cells that the map is cut off at is never written.
\<close>

theorem zoomed_map_pixels:
  assumes "rn_scale a \<in> {1, 4}" "1 < rn_zoom a" "0 < rn_width a" "0 < rn_height a"
  shows "render_map env g colors a y =
      Rn_image (rn_width a) (rn_height a) (image_of (rn_width a) (rn_height a) (zoomed_colour env g colors a y)) \<and>
    (\<forall>i j. 0 \<le> i \<and> i < rn_width a \<and> 0 \<le> j \<and> j < rn_height a \<longrightarrow>
       (zoomed_colour env g colors a y i j = None \<longleftrightarrow> 4096 \<le> i * rn_zoom a \<or> 4096 \<le> j * rn_zoom a))"
proof -
  have "zoomed_colour env g colors a y i j = None \<longleftrightarrow> 4096 \<le> i * rn_zoom a \<or> 4096 \<le> j * rn_zoom a"
    if "0 \<le> i" "i < rn_width a" "0 \<le> j" "j < rn_height a" for i j
  proof -
    have "i * rn_zoom a < rn_width a * rn_zoom a" "j * rn_zoom a < rn_height a * rn_zoom a" using that assms(2) by simp_all
    then have cut: "min 4096 (rn_width a * rn_zoom a) \<le> i * rn_zoom a \<longleftrightarrow> 4096 \<le> i * rn_zoom a"
      "min 4096 (rn_height a * rn_zoom a) \<le> j * rn_zoom a \<longleftrightarrow> 4096 \<le> j * rn_zoom a" by linarith+
    show ?thesis using square_cells_empty [of "rn_zoom a"] assms(2) cut
      by (auto simp: zoomed_colour_def average_colour_None split_def Let_def)
  qed
  then show ?thesis using render_map_base [OF assms] by blast
qed

text \<open>A generator seeded with 99 and a palette of reds.\<close>

definition sample_generator :: Generator where
  "sample_generator = applySeed (\<lambda>_. \<lparr>bn_climate = []\<rparr>) 99"

definition sample_colors :: "Colour list" where
  "sample_colors = map (\<lambda>i. (word_of_nat i, 0, 0)) [0..<256]"

definition sample_args :: RenderArgs where
  "sample_args = rn_start\<lparr>rn_zoom := 16, rn_output := Some ''map.ppm''\<rparr>"

lemma zoomed_map_pixels_witness:
  "zoomed_colour sample_env sample_generator sample_colors sample_args 15 256 0 = None \<and> zoomed_colour sample_env sample_generator sample_colors sample_args 15 255 0 \<noteq> None \<and>
   (\<exists>pixels. render_map sample_env sample_generator sample_colors sample_args 15 = Rn_image 512 512 pixels)"
  using zoomed_map_pixels [of sample_args sample_env sample_generator sample_colors 15] by (simp add: sample_args_def rn_start_def)

text \<open>
  C36: The image sampled at strided positions shows the biome of the cell a position lies in, except that for
  negative coordinates that are no multiple of the scale it is the next cell, because the division truncates.
\<close>

theorem sampled_pixels_cells:
  assumes "rn_scale a \<in> {1, 4}"
  shows "let cell = (\<lambda>v. v div rn_scale a + (if v < 0 \<and> \<not> rn_scale a dvd v then 1 else 0));
             stride = rn_scale a * rn_zoom a;
             start_x = rn_x a - (rn_width a * stride) sdiv 2 + stride sdiv 2;
             start_z = rn_z a - (rn_height a * stride) sdiv 2 + stride sdiv 2
         in render_sample env g colors a y =
            Rn_image (rn_width a) (rn_height a) (image_of (rn_width a) (rn_height a) (\<lambda>i j.
              Some (case id_colour colors (biome_at_scale env g (rn_scale a) (cell (start_x + i * stride)) y (cell (start_z + j * stride)))
                of Some c \<Rightarrow> c | None \<Rightarrow> (0, 0, 0))))"
proof -
  have cell: "v sdiv rn_scale a = v div rn_scale a + (if v < 0 \<and> \<not> rn_scale a dvd v then 1 else 0)" for v
  proof -
    consider "rn_scale a = 1" | "rn_scale a = 4" using assms by blast
    then show ?thesis
    proof cases
      case 2
      have "- (- v div 4) = v div 4 + (if \<not> 4 dvd v then 1 else 0)" by (simp add: dvd_eq_mod_eq_0) presburger
      then show ?thesis using 2 by (auto simp: signed_divide_int_def sgn_if)
    qed (auto simp: signed_divide_int_def sgn_if)
  qed
  have g: "getBiomeAt env g (rn_scale a) x y z = Some (biome_at_scale env g (rn_scale a) x y z)" for x z
    by (rule getBiomeAt_base [OF assms])
  have ne: "rn_scale a \<noteq> 0" using assms by auto
  have p: "sample_pixel env g colors a y sx sz = (\<lambda>i j.
      Some (case id_colour colors (biome_at_scale env g (rn_scale a) ((sx + i * (rn_scale a * rn_zoom a)) sdiv rn_scale a) y
          ((sz + j * (rn_scale a * rn_zoom a)) sdiv rn_scale a)) of Some c \<Rightarrow> c | None \<Rightarrow> (0, 0, 0)))" for sx sz
    by (intro ext) (simp only: sample_pixel_def Let_def g option.case)
  show ?thesis by (simp only: render_sample_def Let_def ne simp_thms if_False cell [symmetric] p)
qed

lemma sampled_pixels_cells_witness:
  "render_sample sample_env sample_generator sample_colors (rn_start\<lparr>rn_width := 2, rn_height := 1\<rparr>) 15 =
   Rn_image 2 1 (image_of 2 1 (\<lambda>_ _.
     Some (case id_colour sample_colors (biome_at_scale sample_env sample_generator 4 0 15 0) of Some c \<Rightarrow> c | None \<Rightarrow> (0, 0, 0))))"
proof -
  let ?a = "rn_start\<lparr>rn_width := 2, rn_height := 1\<rparr>"
  note r = sampled_pixels_cells [of ?a sample_env sample_generator sample_colors 15]
  show ?thesis
  proof (rule trans)
    show "render_sample sample_env sample_generator sample_colors ?a 15 = Rn_image 2 1 (image_of 2 1 (\<lambda>i j.
        Some (case id_colour sample_colors (biome_at_scale sample_env sample_generator 4 ((4 * i - 2) div 4 + (if 4 * i - 2 < 0 \<and> \<not> 4 dvd 4 * i - 2 then 1 else 0)) 15
          ((4 * j) div 4 + (if 4 * j < 0 \<and> \<not> 4 dvd 4 * j then 1 else 0))) of Some c \<Rightarrow> c | None \<Rightarrow> (0, 0, 0))))"
      using r by (simp add: rn_start_def signed_divide_int_def Let_def algebra_simps)
  next
    have "i = 0 \<or> i = 1" "j = 0" if "0 \<le> i" "i < 2" "0 \<le> j" "j < 1" for i j :: int using that by linarith+
    then show "Rn_image 2 1 (image_of 2 1 (\<lambda>i j.
        Some (case id_colour sample_colors (biome_at_scale sample_env sample_generator 4 ((4 * i - 2) div 4 + (if 4 * i - 2 < 0 \<and> \<not> 4 dvd 4 * i - 2 then 1 else 0)) 15
          ((4 * j) div 4 + (if 4 * j < 0 \<and> \<not> 4 dvd 4 * j then 1 else 0))) of Some c \<Rightarrow> c | None \<Rightarrow> (0, 0, 0)))) =
      Rn_image 2 1 (image_of 2 1 (\<lambda>_ _. Some (case id_colour sample_colors (biome_at_scale sample_env sample_generator 4 0 15 0) of Some c \<Rightarrow> c | None \<Rightarrow> (0, 0, 0))))"
      by (intro arg_cong [where f = "Rn_image 2 1"] image_of_cong) fastforce
  qed
qed

section \<open>Tiles\<close>

text \<open>The cache of a tile is large enough, whatever tiles came before, and the tile shows the biome of every cell.\<close>

theorem gen_tile_pixels:
  assumes "0 < sx" "0 < sz"
  shows "\<exists>wm'. cubiomes_gen_tile env colors x4 z4 y4 sx sz wm = Some
    (concat (map (\<lambda>(i, k, j). tile_pixel colors (sampleBiomeNoise env (g_bn (wm_g wm)) (x4 + i) (y4 + k) (z4 + j)))
       (range_offsets \<lparr>rg_scale = 4, rg_x = x4, rg_z = z4, rg_sx = sx, rg_sz = sz, rg_y = y4, rg_sy = 1\<rparr>)), wm')"
proof -
  let ?r = "\<lparr>rg_scale = 4, rg_x = x4, rg_z = z4, rg_sx = sx, rg_sz = sz, rg_y = y4, rg_sy = 1\<rparr>"
  let ?cache = "if length (wm_cache wm) < nat (sx * sz) then replicate (nat (sx * sz)) 0 else wm_cache wm"
  have q: "map_range ?r = ?r" by (simp add: map_range_def)
  have n: "length (range_offsets ?r) = nat (sx * sz)" using assms by (simp add: range_offsets_length nat_mult_distrib ac_simps)
  have len: "getMinCacheSize 4 sx 1 sz \<le> length ?cache" by (simp add: getMinCacheSize_def)
  obtain out where out: "genBiomeNoiseScaled env (g_bn (wm_g wm)) ?cache ?r (g_sha (wm_g wm)) = Some out"
    "take (nat (sx * sz)) out = map (\<lambda>(i, k, j). sampleBiomeNoise env (g_bn (wm_g wm)) (x4 + i) (y4 + k) (z4 + j)) (range_offsets ?r)"
    using cell_map_base [of ?r ?cache env "g_bn (wm_g wm)" "g_sha (wm_g wm)"] assms len unfolding q n by auto
  show ?thesis unfolding cubiomes_gen_tile_def Let_def genBiomes_def
    by (intro exI [of _ "wm\<lparr>wm_cache := out\<rparr>"]) (simp add: out comp_def split_def)
qed

end
