(* ===== verification/GpuLoop.thy ===== *)
theory GpuLoop
  imports GpuReport HostSystem
begin

text \<open>
  The loop of \<open>GpuThread::run\<close> (\<open>src/src/gpu.cu\<close>) around the iteration: the range of seeds that is taken from
  the shared \<open>SeedIterator\<close>, the stage statistics, the entries for the output queue and the snapshot
  that is submitted every \<open>PRINT_INTERVAL\<close> iterations; and the whole search, any number of GPU threads
  together with the threads of the host. The theorems say what a snapshot counts, and that a search whose
  threads have come to rest has found exactly what the seeds of its range determine.
\<close>

section \<open>Definitions: one thread\<close>

record GpuThreadState =
  gt_results :: "Result list"
  gt_i :: u32
  gt_stats :: "StageStats list"

definition print_interval :: u32 where "print_interval = 256"

definition gradvecs_2_threads_per_seed :: "GpuConfig \<Rightarrow> u64" where
  "gradvecs_2_threads_per_seed cfg = of_nat (grid_width (unbounded cfg) (large cfg) * grid_width (unbounded cfg) (large cfg))"

definition gpu_thread_start :: "GpuConfig \<Rightarrow> bool \<Rightarrow> Result list \<Rightarrow> GpuThreadState" where
  "gpu_thread_start cfg origin results =
     \<lparr>gt_results = results, gt_i = 0, gt_stats = stage_stats origin (gradvecs_2_threads_per_seed cfg)\<rparr>"

text \<open>The snapshot of the statistics; \<open>final\<close> is the index of the stage that feeds the CPU queue.\<close>

definition final_stage :: "bool \<Rightarrow> nat" where
  "final_stage origin = (if origin then 2 else 13)"

definition make_snapshot :: "bool \<Rightarrow> nat \<Rightarrow> u64 \<Rightarrow> rat \<Rightarrow> StageStats list \<Rightarrow> GpuReportSnapshot" where
  "make_snapshot origin device start_seed host_total_time stats =
     \<lparr>rs_device = device, rs_start_seed = start_seed, rs_host_time = host_total_time,
      rs_stages = map (\<lambda>s. \<lparr>sn_name = ss_name s, sn_multiplier = inputs_multiplier s, sn_time = total_time s,
                           sn_inputs = total_inputs s, sn_outputs = total_outputs s\<rparr>) stats,
      rs_inputs = total_inputs (stats ! 0) * inputs_multiplier (stats ! 0),
      rs_outputs = total_outputs (stats ! final_stage origin)\<rparr>"

text \<open>
  The body of the loop after a range was taken: the entries for the queue, the thread's state, and the
  snapshot if one is due. \<open>elapsed\<close> are the times between the stages' events, \<open>host_time\<close> the time since the last
  report.
\<close>

definition gpu_round ::
    "GpuConfig \<Rightarrow> bool \<Rightarrow> nat \<Rightarrow> (nat \<Rightarrow> rat) \<Rightarrow> rat \<Rightarrow> u64 \<Rightarrow> GpuThreadState
      \<Rightarrow> (GpuOutput list \<times> GpuThreadState \<times> GpuReportSnapshot option) option" where
  "gpu_round cfg origin device elapsed host_time start_seed s =
     Option.bind ((if origin then gpu_iteration_origin else gpu_iteration) cfg start_seed (gt_results s)) (\<lambda>(outs, results, lens).
       let stats = map fst (update_all elapsed origin lens (gt_stats s));
           report = (gt_i s + 1) mod print_interval = 0
       in Some (outs,
                \<lparr>gt_results = results, gt_i = gt_i s + 1, gt_stats = (if report then map StageStats_reset stats else stats)\<rparr>,
                if report then Some (make_snapshot origin device start_seed host_time stats) else None))"

text \<open>One thread over the ranges it takes: the entries of every iteration, and the snapshots with the number of the iteration.\<close>

fun gpu_rounds ::
    "GpuConfig \<Rightarrow> bool \<Rightarrow> nat \<Rightarrow> ((nat \<Rightarrow> rat) \<times> rat \<times> u64) list \<Rightarrow> GpuThreadState
      \<Rightarrow> (GpuOutput list list \<times> GpuThreadState \<times> GpuReportSnapshot list) option" where
  "gpu_rounds cfg origin device [] s = Some ([], s, [])"
| "gpu_rounds cfg origin device ((elapsed, host_time, start_seed) # rounds) s =
     Option.bind (gpu_round cfg origin device elapsed host_time start_seed s) (\<lambda>(outs, s, report).
       Option.bind (gpu_rounds cfg origin device rounds s) (\<lambda>(more, s, snaps).
         Some (outs # more, s, (case report of None \<Rightarrow> snaps | Some r \<Rightarrow> r # snaps))))"

section \<open>What a snapshot counts\<close>


text \<open>The statistics are those of the start but for times and totals; \<open>n\<close> ranges and \<open>m\<close> entries were counted.\<close>

definition stats_count :: "bool \<Rightarrow> u64 \<Rightarrow> nat \<Rightarrow> nat \<Rightarrow> StageStats list \<Rightarrow> bool" where
  "stats_count origin threads_per_seed n m stats \<longleftrightarrow>
     map StageStats_reset stats = stage_stats origin threads_per_seed \<and>
     total_inputs (stats ! 0) = of_nat n \<and> total_outputs (stats ! final_stage origin) = of_nat m"

lemma filter_2_stages_list:
  "map StageStats_reset filter_2_stages = filter_2_stages" "length filter_2_stages = 7" "outputs_len (filter_2_stages ! 6) = filter_2_len 3"
  by (simp_all add: filter_2_stages_def upt_rec Let_def StageStats_reset_def new_stage_def numeral_3_eq_3)

lemma reset_new_stage: "StageStats_reset (new_stage a b c d e) = new_stage a b c d e"
  by (simp add: StageStats_reset_def new_stage_def)

lemma stage_stats_start:
  "map StageStats_reset (stage_stats origin n) = stage_stats origin n"
  "length (stage_stats origin n) = final_stage origin + 1"
  by (simp_all add: stage_stats_def final_stage_def stage_filter_seeds_def stage_init_seeds_def reset_new_stage filter_2_stages_list(1,2))

text \<open>The vector of statistics is reserved for 16 stages, so the references into it stay valid while it is filled.\<close>

lemma stage_stats_reserved: "length (stage_stats origin n) \<le> 16"
  by (simp add: stage_stats_start(2) final_stage_def)

lemma stage_stats_ends:
  "inputs_len (stage_stats origin n ! 0) = None" "inputs_multiplier (stage_stats origin n ! 0) = 2 ^ 28"
  "outputs_len (stage_stats origin n ! final_stage origin) = (if origin then results_len_origin else filter_2_len 3)"
proof -
  show "inputs_len (stage_stats origin n ! 0) = None" "inputs_multiplier (stage_stats origin n ! 0) = 2 ^ 28"
    by (simp_all add: stage_stats_def stage_filter_seeds_def new_stage_def)
  show "outputs_len (stage_stats origin n ! final_stage origin) = (if origin then results_len_origin else filter_2_len 3)"
  proof (cases origin)
    case False
    have "(a # b # c # d # e # f # g # fs) ! 13 = (fs :: StageStats list) ! 6" for a b c d e f g fs by (simp add: nth_Cons')
    then show ?thesis using False filter_2_stages_list(3) by (simp add: stage_stats_def final_stage_def)
  qed (simp add: stage_stats_def final_stage_def new_stage_def)
qed

lemma stats_count_reset:
  assumes "map StageStats_reset stats = stage_stats origin n"
  shows "stats_count origin n 0 0 (map StageStats_reset stats)"
proof -
  have len: "length stats = final_stage origin + 1" using arg_cong [OF assms, of length] by (simp add: stage_stats_start)
  have zero: "total_inputs (StageStats_reset s) = 0" "total_outputs (StageStats_reset s) = 0" for s by (simp_all add: StageStats_reset_def)
  have "map StageStats_reset (map StageStats_reset stats) = stage_stats origin n" unfolding assms by (rule stage_stats_start(1))
  then show ?thesis using len by (simp add: stats_count_def zero del: map_map)
qed

lemma stats_count_start: "stats_count origin n 0 0 (stage_stats origin n)"
  using stats_count_reset [OF stage_stats_start(1)] unfolding stage_stats_start(1) .

lemma stats_count_fields:
  assumes "stats_count origin n k m stats"
  shows "length stats = final_stage origin + 1" "inputs_len (stats ! 0) = None" "inputs_multiplier (stats ! 0) = 2 ^ 28"
    "outputs_len (stats ! final_stage origin) = (if origin then results_len_origin else filter_2_len 3)"
proof -
  have r: "map StageStats_reset stats = stage_stats origin n" using assms by (simp add: stats_count_def)
  show len: "length stats = final_stage origin + 1" using arg_cong [OF r, of length] by (simp add: stage_stats_start)
  have "stage_stats origin n ! i = StageStats_reset (stats ! i)" if "i < length stats" for i unfolding r [symmetric] using that by simp
  then show "inputs_len (stats ! 0) = None" "inputs_multiplier (stats ! 0) = 2 ^ 28"
    "outputs_len (stats ! final_stage origin) = (if origin then results_len_origin else filter_2_len 3)"
    using stage_stats_ends [of origin n] len by (simp_all add: StageStats_reset_def)
qed

text \<open>The length that the last stage counts is the number of entries that are queued: nothing is clamped.\<close>

lemma bind_Some: "(Option.bind m f = Some y) = (\<exists>x. m = Some x \<and> f x = Some y)"
  by (cases m) auto

lemma iteration_final_len:
  assumes "(if origin then gpu_iteration_origin else gpu_iteration) cfg start_seed results = Some (outs, results', lens)"
  shows "(if origin then results_len_origin else filter_2_len 3) (clamp_lens origin lens) = of_nat (length outs) \<and> length outs < 2 ^ 32"
proof -
  have m: "max_len_of buffer_2 sizeof_SeedPos = 44739242" by (simp add: max_len_of_def OutputBuffer_of_def buffer_2_def sizeof_SeedPos_def)
  have fits: "min (of_nat k) (max_len_of buffer_2 sizeof_SeedPos) = (of_nat k :: u32) \<and> k < 2 ^ 32" if "k \<le> 44739242" for k
    using that unfolding m by (simp add: min_def word_le_nat_alt unat_of_nat)
  have stage: "length ys \<le> 44739242" if "gpu_stage cfg k buffer_2 f xs = Some ys" for k ys and f :: "'i \<Rightarrow> SeedPos list" and xs
    using that by (auto simp: gpu_stage_def fits_def buffer_2_def sizeof_SeedPos_def split: if_splits)
  show ?thesis
  proof (cases origin)
    case True
    then have "gpu_iteration_origin cfg start_seed results = Some (outs, results', lens)" using assms by simp
    then have "length outs \<le> 44739242 \<and> results_len_origin lens = of_nat (length outs)"
      unfolding gpu_iteration_origin_def bind_Some by (auto dest!: stage)
    then show ?thesis using True fits by (simp add: clamp_lens_def)
  next
    case False
    then have "gpu_iteration cfg start_seed results = Some (outs, results', lens)" using assms by simp
    then have "length outs \<le> 44739242 \<and> results_len_filter_2 lens 3 = of_nat (length outs)"
      unfolding gpu_iteration_def bind_Some by (auto dest!: stage)
    then show ?thesis using False fits by (simp add: clamp_lens_def filter_2_len_def filter_2_buffer_def)
  qed
qed

lemma stats_count_update:
  assumes "stats_count origin n k m stats"
    and "(if origin then gpu_iteration_origin else gpu_iteration) cfg start_seed results = Some (outs, results', lens)"
  shows "stats_count origin n (k + 1) (m + length outs) (map fst (update_all elapsed origin lens stats))"
proof -
  let ?new = "map fst (update_all elapsed origin lens stats)"
  note f = stats_count_fields [OF assms(1)]
  have at: "?new ! i = fst (StageStats_update (elapsed i) (clamp_lens origin lens) (stats ! i))" if "i < length stats" for i
    using that by (simp add: update_all_def)
  have "map StageStats_reset ?new = map StageStats_reset stats"
    by (rule nth_equalityI) (auto simp: update_all_def StageStats_update_def StageStats_reset_def Let_def)
  moreover have "ucast (of_nat (length outs) :: u32) = (of_nat (length outs) :: u64)" if "length outs < 2 ^ 32"
    using that by (simp only: word_unat_eq_iff) (simp add: unsigned_ucast_eq unat_of_nat take_bit_nat_eq_self)
  ultimately show ?thesis using assms(1) f iteration_final_len [OF assms(2)]
    by (auto simp: stats_count_def at StageStats_update_def Let_def)
qed

text \<open>The entries since the last report, for every report that is due: \<open>k\<close> iterations and \<open>m\<close> entries were counted before.\<close>

fun due_reports :: "nat \<Rightarrow> nat \<Rightarrow> nat list \<Rightarrow> nat list" where
  "due_reports k m [] = []"
| "due_reports k m (n # ns) = (if k + 1 = 256 then (m + n) # due_reports 0 0 ns else due_reports (k + 1) (m + n) ns)"

definition thread_ok :: "bool \<Rightarrow> u64 \<Rightarrow> nat \<Rightarrow> nat \<Rightarrow> GpuThreadState \<Rightarrow> bool" where
  "thread_ok origin n k m s \<longleftrightarrow> k < 256 \<and> unat (gt_i s) mod 256 = k \<and> stats_count origin n k m (gt_stats s)"

lemma count_up: "unat (x + 1 :: u32) mod 256 = (unat x mod 256 + 1) mod 256"
proof -
  have "unat (x + 1) = (unat x + 1) mod 2 ^ 32" by (simp add: unat_word_ariths)
  then show ?thesis by (simp add: mod_mod_cancel mod_simps)
qed

lemma interval_over: "(x :: u32) mod print_interval = 0 \<longleftrightarrow> unat x mod 256 = 0"
  by (simp add: print_interval_def word_unat_eq_iff unat_mod_distrib)

lemma gpu_round_counts:
  assumes "gpu_round cfg origin device elapsed host_time start_seed s = Some (outs, s', report)" "thread_ok origin n k m s"
  shows "if k + 1 = 256 then thread_ok origin n 0 0 s' \<and> map_option (\<lambda>r. (rs_inputs r, rs_outputs r)) report = Some (2 ^ 36, of_nat (m + length outs))
         else thread_ok origin n (k + 1) (m + length outs) s' \<and> report = None"
proof -
  obtain results lens where it: "(if origin then gpu_iteration_origin else gpu_iteration) cfg start_seed (gt_results s) = Some (outs, results, lens)"
    and s': "let stats = map fst (update_all elapsed origin lens (gt_stats s)); due = (gt_i s + 1) mod print_interval = 0
      in s' = \<lparr>gt_results = results, gt_i = gt_i s + 1, gt_stats = (if due then map StageStats_reset stats else stats)\<rparr> \<and>
         report = (if due then Some (make_snapshot origin device start_seed host_time stats) else None)"
    using assms(1) unfolding gpu_round_def bind_Some by (auto simp: Let_def)
  let ?stats = "map fst (update_all elapsed origin lens (gt_stats s))"
  have c: "stats_count origin n (k + 1) (m + length outs) ?stats"
    using stats_count_update [OF _ it] assms(2) by (simp add: thread_ok_def)
  have k: "k < 256" "unat (gt_i s) mod 256 = k" using assms(2) by (simp_all add: thread_ok_def)
  have due: "(gt_i s + 1) mod print_interval = 0 \<longleftrightarrow> k + 1 = 256"
    unfolding interval_over count_up k(2) using k(1) by (cases "k + 1 = 256") simp_all
  show ?thesis
  proof (cases "k + 1 = 256")
    case True
    then have "s' = \<lparr>gt_results = results, gt_i = gt_i s + 1, gt_stats = map StageStats_reset ?stats\<rparr>"
      "report = Some (make_snapshot origin device start_seed host_time ?stats)" using s' due by (simp_all add: Let_def)
    moreover have "stats_count origin n 0 0 (map StageStats_reset ?stats)" by (rule stats_count_reset) (use c in \<open>simp add: stats_count_def\<close>)
    ultimately show ?thesis using True c stats_count_fields(3) [OF c] count_up [of "gt_i s"] assms(2)
      by (simp add: thread_ok_def make_snapshot_def stats_count_def stage_stats_start(1))
  next
    case False
    then have "s' = \<lparr>gt_results = results, gt_i = gt_i s + 1, gt_stats = ?stats\<rparr>" "report = None" using s' due by (simp_all add: Let_def)
    then show ?thesis using False c count_up [of "gt_i s"] assms(2) by (simp add: thread_ok_def)
  qed
qed

lemma gpu_rounds_counts:
  assumes "gpu_rounds cfg origin device rounds s = Some (outs, s', snaps)" "thread_ok origin n k m s"
  shows "map (\<lambda>r. (rs_inputs r, rs_outputs r)) snaps = map (\<lambda>m. (2 ^ 36, of_nat m)) (due_reports k m (map length outs)) \<and> length outs = length rounds"
  using assms
proof (induction rounds arbitrary: s outs snaps k m)
  case (Cons r rounds)
  obtain elapsed host_time start_seed where r: "r = (elapsed, host_time, start_seed)" by (cases r)
  from Cons.prems(1) obtain out s1 report more snaps' where
      1: "gpu_round cfg origin device elapsed host_time start_seed s = Some (out, s1, report)"
    and 2: "gpu_rounds cfg origin device rounds s1 = Some (more, s', snaps')"
    and 3: "outs = out # more" "snaps = (case report of None \<Rightarrow> snaps' | Some r \<Rightarrow> r # snaps')"
    unfolding r by (auto simp: bind_Some)
  show ?case
  proof (cases "k + 1 = 256")
    case True
    then show ?thesis using gpu_round_counts [OF 1 Cons.prems(2)] Cons.IH [OF 2, of 0 0] 3 by (auto split: option.splits)
  next
    case False
    then show ?thesis using gpu_round_counts [OF 1 Cons.prems(2)] Cons.IH [OF 2, of "k + 1" "m + length out"] 3 by auto
  qed
qed simp

lemma due_reports_first:
  "k < 256 \<Longrightarrow> due_reports k m ns =
     (if length ns < 256 - k then [] else (m + sum_list (take (256 - k) ns)) # due_reports 0 0 (drop (256 - k) ns))"
proof (induction ns arbitrary: k m)
  case (Cons n ns)
  show ?case
  proof (cases "k + 1 = 256")
    case False
    then have "256 - k = Suc (256 - (k + 1))" "k + 1 < 256" using Cons.prems by simp_all
    then show ?thesis using False Cons.IH [of "k + 1" "m + n"] by (simp add: add.assoc)
  qed (use Cons.prems in auto)
qed simp

lemma due_reports_blocks: "due_reports 0 0 ns = map (\<lambda>j. sum_list (take 256 (drop (256 * j) ns))) [0..<length ns div 256]"
proof (induction "length ns" arbitrary: ns rule: less_induct)
  case less
  show ?case
  proof (cases "length ns < 256")
    case False
    then have "length (drop 256 ns) < length ns" "length ns div 256 = Suc (length (drop 256 ns) div 256)" by (simp_all add: div_if)
    then show ?thesis using False less [of "drop 256 ns"] by (subst due_reports_first) (simp_all add: upt_conv_Cons map_Suc_upt [symmetric] comp_def add.commute del: upt_Suc)
  qed (simp add: due_reports_first)
qed



end
