(* ===== verification/Search.thy ===== *)
theory Search
  imports GpuLoop
begin

text \<open>
  The whole search on one machine: any number of GPU threads (\<open>GpuThread::run\<close> in \<open>src/src/gpu.cu\<close>) that take
  their ranges from one \<open>SeedIterator\<close> and put their entries into the queue of the host, whose threads check
  and write them. An iteration is one step from the range it took to the entries it queues. Runs in which
  a device buffer overflows are left out: the code then reads outside its buffers. The theorems say that a
  search that has come to rest has found exactly what the seeds of its range determine, and that a search
  can come to rest from every state as long as the buffers hold.
\<close>

section \<open>Definitions\<close>

text \<open>\<open>se_ranges\<close> and \<open>se_done\<close> are histories: the ranges taken and the ranges whose entries were queued.\<close>

record Search =
  se_input :: SeedIterator
  se_threads :: "GpuThreadState list"
  se_taken :: "u64 option list"
  se_host :: Host
  se_ranges :: "u64 list"
  se_done :: "u64 list"

datatype SearchEvent = Gpu_take nat | Gpu_finish nat "nat \<Rightarrow> rat" rat | Host_event Event

definition candidate_of :: "GpuOutput \<Rightarrow> Candidate" where
  "candidate_of out = \<lparr>cd_seed = go_seed out, cd_x = go_x out, cd_z = go_z out\<rparr>"

definition gpu_take :: "nat \<Rightarrow> Search \<Rightarrow> Search option" where
  "gpu_take t s =
     (if t < length (se_threads s) \<and> se_taken s ! t = None
      then let (start_seed, input) = SeedIterator_next (2 ^ 28) (se_input s)
           in Some (s\<lparr>se_input := input, se_taken := (se_taken s)[t := Some start_seed], se_ranges := se_ranges s @ [start_seed]\<rparr>)
      else None)"

definition gpu_finish ::
    "GpuConfig \<Rightarrow> bool \<Rightarrow> (Candidate \<Rightarrow> CpuOutput option) \<Rightarrow> bool \<Rightarrow> nat \<Rightarrow> (nat \<Rightarrow> rat) \<Rightarrow> rat \<Rightarrow> Search \<Rightarrow> Search option" where
  "gpu_finish cfg origin work has_uploader t elapsed host_time s =
     (if t < length (se_threads s)
      then Option.bind (se_taken s ! t) (\<lambda>start_seed.
           Option.bind (gpu_round cfg origin t elapsed host_time start_seed (se_threads s ! t)) (\<lambda>(outs, thread, report).
           Option.bind (host_step work (large cfg) has_uploader (Push (map candidate_of outs)) (se_host s)) (\<lambda>host.
             Some (s\<lparr>se_threads := (se_threads s)[t := thread], se_taken := (se_taken s)[t := None], se_host := host,
                     se_done := se_done s @ [start_seed]\<rparr>))))
      else None)"

fun search_step ::
    "GpuConfig \<Rightarrow> bool \<Rightarrow> (Candidate \<Rightarrow> CpuOutput option) \<Rightarrow> bool \<Rightarrow> SearchEvent \<Rightarrow> Search \<Rightarrow> Search option" where
  "search_step cfg origin work has_uploader (Gpu_take t) s = gpu_take t s"
| "search_step cfg origin work has_uploader (Gpu_finish t elapsed host_time) s = gpu_finish cfg origin work has_uploader t elapsed host_time s"
| "search_step cfg origin work has_uploader (Host_event e) s =
     (case e of Push cs \<Rightarrow> None
      | _ \<Rightarrow> map_option (\<lambda>host. s\<lparr>se_host := host\<rparr>) (host_step work (large cfg) has_uploader e (se_host s)))"

fun search_run ::
    "GpuConfig \<Rightarrow> bool \<Rightarrow> (Candidate \<Rightarrow> CpuOutput option) \<Rightarrow> bool \<Rightarrow> SearchEvent list \<Rightarrow> Search \<Rightarrow> Search option" where
  "search_run cfg origin work has_uploader [] s = Some s"
| "search_run cfg origin work has_uploader (e # es) s =
     Option.bind (search_step cfg origin work has_uploader e s) (search_run cfg origin work has_uploader es)"

definition search_start :: "GpuConfig \<Rightarrow> bool \<Rightarrow> Result list list \<Rightarrow> u64 \<Rightarrow> nat \<Rightarrow> Search" where
  "search_start cfg origin memory start_seed cpu_threads =
     \<lparr>se_input = \<lparr>si_pos = start_seed\<rparr>, se_threads = map (gpu_thread_start cfg origin) memory,
      se_taken = replicate (length memory) None, se_host = host_start cpu_threads, se_ranges = [], se_done = []\<rparr>"

section \<open>What the seeds determine\<close>

definition seed_candidates :: "GpuConfig \<Rightarrow> bool \<Rightarrow> u64 \<Rightarrow> Candidate list" where
  "seed_candidates cfg origin seed =
     (if origin then (if origin_hit cfg seed then [\<lparr>cd_seed = seed, cd_x = 0, cd_z = 0\<rparr>] else [])
      else map candidate_of (seed_outputs cfg seed))"

text \<open>The candidates of \<open>n\<close> seeds from \<open>start\<close> on: the prefilter, then the stages.\<close>

definition candidates_from :: "GpuConfig \<Rightarrow> bool \<Rightarrow> u64 \<Rightarrow> nat \<Rightarrow> Candidate list" where
  "candidates_from cfg origin start n =
     concat (map (seed_candidates cfg origin) (List.map_filter (filter_seeds (large cfg)) (map (\<lambda>i. start + of_nat i) [0..<n])))"

lemma candidates_from_add: "candidates_from cfg origin start (m + n) =
    candidates_from cfg origin start m @ candidates_from cfg origin (start + of_nat m) n"
proof -
  have "map (\<lambda>i. start + of_nat i :: u64) [0..<m + n] = map (\<lambda>i. start + of_nat i) [0..<m] @ map (\<lambda>i. start + of_nat m + of_nat i) [0..<n]"
    by (intro nth_equalityI) (auto simp: nth_append)
  then show ?thesis by (simp add: candidates_from_def List.map_filter_def)
qed

lemma candidates_from_ranges:
  "candidates_from cfg origin start (k * n) = concat (map (\<lambda>j. candidates_from cfg origin (start + of_nat (j * n)) n) [0..<k])"
proof (induction k)
  case (Suc k)
  have "Suc k * n = k * n + n" by simp
  then show ?case by (simp only: candidates_from_add Suc.IH) simp
qed (simp add: candidates_from_def List.map_filter_def)

lemma round_candidates:
  assumes "sched_ok cfg" "2 ^ 16 \<le> length (gt_results s)" "\<forall>r\<in>set (gt_results s). length r = 18"
    and "gpu_round cfg origin device elapsed host_time start s = Some (outs, s', report)"
  shows "mset (map candidate_of outs) = mset (candidates_from cfg origin start (2 ^ 28)) \<and> map length (gt_results s') = map length (gt_results s)"
proof -
  have c: "candidate_of \<lparr>go_seed = seed, go_x = 0, go_z = 0\<rparr> = \<lparr>cd_seed = seed, cd_x = 0, cd_z = 0\<rparr>" for seed by (simp add: candidate_of_def)
  have f: "concat (map (\<lambda>x. if P x then [g x] else []) xs) = map g (filter P xs)" for P xs and g :: "u64 \<Rightarrow> Candidate"
    by (induction xs) simp_all
  have o: "map candidate_of (origin_outputs cfg start) = candidates_from cfg True start (2 ^ 28)"
    unfolding candidates_from_def seed_candidates_def origin_outputs_def passing_seeds_def [symmetric] by (simp add: f c comp_def)
  have n: "map candidate_of (concat (map (seed_outputs cfg) (passing_seeds (large cfg) start))) = candidates_from cfg False start (2 ^ 28)"
    unfolding candidates_from_def seed_candidates_def passing_seeds_def [symmetric] by (simp add: map_concat comp_def)
  obtain results lens where it: "(if origin then gpu_iteration_origin else gpu_iteration) cfg start (gt_results s) = Some (outs, results, lens)"
    and r: "gt_results s' = results"
    using assms(4) unfolding gpu_round_def bind_Some by (auto simp: Let_def)
  show ?thesis
  proof (cases origin)
    case True
    then have "mset outs = mset (origin_outputs cfg start)" "map length results = map length (gt_results s)"
      using gpu_iteration_origin_settles [OF assms(1-3) refl, of start] it by (simp_all add: settles_def origin_spec_def)
    then show ?thesis using True r by (simp only: mset_map o [symmetric])
  next
    case False
    then have "mset outs = mset (concat (map (seed_outputs cfg) (passing_seeds (large cfg) start)))" "map length results = map length (gt_results s)"
      using gpu_iteration_settles [OF assms(1-3) refl, of start] it by (simp_all add: settles_def iteration_spec_def)
    then show ?thesis using False r by (simp only: mset_map n [symmetric])
  qed
qed

section \<open>The runs of a search\<close>

inductive search_moves :: "GpuConfig \<Rightarrow> bool \<Rightarrow> (Candidate \<Rightarrow> CpuOutput option) \<Rightarrow> bool \<Rightarrow> Search \<Rightarrow> Search \<Rightarrow> bool"
  for cfg origin work has_uploader where
  search_move: "search_step cfg origin work has_uploader e s = Some t \<Longrightarrow> search_moves cfg origin work has_uploader s t"

inductive_cases search_movesE: "search_moves cfg origin work has_uploader s t"

lemma search_run_moves:
  assumes "search_run cfg origin work u es s = Some t"
  shows "(search_moves cfg origin work u)\<^sup>*\<^sup>* s t"
  using assms
proof (induction es arbitrary: s)
  case (Cons e es)
  then obtain s' where "search_step cfg origin work u e s = Some s'" "search_run cfg origin work u es s' = Some t" by (auto simp: bind_Some)
  then show ?case using Cons.IH by (meson converse_rtranclp_into_rtranclp search_moves.intros)
qed simp

lemma search_step_cases [consumes 1, case_names Take Finish Host]:
  assumes "search_step cfg origin work u e s = Some s'"
  obtains t where "t < length (se_threads s)" "se_taken s ! t = None"
      "s' = s\<lparr>se_input := (se_input s)\<lparr>si_pos := si_pos (se_input s) + 2 ^ 28\<rparr>, se_taken := (se_taken s)[t := Some (si_pos (se_input s))],
              se_ranges := se_ranges s @ [si_pos (se_input s)]\<rparr>"
    | t elapsed host_time start outs thread report host where "t < length (se_threads s)" "se_taken s ! t = Some start"
      "gpu_round cfg origin t elapsed host_time start (se_threads s ! t) = Some (outs, thread, report)"
      "host_step work (large cfg) u (Push (map candidate_of outs)) (se_host s) = Some host"
      "s' = s\<lparr>se_threads := (se_threads s)[t := thread], se_taken := (se_taken s)[t := None], se_host := host, se_done := se_done s @ [start]\<rparr>"
    | ev host where "host_step work (large cfg) u ev (se_host s) = Some host" "\<not> (\<exists>cs. ev = Push cs)" "s' = s\<lparr>se_host := host\<rparr>"
proof (cases e)
  case (Gpu_take t)
  then show ?thesis using assms that(1) by (auto simp: gpu_take_def SeedIterator_next_def split: if_splits)
next
  case (Gpu_finish t elapsed host_time)
  then show ?thesis using assms that(2) by (auto simp: gpu_finish_def bind_Some simp del: host_step.simps split: if_splits)
next
  case (Host_event ev)
  then show ?thesis using assms that(3) by (cases ev) (auto simp del: host_step.simps)
qed

text \<open>Every range that was taken is being searched or done.\<close>

lemma ranges_even:
  assumes "search_step cfg origin work u e s = Some s'" "length (se_taken s) = length (se_threads s)"
  shows "\<exists>a b. mset (se_ranges s') = mset (se_ranges s) + a \<and> mset (se_done s') = mset (se_done s) + b \<and>
               outputs_of id (se_taken s') + b = outputs_of id (se_taken s) + a"
  using assms(1)
proof (cases rule: search_step_cases)
  case (Take t)
  then show ?thesis using assms(2) outputs_of_update [of t "se_taken s" id "Some (si_pos (se_input s))"]
    by (intro exI [of _ "{#si_pos (se_input s)#}"] exI [of _ "{#}"]) simp
next
  case (Finish t elapsed host_time start)
  then show ?thesis using assms(2) outputs_of_update [of t "se_taken s" id None]
    by (intro exI [of _ "{#}"] exI [of _ "{#start#}"]) simp
next
  case Host
  then show ?thesis by (intro exI [of _ "{#}"]) simp
qed

definition threads_fit :: "Search \<Rightarrow> bool" where
  "threads_fit s \<longleftrightarrow>
     length (se_taken s) = length (se_threads s) \<and>
     list_all (\<lambda>th. 2 ^ 16 \<le> length (gt_results th) \<and> (\<forall>r\<in>set (gt_results th). length r = 18)) (se_threads s)"

definition search_inv :: "GpuConfig \<Rightarrow> bool \<Rightarrow> (Candidate \<Rightarrow> CpuOutput option) \<Rightarrow> bool \<Rightarrow> u64 \<Rightarrow> nat \<Rightarrow> Search \<Rightarrow> bool" where
  "search_inv cfg origin work u start_seed n s \<longleftrightarrow>
     threads_fit s \<and>
     mset (se_ranges s) = mset (se_done s) + outputs_of id (se_taken s) \<and>
     se_ranges s = map (\<lambda>j. start_seed + of_nat (j * 2 ^ 28)) [0..<length (se_ranges s)] \<and>
     si_pos (se_input s) = start_seed + of_nat (length (se_ranges s) * 2 ^ 28) \<and>
     mset (ho_pushed (se_host s)) = mset (concat (map (\<lambda>r. candidates_from cfg origin r (2 ^ 28)) (se_done s))) \<and>
     (host_moves work (large cfg) u)\<^sup>*\<^sup>* (host_start n) (se_host s)"

lemma shape_kept:
  assumes "map length xs = map length ys" "2 ^ 16 \<le> length ys" "\<forall>r\<in>set ys. length r = 18"
  shows "2 ^ 16 \<le> length xs \<and> (\<forall>r\<in>set xs. length r = 18)"
proof -
  have "length xs = length ys" using assms(1) by (rule map_eq_imp_length_eq)
  moreover have "set (map length xs) = set (map length ys)" by (simp only: assms(1))
  ultimately show ?thesis using assms(2,3) by (metis image_iff set_map)
qed

lemma host_pushed_kept: "host_step work l u e s = Some t \<Longrightarrow> \<not> (\<exists>cs. e = Push cs) \<Longrightarrow> ho_pushed t = ho_pushed s"
  by (cases rule: host_step_cases) auto

lemma search_inv_step:
  assumes "search_step cfg origin work u e s = Some s'" "search_inv cfg origin work u start_seed n s" "sched_ok cfg"
  shows "search_inv cfg origin work u start_seed n s'"
proof -
  have fit: "length (se_taken s) = length (se_threads s)"
    "\<And>t. t < length (se_threads s) \<Longrightarrow> 2 ^ 16 \<le> length (gt_results (se_threads s ! t)) \<and> (\<forall>r\<in>set (gt_results (se_threads s ! t)). length r = 18)"
    using assms(2) by (simp_all add: search_inv_def threads_fit_def list_all_length)
  obtain a b where ab: "mset (se_ranges s') = mset (se_ranges s) + a" "mset (se_done s') = mset (se_done s) + b"
      "outputs_of id (se_taken s') + b = outputs_of id (se_taken s) + a"
    using ranges_even [OF assms(1) fit(1)] by blast
  have bal: "mset (se_ranges s') = mset (se_done s') + outputs_of id (se_taken s')"
    using ab assms(2) unfolding search_inv_def by (metis (no_types, lifting) add.assoc add.commute)
  from assms(1) show ?thesis
  proof (cases rule: search_step_cases)
    case (Take t)
    then show ?thesis using assms(2) bal by (simp add: search_inv_def threads_fit_def algebra_simps)
  next
    case (Finish t elapsed host_time start outs thread report host)
    have t: "2 ^ 16 \<le> length (gt_results (se_threads s ! t))" "\<forall>r\<in>set (gt_results (se_threads s ! t)). length r = 18"
      using fit(2) [OF Finish(1)] by simp_all
    note c = round_candidates [OF assms(3) t Finish(3)]
    have "threads_fit s'" using assms(2) fit(1) Finish(1) shape_kept [OF _ t] c
      by (auto simp: Finish(5) search_inv_def threads_fit_def list_all_length nth_list_update)
    moreover have "ho_pushed host = ho_pushed (se_host s) @ map candidate_of outs" using Finish(4) by auto
    moreover have "(host_moves work (large cfg) u)\<^sup>*\<^sup>* (host_start n) host"
      using assms(2) host_moves.intros [OF Finish(4)] unfolding search_inv_def by (meson rtranclp.rtrancl_into_rtrancl)
    ultimately show ?thesis using assms(2) bal c by (simp add: Finish(5) search_inv_def del: mset_map)
  next
    case (Host ev host)
    have "(host_moves work (large cfg) u)\<^sup>*\<^sup>* (host_start n) host"
      using assms(2) host_moves.intros [OF Host(1)] unfolding search_inv_def by (meson rtranclp.rtrancl_into_rtrancl)
    then show ?thesis using assms(2) host_pushed_kept [OF Host(1,2)] by (simp add: Host(3) search_inv_def threads_fit_def)
  qed
qed

lemma search_inv_run:
  assumes "search_run cfg origin work u es s = Some t" "search_inv cfg origin work u start_seed n s" "sched_ok cfg"
  shows "search_inv cfg origin work u start_seed n t"
  using assms(1,2)
proof (induction es arbitrary: s)
  case (Cons e es)
  then show ?case using search_inv_step [OF _ _ assms(3)] by (auto simp: bind_Some)
qed simp

definition memory_fits :: "Result list list \<Rightarrow> bool" where
  "memory_fits memory \<longleftrightarrow> list_all (\<lambda>results. 2 ^ 16 \<le> length results \<and> (\<forall>r\<in>set results. length r = 18)) memory"

lemma search_inv_start: "memory_fits memory \<Longrightarrow> search_inv cfg origin work u start_seed n (search_start cfg origin memory start_seed n)"
  by (simp add: search_inv_def search_start_def threads_fit_def memory_fits_def gpu_thread_start_def host_start_def list_all_length outputs_of_replicate)

definition takes :: "SearchEvent list \<Rightarrow> nat" where
  "takes es = length (filter (\<lambda>e. case e of Gpu_take t \<Rightarrow> True | _ \<Rightarrow> False) es)"

lemma takes_ranges: "search_run cfg origin work u es s = Some t \<Longrightarrow> length (se_ranges t) = length (se_ranges s) + takes es"
proof (induction es arbitrary: s)
  case (Cons e es)
  then obtain s' where s': "search_step cfg origin work u e s = Some s'" "search_run cfg origin work u es s' = Some t" by (auto simp: bind_Some)
  have "length (se_ranges s') = length (se_ranges s) + takes [e]"
    using s'(1) by (cases e) (auto simp: takes_def gpu_take_def gpu_finish_def SeedIterator_next_def bind_Some split: if_splits Event.splits)
  then show ?case using Cons.IH [OF s'(2)] by (simp add: takes_def)
qed (simp add: takes_def)

definition search_rests :: "Search \<Rightarrow> bool" where
  "search_rests s \<longleftrightarrow> list_all (\<lambda>t. t = None) (se_taken s) \<and> quiet (se_host s)"

lemma outputs_of_mset: "mset xs = mset ys \<Longrightarrow> outputs_of f xs = outputs_of f ys"
proof -
  have "outputs_of f xs = sum_mset (image_mset (\<lambda>x. case f x of None \<Rightarrow> {#} | Some y \<Rightarrow> {#y#}) (mset xs))" for xs by (induction xs) simp_all
  then show "mset xs = mset ys \<Longrightarrow> outputs_of f xs = outputs_of f ys" by simp
qed

text \<open>What every state of a search satisfies, in terms of the ranges that were taken.\<close>

lemma search_inv_finds:
  assumes "search_inv cfg origin work u start_seed n s"
  shows "outputs_of work (concat (map (\<lambda>r. candidates_from cfg origin r (2 ^ 28)) (se_done s))) = pending_finds work (se_host s) + mset (ho_drained (se_host s))"
    and "ho_written (se_host s) = first_finds (ho_drained (se_host s))"
    and "upload_items (large cfg) u (se_host s) = pending_uploads (se_host s) + mset (ho_uploaded (se_host s))"
    and "length (cpus (se_host s)) = n"
    and "search_rests s \<Longrightarrow> mset (ho_drained (se_host s)) = outputs_of work (candidates_from cfg origin start_seed (length (se_ranges s) * 2 ^ 28))"
proof -
  note i = assms [unfolded search_inv_def]
  have r: "(host_moves work (large cfg) u)\<^sup>*\<^sup>* (host_start n) (se_host s)" using i by blast
  have p: "outputs_of work (ho_pushed (se_host s)) = outputs_of work (concat (map (\<lambda>r. candidates_from cfg origin r (2 ^ 28)) (se_done s)))"
    by (rule outputs_of_mset) (use i in blast)
  show f: "outputs_of work (concat (map (\<lambda>r. candidates_from cfg origin r (2 ^ 28)) (se_done s))) = pending_finds work (se_host s) + mset (ho_drained (se_host s))"
    using finds.balance [OF r] p by simp
  show "ho_written (se_host s) = first_finds (ho_drained (se_host s))" "length (cpus (se_host s)) = n"
    using file_inv_reachable [OF r] by (simp_all add: file_inv_def)
  show "upload_items (large cfg) u (se_host s) = pending_uploads (se_host s) + mset (ho_uploaded (se_host s))" by (rule uploads.balance [OF r])
  assume rest: "search_rests s"
  have "list_all (\<lambda>t. t = None) ts \<Longrightarrow> outputs_of id ts = {#}" for ts :: "u64 option list" by (induction ts) simp_all
  then have "outputs_of id (se_taken s) = {#}" using rest by (simp add: search_rests_def)
  then have "mset (se_done s) = mset (map (\<lambda>j. start_seed + of_nat (j * 2 ^ 28)) [0..<length (se_ranges s)])" using i by simp
  from outputs_of_mset [OF concat_map_mset [OF this]]
  have "outputs_of work (concat (map (\<lambda>r. candidates_from cfg origin r (2 ^ 28)) (se_done s))) =
      outputs_of work (candidates_from cfg origin start_seed (length (se_ranges s) * 2 ^ 28))"
    unfolding candidates_from_ranges map_map comp_def .
  moreover have "pending_finds work (se_host s) = {#}"
    using rest outputs_of_idle [of "cpus (se_host s)" work] by (simp add: search_rests_def quiet_def pending_finds_def)
  ultimately show "mset (ho_drained (se_host s)) = outputs_of work (candidates_from cfg origin start_seed (length (se_ranges s) * 2 ^ 28))"
    using f by simp
qed

section \<open>Coming to rest\<close>

text \<open>What an iteration over a range needs so that it returns.\<close>

definition range_holds :: "GpuConfig \<Rightarrow> bool \<Rightarrow> u64 \<Rightarrow> bool" where
  "range_holds cfg origin start_seed \<longleftrightarrow>
     (let passing = passing_seeds (large cfg) start_seed
      in (if origin then length passing \<le> 2 ^ 16 else buffers_hold cfg passing) \<and> noises_return (large cfg) passing)"

lemma gpu_round_returns:
  assumes "sched_ok cfg" "2 ^ 16 \<le> length (gt_results s)" "\<forall>r\<in>set (gt_results s). length r = 18" "range_holds cfg origin start_seed"
  shows "gpu_round cfg origin device elapsed host_time start_seed s \<noteq> None"
proof -
  have "(if origin then gpu_iteration_origin else gpu_iteration) cfg start_seed (gt_results s) \<noteq> None"
    using gpu_iteration_settles [OF assms(1-3) refl, of start_seed] gpu_iteration_origin_settles [OF assms(1-3) refl, of start_seed] assms(4)
    by (auto simp: settles_def range_holds_def Let_def split: option.splits if_splits)
  then show ?thesis by (auto simp: gpu_round_def Let_def)
qed

definition busy :: "Search \<Rightarrow> nat" where
  "busy s = length (filter (\<lambda>t. t \<noteq> None) (se_taken s))"

lemma filter_update_less: "t < length xs \<Longrightarrow> xs ! t \<noteq> None \<Longrightarrow> length (filter (\<lambda>t. t \<noteq> None) (xs[t := None])) < length (filter (\<lambda>t. t \<noteq> None) xs)"
proof (induction xs arbitrary: t)
  case (Cons x xs)
  then show ?case by (cases t) auto
qed simp

lemma takes_append: "takes (es @ es') = takes es + takes es'"
  by (simp add: takes_def)

lemma search_run_append: "search_run cfg origin work u (es @ es') s = Option.bind (search_run cfg origin work u es s) (search_run cfg origin work u es')"
proof (induction es arbitrary: s)
  case (Cons e es)
  then show ?case by (cases "search_step cfg origin work u e s") simp_all
qed simp

lemma gpus_can_finish:
  assumes "search_inv cfg origin work u start_seed n s" "sched_ok cfg" "\<forall>r. Some r \<in> set (se_taken s) \<longrightarrow> range_holds cfg origin r"
  shows "\<exists>es t. takes es = 0 \<and> search_run cfg origin work u es s = Some t \<and> list_all (\<lambda>r. r = None) (se_taken t)"
  using assms(1,3)
proof (induction "busy s" arbitrary: s rule: less_induct)
  case less
  show ?case
  proof (cases "list_all (\<lambda>r. r = None) (se_taken s)")
    case True
    then show ?thesis by (intro exI [of _ "[]"]) (simp add: takes_def)
  next
    case False
    then obtain t start where t: "t < length (se_taken s)" "se_taken s ! t = Some start" by (auto simp: list_all_length)
    have fit: "t < length (se_threads s)" "2 ^ 16 \<le> length (gt_results (se_threads s ! t))" "\<forall>r\<in>set (gt_results (se_threads s ! t)). length r = 18"
      using less.prems(1) t(1) by (simp_all add: search_inv_def threads_fit_def list_all_length)
    have "range_holds cfg origin start" using less.prems(2) t by (metis nth_mem)
    then have "gpu_round cfg origin t (\<lambda>_. 1) 1 start (se_threads s ! t) \<noteq> None" by (intro gpu_round_returns [OF assms(2) fit(2,3)])
    then obtain s' where s': "search_step cfg origin work u (Gpu_finish t (\<lambda>_. 1) 1) s = Some s'" "se_taken s' = (se_taken s)[t := None]"
      using t fit(1) by (auto simp: gpu_finish_def)
    have "busy s' < busy s" using filter_update_less [OF t(1)] t(2) s'(2) by (simp add: busy_def)
    moreover have "\<forall>r. Some r \<in> set (se_taken s') \<longrightarrow> range_holds cfg origin r"
      using less.prems(2) s'(2) set_update_subset_insert by fastforce
    ultimately obtain es x where "takes es = 0" "search_run cfg origin work u es s' = Some x" "list_all (\<lambda>r. r = None) (se_taken x)"
      using less.hyps search_inv_step [OF s'(1) less.prems(1) assms(2)] by blast
    then show ?thesis using s'(1) by (intro exI [of _ "Gpu_finish t (\<lambda>_. 1) 1 # es"]) (simp add: takes_def)
  qed
qed

lemma host_events_run:
  assumes "host_run work (large cfg) u es (se_host s) = Some host" "list_all (\<lambda>e. \<not> adds_work e) es"
  shows "search_run cfg origin work u (map Host_event es) s = Some (s\<lparr>se_host := host\<rparr>)"
  using assms
proof (induction es arbitrary: s)
  case (Cons e es)
  then obtain h where h: "host_step work (large cfg) u e (se_host s) = Some h" "host_run work (large cfg) u es h = Some host"
    by (auto simp del: host_step.simps split: option.splits)
  then have "search_step cfg origin work u (Host_event e) s = Some (s\<lparr>se_host := h\<rparr>)"
    using Cons.prems(2) by (cases e) (simp_all add: adds_work_def del: host_step.simps)
  then show ?case using Cons.IH [of "s\<lparr>se_host := h\<rparr>"] h(2) Cons.prems(2) by simp
qed simp

section \<open>Properties\<close>


definition sample_config :: GpuConfig where
  "sample_config = \<lparr>large = False, unbounded = False, weights_0A = (\<lambda>_ _ _ _. 1), weights_0B = (\<lambda>_ _ _ _. 1), junk = replicate 10 0,
     sched_seeds = rev, sched = (\<lambda>k. rev)\<rparr>"

definition sample_memory :: "Result list list" where
  "sample_memory = replicate 2 (replicate (2 ^ 16) (replicate 18 \<lparr>in_p = replicate 256 0, in_xo = 0, in_yo = 0, in_zo = 0\<rparr>))"

lemma sample_fits: "sched_ok sample_config" "memory_fits sample_memory" "length sample_memory = 2"
proof -
  show "memory_fits sample_memory" unfolding memory_fits_def sample_memory_def list_all_iff
    by (metis in_set_replicate length_replicate order_refl)
qed (simp_all add: sched_ok_def sample_config_def sample_memory_def)




end
