(* ===== verification/BetaNoise.thy ===== *)
theory BetaNoise
  imports Noise
begin

text \<open>
  The samplers of \<open>src/cubiomes/noise.c\<close> for the worlds of Beta 1.7 and the simplex noise. The terrain sampler
  evaluates nine rows above each other, of which only the last two contribute; it first looks for the row at
  which the corners of the cell were last computed and starts there. The table of a noise has 257
  bytes; the sampler adds its indices as \<open>int\<close>, so that they can lie beyond it: \<open>None\<close> stands for such a
  read. The theorems say that starting late changes nothing, and that for every noise there are
  positions at which the sampler reads outside the table. The square root of three is a parameter.
\<close>

section \<open>Definitions\<close>

definition d_at :: "PerlinNoise \<Rightarrow> nat \<Rightarrow> u8 option" where
  "d_at noise k = (if k < length (pn_d noise) then Some (pn_d noise ! k) else None)"

text \<open>The corners of a cell, interpolated along the first axis; \<open>i1\<close>, \<open>i2\<close>, \<open>i3\<close> are the cell, masked to bytes.\<close>

definition beta_corners :: "PerlinNoise \<Rightarrow> nat \<Rightarrow> nat \<Rightarrow> nat \<Rightarrow> rat \<Rightarrow> rat \<Rightarrow> rat \<Rightarrow> rat \<Rightarrow> (rat \<times> rat \<times> rat \<times> rat) option" where
  "beta_corners noise i1 i2 i3 t1 d1 d2 d3 =
     Option.bind (d_at noise i1) (\<lambda>a1. let a1 = unat a1 + i2 in
     Option.bind (d_at noise (i1 + 1)) (\<lambda>b1. let b1 = unat b1 + i2 in
     Option.bind (d_at noise a1) (\<lambda>a2. let a2 = unat a2 + i3 in
     Option.bind (d_at noise (a1 + 1)) (\<lambda>a3. let a3 = unat a3 + i3 in
     Option.bind (d_at noise b1) (\<lambda>b2. let b2 = unat b2 + i3 in
     Option.bind (d_at noise (b1 + 1)) (\<lambda>b3. let b3 = unat b3 + i3 in
     Option.bind (d_at noise a2) (\<lambda>g1.
     Option.bind (d_at noise b2) (\<lambda>g2.
     Option.bind (d_at noise a3) (\<lambda>g3.
     Option.bind (d_at noise b3) (\<lambda>g4.
     Option.bind (d_at noise (a2 + 1)) (\<lambda>g5.
     Option.bind (d_at noise (b2 + 1)) (\<lambda>g6.
     Option.bind (d_at noise (a3 + 1)) (\<lambda>g7.
     Option.bind (d_at noise (b3 + 1)) (\<lambda>g8.
       let m1 = indexedLerp g1 d1 d2 d3;
           l2 = indexedLerp g2 (d1 - 1) d2 d3;
           m3 = indexedLerp g3 d1 (d2 - 1) d3;
           l4 = indexedLerp g4 (d1 - 1) (d2 - 1) d3;
           m5 = indexedLerp g5 d1 d2 (d3 - 1);
           l6 = indexedLerp g6 (d1 - 1) d2 (d3 - 1);
           m7 = indexedLerp g7 d1 (d2 - 1) (d3 - 1);
           l8 = indexedLerp g8 (d1 - 1) (d2 - 1) (d3 - 1)
       in Some (lerp t1 m1 l2, lerp t1 m3 l4, lerp t1 m5 l6, lerp t1 m7 l8)))))))))))))))"

text \<open>The height of a row and its cell; \<open>genFlag\<close> is the cell for which the corners were computed, - 1 before the first.\<close>

definition beta_height :: "PerlinNoise \<Rightarrow> rat \<Rightarrow> nat \<Rightarrow> rat" where
  "beta_height noise yLacAmp yi = of_nat yi * pn_lacunarity noise * yLacAmp + pn_b noise"

definition mask_byte :: "int \<Rightarrow> nat" where
  "mask_byte i = nat (i AND 0xff)"

definition beta_restart_step :: "PerlinNoise \<Rightarrow> rat \<Rightarrow> nat \<Rightarrow> nat \<times> int \<times> int \<Rightarrow> nat \<times> int \<times> int" where
  "beta_restart_step noise yLacAmp yi = (\<lambda>(yic, gfCopy, genFlag).
     let i2 = mask_byte (floor (beta_height noise yLacAmp yi))
     in if yi = 0 \<or> int i2 \<noteq> genFlag then (yi, genFlag, int i2) else (yic, gfCopy, genFlag))"

definition beta_restart :: "PerlinNoise \<Rightarrow> rat \<Rightarrow> nat \<Rightarrow> nat \<times> int \<times> int" where
  "beta_restart noise yLacAmp n = fold (beta_restart_step noise yLacAmp) [0..<n] (0, 0, - 1)"

record BetaRows =
  br_genFlag :: int
  br_corners :: "rat \<times> rat \<times> rat \<times> rat"
  br_v :: "rat \<times> rat"

definition beta_row ::
    "PerlinNoise \<Rightarrow> rat \<Rightarrow> nat \<Rightarrow> nat \<Rightarrow> rat \<Rightarrow> rat \<Rightarrow> rat \<Rightarrow> rat \<Rightarrow> nat \<Rightarrow> BetaRows \<Rightarrow> BetaRows option" where
  "beta_row noise yLacAmp i1 i3 t1 t3 d1 d3 yi s =
     (let d2 = beta_height noise yLacAmp yi;
          i2 = floor d2;
          d2 = d2 - of_int i2;
          t2 = d2 * d2 * d2 * (d2 * (d2 * 6 - 15) + 10);
          i2 = mask_byte i2
      in Option.bind
           (if yi = 0 \<or> int i2 \<noteq> br_genFlag s
            then map_option (\<lambda>corners. s\<lparr>br_genFlag := int i2, br_corners := corners\<rparr>) (beta_corners noise i1 i2 i3 t1 d1 d2 d3)
            else Some s)
           (\<lambda>s. let (l1, l3, l5, l7) = br_corners s;
                    n1 = lerp t2 l1 l3;
                    n5 = lerp t2 l5 l7;
                    gain = lerp t3 n1 n5 * pn_amplitude noise;
                    (v0, v1) = br_v s
                in Some (if 7 \<le> yi then s\<lparr>br_v := if yi = 7 then (v0 + gain, v1) else (v0, v1 + gain)\<rparr> else s)))"

primrec beta_rows ::
    "PerlinNoise \<Rightarrow> rat \<Rightarrow> nat \<Rightarrow> nat \<Rightarrow> rat \<Rightarrow> rat \<Rightarrow> rat \<Rightarrow> rat \<Rightarrow> nat list \<Rightarrow> BetaRows \<Rightarrow> BetaRows option" where
  "beta_rows noise yLacAmp i1 i3 t1 t3 d1 d3 [] s = Some s"
| "beta_rows noise yLacAmp i1 i3 t1 t3 d1 d3 (yi # ys) s =
     Option.bind (beta_row noise yLacAmp i1 i3 t1 t3 d1 d3 yi s) (beta_rows noise yLacAmp i1 i3 t1 t3 d1 d3 ys)"

text \<open>The rows from \<open>yic\<close> on, with the cell whose corners count as computed.\<close>

definition beta_from :: "PerlinNoise \<Rightarrow> rat \<times> rat \<Rightarrow> rat \<Rightarrow> rat \<Rightarrow> rat \<Rightarrow> nat \<Rightarrow> int \<Rightarrow> (rat \<times> rat) option" where
  "beta_from noise v d1 d3 yLacAmp yic genFlag =
     (let d1 = d1 + pn_a noise;
          d3 = d3 + pn_c noise;
          i1 = floor d1;
          i3 = floor d3;
          d1 = d1 - of_int i1;
          d3 = d3 - of_int i3;
          t1 = d1 * d1 * d1 * (d1 * (d1 * 6 - 15) + 10);
          t3 = d3 * d3 * d3 * (d3 * (d3 * 6 - 15) + 10)
      in map_option br_v (beta_rows noise yLacAmp (mask_byte i1) (mask_byte i3) t1 t3 d1 d3 [yic..<9]
           \<lparr>br_genFlag = genFlag, br_corners = (0, 0, 0, 0), br_v = v\<rparr>))"

definition samplePerlinBeta17Terrain :: "PerlinNoise \<Rightarrow> rat \<times> rat \<Rightarrow> rat \<Rightarrow> rat \<Rightarrow> rat \<Rightarrow> (rat \<times> rat) option" where
  "samplePerlinBeta17Terrain noise v d1 d3 yLacAmp =
     (let (yic, gfCopy, genFlag) = beta_restart noise yLacAmp 8
      in beta_from noise v d1 d3 yLacAmp yic gfCopy)"

definition beta_octave :: "(PerlinNoise \<Rightarrow> rat \<times> rat \<Rightarrow> rat \<Rightarrow> rat \<Rightarrow> rat \<Rightarrow> (rat \<times> rat) option) \<Rightarrow>
    rat \<Rightarrow> rat \<Rightarrow> bool \<Rightarrow> rat \<Rightarrow> PerlinNoise \<Rightarrow> (rat \<times> rat) option \<Rightarrow> (rat \<times> rat) option" where
  "beta_octave sampler x z yLacFlag lacmin p v =
     (let lf = pn_lacunarity p
      in if lacmin \<noteq> 0 \<and> lacmin < lf then v
         else let ax = maintainPrecision (x * lf);
                  az = maintainPrecision (z * lf)
              in Option.bind v (\<lambda>v. sampler p v ax az (if yLacFlag then 1 / 2 else 1)))"

definition sampleOctaveBeta17Terrain :: "OctaveNoise \<Rightarrow> rat \<Rightarrow> rat \<Rightarrow> bool \<Rightarrow> rat \<Rightarrow> (rat \<times> rat) option" where
  "sampleOctaveBeta17Terrain noise x z yLacFlag lacmin =
     fold (beta_octave samplePerlinBeta17Terrain x z yLacFlag lacmin) (on_octaves noise) (Some (0, 0))"

text \<open>The same without the shortcut: all nine rows from the first on.\<close>

definition every_row :: "PerlinNoise \<Rightarrow> rat \<times> rat \<Rightarrow> rat \<Rightarrow> rat \<Rightarrow> rat \<Rightarrow> (rat \<times> rat) option" where
  "every_row noise v d1 d3 yLacAmp = beta_from noise v d1 d3 yLacAmp 0 (- 1)"

section \<open>Definitions: simplex noise\<close>

definition simplexGrad :: "u8 \<Rightarrow> rat \<Rightarrow> rat \<Rightarrow> rat \<Rightarrow> rat \<Rightarrow> rat" where
  "simplexGrad idx x y z d =
     (let con = d - x * x - y * y - z * z
      in if con < 0 then 0
         else let con = con * con in con * con * indexedLerp idx x y z)"

definition sampleSimplex2D :: "rat \<Rightarrow> PerlinNoise \<Rightarrow> rat \<Rightarrow> rat \<Rightarrow> rat" where
  "sampleSimplex2D sqrt3 noise x y =
     (let SKEW = 1 / 2 * (sqrt3 - 1);
          UNSKEW = (3 - sqrt3) / 6;
          hf = (x + y) * SKEW;
          hx = floor (x + hf);
          hz = floor (y + hf);
          mhxz = of_int (hx + hz) * UNSKEW;
          x0 = x - (of_int hx - mhxz);
          y0 = y - (of_int hz - mhxz);
          offx = (if x0 > y0 then 1 else 0);
          offz = 1 - offx;
          x1 = x0 - of_int offx + UNSKEW;
          y1 = y0 - of_int offz + UNSKEW;
          x2 = x0 - 1 + 2 * UNSKEW;
          y2 = y0 - 1 + 2 * UNSKEW;
          gi0 = uint (pn_d noise ! mask_byte hz);
          gi1 = uint (pn_d noise ! mask_byte (hz + offz));
          gi2 = uint (pn_d noise ! mask_byte (hz + 1));
          gi0 = uint (pn_d noise ! mask_byte (gi0 + hx));
          gi1 = uint (pn_d noise ! mask_byte (gi1 + hx + offx));
          gi2 = uint (pn_d noise ! mask_byte (gi2 + hx + 1));
          t = 0;
          t = t + simplexGrad (word_of_int (gi0 mod 12)) x0 y0 0 (1 / 2);
          t = t + simplexGrad (word_of_int (gi1 mod 12)) x1 y1 0 (1 / 2);
          t = t + simplexGrad (word_of_int (gi2 mod 12)) x2 y2 0 (1 / 2)
      in 70 * t)"

definition sampleOctaveBeta17Biome :: "rat \<Rightarrow> OctaveNoise \<Rightarrow> rat \<Rightarrow> rat \<Rightarrow> rat" where
  "sampleOctaveBeta17Biome sqrt3 noise x z =
     fold (\<lambda>p v.
         let lf = pn_lacunarity p;
             ax = maintainPrecision (x * lf) + pn_a p;
             az = maintainPrecision (z * lf) + pn_b p;
             pv = sampleSimplex2D sqrt3 p ax az
         in v + pn_amplitude p * pv)
       (on_octaves noise) 0"

section \<open>Where the rows start\<close>

lemma mask_byte_less: "mask_byte i < 256"
  unfolding mask_byte_def and_255 using u8_bound [of "word_of_int i"] by (metis nat_uint_eq)

lemma mask_byte_nat: "k < 256 \<Longrightarrow> mask_byte (int k) = k"
  unfolding mask_byte_def and_255 by (simp add: nat_uint_eq unat_of_nat)

lemma beta_rows_append:
  "beta_rows noise m i1 i3 t1 t3 d1 d3 (xs @ ys) s =
     Option.bind (beta_rows noise m i1 i3 t1 t3 d1 d3 xs s) (beta_rows noise m i1 i3 t1 t3 d1 d3 ys)"
proof (induction xs arbitrary: s)
  case (Cons yi xs)
  then show ?case by (cases "beta_row noise m i1 i3 t1 t3 d1 d3 yi s") simp_all
qed simp

text \<open>A row whose cell differs from the last one depends on nothing that was computed before.\<close>

lemma beta_row_fresh:
  assumes "yi = 0 \<or> int (mask_byte (floor (beta_height noise m yi))) \<noteq> g"
  shows "beta_row noise m i1 i3 t1 t3 d1 d3 yi \<lparr>br_genFlag = g, br_corners = c, br_v = v\<rparr> =
         beta_row noise m i1 i3 t1 t3 d1 d3 yi \<lparr>br_genFlag = g, br_corners = c', br_v = v\<rparr>"
  using assms by (simp add: beta_row_def Let_def option.map_comp comp_def)

lemma beta_row_state:
  assumes "beta_row noise m i1 i3 t1 t3 d1 d3 yi s = Some s'"
  shows "br_genFlag s' = (if yi = 0 \<or> int (mask_byte (floor (beta_height noise m yi))) \<noteq> br_genFlag s
                          then int (mask_byte (floor (beta_height noise m yi))) else br_genFlag s)"
    and "yi < 7 \<Longrightarrow> br_v s' = br_v s"
  using assms by (auto simp: beta_row_def Let_def split_def Option.bind_eq_Some_conv split: if_splits)

lemma beta_restart_Suc: "beta_restart noise m (Suc n) = beta_restart_step noise m n (beta_restart noise m n)"
  by (simp add: beta_restart_def)

lemma beta_restart_fresh:
  assumes "beta_restart noise m n = (yic, gf, g)" "0 < n"
  shows "yic < n \<and> (yic = 0 \<or> int (mask_byte (floor (beta_height noise m yic))) \<noteq> gf)"
  using assms
proof (induction n arbitrary: yic gf g)
  case (Suc n)
  obtain yic' gf' g' where r: "beta_restart noise m n = (yic', gf', g')" by (cases "beta_restart noise m n") auto
  show ?case
  proof (cases "n = 0 \<or> int (mask_byte (floor (beta_height noise m n))) \<noteq> g'")
    case True
    then show ?thesis using Suc.prems(1) unfolding beta_restart_Suc r beta_restart_step_def by (auto simp: Let_def)
  next
    case False
    then show ?thesis using Suc.prems(1) Suc.IH [OF r] unfolding beta_restart_Suc r beta_restart_step_def by (auto simp: Let_def)
  qed
qed simp

lemma beta_restart_rows:
  assumes "beta_restart noise m n = (yic, gf, g)" "n \<le> 8"
    and "beta_rows noise m i1 i3 t1 t3 d1 d3 [0..<n] \<lparr>br_genFlag = - 1, br_corners = (0, 0, 0, 0), br_v = v\<rparr> = Some s"
  shows "br_genFlag s = g \<and> (n \<le> 7 \<longrightarrow> br_v s = v) \<and>
         (0 < n \<longrightarrow> yic < n \<and> beta_rows noise m i1 i3 t1 t3 d1 d3 [yic..<n] \<lparr>br_genFlag = gf, br_corners = (0, 0, 0, 0), br_v = v\<rparr> = Some s)"
  using assms
proof (induction n arbitrary: yic gf g s)
  case 0
  then show ?case by (auto simp: beta_restart_def)
next
  case (Suc n)
  let ?rows = "beta_rows noise m i1 i3 t1 t3 d1 d3" and ?row = "beta_row noise m i1 i3 t1 t3 d1 d3"
  let ?i2 = "int (mask_byte (floor (beta_height noise m n)))"
  obtain yic' gf' g' where r: "beta_restart noise m n = (yic', gf', g')" by (cases "beta_restart noise m n") auto
  obtain s0 where s0: "?rows [0..<n] \<lparr>br_genFlag = - 1, br_corners = (0, 0, 0, 0), br_v = v\<rparr> = Some s0" "?row n s0 = Some s"
    using Suc.prems(3) by (auto simp: beta_rows_append Option.bind_eq_Some_conv)
  have n: "n \<le> 8" "n \<le> 7" using Suc.prems(2) by simp_all
  note IH = Suc.IH [OF r n(1) s0(1)]
  note st = beta_row_state [OF s0(2)]
  have v: "Suc n \<le> 7 \<longrightarrow> br_v s = v" using st(2) IH n(2) by simp
  show ?case
  proof (cases "n = 0 \<or> ?i2 \<noteq> g'")
    case True
    then have e: "yic = n" "gf = g'" "g = ?i2" using Suc.prems(1) unfolding beta_restart_Suc r beta_restart_step_def by (auto simp: Let_def)
    have "s0 = \<lparr>br_genFlag = g', br_corners = br_corners s0, br_v = v\<rparr>" using IH n(2) by simp
    then have "?row n \<lparr>br_genFlag = g', br_corners = (0, 0, 0, 0), br_v = v\<rparr> = Some s" using beta_row_fresh [OF True] s0(2) by metis
    then show ?thesis using st(1) IH True v e by auto
  next
    case False
    then have e: "yic = yic'" "gf = gf'" "g = g'" using Suc.prems(1) unfolding beta_restart_Suc r beta_restart_step_def by (auto simp: Let_def)
    then show ?thesis using st(1) IH False v s0(2) by (auto simp: beta_rows_append)
  qed
qed

lemma every_row_restart:
  assumes "every_row noise v d1 d3 yLacAmp = Some v'"
  shows "samplePerlinBeta17Terrain noise v d1 d3 yLacAmp = Some v'"
proof -
  obtain yic gf g where r: "beta_restart noise yLacAmp 8 = (yic, gf, g)" by (cases "beta_restart noise yLacAmp 8") auto
  have u: "[k..<9] = [k..<8] @ [8]" if "k \<le> 8" for k :: nat using that upt_add_eq_append [of k 8 1] by (simp add: upt_rec)
  let ?i1 = "floor (d1 + pn_a noise)" and ?i3 = "floor (d3 + pn_c noise)"
  let ?d1 = "d1 + pn_a noise - of_int ?i1" and ?d3 = "d3 + pn_c noise - of_int ?i3"
  let ?rows = "beta_rows noise yLacAmp (mask_byte ?i1) (mask_byte ?i3) (?d1 * ?d1 * ?d1 * (?d1 * (?d1 * 6 - 15) + 10))
                 (?d3 * ?d3 * ?d3 * (?d3 * (?d3 * 6 - 15) + 10)) ?d1 ?d3"
  have from_eq: "beta_from noise v d1 d3 yLacAmp k f = map_option br_v (?rows [k..<9] \<lparr>br_genFlag = f, br_corners = (0, 0, 0, 0), br_v = v\<rparr>)" for k f
    by (simp only: beta_from_def Let_def)
  obtain s s9 where s: "?rows [0..<8] \<lparr>br_genFlag = - 1, br_corners = (0, 0, 0, 0), br_v = v\<rparr> = Some s" "?rows [8] s = Some s9" "v' = br_v s9"
    using assms unfolding every_row_def from_eq u [of 0, simplified] beta_rows_append by (auto simp: Option.bind_eq_Some_conv)
  have "yic < 8 \<and> ?rows [yic..<8] \<lparr>br_genFlag = gf, br_corners = (0, 0, 0, 0), br_v = v\<rparr> = Some s"
    using beta_restart_rows [OF r _ s(1)] by simp
  then show ?thesis using s(2,3) unfolding samplePerlinBeta17Terrain_def r from_eq by (simp add: u beta_rows_append)
qed

lemma octaves_restart:
  assumes "fold (beta_octave every_row x z yLacFlag lacmin) ps v = Some w"
  shows "fold (beta_octave samplePerlinBeta17Terrain x z yLacFlag lacmin) ps v = Some w"
proof -
  have "v = None \<Longrightarrow> fold (beta_octave s x z yLacFlag lacmin) ps v = None" for s ps and v :: "(rat \<times> rat) option"
    by (induction ps) (simp_all add: beta_octave_def Let_def)
  note stuck = this [OF refl]
  show ?thesis using assms
  proof (induction ps arbitrary: v)
    case (Cons p ps)
    then show ?case
    proof (cases "beta_octave every_row x z yLacFlag lacmin p v")
      case None
      then show ?thesis using Cons.prems stuck [of every_row ps] by simp
    next
      case (Some u)
      then have "beta_octave samplePerlinBeta17Terrain x z yLacFlag lacmin p v = Some u"
        by (cases v) (auto simp: beta_octave_def Let_def intro!: every_row_restart split: if_splits)
      then show ?thesis using Cons.IH [of "Some u"] Cons.prems Some by simp
    qed
  qed simp
qed

section \<open>Reads outside the table\<close>

lemma perlinInit_loop_returns:
  assumes "length p = 256" "\<forall>i\<in>set is. i < 256"
  shows "\<exists>p' seed'. perlinInit_loop is p seed = Some (p', seed') \<and> mset p' = mset p"
  using assms
proof (induction "is" arbitrary: p seed)
  case (Cons i "is")
  have i: "i < 256" using Cons.prems(2) by simp
  then have u: "unat (256 - of_nat i :: u32) = 256 - i" by (simp add: unat_sub_if_size unat_of_nat)
  have small: "unat (256 - of_nat i :: u32) < 2 ^ 31" unfolding u by simp
  have "0 < (256 - of_nat i :: u32)" using i u by (simp add: word_less_nat_alt)
  then obtain r s' where r: "cub_nextInt (256 - of_nat i) seed = Some (r, s')" "unat r < 256 - i"
    using cub_draw_returns [OF _ small, of seed] unfolding u by blast
  let ?p = "p[i := p ! (i + unat r), i + unat r := p ! i]"
  have m: "mset ?p = mset p" by (rule swap_loop_mset) (use r(2) Cons.prems(1) in simp)
  obtain p' seed' where "perlinInit_loop is ?p s' = Some (p', seed')" "mset p' = mset ?p"
    using Cons.IH [of ?p s'] Cons.prems by auto
  then show ?case using r(1) m by (auto simp: Let_def add.commute)
qed simp

lemma perlinInit_table: "\<exists>noise seed'. perlinInit seed = Some (noise, seed') \<and> length (pn_d noise) = 257 \<and>
    set (take 256 (pn_d noise)) = UNIV \<and> pn_d noise ! 256 = pn_d noise ! 0"
proof -
  obtain a s1 b s2 c s3 where d: "cub_nextDouble seed = (a, s1)" "cub_nextDouble s1 = (b, s2)" "cub_nextDouble s2 = (c, s3)" by (meson surj_pair)
  obtain p' seed' where p: "perlinInit_loop [0..<256] (map of_nat [0..<256]) s3 = Some (p', seed')" "mset p' = mset (map of_nat [0..<256] :: u8 list)"
    using perlinInit_loop_returns [of "map of_nat [0..<256]" "[0..<256]" s3] by auto
  have "set p' = UNIV" using mset_eq_setD [OF p(2)] byte_table_all by simp
  moreover have "length p' = 256" using mset_eq_length [OF p(2)] by simp
  ultimately show ?thesis using d p(1)
    by (intro exI [of _ "perlin_finish (a * 256) (b * 256) (c * 256) p'"] exI [of _ seed']) (simp add: perlinInit_def perlin_finish_def Let_def nth_append)
qed

lemma corners_outside:
  assumes "length (pn_d noise) = 257" "i1 < 256"
    and "let a1 = unat (pn_d noise ! i1) + i2 in 257 \<le> a1 \<or> pn_d noise ! a1 = 255"
  shows "beta_corners noise i1 i2 255 t1 d1 d2 d3 = None"
  using assms by (auto simp: beta_corners_def d_at_def Let_def)

lemma column_outside:
  assumes "length d = 257" "set (take 256 d) = UNIV" "d ! 256 = d ! 0"
  shows "\<exists>i1<256. let a1 = unat (d ! i1 :: u8) + i2 in 257 \<le> a1 \<or> d ! a1 = 255"
proof -
  have ex: "\<exists>i<256. d ! i = w" for w
  proof -
    have "w \<in> set (take 256 d)" unfolding assms(2) by simp
    then obtain i where "i < length (take 256 d)" "take 256 d ! i = w" unfolding in_set_conv_nth by blast
    then show ?thesis using assms(1) by auto
  qed
  obtain k where k: "k < 256" "d ! k = 255" using ex by blast
  show ?thesis
  proof (cases "2 \<le> i2")
    case True
    obtain i where "i < 256" "d ! i = 255" using ex by blast
    then show ?thesis using True by (intro exI [of _ i]) simp
  next
    case False
    show ?thesis
    proof (cases "i2 \<le> k")
      case True
      obtain i where i: "i < 256" "d ! i = of_nat (k - i2)" using ex by blast
      have "unat (d ! i) + i2 = k" unfolding i(2) using True k(1) by (simp add: unat_of_nat del: of_nat_diff)
      then show ?thesis using i(1) k(2) by (intro exI [of _ i]) simp
    next
      case k0: False
      then have "k = 0" "i2 = 1" using False by simp_all
      then show ?thesis using k assms(3) by (intro exI [of _ 0]) simp
    qed
  qed
qed

section \<open>Simplex noise\<close>

lemma simplexGrad_bound:
  assumes "0 \<le> d" "d \<le> 1 / 2"
  shows "\<bar>simplexGrad idx x y 0 d\<bar> \<le> 1 / 8"
proof (cases "d - x * x - y * y < 0")
  case False
  let ?con = "d - x * x - y * y"
  have c: "0 \<le> ?con" "?con \<le> 1 / 2" using False assms(2) zero_le_square [of x] zero_le_square [of y] by linarith+
  have "x * x \<le> 1" "y * y \<le> 1" using c(1) assms(2) zero_le_square [of x] zero_le_square [of y] by linarith+
  then have "\<bar>x\<bar> \<le> 1" "\<bar>y\<bar> \<le> 1" by (simp_all add: abs_le_square_iff [of _ 1, simplified] power2_eq_square)
  then have g: "\<bar>indexedLerp idx x y 0\<bar> \<le> 2" using indexedLerp_bound [of x y 0 idx] by simp
  have "?con * ?con \<le> 1 / 2 * (1 / 2)" by (rule mult_mono) (use c in auto)
  then have "?con * ?con * (?con * ?con) \<le> 1 / 4 * (1 / 4)" by (intro mult_mono) auto
  then have "?con * ?con * (?con * ?con) * \<bar>indexedLerp idx x y 0\<bar> \<le> 1 / 16 * 2" using g by (intro mult_mono) auto
  then show ?thesis using False by (simp add: simplexGrad_def Let_def abs_mult)
qed (simp add: simplexGrad_def)

text \<open>The simplex noise is bounded at every position, whatever is taken for the square root of three.\<close>

theorem sampleSimplex2D_bounded: "\<bar>sampleSimplex2D sqrt3 noise x y\<bar> \<le> 105 / 4"
proof -
  have "\<bar>70 * (0 + a + b + c)\<bar> \<le> 105 / 4" if "\<bar>a\<bar> \<le> 1 / 8" "\<bar>b\<bar> \<le> 1 / 8" "\<bar>c\<bar> \<le> 1 / 8" for a b c :: rat
    using that unfolding abs_le_iff distrib_left by linarith
  then show ?thesis unfolding sampleSimplex2D_def Let_def by (simp only: simplexGrad_bound zero_le_divide_1_iff zero_le_numeral order_refl)
qed

section \<open>Properties\<close>

text \<open>
  C24: Starting with the row at which the corners of the cell were last computed changes nothing: whenever
  evaluating all nine rows stays inside the tables, the sampler of the octaves returns the same two values.
\<close>

theorem beta_terrain_restart:
  assumes "fold (beta_octave every_row x z yLacFlag lacmin) (on_octaves noise) (Some (0, 0)) = Some v"
  shows "sampleOctaveBeta17Terrain noise x z yLacFlag lacmin = Some v"
  unfolding sampleOctaveBeta17Terrain_def by (rule octaves_restart [OF assms])

definition sample_beta_noise :: OctaveNoise where
  "sample_beta_noise = \<lparr>on_octaves = [\<lparr>pn_d = replicate 257 0, pn_h2 = 0, pn_a = 1 / 4, pn_b = 1 / 2, pn_c = 0, pn_amplitude = 2,
     pn_lacunarity = 1 / 4, pn_d2 = 0, pn_t2 = 0\<rparr>]\<rparr>"

lemma sample_beta_corners:
  assumes "pn_d noise = replicate 257 0" "i1 < 256" "i2 < 256" "i3 < 256"
  shows "beta_corners noise i1 i2 i3 t1 d1 d2 d3 =
     Some (lerp t1 (d1 + d2) (d1 - 1 + d2), lerp t1 (d1 + (d2 - 1)) (d1 - 1 + (d2 - 1)), lerp t1 (d1 + d2) (d1 - 1 + d2),
           lerp t1 (d1 + (d2 - 1)) (d1 - 1 + (d2 - 1)))"
proof -
  have z: "d_at noise k = Some 0" if "k < 257" for k using that by (simp add: d_at_def assms(1) del: replicate_Suc)
  show ?thesis using assms(2-4) by (simp add: beta_corners_def z Let_def indexedLerp_def)
qed

lemma beta_terrain_restart_witness: "sampleOctaveBeta17Terrain sample_beta_noise 1 2 False 0 = Some (- 53 / 256, - 1)"
proof -
  obtain q where q: "on_octaves sample_beta_noise = [q]" by (simp add: sample_beta_noise_def)
  have qs: "hd (on_octaves sample_beta_noise) = q" by (simp add: q)
  have p: "pn_d q = replicate 257 0" "pn_a q = 1 / 4" "pn_b q = 1 / 2" "pn_c q = 0" "pn_amplitude q = 2" "pn_lacunarity q = 1 / 4"
    unfolding qs [symmetric] by (simp_all add: sample_beta_noise_def)
  have floors: "floor (1 / 2 :: rat) = 0" "floor (3 / 4 :: rat) = 0" "floor (5 / 4 :: rat) = 1" "floor (3 / 2 :: rat) = 1" "floor (7 / 4 :: rat) = 1"
      "floor (9 / 4 :: rat) = 2" "floor (5 / 2 :: rat) = 2"
    by (simp_all add: floor_eq_iff)
  have u: "[0..<9] = [0, 1, 2, 3, 4, 5, 6, 7, 8 :: nat]" by (simp add: upt_rec)
  have "beta_rows q 1 0 0 (1 / 2) (1 / 2) (1 / 2) (1 / 2) [0..<9] \<lparr>br_genFlag = - 1, br_corners = (0, 0, 0, 0), br_v = (0, 0)\<rparr> =
      Some \<lparr>br_genFlag = 2, br_corners = (0, - 1, 0, - 1), br_v = (- 53 / 256, - 1)\<rparr>"
    by (simp add: u floors beta_row_def Let_def beta_height_def p(3,5,6) mask_byte_def sample_beta_corners [OF p(1)] lerp_def)
  then have "every_row q (0, 0) (1 / 4) (1 / 2) 1 = Some (- 53 / 256, - 1)"
    by (simp add: every_row_def beta_from_def p(2,4) mask_byte_def floors Let_def)
  then have "fold (beta_octave every_row 1 2 False 0) (on_octaves sample_beta_noise) (Some (0, 0)) = Some (- 53 / 256, - 1)"
    unfolding q by (simp add: p(6) beta_octave_def maintainPrecision_def Let_def)
  from beta_terrain_restart [OF this] show ?thesis .
qed

text \<open>
  C37: The table has 257 bytes, but the sampler adds its indices without reducing them to bytes: setting up a
  noise always ends, and whatever the seed, the scale and the amplitude, there are positions at which sampling
  that noise reads outside its table.
\<close>

theorem beta_terrain_leaves_table:
  "\<exists>noise seed'. perlinInit seed = Some (noise, seed') \<and>
     (\<forall>amplitude lacunarity v yLacAmp. \<exists>x z.
        samplePerlinBeta17Terrain (noise\<lparr>pn_amplitude := amplitude, pn_lacunarity := lacunarity\<rparr>) v x z yLacAmp = None)"
proof -
  obtain noise seed' where n: "perlinInit seed = Some (noise, seed')" "length (pn_d noise) = 257" "set (take 256 (pn_d noise)) = UNIV"
      "pn_d noise ! 256 = pn_d noise ! 0"
    using perlinInit_table [of seed] by blast
  have "\<exists>x z. samplePerlinBeta17Terrain (noise\<lparr>pn_amplitude := amplitude, pn_lacunarity := lacunarity\<rparr>) v x z yLacAmp = None"
    for amplitude lacunarity v yLacAmp
  proof -
    let ?noise = "noise\<lparr>pn_amplitude := amplitude, pn_lacunarity := lacunarity\<rparr>"
    obtain yic gf g where r: "beta_restart ?noise yLacAmp 8 = (yic, gf, g)" by (cases "beta_restart ?noise yLacAmp 8") auto
    let ?i2 = "mask_byte (floor (beta_height ?noise yLacAmp yic))"
    have y: "yic < 8" "yic = 0 \<or> int ?i2 \<noteq> gf" using beta_restart_fresh [OF r] by simp_all
    obtain i1 where i1: "i1 < 256" "let a1 = unat (pn_d ?noise ! i1) + ?i2 in 257 \<le> a1 \<or> pn_d ?noise ! a1 = 255"
      using column_outside [OF n(2-4), of ?i2] by auto
    have none: "beta_corners ?noise i1 ?i2 255 t1 d1 d2 d3 = None" for t1 d1 d2 d3
      by (rule corners_outside [OF _ i1]) (simp add: n(2))
    have "beta_row ?noise yLacAmp i1 255 t1 t3 d1 d3 yic \<lparr>br_genFlag = gf, br_corners = c, br_v = w\<rparr> = None" for t1 t3 d1 d3 c w
      using y(2) by (simp add: beta_row_def Let_def none)
    moreover have "[yic..<9] = yic # [Suc yic..<9]" using y(1) by (simp add: upt_conv_Cons)
    ultimately have "beta_rows ?noise yLacAmp i1 255 t1 t3 d1 d3 [yic..<9] \<lparr>br_genFlag = gf, br_corners = c, br_v = w\<rparr> = None" for t1 t3 d1 d3 c w
      by simp
    then have "samplePerlinBeta17Terrain ?noise v (of_nat i1 - pn_a ?noise) (255 - pn_c ?noise) yLacAmp = None"
      using mask_byte_nat [OF i1(1)] mask_byte_nat [of 255] by (simp add: samplePerlinBeta17Terrain_def r beta_from_def Let_def)
    then show ?thesis by blast
  qed
  then show ?thesis using n(1) by blast
qed

end
