(* ===== verification/NetServer.thy ===== *)
theory NetServer
  imports NetStream
begin

text \<open>
  The server with all its connections (\<open>tcp_server\<close> and the handlers of \<open>tcp_connection\<close> in
  \<open>src/src/server.cpp\<close>): one thread runs the handlers one after the other, in the order in which asio completes
  the operations, and all connections push into the same queue. A connection is the object that a handler
  is called on, numbered in the order in which the connections were accepted; the state is \<open>Ended\<close> when no
  operation on it is pending, so that its object is destroyed. The theorem says that what a connection pushes
  depends on nothing but its own bytes, so that every client's entries arrive in their order, whatever
  the others send.
\<close>

section \<open>Definitions\<close>

datatype ConnectionState = Awaiting_handshake "u8 list" "u8 list" | Reading Connection | Ended

text \<open>What asio completes: an accepted connection with its uninitialised arrays, the read of the handshake, a read, an error.\<close>

datatype ConnectionEvent = Accepted "u8 list" "u8 list" | Handshake_read "u8 list" | Some_read "u8 list" | Read_error

datatype ServerEvent = Accept_error | On nat ConnectionEvent

record Server =
  sv_connections :: "ConnectionState list"
  sv_pushed :: "(nat \<times> Candidate) list"

definition server_start :: Server where
  "server_start = \<lparr>sv_connections = [], sv_pushed = []\<rparr>"

text \<open>\<open>handle_handshake\<close> does not look at its error and goes on reading whenever the array holds the handshake.\<close>

definition handle_handshake :: "bool \<Rightarrow> u8 list \<Rightarrow> u8 list \<Rightarrow> u8 list \<Rightarrow> ConnectionState" where
  "handle_handshake large_biomes junk junk_pending bs =
     (if handshake_buffer junk bs \<noteq> net_handshake large_biomes then Ended
      else Reading \<lparr>pending_data = junk_pending, pending_data_len = 0\<rparr>)"

text \<open>One handler on a connection, \<open>None\<close> for what asio does not do: the entries pushed and the state after it.\<close>

fun connection_step :: "bool \<Rightarrow> ConnectionEvent \<Rightarrow> ConnectionState option \<Rightarrow> (Candidate list \<times> ConnectionState) option" where
  "connection_step l (Accepted junk junk_pending) None = Some ([], Awaiting_handshake junk junk_pending)"
| "connection_step l (Handshake_read bs) (Some (Awaiting_handshake junk junk_pending)) =
     (if length bs \<le> 16 then Some ([], handle_handshake l junk junk_pending bs) else None)"
| "connection_step l (Some_read bs) (Some (Reading c)) =
     (if length bs \<le> room c then (let (outputs, c') = handle_read (receive bs c) in Some (outputs, Reading c')) else None)"
| "connection_step l Read_error (Some (Reading c)) = Some ([], Ended)"
| "connection_step l e c = None"

definition connection :: "nat \<Rightarrow> Server \<Rightarrow> ConnectionState option" where
  "connection i s = (if i < length (sv_connections s) then Some (sv_connections s ! i) else None)"

definition set_connection :: "nat \<Rightarrow> ConnectionState \<Rightarrow> ConnectionState list \<Rightarrow> ConnectionState list" where
  "set_connection i c cs = (if i < length cs then cs[i := c] else cs @ [c])"

text \<open>After a failed accept the server accepts again, as it does after every accepted connection.\<close>

fun server_step :: "bool \<Rightarrow> ServerEvent \<Rightarrow> Server \<Rightarrow> Server option" where
  "server_step l Accept_error s = Some s"
| "server_step l (On i e) s =
     (if i \<le> length (sv_connections s)
      then map_option (\<lambda>(outputs, c). s\<lparr>sv_connections := set_connection i c (sv_connections s), sv_pushed := sv_pushed s @ map (Pair i) outputs\<rparr>)
             (connection_step l e (connection i s))
      else None)"

fun server_run :: "bool \<Rightarrow> ServerEvent list \<Rightarrow> Server \<Rightarrow> Server option" where
  "server_run l [] s = Some s"
| "server_run l (e # es) s = Option.bind (server_step l e s) (server_run l es)"

definition server_queue :: "Server \<Rightarrow> Candidate list" where
  "server_queue s = map snd (sv_pushed s)"

section \<open>One connection\<close>

fun connection_run :: "bool \<Rightarrow> ConnectionEvent list \<Rightarrow> ConnectionState option \<Rightarrow> (Candidate list \<times> ConnectionState option) option" where
  "connection_run l [] c = Some ([], c)"
| "connection_run l (e # es) c =
     Option.bind (connection_step l e c) (\<lambda>(outputs, c'). map_option (\<lambda>(rest, c''). (outputs @ rest, c'')) (connection_run l es (Some c')))"

definition events_of :: "nat \<Rightarrow> ServerEvent list \<Rightarrow> ConnectionEvent list" where
  "events_of i = List.map_filter (\<lambda>e. case e of On j c \<Rightarrow> if j = i then Some c else None | Accept_error \<Rightarrow> None)"

definition entries_of :: "nat \<Rightarrow> Server \<Rightarrow> Candidate list" where
  "entries_of i s = map snd (filter (\<lambda>p. fst p = i) (sv_pushed s))"

lemma events_of_simps [simp]:
  "events_of i [] = []" "events_of i (Accept_error # es) = events_of i es"
  "events_of i (On j e # es) = (if j = i then e # events_of i es else events_of i es)"
  by (simp_all add: events_of_def List.map_filter_simps)

lemma filter_tagged: "map snd (filter (\<lambda>p. fst p = i) (map (Pair j) xs)) = (if j = i then xs else [])"
  by (induction xs) auto

lemma connection_set: "i \<le> length (sv_connections s) \<Longrightarrow>
    connection j (s\<lparr>sv_connections := set_connection i c (sv_connections s), sv_pushed := p\<rparr>) = (if j = i then Some c else connection j s)"
  by (auto simp: connection_def set_connection_def nth_append less_Suc_eq)

text \<open>The server is its connections side by side.\<close>

lemma server_run_connection:
  assumes "server_run l es s = Some t"
  shows "\<exists>outs. connection_run l (events_of i es) (connection i s) = Some (outs, connection i t) \<and> entries_of i t = entries_of i s @ outs"
  using assms
proof (induction es arbitrary: s)
  case (Cons e es)
  then obtain s' where s': "server_step l e s = Some s'" "server_run l es s' = Some t" by (auto simp: Option.bind_eq_Some_conv)
  note IH = Cons.IH [OF s'(2)]
  show ?case
  proof (cases e)
    case Accept_error
    then show ?thesis using s'(1) IH by simp
  next
    case (On j ev)
    then obtain outs c where c: "j \<le> length (sv_connections s)" "connection_step l ev (connection j s) = Some (outs, c)"
      "s' = s\<lparr>sv_connections := set_connection j c (sv_connections s), sv_pushed := sv_pushed s @ map (Pair j) outs\<rparr>"
      using s'(1) by (auto split: if_splits)
    have "connection i s' = (if i = j then Some c else connection i s)" unfolding c(3) by (rule connection_set [OF c(1)])
    moreover have "entries_of i s' = entries_of i s @ (if j = i then outs else [])" by (simp add: entries_of_def c(3) filter_tagged)
    ultimately show ?thesis using IH c(2) On by auto
  qed
qed simp

lemma reads_run:
  assumes "connection_run l (map Some_read reads @ es) (Some (Reading c)) = Some (outs, c')"
  shows "\<exists>outs1 c1 outs2. serve_reads reads c = Some (outs1, c1) \<and> connection_run l es (Some (Reading c1)) = Some (outs2, c') \<and> outs = outs1 @ outs2"
  using assms
proof (induction reads arbitrary: c outs)
  case (Cons bs reads)
  obtain outs1 c1 where h: "handle_read (receive bs c) = (outs1, c1)" by fastforce
  then obtain rest where r: "length bs \<le> room c" "connection_run l (map Some_read reads @ es) (Some (Reading c1)) = Some (rest, c')" "outs = outs1 @ rest"
    using Cons.prems by (auto simp: Option.bind_eq_Some_conv split: if_splits)
  show ?case using Cons.IH [OF r(2)] r(1,3) h by fastforce
qed simp

section \<open>Room in every array\<close>

definition server_ok :: "Server \<Rightarrow> bool" where
  "server_ok s \<longleftrightarrow>
     list_all (\<lambda>c. case c of Awaiting_handshake junk junk_pending \<Rightarrow> length junk_pending = 1024 | Reading c \<Rightarrow> connection_ok c | Ended \<Rightarrow> True)
       (sv_connections s)"

definition arrays_fit :: "ServerEvent list \<Rightarrow> bool" where
  "arrays_fit es \<longleftrightarrow> list_all (\<lambda>e. case e of On i (Accepted junk junk_pending) \<Rightarrow> length junk = 16 \<and> length junk_pending = 1024 | _ \<Rightarrow> True) es"

lemma read_ok:
  assumes "connection_ok c" "length bs \<le> room c"
  shows "connection_ok (snd (handle_read (receive bs c)))"
proof -
  have "length (pending_data (receive bs c)) = 1024" "pending_data_len (receive bs c) \<le> 1024"
    using receive_pending [of c bs] assms by (simp_all add: connection_ok_def sizeof_GpuOutput_def)
  then show ?thesis using handle_read_pending by blast
qed

lemma server_ok_step:
  assumes "server_step l e s = Some s'" "server_ok s" "arrays_fit [e]"
  shows "server_ok s'"
proof (cases e)
  case Accept_error
  then show ?thesis using assms by simp
next
  case (On i ev)
  then obtain outs c where c: "connection_step l ev (connection i s) = Some (outs, c)"
    "s' = s\<lparr>sv_connections := set_connection i c (sv_connections s), sv_pushed := sv_pushed s @ map (Pair i) outs\<rparr>"
    using assms(1) by (auto split: if_splits)
  let ?ok = "\<lambda>c. case c of Awaiting_handshake junk junk_pending \<Rightarrow> length junk_pending = 1024 | Reading c \<Rightarrow> connection_ok c | Ended \<Rightarrow> True"
  have old: "?ok d" if "connection i s = Some d" for d
    using that assms(2) by (auto simp: server_ok_def connection_def list_all_length split: if_splits)
  have "?ok c" using c(1)
  proof (cases rule: connection_step.elims)
    case (3 bs d)
    then show ?thesis using old [of "Reading d"] read_ok [of d bs] by (auto split: if_splits prod.splits)
  qed (use assms(3) On old in \<open>auto simp: arrays_fit_def handle_handshake_def connection_ok_def sizeof_GpuOutput_def split: if_splits\<close>)
  then show ?thesis using assms(2) by (auto simp: server_ok_def c(2) set_connection_def list_all_length nth_list_update nth_append less_Suc_eq)
qed

text \<open>A connection that reads can always take another read of up to 1009 bytes; the others are left alone.\<close>

lemma server_takes_reads:
  assumes "server_ok s" "connection i s = Some (Reading c)" "length bs \<le> 1009"
  shows "\<exists>s' c'. server_step l (On i (Some_read bs)) s = Some s' \<and> server_ok s' \<and> connection i s' = Some (Reading c') \<and>
           (\<forall>j. j \<noteq> i \<longrightarrow> connection j s' = connection j s)"
proof -
  have i: "i < length (sv_connections s)" "sv_connections s ! i = Reading c" using assms(2) by (auto simp: connection_def split: if_splits)
  then have "connection_ok c" using assms(1) by (auto simp: server_ok_def list_all_length split: ConnectionState.splits)
  then have room: "length bs \<le> room c" using room_ok [of c] assms(3) by simp
  obtain outs c' where h: "handle_read (receive bs c) = (outs, c')" by fastforce
  let ?s = "s\<lparr>sv_connections := set_connection i (Reading c') (sv_connections s), sv_pushed := sv_pushed s @ map (Pair i) outs\<rparr>"
  have step: "server_step l (On i (Some_read bs)) s = Some ?s" using i room h assms(2) by simp
  have ok: "server_ok ?s" by (rule server_ok_step [OF step assms(1)]) (simp add: arrays_fit_def)
  have "connection j ?s = (if j = i then Some (Reading c') else connection j s)" for j by (rule connection_set) (use i in simp)
  then show ?thesis using step ok by (intro exI [of _ ?s] exI [of _ c']) simp
qed

lemma server_run_append: "server_run l (es @ es') s = Option.bind (server_run l es s) (server_run l es')"
proof (induction es arbitrary: s)
  case (Cons e es)
  then show ?case by (cases "server_step l e s") simp_all
qed simp

lemma server_ok_run:
  assumes "server_run l es s = Some t" "server_ok s" "arrays_fit es"
  shows "server_ok t"
  using assms
proof (induction es arbitrary: s)
  case (Cons e es)
  then show ?case using server_ok_step by (fastforce simp: Option.bind_eq_Some_conv arrays_fit_def)
qed simp

lemma arrays_fit_of: "arrays_fit es \<Longrightarrow> Accepted junk junk_pending \<in> set (events_of i es) \<Longrightarrow> length junk = 16 \<and> length junk_pending = 1024"
proof (induction es)
  case (Cons e es)
  then show ?case by (cases e) (auto simp: arrays_fit_def split: if_splits)
qed simp

lemma connection_entries:
  assumes "server_run l es server_start = Some s" "arrays_fit es"
    and "events_of i es = [Accepted junk junk_pending, Handshake_read first] @ map Some_read reads @ ending" "ending = [] \<or> ending = [Read_error]"
    and "first = take 16 (take n (client_stream l queues))" "concat reads = drop 16 (take n (client_stream l queues))"
    and "list_all (list_all in_int32) queues"
  shows "map snd (filter (\<lambda>p. fst p = i) (sv_pushed s)) = take ((n - 16) div 16) (concat queues) \<and>
         (case connection i s of Some (Reading c) \<Rightarrow> 1009 \<le> room c | _ \<Rightarrow> True)"
proof
  have run: "connection_run l (events_of i es) None = Some (entries_of i s, connection i s)"
    using server_run_connection [OF assms(1), of i] by (auto simp: server_start_def connection_def entries_of_def)
  let ?c = "\<lparr>pending_data = junk_pending, pending_data_len = 0\<rparr>"
  have junk: "length junk = 16 \<and> length junk_pending = 1024" by (rule arrays_fit_of [OF assms(2), of _ _ i]) (simp add: assms(3))
  have rest: "connection_run l (map Some_read reads @ ending) (Some (handle_handshake l junk junk_pending first)) = Some (entries_of i s, connection i s)"
    using run by (simp add: assms(3) split: if_splits prod.splits)
  show "map snd (filter (\<lambda>p. fst p = i) (sv_pushed s)) = take ((n - 16) div 16) (concat queues)"
  proof (cases "handshake_buffer junk first = net_handshake l")
    case True
    then obtain outs1 c1 outs2 where o: "serve_reads reads ?c = Some (outs1, c1)" "entries_of i s = outs1 @ outs2"
        "connection_run l ending (Some (Reading c1)) = Some (outs2, connection i s)"
      using rest reads_run [of l reads ending ?c] by (auto simp: handle_handshake_def)
    have "outs2 = []" using o(3) assms(4) by auto
    then show ?thesis using served_entries [OF assms(7) _ o(1) assms(6)] junk o(2) by (simp add: entries_of_def)
  next
    case False
    then have n: "n < 16" using handshake_of_stream [of junk n l queues] junk unfolding assms(5) by (meson not_le)
    have "map Some_read reads @ ending = []" using rest False by (cases "map Some_read reads @ ending") (auto simp: handle_handshake_def)
    then show ?thesis using rest n by (simp add: entries_of_def)
  qed
  have "server_ok s" by (rule server_ok_run [OF assms(1) _ assms(2)]) (simp add: server_ok_def server_start_def)
  then show "case connection i s of Some (Reading c) \<Rightarrow> 1009 \<le> room c | _ \<Rightarrow> True"
    using room_ok by (auto simp: server_ok_def connection_def list_all_length split: ConnectionState.splits)
qed

section \<open>Properties\<close>

text \<open>
  C9: Whatever the order in which the connections are accepted, send and fail: when the bytes that a connection
  has delivered are the first \<open>n\<close> bytes that its client wrote, the entries it has put into the shared queue are
  the client's entries as far as they are complete, in their order. Every connection that reads has room
  for at least 1009 bytes.
\<close>

theorem server_keeps_clients_apart:
  assumes "server_run l es server_start = Some s" "arrays_fit es"
    and "events_of i es = [Accepted junk junk_pending, Handshake_read first] @ map Some_read reads @ ending" "ending = [] \<or> ending = [Read_error]"
    and "first = take 16 (take n (client_stream l queues))" "concat reads = drop 16 (take n (client_stream l queues))"
    and "list_all (list_all in_int32) queues"
  shows "map snd (filter (\<lambda>p. fst p = i) (sv_pushed s)) = take ((n - 16) div 16) (concat queues) \<and>
         (case connection i s of Some (Reading c) \<Rightarrow> 1009 \<le> room c | _ \<Rightarrow> True)"
  by (rule connection_entries [OF assms])

text \<open>Two clients whose bytes arrive in turns, the first entry of one in two pieces.\<close>

definition sample_entry :: "u64 \<Rightarrow> Candidate" where
  "sample_entry seed = \<lparr>cd_seed = seed, cd_x = - 1200, cd_z = 64\<rparr>"

definition two_clients :: "ServerEvent list" where
  "two_clients =
     [On 0 (Accepted (replicate 16 0) (replicate 1024 0)), Accept_error, On 1 (Accepted (replicate 16 7) (replicate 1024 7)),
      On 1 (Handshake_read (net_handshake True)), On 0 (Handshake_read (net_handshake True)),
      On 0 (Some_read (take 5 (output_bytes (sample_entry 42)))), On 1 (Some_read (output_bytes (sample_entry 9))),
      On 0 (Some_read (drop 5 (output_bytes (sample_entry 42)))), On 1 Read_error]"

lemma two_clients_facts:
  "arrays_fit two_clients"
  "events_of 0 two_clients = [Accepted (replicate 16 0) (replicate 1024 0), Handshake_read (net_handshake True)] @
     map Some_read [take 5 (output_bytes (sample_entry 42)), drop 5 (output_bytes (sample_entry 42))] @ []"
  by (simp_all add: two_clients_def arrays_fit_def)

lemma two_clients_run: "\<exists>s. server_run True two_clients server_start = Some s"
proof -
  have h: "handle_handshake True junk junk_pending (net_handshake True) = Reading \<lparr>pending_data = junk_pending, pending_data_len = 0\<rparr>"
    if "length junk = 16" for junk junk_pending
    using that net_handshake_16 [of True] by (simp add: handle_handshake_def handshake_buffer_def)
  define s where "s = \<lparr>sv_connections = [Reading \<lparr>pending_data = replicate 1024 0, pending_data_len = 0\<rparr>, Reading \<lparr>pending_data = replicate 1024 7, pending_data_len = 0\<rparr>],
    sv_pushed = []\<rparr>"
  have s: "server_run True (take 5 two_clients) server_start = Some s"
    by (simp add: two_clients_def server_start_def s_def connection_def set_connection_def net_handshake_16 h)
  have ok: "server_ok s" by (simp add: s_def server_ok_def connection_ok_def sizeof_GpuOutput_def)
  obtain s1 c1 where 1: "server_step True (On 0 (Some_read (take 5 (output_bytes (sample_entry 42))))) s = Some s1" "server_ok s1"
      "connection 0 s1 = Some (Reading c1)" "\<forall>j. j \<noteq> 0 \<longrightarrow> connection j s1 = connection j s"
    using server_takes_reads [OF ok, of 0 _ "take 5 (output_bytes (sample_entry 42))" True] by (auto simp: s_def connection_def sizeof_GpuOutput_def)
  obtain s2 c2 where 2: "server_step True (On 1 (Some_read (output_bytes (sample_entry 9)))) s1 = Some s2" "server_ok s2"
      "connection 1 s2 = Some (Reading c2)" "\<forall>j. j \<noteq> 1 \<longrightarrow> connection j s2 = connection j s1"
    using server_takes_reads [OF 1(2), of 1 _ "output_bytes (sample_entry 9)" True] 1(4) by (auto simp: s_def connection_def sizeof_GpuOutput_def)
  obtain s3 c3 where 3: "server_step True (On 0 (Some_read (drop 5 (output_bytes (sample_entry 42))))) s2 = Some s3" "server_ok s3"
      "connection 0 s3 = Some (Reading c3)" "\<forall>j. j \<noteq> 0 \<longrightarrow> connection j s3 = connection j s2"
    using server_takes_reads [OF 2(2), of 0 c1 "drop 5 (output_bytes (sample_entry 42))" True] 2(4) 1(3) by (auto simp: sizeof_GpuOutput_def)
  have "connection 1 s3 = Some (Reading c2)" using 3(4) 2(3) by simp
  then have "server_step True (On 1 Read_error) s3 \<noteq> None" by (auto simp: connection_def split: if_splits)
  moreover have "two_clients = take 5 two_clients @ [On 0 (Some_read (take 5 (output_bytes (sample_entry 42)))), On 1 (Some_read (output_bytes (sample_entry 9))),
      On 0 (Some_read (drop 5 (output_bytes (sample_entry 42)))), On 1 Read_error]"
    by (simp add: two_clients_def)
  ultimately show ?thesis using s 1(1) 2(1) 3(1) server_run_append [of True "take 5 two_clients"] by (metis Option.bind.simps(2) option.exhaust server_run.simps)
qed

lemma server_keeps_clients_apart_witness:
  "\<exists>s. server_run True two_clients server_start = Some s \<and> map snd (filter (\<lambda>p. fst p = 0) (sv_pushed s)) = [sample_entry 42]"
proof -
  obtain s where s: "server_run True two_clients server_start = Some s" using two_clients_run by blast
  have st: "client_stream True [[sample_entry 42]] = net_handshake True @ output_bytes (sample_entry 42)" by (simp add: client_stream_split)
  have valid: "in_int32 (sample_entry 42)" by (simp add: in_int32_def sample_entry_def)
  have len: "length (net_handshake True) = 16" "length (output_bytes (sample_entry 42)) = 16" by (simp_all add: net_handshake_16 sizeof_GpuOutput_def)
  have "map snd (filter (\<lambda>p. fst p = 0) (sv_pushed s)) = take ((32 - 16) div 16) (concat [[sample_entry 42]])"
    by (rule server_keeps_clients_apart [OF s two_clients_facts, THEN conjunct1]) (simp_all add: st len valid sizeof_GpuOutput_def)
  then show ?thesis using s by auto
qed

end
