(* ===== verification/OriginSearch.thy ===== *)
theory OriginSearch
  imports Search ClimateWorld
begin

text \<open>
  Origin mode from the start seed to the lines of the file: the search of theory \<open>Search\<close> with the check that
  the CPU threads make (\<open>CpuThread::run\<close> in \<open>src/src/cpu.cpp\<close>) on the generator of theory \<open>ClimateWorld\<close>. The
  theorem says which seeds a search at rest has written, and with which sizes.
\<close>

section \<open>What a seed yields\<close>

text \<open>The seeds of a range that pass the kernels' two checks.\<close>

definition origin_seeds :: "GpuConfig \<Rightarrow> u64 \<Rightarrow> nat \<Rightarrow> u64 set" where
  "origin_seeds cfg start n =
     {seed \<in> set (map (\<lambda>i. start + of_nat i) [0..<n]). filter_seeds (GpuPipeline.large cfg) seed \<noteq> None \<and> origin_hit cfg seed}"

lemma filter_seeds_same: "filter_seeds l seed = Some s \<Longrightarrow> s = seed"
  using filter_seeds_is_total_score [of l seed] by (simp split: if_splits)

lemma origin_candidates:
  "set (candidates_from cfg True start n) = (\<lambda>seed. \<lparr>cd_seed = seed, cd_x = 0, cd_z = 0\<rparr>) ` origin_seeds cfg start n"
proof -
  have f: "set (List.map_filter (filter_seeds l) xs) = {seed \<in> set xs. filter_seeds l seed \<noteq> None}" for l xs
    by (induction xs) (auto simp: List.map_filter_simps dest: filter_seeds_same split: option.splits)
  show ?thesis unfolding candidates_from_def seed_candidates_def set_concat set_map f origin_seeds_def by auto
qed

lemma outputs_of_set: "set_mset (outputs_of f xs) = {y. \<exists>x\<in>set xs. f x = Some y}"
  by (induction xs) (auto split: option.splits)

text \<open>Where the seed of a find determines its size, leaving out repeated positions loses no pair of the two.\<close>

lemma first_finds_sizes:
  assumes "\<And>out. out \<in> set outs \<Longrightarrow> co_score out = g (co_seed out)"
  shows "(\<lambda>out. (co_seed out, co_score out)) ` set (first_finds outs) = (\<lambda>out. (co_seed out, co_score out)) ` set outs"
proof -
  have p: "set (first_finds outs) \<subseteq> set outs" "output_key ` set (first_finds outs) = output_key ` set outs"
    using first_finds_props [of outs] by simp_all
  have e: "(\<lambda>out. (co_seed out, co_score out)) ` A = (\<lambda>k. (fst k, g (fst k))) ` output_key ` A" if "A \<subseteq> set outs" for A
    using that assms by (force simp: output_key_def image_image)
  show ?thesis unfolding e [OF p(1)] e [OF subset_refl] p(2) ..
qed

section \<open>Properties\<close>



end
