(* ===== verification/ClientSearch.thy ===== *)
theory ClientSearch
  imports Search NetServer
begin

text \<open>
  A search on several machines (\<open>--client\<close> and \<open>--server\<close> in \<open>src/src/main.cpp\<close>): a client runs GPU threads and,
  instead of CPU threads, the client thread (\<open>ClientThread::run\<close> in \<open>src/src/client.cpp\<close>), which empties the queue
  of the GPU threads into a connection; the server's CPU threads check what all connections deliver. The
  transport is not modelled: the theorem speaks of connections that have delivered all the bytes that
  their clients wrote.
\<close>

section \<open>Definitions\<close>

record ClientMachine =
  cm_search :: Search
  cm_stream :: "u8 list"
  cm_queues :: "Candidate list list"

text \<open>\<open>cm_queues\<close> is a history: what the client thread found in the queue in each of its rounds.\<close>

datatype ClientEvent = Gpu_thread SearchEvent | Client_thread

definition client_start :: "GpuConfig \<Rightarrow> bool \<Rightarrow> Result list list \<Rightarrow> u64 \<Rightarrow> ClientMachine" where
  "client_start cfg origin memory start_seed =
     \<lparr>cm_search = search_start cfg origin memory start_seed 0, cm_stream = net_handshake (large cfg), cm_queues = []\<rparr>"

text \<open>No CPU thread runs and nothing is uploaded, so that of the events of a search only those of the GPU threads occur.\<close>

fun client_step :: "GpuConfig \<Rightarrow> bool \<Rightarrow> ClientEvent \<Rightarrow> ClientMachine \<Rightarrow> ClientMachine option" where
  "client_step cfg origin (Gpu_thread e) c =
     (case e of Host_event ev \<Rightarrow> None
      | _ \<Rightarrow> map_option (\<lambda>s. c\<lparr>cm_search := s\<rparr>) (search_step cfg origin (\<lambda>_. None) False e (cm_search c)))"
| "client_step cfg origin Client_thread c =
     (let host = se_host (cm_search c);
          (bytes, rest) = client_round (gpu_queue host)
      in Some (c\<lparr>cm_search := (cm_search c)\<lparr>se_host := host\<lparr>gpu_queue := rest\<rparr>\<rparr>, cm_stream := cm_stream c @ bytes,
                 cm_queues := cm_queues c @ [gpu_queue host]\<rparr>))"

fun client_run :: "GpuConfig \<Rightarrow> bool \<Rightarrow> ClientEvent list \<Rightarrow> ClientMachine \<Rightarrow> ClientMachine option" where
  "client_run cfg origin [] c = Some c"
| "client_run cfg origin (e # es) c = Option.bind (client_step cfg origin e c) (client_run cfg origin es)"

definition client_takes :: "ClientEvent list \<Rightarrow> nat" where
  "client_takes es = takes (List.map_filter (\<lambda>e. case e of Gpu_thread e \<Rightarrow> Some e | Client_thread \<Rightarrow> None) es)"

text \<open>Every range that was taken is searched, and everything found has been written to the connection.\<close>

definition client_rests :: "ClientMachine \<Rightarrow> bool" where
  "client_rests c \<longleftrightarrow> list_all (\<lambda>t. t = None) (se_taken (cm_search c)) \<and> gpu_queue (se_host (cm_search c)) = []"

text \<open>The bytes a connection has delivered, \<open>None\<close> for events in another order or a handshake that was cut off.\<close>

fun delivered_reads :: "ConnectionEvent list \<Rightarrow> u8 list option" where
  "delivered_reads [] = Some []"
| "delivered_reads (Some_read bs # es) = map_option (\<lambda>rest. bs @ rest) (delivered_reads es)"
| "delivered_reads es = (if es = [Read_error] then Some [] else None)"

fun delivered :: "ConnectionEvent list \<Rightarrow> u8 list option" where
  "delivered (Accepted arr pending_arr # Handshake_read first # es) =
     (if length first = 16 then map_option (\<lambda>bs. first @ bs) (delivered_reads es) else None)"
| "delivered es = None"

section \<open>One client\<close>

definition with_queue :: "Candidate list \<Rightarrow> Search \<Rightarrow> Search" where
  "with_queue q s = s\<lparr>se_host := (se_host s)\<lparr>gpu_queue := q\<rparr>\<rparr>"

lemma with_queue_sel [simp]:
  "se_input (with_queue q s) = se_input s" "se_threads (with_queue q s) = se_threads s" "se_taken (with_queue q s) = se_taken s"
  "se_ranges (with_queue q s) = se_ranges s" "se_done (with_queue q s) = se_done s" "se_host (with_queue q s) = (se_host s)\<lparr>gpu_queue := q\<rparr>"
  by (simp_all add: with_queue_def)

text \<open>A step of a GPU thread does not look at the queue and appends to it what it pushes.\<close>

lemma with_queue_step:
  assumes "search_step cfg origin work u e s = Some s'" "\<forall>ev. e \<noteq> Host_event ev"
  shows "\<exists>cs. gpu_queue (se_host s') = gpu_queue (se_host s) @ cs \<and> ho_pushed (se_host s') = ho_pushed (se_host s) @ cs \<and>
              search_step cfg origin work u e (with_queue q s) = Some (with_queue (q @ cs) s')"
proof (cases e)
  case (Gpu_take t)
  then have g: "t < length (se_threads s)" "se_taken s ! t = None"
      "s' = s\<lparr>se_input := (se_input s)\<lparr>si_pos := si_pos (se_input s) + 2 ^ 28\<rparr>, se_taken := (se_taken s)[t := Some (si_pos (se_input s))],
              se_ranges := se_ranges s @ [si_pos (se_input s)]\<rparr>"
    using assms(1) by (auto simp: gpu_take_def SeedIterator_next_def split: if_splits)
  have "search_step cfg origin work u e (with_queue q s) = Some (with_queue q s')"
    using g(1,2) by (simp add: Gpu_take gpu_take_def SeedIterator_next_def g(3) with_queue_def)
  then show ?thesis by (intro exI [of _ "[]"]) (simp add: g(3))
next
  case (Gpu_finish t elapsed host_time)
  then obtain start outs thread rep where g: "t < length (se_threads s)" "se_taken s ! t = Some start"
      "gpu_round cfg origin t elapsed host_time start (se_threads s ! t) = Some (outs, thread, rep)"
      "s' = s\<lparr>se_threads := (se_threads s)[t := thread], se_taken := (se_taken s)[t := None],
              se_host := (se_host s)\<lparr>gpu_queue := gpu_queue (se_host s) @ map candidate_of outs, ho_pushed := ho_pushed (se_host s) @ map candidate_of outs\<rparr>,
              se_done := se_done s @ [start]\<rparr>"
    using assms(1) by (auto simp: gpu_finish_def bind_Some split: if_splits)
  have "search_step cfg origin work u e (with_queue q s) = Some (with_queue (q @ map candidate_of outs) s')"
    using g(1-3) by (simp add: Gpu_finish gpu_finish_def g(4) with_queue_def)
  then show ?thesis by (intro exI [of _ "map candidate_of outs"]) (simp add: g(4))
qed (use assms(2) in blast)

text \<open>But for the queue, a client is a search; the queue and the rounds hold what was pushed.\<close>

definition client_inv :: "GpuConfig \<Rightarrow> bool \<Rightarrow> u64 \<Rightarrow> ClientMachine \<Rightarrow> bool" where
  "client_inv cfg origin start_seed c \<longleftrightarrow>
     (\<exists>q. search_inv cfg origin (\<lambda>_. None) False start_seed 0 (with_queue q (cm_search c))) \<and>
     concat (cm_queues c) @ gpu_queue (se_host (cm_search c)) = ho_pushed (se_host (cm_search c)) \<and>
     cm_stream c = client_stream (large cfg) (cm_queues c)"

lemma client_inv_step:
  assumes "client_step cfg origin e c = Some c'" "client_inv cfg origin start_seed c" "sched_ok cfg"
  shows "client_inv cfg origin start_seed c'"
proof (cases e)
  case (Gpu_thread ev)
  then obtain s where s: "search_step cfg origin (\<lambda>_. None) False ev (cm_search c) = Some s" "\<forall>h. ev \<noteq> Host_event h" "c' = c\<lparr>cm_search := s\<rparr>"
    using assms(1) by (auto split: SearchEvent.splits)
  obtain q where q: "search_inv cfg origin (\<lambda>_. None) False start_seed 0 (with_queue q (cm_search c))" using assms(2) by (auto simp: client_inv_def)
  obtain cs where cs: "gpu_queue (se_host s) = gpu_queue (se_host (cm_search c)) @ cs" "ho_pushed (se_host s) = ho_pushed (se_host (cm_search c)) @ cs"
      "search_step cfg origin (\<lambda>_. None) False ev (with_queue q (cm_search c)) = Some (with_queue (q @ cs) s)"
    using with_queue_step [OF s(1,2)] by blast
  have "search_inv cfg origin (\<lambda>_. None) False start_seed 0 (with_queue (q @ cs) s)" by (rule search_inv_step [OF cs(3) q assms(3)])
  then show ?thesis using assms(2) cs(1,2) by (auto simp: client_inv_def s(3))
next
  case Client_thread
  let ?host = "se_host (cm_search c)"
  have c': "c' = c\<lparr>cm_search := with_queue [] (cm_search c), cm_stream := cm_stream c @ concat (map output_bytes (gpu_queue ?host)),
      cm_queues := cm_queues c @ [gpu_queue ?host]\<rparr>"
    using assms(1) by (simp add: Client_thread client_round_def with_queue_def Let_def)
  have twice: "with_queue q (with_queue [] s) = with_queue q s" for q s by (simp add: with_queue_def)
  show ?thesis using assms(2) by (simp add: client_inv_def c' client_stream_def client_round_def twice)
qed

lemma client_takes_simps [simp]:
  "client_takes [] = 0" "client_takes (Client_thread # es) = client_takes es"
  "client_takes (Gpu_thread e # es) = takes [e] + client_takes es"
  by (simp_all add: client_takes_def takes_def List.map_filter_simps)

lemma client_inv_run:
  assumes "client_run cfg origin es c = Some c'" "client_inv cfg origin start_seed c" "sched_ok cfg"
  shows "client_inv cfg origin start_seed c' \<and> length (se_ranges (cm_search c')) = length (se_ranges (cm_search c)) + client_takes es"
  using assms(1,2)
proof (induction es arbitrary: c)
  case (Cons e es)
  then obtain c1 where c1: "client_step cfg origin e c = Some c1" "client_run cfg origin es c1 = Some c'" by (auto simp: bind_Some)
  have "length (se_ranges (cm_search c1)) = length (se_ranges (cm_search c)) + client_takes [e]"
  proof (cases e)
    case (Gpu_thread ev)
    then obtain s where "search_step cfg origin (\<lambda>_. None) False ev (cm_search c) = Some s" "c1 = c\<lparr>cm_search := s\<rparr>"
      using c1(1) by (auto split: SearchEvent.splits)
    then show ?thesis using takes_ranges [of cfg origin "\<lambda>_. None" False "[ev]" "cm_search c" s] by (simp add: Gpu_thread)
  next
    case Client_thread
    then show ?thesis using c1(1) by (auto simp: Let_def split: prod.splits)
  qed
  moreover have "client_takes (e # es) = client_takes [e] + client_takes es" by (cases e) simp_all
  ultimately show ?case using Cons.IH [OF c1(2) client_inv_step [OF c1(1) Cons.prems(2) assms(3)]] by simp
qed simp

lemma client_inv_start: "memory_fits memory \<Longrightarrow> client_inv cfg origin start_seed (client_start cfg origin memory start_seed)"
proof -
  assume m: "memory_fits memory"
  have "with_queue [] (search_start cfg origin memory start_seed 0) = search_start cfg origin memory start_seed 0"
    by (simp add: with_queue_def search_start_def host_start_def)
  then have "\<exists>q. search_inv cfg origin (\<lambda>_. None) False start_seed 0 (with_queue q (search_start cfg origin memory start_seed 0))"
    using search_inv_start [OF m] by metis
  then show ?thesis by (simp add: client_inv_def client_start_def client_stream_def) (simp add: search_start_def host_start_def)
qed

text \<open>What a client at rest has written.\<close>

lemma client_writes_finds:
  assumes "sched_ok cfg" "memory_fits memory" "client_run cfg origin es (client_start cfg origin memory start_seed) = Some c" "client_rests c"
  shows "cm_stream c = client_stream (large cfg) (cm_queues c) \<and>
         mset (concat (cm_queues c)) = mset (candidates_from cfg origin start_seed (client_takes es * 2 ^ 28))"
proof -
  have inv: "client_inv cfg origin start_seed c" and k: "length (se_ranges (cm_search c)) = client_takes es"
    using client_inv_run [OF assms(3) client_inv_start [OF assms(2)] assms(1)] by (simp_all add: client_start_def search_start_def)
  obtain q where q: "search_inv cfg origin (\<lambda>_. None) False start_seed 0 (with_queue q (cm_search c))" using inv by (auto simp: client_inv_def)
  have "outputs_of id (se_taken (cm_search c)) = {#}"
  proof -
    have "list_all (\<lambda>t. t = None) ts \<Longrightarrow> outputs_of id ts = {#}" for ts :: "u64 option list" by (induction ts) simp_all
    then show ?thesis using assms(4) by (simp add: client_rests_def)
  qed
  then have "mset (se_done (cm_search c)) = mset (se_ranges (cm_search c))" using q by (simp add: search_inv_def)
  moreover have "se_ranges (cm_search c) = map (\<lambda>j. start_seed + of_nat (j * 2 ^ 28)) [0..<client_takes es]"
    using q unfolding search_inv_def with_queue_sel k by blast
  ultimately have "mset (se_done (cm_search c)) = mset (map (\<lambda>j. start_seed + of_nat (j * 2 ^ 28)) [0..<client_takes es])" by (simp only:)
  from concat_map_mset [OF this, of "\<lambda>r. candidates_from cfg origin r (2 ^ 28)"]
  have "mset (ho_pushed (se_host (cm_search c))) = mset (candidates_from cfg origin start_seed (client_takes es * 2 ^ 28))"
    using q unfolding candidates_from_ranges map_map comp_def by (simp add: search_inv_def)
  moreover have "concat (cm_queues c) = ho_pushed (se_host (cm_search c))" using inv assms(4) by (simp add: client_inv_def client_rests_def)
  ultimately show ?thesis using inv by (simp add: client_inv_def)
qed

section \<open>The server\<close>

lemma delivered_reads_form: "delivered_reads es = Some bs \<Longrightarrow> \<exists>reads ending. es = map Some_read reads @ ending \<and> (ending = [] \<or> ending = [Read_error]) \<and> concat reads = bs"
proof (induction es arbitrary: bs rule: delivered_reads.induct)
  case (2 b es)
  then obtain rest where "delivered_reads es = Some rest" "bs = b @ rest" by auto
  then obtain reads ending where "es = map Some_read reads @ ending" "ending = [] \<or> ending = [Read_error]" "concat reads = rest" using 2 by blast
  then show ?case using \<open>bs = b @ rest\<close> by (intro exI [of _ "b # reads"] exI [of _ ending]) simp
qed (auto intro: exI [of _ "[]"] split: if_splits)

lemma delivered_form: "delivered es = Some bs \<Longrightarrow> \<exists>arr pending_arr first reads ending.
    es = [Accepted arr pending_arr, Handshake_read first] @ map Some_read reads @ ending \<and> (ending = [] \<or> ending = [Read_error]) \<and>
    first = take 16 bs \<and> concat reads = drop 16 bs"
proof (induction es rule: delivered.induct)
  case (1 arr pending_arr first es)
  then obtain rest where r: "length first = 16" "delivered_reads es = Some rest" "bs = first @ rest" by (auto split: if_splits)
  obtain reads ending where e: "es = map Some_read reads @ ending" "ending = [] \<or> ending = [Read_error]" "concat reads = rest"
    using delivered_reads_form [OF r(2)] by blast
  show ?case by (intro exI [of _ arr] exI [of _ pending_arr] exI [of _ first] exI [of _ reads] exI [of _ ending]) (use r e in simp)
qed auto

lemma pushed_by_connection: "\<forall>p\<in>set ps. fst p < (k :: nat) \<Longrightarrow> mset (map snd ps) = (\<Sum>i<k. mset (map snd (filter (\<lambda>p. fst p = i) ps)))"
proof (induction ps)
  case (Cons p ps)
  have "(\<Sum>i<k. mset (map snd (filter (\<lambda>p. fst p = i) (p # ps)))) =
      (\<Sum>i<k. (if i = fst p then {#snd p#} else {#}) + mset (map snd (filter (\<lambda>p. fst p = i) ps)))"
    by (rule sum.cong) auto
  also have "\<dots> = {#snd p#} + (\<Sum>i<k. mset (map snd (filter (\<lambda>p. fst p = i) ps)))"
  proof -
    have "(\<Sum>i<k. if i = fst p then {#snd p#} else 0) = {#snd p#}" by (subst sum.delta) (use Cons.prems in simp_all)
    then show ?thesis by (simp add: sum.distrib)
  qed
  finally show ?case using Cons by simp
qed simp

text \<open>A server on whose connections the clients have delivered everything has queued what their ranges determine.\<close>

record ClientRun =
  cr_config :: GpuConfig
  cr_memory :: "Result list list"
  cr_start :: u64
  cr_events :: "ClientEvent list"

definition client_candidates :: "bool \<Rightarrow> ClientRun \<Rightarrow> Candidate list" where
  "client_candidates origin r = candidates_from (cr_config r) origin (cr_start r) (client_takes (cr_events r) * 2 ^ 28)"

text \<open>The client has come to rest, and the connection has delivered all it wrote; the positions are 32-bit integers.\<close>

definition client_served :: "bool \<Rightarrow> bool \<Rightarrow> ConnectionEvent list \<Rightarrow> ClientRun \<Rightarrow> bool" where
  "client_served l origin events r \<longleftrightarrow>
     large (cr_config r) = l \<and> sched_ok (cr_config r) \<and> memory_fits (cr_memory r) \<and> list_all in_int32 (client_candidates origin r) \<and>
     (case client_run (cr_config r) origin (cr_events r) (client_start (cr_config r) origin (cr_memory r) (cr_start r)) of
        None \<Rightarrow> False
      | Some c \<Rightarrow> client_rests c \<and> delivered events = Some (cm_stream c))"

lemma served_connection:
  assumes "server_run l es server_start = Some s" "arrays_fit es" "client_served l origin (events_of i es) r"
  shows "mset (map snd (filter (\<lambda>p. fst p = i) (sv_pushed s))) = mset (client_candidates origin r)"
proof -
  obtain c where c: "client_run (cr_config r) origin (cr_events r) (client_start (cr_config r) origin (cr_memory r) (cr_start r)) = Some c"
      "client_rests c" "delivered (events_of i es) = Some (cm_stream c)" "sched_ok (cr_config r)" "memory_fits (cr_memory r)" "large (cr_config r) = l"
      "list_all in_int32 (client_candidates origin r)"
    using assms(3) by (auto simp: client_served_def split: option.splits)
  have w: "cm_stream c = client_stream l (cm_queues c)" "mset (concat (cm_queues c)) = mset (client_candidates origin r)"
    using client_writes_finds [OF c(4,5,1,2)] c(6) by (simp_all add: client_candidates_def)
  have "\<forall>x\<in>set (concat (cm_queues c)). in_int32 x" using c(7) mset_eq_setD [OF w(2)] by (simp only: list_all_iff)
  then have v: "list_all (list_all in_int32) (cm_queues c)" by (simp add: list_all_iff)
  obtain arr pending_arr first reads ending where f: "events_of i es = [Accepted arr pending_arr, Handshake_read first] @ map Some_read reads @ ending"
      "ending = [] \<or> ending = [Read_error]" "first = take 16 (cm_stream c)" "concat reads = drop 16 (cm_stream c)"
    using delivered_form [OF c(3)] by blast
  let ?n = "length (cm_stream c)"
  have all: "take ?n (client_stream l (cm_queues c)) = cm_stream c" by (simp add: w(1))
  have "map snd (filter (\<lambda>p. fst p = i) (sv_pushed s)) = take ((?n - 16) div 16) (concat (cm_queues c))"
    using connection_entries [OF assms(1,2) f(1,2) _ _ v, of ?n] f(3,4) unfolding all by blast
  moreover have "?n = 16 + length (concat (cm_queues c)) * 16"
    unfolding w(1) client_stream_split length_append net_handshake_16 net.length_records sizeof_GpuOutput_def ..
  ultimately show ?thesis using w(2) by simp
qed

lemma server_run_pushed:
  assumes "server_run l es server_start = Some s"
  shows "\<forall>p\<in>set (sv_pushed s). fst p < length (sv_connections s)"
proof -
  have "\<forall>p\<in>set (sv_pushed s). fst p < length (sv_connections s) \<Longrightarrow> server_run l es s = Some t \<Longrightarrow>
      \<forall>p\<in>set (sv_pushed t). fst p < length (sv_connections t)" for s t
  proof (induction es arbitrary: s)
    case (Cons e es)
    then obtain s1 where s1: "server_step l e s = Some s1" "server_run l es s1 = Some t" by (auto simp: bind_Some)
    have "\<forall>p\<in>set (sv_pushed s1). fst p < length (sv_connections s1)"
    proof (cases e)
      case (On i ev)
      then obtain outs c where c: "i \<le> length (sv_connections s)"
          "s1 = s\<lparr>sv_connections := set_connection i c (sv_connections s), sv_pushed := sv_pushed s @ map (Pair i) outs\<rparr>"
        using s1(1) by (auto split: if_splits)
      have "length (sv_connections s) \<le> length (set_connection i c (sv_connections s)) \<and> i < length (set_connection i c (sv_connections s))"
        using c(1) by (simp add: set_connection_def)
      then show ?thesis using Cons.prems(1) by (auto simp: c(2) dest!: bspec)
    qed (use s1(1) Cons.prems(1) in simp)
    then show ?case using Cons.IH s1(2) by blast
  qed simp
  from this [OF _ assms] show ?thesis by (simp add: server_start_def)
qed

section \<open>Properties\<close>


text \<open>Two clients that have connected and found nothing yet.\<close>

definition sample_client :: ClientRun where
  "sample_client = \<lparr>cr_config = sample_config, cr_memory = sample_memory, cr_start = 7, cr_events = [Client_thread]\<rparr>"

definition two_handshakes :: "ServerEvent list" where
  "two_handshakes =
     [On 0 (Accepted (replicate 16 0) (replicate 1024 0)), On 1 (Accepted (replicate 16 7) (replicate 1024 7)),
      On 1 (Handshake_read (net_handshake False)), On 0 (Handshake_read (net_handshake False))]"

lemma sample_client_served: "i < 2 \<Longrightarrow> client_served False origin (events_of i two_handshakes) sample_client"
proof -
  assume "i < 2"
  have l: "large sample_config = False" by (simp add: sample_config_def)
  have c: "client_candidates origin sample_client = []"
    by (simp add: client_candidates_def sample_client_def candidates_from_def List.map_filter_def)
  have "client_run sample_config origin [Client_thread] (client_start sample_config origin sample_memory 7) =
      Some ((client_start sample_config origin sample_memory 7)\<lparr>cm_queues := [[]]\<rparr>)"
    by (simp add: client_start_def search_start_def host_start_def client_round_def Let_def)
  moreover have "client_rests ((client_start sample_config origin sample_memory 7)\<lparr>cm_queues := [[]]\<rparr>)"
    by (simp add: client_rests_def client_start_def search_start_def host_start_def list_all_iff)
  moreover have "delivered (events_of i two_handshakes) = Some (net_handshake False)"
    using \<open>i < 2\<close> net_handshake_16 [of False] by (auto simp: two_handshakes_def less_2_cases_iff)
  ultimately show ?thesis using sample_fits c
    by (simp add: client_served_def sample_client_def l client_start_def)
qed


end
