(* ===== verification/Spec2Isabelle.thy ===== *)
theory Spec2Isabelle
  imports JavaRandom Xoroshiro WorldgenRandom CubRng Noise GpuBuffers GpuFilters GpuGradVecs GpuInit GpuPipeline GpuReport
    Flood Voronoi CpuMeasure CpuProcess Decimal HostArgs HostSystem NetStream UploadRequest SizeCheck Centers BiomeSample
    ClimateTree ClimateLimit TerrainSpline SplineBound ClimateSeed MonteCarlo ClimateWorld BiomeMap Renderer Search
    BetaNoise NetServer OriginSearch ClientSearch
begin

text \<open>
  A model of Draffmission, a program that searches Minecraft world seeds for large mushroom islands, and
  of the parts of the cubiomes library it rests on, with the theorems that make it correct.

  The program. Threads on the host drive one GPU each (\<open>GpuThread::run\<close> in \<open>src/src/gpu.cu\<close>): a chain of
  kernels prefilters consecutive seeds, initialises noise tables, proposes positions from the permutation
  tables and samples the continentalness noise around them with ever finer grids; what survives is a
  candidate, a seed with a position. Candidates go through a shared queue, or over a TCP connection
  (\<open>src/src/client.cpp\<close>, \<open>src/src/server.cpp\<close>), to CPU threads (\<open>src/src/cpu.cpp\<close>), which repeat the
  checks with cubiomes' generator, locate the island and measure its exact area in blocks. The main thread
  (\<open>src/src/main.cpp\<close>) writes each find once to a file and hands it to an uploader
  (\<open>src/src/uploader.cpp\<close>). In origin mode only islands that contain the origin are searched.

  The theories, from the bottom up, with what their lemmas show:
  \<^item> \<open>Prelude\<close>: word types, shared lemmas, the named collections of simplification rules.
  \<^item> \<open>JavaRandom\<close>, \<open>Xoroshiro\<close>, \<open>WorldgenRandom\<close> (\<open>src/src/Random.h\<close>): the generators. Jumps equal
    iterated steps, bounded draws return for every bound they can and are unbiased, seeding is injective.
    The locales \<open>bit_source\<close> and \<open>recurrent_bit_source\<close> are what \<open>WorldgenRandom<R>\<close> needs of \<open>R\<close>, interpreted
    on both generators.
  \<^item> \<open>CubRng\<close> (\<open>src/cubiomes/rng.h\<close>): cubiomes' generators, related to those of \<open>Random.h\<close>.
  \<^item> \<open>Noise\<close> (\<open>src/src/gpu.cu\<close>, \<open>src/cubiomes/noise.c\<close>, \<open>src/src/cubiomes.c\<close>): Perlin noise of the kernels
    and of cubiomes. Samplers, initialisation and octave tables agree; samples are bounded and periodic.
    \<open>BetaNoise\<close>: cubiomes' samplers for Beta 1.7, whose shortcut is exact but whose reads leave the table.
  \<^item> \<open>GpuBuffers\<close>: device buffers and the order of blocks and atomic appends, which the model quantifies
    over. \<open>GpuFilters\<close>, \<open>GpuGradVecs\<close>: the filter kernels equal direct definitions without warps, caches,
    early exits and sliding windows. \<open>GpuInit\<close>: the state machine of the late initialisation.
    \<open>GpuPipeline\<close>: an iteration pushes exactly what a chain of pure functions of each seed selects, and it
    returns whenever the buffers hold the results (\<open>settles\<close> is the rule for steps that may fail).
    \<open>GpuReport\<close>: the statistics and the aggregator as an inductive step relation. \<open>GpuLoop\<close>: the loop around
    the iteration and what its snapshots count (all in \<open>src/src/gpu.cu\<close>).
  \<^item> \<open>Flood\<close>, \<open>Voronoi\<close>, \<open>CpuMeasure\<close>, \<open>CpuProcess\<close> (\<open>src/src/cpu.cpp\<close>, \<open>src/cubiomes/biomenoise.c\<close>,
    \<open>src/cubiomes/layers.c\<close>): the measurement returns the largest connected region of mushroom blocks, the
    zoom is the nearest of the jittered cells, its key is SHA-256 of the seed, accepted candidates are islands.
  \<^item> \<open>Centers\<close>, \<open>BiomeSample\<close> (\<open>src/src/cubiomes.c\<close>, \<open>src/cubiomes/finders.c\<close>,
    \<open>src/cubiomes/biomenoise.c\<close>): the search for biome centres overlooks no large region, and the biome of a
    cell, over an environment of the parts below.
  \<^item> \<open>ClimateSeed\<close>, \<open>TerrainSpline\<close>, \<open>ClimateTree\<close>, \<open>MonteCarlo\<close> (\<open>src/cubiomes/biomenoise.c\<close>,
    \<open>src/cubiomes/finders.c\<close>): the noises of a seed, of which the kernels' tables are a part; the nested
    splines, which fit their stacks and interpolate; the pruned search from a climate to its biome, which is the
    search for the nearest leaf; the estimate over cells in random order.
  \<^item> \<open>SplineBound\<close>, \<open>ClimateLimit\<close>, \<open>ClimateWorld\<close>: all of it put together as \<open>src/src/cubiomes.c\<close> does.
    Bounds of noises and spline show that every climate fits the 64-bit arithmetic of the search, a finite
    check of the tree shows that the early exit of the measurement's sampler loses nothing, and origin mode
    accepts exactly the islands at the origin, for every seed.
  \<^item> \<open>BiomeMap\<close>, \<open>Renderer\<close> (\<open>src/cubiomes/generator.c\<close>, \<open>src/seedviewer/renderer\<close>,
    \<open>src/seedviewer/wasm\<close>): maps of biomes in a buffer that suffices, and the images made from them, with the
    pixels that are never written and those that show the wrong cell.
  \<^item> \<open>Decimal\<close>, \<open>HostArgs\<close>, \<open>SizeCheck\<close>, \<open>UploadRequest\<close>, \<open>NetStream\<close>: text and bytes. The command line
    and its round trip, the stand-alone size checker, the path of an upload, the record stream between hosts
    (locale \<open>record_codec\<close>). \<open>NetServer\<close>: the server with all its connections, which do not disturb one another.
  \<^item> \<open>HostSystem\<close>: the threads of the host over their queues as a step relation; nothing is lost or written
    twice (locale \<open>ledger\<close>, used for finds and for uploads), work is bounded and can always be finished,
    and everything written was checked (locale \<open>candidate_check\<close>, used for both modes).

  \<^item> \<open>Search\<close>: GPU threads and host threads together, from the start seed to the lines of the file: a search at
    rest has found exactly what the seeds of its ranges determine, and it can come to rest from every state.
    \<open>OriginSearch\<close> joins it with \<open>ClimateWorld\<close>: which seeds and sizes origin mode writes, in terms of the worlds.
    \<open>ClientSearch\<close>: any number of clients and their server find together what all their ranges determine.

  How the code is read.
  \<^item> Unsigned integers are words and wrap. Signed ones, whose overflow would be undefined, are \<open>int\<close>; the
    theorems that need a range state it.
  \<^item> Floating-point numbers are exact rationals, so an equality of two samplers says that they evaluate the same
    expression; where a cast to \<open>float\<close> or to an integer decides something it is a parameter \<open>f32\<close> or
    written out (\<open>c_int\<close>).
  \<^item> Loops that need not end (rejection loops of random draws) return \<open>option\<close>, and there are theorems about
    when they return: for every bound, or for all but a vanishing fraction of states. All other loops are
    functions that end, with the measure in the definition; no fuel is used except where the code itself
    counts.
  \<^item> Concurrency: the order in which blocks run and append is an argument and theorems hold for every order;
    host threads are events between two operations on a mutex, in any order the mutexes allow.
  \<^item> Errors are values: \<open>option\<close> or a sum with the message that is printed.

  Parameters: the trained weights of the gradient filters (\<open>src/src/kernel_0A.h\<close>, \<open>src/src/kernel_0B.h\<close>),
  the answers of sockets, files and the CUDA runtime, the tables of the search trees (\<open>src/cubiomes/tables\<close>,
  generated data; \<open>tables_ok\<close> is what the theorems ask of them and can be computed from a table), rounding to
  \<open>float\<close> (\<open>nearest32\<close>), and \<open>sqrt\<close>, \<open>exp\<close>, \<open>erf\<close> of the C library (the square root of three alone for the simplex noise).

  Not modelled: the transport under the network link (asio), CUDA allocation and error checks, report
  formatting, the viewer's service and pages (Python and TypeScript in \<open>src/seedviewer\<close>), the rest of cubiomes (structures, quad bases,
  other dimensions, older versions), none of which the search calls.
\<close>

end
